(* ===== verification/Prelude.thy ===== *)
theory Prelude
  imports Main "HOL-Library.Word"
begin

text \<open>
  Shared vocabulary of the development: the machine integer types of the C++ sources, the
  big-endian byte accessors that every wire codec of the program spells out inline, the loop
  that reads a counted sequence of items from a buffer, and the interface \<open>item_codec\<close> under
  which the codecs of the components are proved to be exact inverses of their parsers.
\<close>

unbundle bit_operations_syntax

section \<open>Machine types\<close>

type_synonym u8 = "8 word"
type_synonym u16 = "16 word"
type_synonym u32 = "32 word"
type_synonym u64 = "64 word"
type_synonym bytes = "8 word list"

named_theorems wire \<open>lengths and round trips of the byte codecs\<close>

section \<open>Byte access\<close>

text \<open>
  \<^verbatim>\<open>static_cast<std::uint8_t>((x >> (8 * k)) & 0xFF)\<close> and the inverse reads
  \<^verbatim>\<open>(uint32_t(p[0]) << 24) | (uint32_t(p[1]) << 16) | ...\<close>.
\<close>

definition byte_at :: "nat \<Rightarrow> 'a::len word \<Rightarrow> u8" where
  "byte_at k x = ucast (drop_bit (8 * k) x AND 0xFF)"

definition be16 :: "'a::len word \<Rightarrow> bytes" where
  "be16 x = [byte_at 1 x, byte_at 0 x]"

definition be32 :: "u32 \<Rightarrow> bytes" where
  "be32 x = [byte_at 3 x, byte_at 2 x, byte_at 1 x, byte_at 0 x]"

definition be64 :: "u64 \<Rightarrow> bytes" where
  "be64 x = [byte_at 7 x, byte_at 6 x, byte_at 5 x, byte_at 4 x,
             byte_at 3 x, byte_at 2 x, byte_at 1 x, byte_at 0 x]"

definition rd32 :: "bytes \<Rightarrow> u32" where
  "rd32 p = push_bit 24 (ucast (p ! 0)) OR push_bit 16 (ucast (p ! 1)) OR
            push_bit 8 (ucast (p ! 2)) OR ucast (p ! 3)"

text \<open>The accumulating read \<^verbatim>\<open>n = (n << 8) | buf[i]\<close> over consecutive bytes.\<close>

definition rd64 :: "bytes \<Rightarrow> u64" where
  "rd64 p = foldl (\<lambda>n b. push_bit 8 n OR ucast b) 0 (take 8 p)"

lemma length_be [simp, wire]:
  "length (be16 x) = 2" "length (be32 y) = 4" "length (be64 z) = 8"
  by (simp_all add: be16_def be32_def be64_def)

lemma mask_FF: "(0xFF :: 'a::len word) = mask 8"
  by (simp add: mask_eq_exp_minus_1)

lemma mask_FFFFFFFF: "(0xFFFFFFFF :: 'a::len word) = mask 32"
  by (simp add: mask_eq_exp_minus_1)

lemma not_bit_byte: "8 \<le> n \<Longrightarrow> \<not> bit (w :: u8) n"
  using bit_imp_le_length [of w n] by auto

lemma bit_byte_at: "bit (byte_at k x) n \<longleftrightarrow> n < 8 \<and> bit x (8 * k + n)"
  by (auto simp: byte_at_def mask_FF bit_simps dest: bit_imp_le_length)

lemma rd32_be32 [simp, wire]: "rd32 (be32 x @ r) = x"
proof (rule bit_word_eqI)
  fix n assume "n < LENGTH(32)"
  then consider "n < 8" | "8 \<le> n \<and> n < 16" | "16 \<le> n \<and> n < 24" | "24 \<le> n \<and> n < 32"
    by fastforce
  then show "bit (rd32 (be32 x @ r)) n = bit x n"
    by cases (auto simp: rd32_def be32_def bit_byte_at bit_simps numeral_2_eq_2 numeral_3_eq_3)
qed

lemma be32_rd32_bytes: "be32 (rd32 (a # b # c # d # r)) = [a, b, c, d]"
  by (auto simp: be32_def rd32_def intro!: bit_word_eqI)
     (auto simp: bit_byte_at bit_simps numeral_2_eq_2 numeral_3_eq_3 not_bit_byte)

lemma be32_rd32 [wire]: "4 \<le> length p \<Longrightarrow> be32 (rd32 p) @ drop 4 p = p"
proof -
  assume "4 \<le> length p"
  then obtain a b c d r where "p = a # b # c # d # r"
    by (auto simp: numeral_eq_Suc Suc_le_length_iff)
  then show ?thesis by (simp add: be32_rd32_bytes)
qed

lemma be16_value:
  "push_bit 8 (ucast (byte_at 1 x)) OR ucast (byte_at 0 x) = take_bit 16 (x :: 'a::len word)"
proof (rule bit_word_eqI)
  fix n assume "n < LENGTH('a)"
  consider "n < 8" | "8 \<le> n \<and> n < 16" | "16 \<le> n" by fastforce
  then show "bit (push_bit 8 (ucast (byte_at 1 x)) OR ucast (byte_at 0 x) :: 'a word) n = bit (take_bit 16 x) n"
    by cases (use \<open>n < LENGTH('a)\<close> in \<open>auto simp: bit_byte_at bit_simps\<close>)
qed

text \<open>One step of the accumulating read: the bytes read so far are the high part of the value.\<close>

lemma accumulate_byte:
  "push_bit 8 (drop_bit (8 * k + 8) x) OR ucast (byte_at k x) = drop_bit (8 * k) (x :: u64)"
proof (rule bit_word_eqI)
  fix n assume "n < LENGTH(64)"
  then show "bit (push_bit 8 (drop_bit (8 * k + 8) x) OR ucast (byte_at k x)) n =
             bit (drop_bit (8 * k) x) n"
    by (cases "n < 8") (simp_all add: bit_byte_at bit_simps)
qed

lemma accumulate_bytes:
  "foldl (\<lambda>n b. push_bit 8 n OR ucast b) (drop_bit (8 * k) x)
     (map (\<lambda>i. byte_at i x) (rev [0..<k])) = (x :: u64)"
proof (induction k)
  case (Suc k)
  then show ?case using accumulate_byte [of k x] by (simp add: add.commute)
qed simp

lemma rd64_be64 [simp, wire]: "rd64 (be64 x @ r) = x"
proof -
  have "be64 x = map (\<lambda>i. byte_at i x) (rev [0..<8])"
    by (simp add: be64_def upt_rec numeral_eq_Suc)
  moreover have "drop_bit 64 x = 0"
    by (rule bit_word_eqI) (simp add: bit_simps)
  ultimately show ?thesis
    using accumulate_bytes [of 8 x] by (simp add: rd64_def)
qed

lemma unat_byte_le: "unat (b :: u8) \<le> 255"
  using unsigned_less [of b, where 'a = nat] by simp

lemma unat_of_nat_byte: "n \<le> 255 \<Longrightarrow> unat (of_nat n :: u8) = n"
  by (simp add: unat_of_nat take_bit_nat_eq_self)

text \<open>A counter below a bound does not wrap.\<close>

lemma unat_Suc_below: "ip < (b :: u32) \<Longrightarrow> unat (ip + 1) = Suc (unat ip)"
  using unsigned_less [of b, where 'a = nat] by (simp add: word_less_nat_alt unat_word_ariths)

lemma Suc_le_below: "ip < (b :: u32) \<Longrightarrow> ip + 1 \<le> b"
  using unat_Suc_below [of ip b] by (simp add: word_le_nat_alt word_less_nat_alt)

text \<open>The sign of a 32-bit value.\<close>

lemma sint_negative: "sint (w :: u32) < 0 \<longleftrightarrow> 2 ^ 31 \<le> unat w"
proof -
  have "uint w = sint w mod 4294967296" using uint_sint [of w] by (simp add: take_bit_eq_mod)
  then have n: "int (unat w) = sint w mod 4294967296" by (simp only: uint_nat)
  have b: "- 2147483648 \<le> sint w" "sint w < 2147483648" using sint_ge [of w] sint_lt [of w] by simp_all
  have "sint w < 0 \<longleftrightarrow> 2147483648 \<le> int (unat w)"
  proof (cases "sint w < 0")
    case True
    have "sint w mod 4294967296 = (sint w + 4294967296) mod 4294967296" by simp
    also have "\<dots> = sint w + 4294967296" using True b by (intro mod_pos_pos_trivial) linarith+
    finally show ?thesis using True n b by linarith
  next
    case False
    then have "sint w mod 4294967296 = sint w" using b by (intro mod_pos_pos_trivial) linarith+
    then show ?thesis using False n b by linarith
  qed
  also have "\<dots> \<longleftrightarrow> 2147483648 \<le> unat w" by linarith
  finally show ?thesis by (simp only: power_numeral) simp
qed

section \<open>Counted sequences of items\<close>

text \<open>
  The counted loops of the parsers: read one item, advance, fail as a whole when one item
  fails.
\<close>

fun read_items :: "(bytes \<Rightarrow> ('a \<times> bytes) option) \<Rightarrow> nat \<Rightarrow> bytes \<Rightarrow> ('a list \<times> bytes) option" where
  "read_items rd 0 p = Some ([], p)"
| "read_items rd (Suc n) p =
     (case rd p of None \<Rightarrow> None
      | Some (x, p') \<Rightarrow>
          (case read_items rd n p' of None \<Rightarrow> None
           | Some (xs, p'') \<Rightarrow> Some (x # xs, p'')))"

text \<open>
  The contract of one item: the reader inverts the writer on admissible values and accepts
  nothing else. A counted sequence inherits both directions.
\<close>

locale item_codec =
  fixes enc :: "'a \<Rightarrow> bytes"
    and rd :: "bytes \<Rightarrow> ('a \<times> bytes) option"
    and ok :: "'a \<Rightarrow> bool"
  assumes rd_enc: "ok x \<Longrightarrow> rd (enc x @ r) = Some (x, r)"
    and enc_rd: "rd p = Some (x, r) \<Longrightarrow> ok x \<and> p = enc x @ r"
begin

lemma read_items_enc:
  "list_all ok xs \<Longrightarrow> read_items rd (length xs) (concat (map enc xs) @ r) = Some (xs, r)"
  by (induction xs) (simp_all add: rd_enc)

lemma read_items_inv:
  "read_items rd n p = Some (xs, r) \<Longrightarrow>
     length xs = n \<and> list_all ok xs \<and> p = concat (map enc xs) @ r"
proof (induction n arbitrary: p xs)
  case 0
  then show ?case by simp
next
  case (Suc n)
  then obtain x p' ys where "rd p = Some (x, p')" and "read_items rd n p' = Some (ys, r)"
    and "xs = x # ys"
    by (auto split: option.splits)
  then show ?case using enc_rd [of p x p'] Suc.IH [of p' ys] by auto
qed

lemma read_items_iff:
  "read_items rd n p = Some (xs, r) \<longleftrightarrow>
     length xs = n \<and> list_all ok xs \<and> p = concat (map enc xs) @ r"
  using read_items_inv read_items_enc by blast

end

section \<open>Machines\<close>

text \<open>
  A component that is driven by a sequence of calls: every call keeps the invariant, so every state
  the component can reach has it.
\<close>

locale guarded_machine =
  fixes init :: 's
    and step :: "'op \<Rightarrow> 's \<Rightarrow> 's"
    and inv :: "'s \<Rightarrow> bool"
  assumes init_inv: "inv init"
    and step_inv: "inv s \<Longrightarrow> inv (step op s)"
begin

lemma run_from_inv: "inv s \<Longrightarrow> inv (fold step ops s)"
  by (induction ops arbitrary: s) (simp_all add: step_inv)

lemma run_inv: "inv (fold step ops init)"
  by (rule run_from_inv [OF init_inv])

end

text \<open>
  The same with results: a program whose calls return values implements an abstract one when the
  abstraction of its state follows the abstract calls and every call returns what the abstract one does.
\<close>

fun run_calls :: "('op \<Rightarrow> 's \<Rightarrow> 'r \<times> 's) \<Rightarrow> 's \<Rightarrow> 'op list \<Rightarrow> 'r list \<times> 's" where
  "run_calls step s [] = ([], s)"
| "run_calls step s (op # ops) =
     (let (r, s') = step op s; (rs, s'') = run_calls step s' ops in (r # rs, s''))"

locale implementation =
  fixes cinit :: 's and cstep :: "'op \<Rightarrow> 's \<Rightarrow> 'r \<times> 's"
    and ainit :: 'a and astep :: "'op \<Rightarrow> 'a \<Rightarrow> 'r \<times> 'a"
    and inv :: "'s \<Rightarrow> bool" and abs :: "'s \<Rightarrow> 'a"
  assumes init_inv: "inv cinit"
    and init_abs: "abs cinit = ainit"
    and step_inv: "inv s \<Longrightarrow> inv (snd (cstep op s))"
    and step_abs: "inv s \<Longrightarrow> map_prod id abs (cstep op s) = astep op (abs s)"
begin

lemma run_from:
  "inv s \<Longrightarrow> inv (snd (run_calls cstep s ops)) \<and>
     map_prod id abs (run_calls cstep s ops) = run_calls astep (abs s) ops"
proof (induction ops arbitrary: s)
  case (Cons op ops)
  obtain r s' where s': "cstep op s = (r, s')"
    by (cases "cstep op s")
  have next_step: "inv s'" "astep op (abs s) = (r, abs s')"
    using step_inv [OF Cons.prems, of op] step_abs [OF Cons.prems, of op] by (simp_all add: s')
  show ?case
    using Cons.IH [OF next_step(1)]
    by (simp add: s' next_step(2) split: prod.splits) auto
qed simp

lemma run_implements:
  "inv (snd (run_calls cstep cinit ops))"
  "fst (run_calls cstep cinit ops) = fst (run_calls astep ainit ops)"
  "abs (snd (run_calls cstep cinit ops)) = snd (run_calls astep ainit ops)"
  using run_from [OF init_inv, of ops] init_abs by (metis fst_map_prod snd_map_prod id_apply)+

end

section \<open>Lists\<close>

lemma list_all_nthI: "(\<And>i. i < length xs \<Longrightarrow> P (xs ! i)) \<Longrightarrow> list_all P xs"
  by (simp add: list_all_length)

end
