(* ===== verification/Replay_Window.thy ===== *)
theory Replay_Window
  imports Prelude
begin

text \<open>
  The anti-replay window of a P2P channel, \<^verbatim>\<open>P2PReplayWindow\<close> of
  \<^verbatim>\<open>ppp/p2p/P2PReplayWindow.h\<close>: a 1024-bit bitmap over the extended sequence numbers
  \<open>base - 1023 .. base\<close>, addressed by 32-bit wire sequence numbers. The abstract window keeps
  the set of all extended sequence numbers ever accepted; the bitmap refines it.
\<close>

section \<open>The window as the code has it\<close>

definition REPLAY_BITMAP_SIZE :: nat where
  "REPLAY_BITMAP_SIZE = 128"

definition REPLAY_WINDOW_SIZE :: nat where
  "REPLAY_WINDOW_SIZE = REPLAY_BITMAP_SIZE * 8"

definition SequenceHalfRange :: u32 where
  "SequenceHalfRange = 0x80000000"

record replay_window =
  rw_base :: u64
  rw_bitmap :: bytes
  rw_initialized :: bool

text \<open>Default member initialisers, and \<^verbatim>\<open>Reset\<close>, which restores them.\<close>

definition rw_init :: replay_window where
  "rw_init = \<lparr>rw_base = 0, rw_bitmap = replicate REPLAY_BITMAP_SIZE 0, rw_initialized = False\<rparr>"

definition rw_Reset :: "replay_window \<Rightarrow> replay_window" where
  "rw_Reset w = w\<lparr>rw_base := 0, rw_bitmap := replicate (length (rw_bitmap w)) 0,
                  rw_initialized := False\<rparr>"

definition IsDuplicate :: "replay_window \<Rightarrow> u32 \<Rightarrow> bool" where
  "IsDuplicate w seq =
     (if \<not> rw_initialized w then False
      else let base_seq = ucast (rw_base w); forward = seq - base_seq in
        if forward \<noteq> 0 \<and> forward < SequenceHalfRange then False
        else let delta = unat (base_seq - seq) in
          if delta \<ge> REPLAY_WINDOW_SIZE then True
          else let byte_idx = delta div 8; bit_idx = delta mod 8 in
            rw_bitmap w ! byte_idx AND push_bit bit_idx 1 \<noteq> 0)"

text \<open>
  \<^verbatim>\<open>ShiftBitmapLeft\<close>: the byte loop from the top, the clearing loop, then the bit loop with
  its carry.
\<close>

fun move_bytes :: "nat \<Rightarrow> nat \<Rightarrow> bytes \<Rightarrow> bytes" where
  "move_bytes whole_bytes i bm =
     (if i < whole_bytes \<or> i = 0 then bm
      else move_bytes whole_bytes (i - 1) (bm[i := bm ! (i - whole_bytes)]))"

fun clear_bytes :: "nat \<Rightarrow> nat \<Rightarrow> bytes \<Rightarrow> bytes" where
  "clear_bytes 0 i bm = bm"
| "clear_bytes (Suc n) i bm = clear_bytes n (Suc i) (bm[i := 0])"

fun carry_bits :: "nat \<Rightarrow> u8 \<Rightarrow> bytes \<Rightarrow> bytes" where
  "carry_bits extra_bits carry [] = []"
| "carry_bits extra_bits carry (b # bm) =
     (let new_carry = drop_bit (8 - extra_bits) b in
      (push_bit extra_bits b OR carry) # carry_bits extra_bits new_carry bm)"

definition ShiftBitmapLeft :: "nat \<Rightarrow> bytes \<Rightarrow> bytes" where
  "ShiftBitmapLeft n bm =
     (if n = 0 then bm
      else if n \<ge> REPLAY_WINDOW_SIZE then replicate (length bm) 0
      else let whole_bytes = n div 8; extra_bits = n mod 8;
               bm1 = (if whole_bytes > 0
                      then clear_bytes (min whole_bytes REPLAY_BITMAP_SIZE) 0
                             (move_bytes whole_bytes (REPLAY_BITMAP_SIZE - 1) bm)
                      else bm)
           in if extra_bits > 0 then carry_bits extra_bits 0 bm1 else bm1)"

definition Accept :: "replay_window \<Rightarrow> u32 \<Rightarrow> bool \<times> replay_window" where
  "Accept w seq =
     (if \<not> rw_initialized w then
        (True, w\<lparr>rw_base := ucast seq, rw_bitmap := (rw_bitmap w)[0 := 1], rw_initialized := True\<rparr>)
      else let base_seq = ucast (rw_base w); forward = seq - base_seq in
        if forward \<noteq> 0 \<and> forward < SequenceHalfRange then
          let shift = unat forward;
              bm = (if shift \<ge> REPLAY_WINDOW_SIZE then replicate (length (rw_bitmap w)) 0
                    else ShiftBitmapLeft shift (rw_bitmap w))
          in (True, w\<lparr>rw_base := rw_base w + of_nat shift, rw_bitmap := bm[0 := bm ! 0 OR 1]\<rparr>)
        else let delta = unat (base_seq - seq) in
          if delta \<ge> REPLAY_WINDOW_SIZE then (False, w)
          else let byte_idx = delta div 8; mask = push_bit (delta mod 8) 1 in
            if rw_bitmap w ! byte_idx AND mask \<noteq> 0 then (False, w)
            else (True, w\<lparr>rw_bitmap := (rw_bitmap w)[byte_idx := rw_bitmap w ! byte_idx OR mask]\<rparr>))"

section \<open>The abstract window\<close>

text \<open>
  \<open>extend_seq B s\<close> is the integer congruent to the wire number \<open>s\<close> modulo \<open>2\<^sup>3\<^sup>2\<close> that is nearest to
  \<open>B\<close>: the one in \<open>B - 2\<^sup>3\<^sup>1 \<le> e < B + 2\<^sup>3\<^sup>1\<close>. The abstract window never forgets.
\<close>

definition extend_seq :: "int \<Rightarrow> u32 \<Rightarrow> int" where
  "extend_seq B s = B + ((uint s - B + 2 ^ 31) mod 2 ^ 32 - 2 ^ 31)"

record abs_window =
  aw_base :: int
  aw_seen :: "int set"
  aw_init :: bool

definition abs_init :: abs_window where
  "abs_init = \<lparr>aw_base = 0, aw_seen = {}, aw_init = False\<rparr>"

definition abs_accept :: "abs_window \<Rightarrow> u32 \<Rightarrow> bool \<times> abs_window" where
  "abs_accept a s =
     (if \<not> aw_init a then (True, a\<lparr>aw_base := uint s, aw_seen := {uint s}, aw_init := True\<rparr>)
      else let e = extend_seq (aw_base a) s in
        if e > aw_base a then (True, a\<lparr>aw_base := e, aw_seen := insert e (aw_seen a)\<rparr>)
        else if aw_base a - e \<ge> int REPLAY_WINDOW_SIZE \<or> e \<in> aw_seen a then (False, a)
        else (True, a\<lparr>aw_seen := insert e (aw_seen a)\<rparr>))"

definition window_bit :: "bytes \<Rightarrow> nat \<Rightarrow> bool" where
  "window_bit bm d = bit (bm ! (d div 8)) (d mod 8)"

definition window_rel :: "replay_window \<Rightarrow> abs_window \<Rightarrow> bool" where
  "window_rel w a \<longleftrightarrow>
     length (rw_bitmap w) = REPLAY_BITMAP_SIZE \<and> rw_initialized w = aw_init a \<and>
     (if aw_init a
      then rw_base w = of_int (aw_base a) \<and> (\<forall>e\<in>aw_seen a. e \<le> aw_base a) \<and>
           (\<forall>d<REPLAY_WINDOW_SIZE. window_bit (rw_bitmap w) d \<longleftrightarrow> aw_base a - int d \<in> aw_seen a)
      else aw_seen a = {} \<and> (\<forall>d<REPLAY_WINDOW_SIZE. \<not> window_bit (rw_bitmap w) d))"

section \<open>Shifting the bitmap\<close>

lemmas window_sizes = REPLAY_WINDOW_SIZE_def REPLAY_BITMAP_SIZE_def

lemma length_move_bytes [simp]: "length (move_bytes wb i bm) = length bm"
  by (induction wb i bm rule: move_bytes.induct) (simp add: Let_def)

lemma length_clear_bytes [simp]: "length (clear_bytes n i bm) = length bm"
  by (induction n i bm rule: clear_bytes.induct) simp_all

lemma length_carry_bits [simp]: "length (carry_bits e c bm) = length bm"
  by (induction e c bm rule: carry_bits.induct) (simp_all add: Let_def)

declare move_bytes.simps [simp del]

lemma nth_move_bytes:
  assumes "0 < wb" and "j < length bm" and "i < length bm"
  shows "move_bytes wb i bm ! j = (if wb \<le> j \<and> j \<le> i then bm ! (j - wb) else bm ! j)"
  using assms
proof (induction wb i bm rule: move_bytes.induct)
  case (1 wb i bm)
  show ?case
  proof (cases "i < wb \<or> i = 0")
    case True
    then show ?thesis using 1 by (auto simp: move_bytes.simps)
  next
    case False
    then have "move_bytes wb i bm ! j = move_bytes wb (i - 1) (bm[i := bm ! (i - wb)]) ! j"
      by (simp add: move_bytes.simps [of wb i])
    also have "\<dots> = (if wb \<le> j \<and> j \<le> i - 1 then bm[i := bm ! (i - wb)] ! (j - wb)
                   else bm[i := bm ! (i - wb)] ! j)"
      using False 1 by simp
    finally show ?thesis using False 1 by (auto simp: nth_list_update)
  qed
qed

lemma nth_clear_bytes:
  "j < length bm \<Longrightarrow> clear_bytes n i bm ! j = (if i \<le> j \<and> j < i + n then 0 else bm ! j)"
  by (induction n i bm rule: clear_bytes.induct) (auto simp: nth_list_update)

lemma window_bit_Cons:
  "window_bit (b # bm) d = (if d < 8 then bit b d else window_bit bm (d - 8))"
proof (cases "d < 8")
  case False
  then obtain k where "d = k + 8" using le_Suc_ex [of 8 d] by (auto simp: add.commute)
  moreover have "(k + 8) div 8 = Suc (k div 8)" by simp
  ultimately show ?thesis by (simp only: window_bit_def) simp
qed (simp add: window_bit_def)

lemma window_bit_carry_bits:
  assumes "0 < e" "e < 8" and "\<forall>k\<ge>e. \<not> bit c k" and "d < 8 * length bm"
  shows "window_bit (carry_bits e c bm) d = (if d < e then bit c d else window_bit bm (d - e))"
  using assms
proof (induction e c bm arbitrary: d rule: carry_bits.induct)
  case (1 e c)
  then show ?case by simp
next
  case (2 e c b bm)
  let ?nc = "drop_bit (8 - e) b"
  have nc: "\<forall>k\<ge>e. \<not> bit ?nc k"
    using 2 by (auto simp: bit_simps not_bit_byte)
  show ?case
  proof (cases "d < 8")
    case True
    then show ?thesis using 2 by (auto simp: window_bit_Cons Let_def bit_simps)
  next
    case False
    then have "window_bit (carry_bits e c (b # bm)) d = window_bit (carry_bits e ?nc bm) (d - 8)"
      by (simp add: window_bit_Cons Let_def)
    also have "\<dots> = (if d - 8 < e then bit ?nc (d - 8) else window_bit bm (d - 8 - e))"
      using 2 nc False by simp
    finally show ?thesis
      using False 2(2,3) by (auto simp: window_bit_Cons bit_simps add.commute)
  qed
qed

lemma window_bit_replicate [simp]: "d < 8 * n \<Longrightarrow> \<not> window_bit (replicate n 0) d"
  by (simp add: window_bit_def less_mult_imp_div_less mult.commute)

lemma length_ShiftBitmapLeft [simp]: "length (ShiftBitmapLeft n bm) = length bm"
  by (simp add: ShiftBitmapLeft_def Let_def)

text \<open>The byte and bit loops together shift the whole 1024-bit window by \<open>n\<close>.\<close>

lemma window_bit_ShiftBitmapLeft:
  assumes len: "length bm = REPLAY_BITMAP_SIZE" and d: "d < REPLAY_WINDOW_SIZE"
  shows "window_bit (ShiftBitmapLeft n bm) d = (n \<le> d \<and> window_bit bm (d - n))"
proof (cases "n \<ge> REPLAY_WINDOW_SIZE")
  case True
  then show ?thesis using d len by (auto simp: ShiftBitmapLeft_def window_sizes)
next
  case False
  define wb where "wb = n div 8"
  define bm1 where "bm1 = (if wb > 0 then clear_bytes (min wb REPLAY_BITMAP_SIZE) 0
                             (move_bytes wb (REPLAY_BITMAP_SIZE - 1) bm) else bm)"
  have wb: "wb < 128" using False by (simp add: wb_def window_sizes)
  have bm1: "window_bit bm1 k = (8 * wb \<le> k \<and> window_bit bm (k - 8 * wb))"
    if "k < REPLAY_WINDOW_SIZE" for k
  proof -
    have "k div 8 < 128" using that by (simp add: window_sizes)
    moreover have "(k - 8 * wb) div 8 = k div 8 - wb" "(k - 8 * wb) mod 8 = k mod 8" if "8 * wb \<le> k"
      using that by (auto simp: div_mult_self3 le_mod_geq mod_mult_self4 dest!: le_Suc_ex)
    moreover have "(8 * wb \<le> k) = (wb \<le> k div 8)" by auto
    ultimately show ?thesis
      using len wb by (auto simp: bm1_def window_bit_def nth_clear_bytes nth_move_bytes window_sizes)
  qed
  have len1: "length bm1 = REPLAY_BITMAP_SIZE" by (simp add: bm1_def len)
  have split: "n = 8 * wb + n mod 8" by (simp add: wb_def)
  have shift: "ShiftBitmapLeft n bm = (if n mod 8 > 0 then carry_bits (n mod 8) 0 bm1 else bm1)"
    using False wb by (auto simp: ShiftBitmapLeft_def Let_def bm1_def wb_def)
  show ?thesis
  proof (cases "n mod 8 = 0")
    case True
    then show ?thesis using bm1 [OF d] split shift by auto
  next
    case e: False
    have "window_bit (carry_bits (n mod 8) 0 bm1) d =
            (if d < n mod 8 then False else window_bit bm1 (d - n mod 8))"
      using window_bit_carry_bits [of "n mod 8" 0 d bm1] e d len1 by (simp add: window_sizes)
    moreover have "(\<not> d < n mod 8 \<and> 8 * wb \<le> d - n mod 8) = (n \<le> d)" "d - n mod 8 - 8 * wb = d - n"
      using split by auto
    ultimately show ?thesis
      using bm1 [of "d - n mod 8"] d shift e by auto
  qed
qed

section \<open>Refinement\<close>

lemma uint_wire_diff:
  fixes s :: u32
  shows "uint (s - ucast (of_int B :: u64)) = (uint s - B) mod 2 ^ 32"
    and "uint (ucast (of_int B :: u64) - s) = (B - uint s) mod 2 ^ 32"
proof -
  have "uint (ucast (of_int B :: u64) :: u32) = B mod 2 ^ 32"
    by (simp add: unsigned_ucast_eq unsigned_of_int take_bit_take_bit take_bit_eq_mod mod_mod_cancel)
  then show "uint (s - ucast (of_int B :: u64)) = (uint s - B) mod 2 ^ 32"
    and "uint (ucast (of_int B :: u64) - s) = (B - uint s) mod 2 ^ 32"
    by (simp_all add: uint_sub_lem uint_word_ariths mod_simps)
qed

lemma extend_seq_forward:
  fixes s :: u32 and B :: int
  defines "f \<equiv> s - ucast (of_int B :: u64)"
  shows "f \<noteq> 0 \<and> f < SequenceHalfRange \<longleftrightarrow> extend_seq B s > B"
    and "f < SequenceHalfRange \<Longrightarrow> extend_seq B s = B + int (unat f)"
    and "\<not> (f \<noteq> 0 \<and> f < SequenceHalfRange) \<Longrightarrow>
           extend_seq B s = B - int (unat (ucast (of_int B :: u64) - s))"
proof -
  define k where "k = (uint s - B) mod 2 ^ 32"
  have f: "uint f = k" by (simp add: f_def k_def uint_wire_diff)
  have g: "uint (ucast (of_int B :: u64) - s) = (if k = 0 then 0 else 2 ^ 32 - k)"
    using zmod_zminus1_eq_if [of "uint s - B" "2 ^ 32"] by (simp add: uint_wire_diff k_def)
  have k: "0 \<le> k" "k < 2 ^ 32" by (simp_all add: k_def)
  have e: "extend_seq B s = B + ((k + 2 ^ 31) mod 2 ^ 32 - 2 ^ 31)"
    by (simp add: extend_seq_def k_def mod_simps)
  have m: "(k + 2147483648) mod 4294967296 = (if k < 2147483648 then k + 2147483648 else k - 2147483648)"
  proof (cases "k < 2147483648")
    case False
    then show ?thesis using minus_mod_self2 [of "k + 2147483648" 4294967296] k by simp
  qed (use k in simp)
  have half: "f < SequenceHalfRange \<longleftrightarrow> k < 2 ^ 31" and zero: "f = 0 \<longleftrightarrow> k = 0"
    by (simp_all add: word_less_def SequenceHalfRange_def f [symmetric] uint_0_iff)
  have nat: "int (unat x) = uint x" for x :: u32 by simp
  show "f \<noteq> 0 \<and> f < SequenceHalfRange \<longleftrightarrow> extend_seq B s > B"
    using k by (auto simp: half zero e m)
  show "f < SequenceHalfRange \<Longrightarrow> extend_seq B s = B + int (unat f)"
    by (simp add: half nat f e m)
  show "\<not> (f \<noteq> 0 \<and> f < SequenceHalfRange) \<Longrightarrow>
           extend_seq B s = B - int (unat (ucast (of_int B :: u64) - s))"
    by (auto simp: half zero nat g e m)
qed

lemma test_window_bit:
  "(bm ! (d div 8) AND push_bit (d mod 8) 1 \<noteq> 0) = window_bit bm d"
  by (simp add: window_bit_def bit_iff_and_push_bit_not_eq_0)

lemma set_window_bit:
  assumes "d div 8 < length bm"
  shows "window_bit (bm[d div 8 := bm ! (d div 8) OR push_bit (d mod 8) 1]) k \<longleftrightarrow>
           k = d \<or> window_bit bm k"
proof (cases "k div 8 = d div 8")
  case True
  then have "k = d \<longleftrightarrow> k mod 8 = d mod 8" using div_mult_mod_eq [of k 8] div_mult_mod_eq [of d 8] by metis
  then show ?thesis using True assms
    by (auto simp: window_bit_def bit_simps)
next
  case False
  then show ?thesis by (auto simp: window_bit_def)
qed

lemma set_first_bit:
  assumes "0 < length bm"
  shows "window_bit (bm[0 := bm ! 0 OR 1]) k \<longleftrightarrow> k = 0 \<or> window_bit bm k"
  using set_window_bit [of 0 bm k] assms by simp

lemma window_rel_init [simp]: "window_rel rw_init abs_init"
  by (simp add: window_rel_def rw_init_def abs_init_def window_sizes)

lemma window_rel_Reset:
  "window_rel w a \<Longrightarrow> window_rel (rw_Reset w) abs_init"
  by (simp add: window_rel_def rw_Reset_def abs_init_def window_sizes)

lemma Accept_first:
  assumes "window_rel w a" and "\<not> aw_init a"
  shows "fst (Accept w s) \<and> window_rel (snd (Accept w s)) (snd (abs_accept a s))"
proof -
  have "window_bit ((rw_bitmap w)[0 := 1]) d \<longleftrightarrow> d = 0" if "d < REPLAY_WINDOW_SIZE" for d
  proof (cases "d < 8")
    case True
    then show ?thesis using assms
      by (auto simp: window_bit_def window_rel_def window_sizes bit_1_iff)
  next
    case False
    then have "d div 8 \<noteq> 0" by simp
    then have "window_bit ((rw_bitmap w)[0 := 1]) d = window_bit (rw_bitmap w) d"
      by (simp add: window_bit_def)
    then show ?thesis using False that assms by (auto simp: window_rel_def)
  qed
  then show ?thesis using assms
    by (auto simp: window_rel_def Accept_def abs_accept_def)
qed

lemma Accept_forward:
  assumes R: "window_rel w a" and i: "aw_init a" and e: "extend_seq (aw_base a) s > aw_base a"
  shows "fst (Accept w s) \<and> window_rel (snd (Accept w s)) (snd (abs_accept a s))"
proof -
  define B where "B = aw_base a"
  define f where "f = s - ucast (of_int B :: u64)"
  define bm where "bm = (if unat f \<ge> REPLAY_WINDOW_SIZE then replicate (length (rw_bitmap w)) 0
                         else ShiftBitmapLeft (unat f) (rw_bitmap w))"
  have base: "rw_base w = of_int B" and len: "length (rw_bitmap w) = REPLAY_BITMAP_SIZE"
    and init: "rw_initialized w" and le: "\<forall>e\<in>aw_seen a. e \<le> B"
    and bits: "\<forall>d<REPLAY_WINDOW_SIZE. window_bit (rw_bitmap w) d \<longleftrightarrow> B - int d \<in> aw_seen a"
    using R i by (simp_all add: window_rel_def B_def)
  have f: "f \<noteq> 0" "f < SequenceHalfRange" and E: "extend_seq B s = B + int (unat f)"
    using extend_seq_forward [where B = B and s = s] e by (auto simp: f_def B_def)
  define n where "n = unat f"
  have bm: "window_bit bm d \<longleftrightarrow> n \<le> d \<and> window_bit (rw_bitmap w) (d - n)"
    if "d < REPLAY_WINDOW_SIZE" for d
    using that len by (auto simp: bm_def n_def window_bit_ShiftBitmapLeft window_sizes)
  have lenbm: "length bm = REPLAY_BITMAP_SIZE" using len by (simp add: bm_def)
  have "window_bit (bm[0 := bm ! 0 OR 1]) d \<longleftrightarrow> B + int n - int d \<in> insert (B + int n) (aw_seen a)"
    if d: "d < REPLAY_WINDOW_SIZE" for d
  proof (cases "n \<le> d")
    case True
    then obtain k where k: "d = n + k" using le_Suc_ex by blast
    then have "window_bit (rw_bitmap w) k \<longleftrightarrow> B - int k \<in> aw_seen a" using bits d by simp
    then show ?thesis using bm [OF d] lenbm by (auto simp: k set_first_bit window_sizes)
  next
    case False
    then have "B + int n - int d \<notin> aw_seen a" using le by fastforce
    then show ?thesis using False bm [OF d] lenbm by (simp add: set_first_bit window_sizes)
  qed
  moreover have "Accept w s = (True, w\<lparr>rw_base := of_int B + of_nat n,
                                       rw_bitmap := bm[0 := bm ! 0 OR 1]\<rparr>)"
    using init f unfolding Accept_def Let_def base f_def [symmetric] bm_def [symmetric] n_def by simp
  moreover have "snd (abs_accept a s) = a\<lparr>aw_base := B + int n,
                   aw_seen := insert (B + int n) (aw_seen a)\<rparr>"
    using i e E by (simp add: abs_accept_def B_def Let_def n_def)
  moreover have "\<forall>e\<in>insert (B + int n) (aw_seen a). e \<le> B + int n" using le by fastforce
  ultimately show ?thesis
    using lenbm init i by (simp add: window_rel_def)
qed

lemma Accept_behind:
  assumes R: "window_rel w a" and i: "aw_init a" and e: "\<not> extend_seq (aw_base a) s > aw_base a"
  shows "fst (Accept w s) = fst (abs_accept a s) \<and>
         window_rel (snd (Accept w s)) (snd (abs_accept a s)) \<and>
         IsDuplicate w s = (\<not> fst (abs_accept a s))"
proof -
  define B where "B = aw_base a"
  define d where "d = unat (ucast (of_int B :: u64) - s)"
  have base: "rw_base w = of_int B" and len: "length (rw_bitmap w) = REPLAY_BITMAP_SIZE"
    and init: "rw_initialized w" and le: "\<forall>e\<in>aw_seen a. e \<le> B"
    and bits: "\<forall>d<REPLAY_WINDOW_SIZE. window_bit (rw_bitmap w) d \<longleftrightarrow> B - int d \<in> aw_seen a"
    using R i by (simp_all add: window_rel_def B_def)
  define f where "f = s - ucast (of_int B :: u64)"
  have f: "\<not> (f \<noteq> 0 \<and> f < SequenceHalfRange)" and E: "extend_seq B s = B - int d"
    using extend_seq_forward [where B = B and s = s] e by (auto simp: f_def B_def d_def)
  have acc: "Accept w s =
      (if d \<ge> REPLAY_WINDOW_SIZE \<or> window_bit (rw_bitmap w) d then (False, w)
       else (True, w\<lparr>rw_bitmap := (rw_bitmap w)[d div 8 := rw_bitmap w ! (d div 8) OR push_bit (d mod 8) 1]\<rparr>))"
    and dup: "IsDuplicate w s = (d \<ge> REPLAY_WINDOW_SIZE \<or> window_bit (rw_bitmap w) d)"
    using init f unfolding Accept_def IsDuplicate_def Let_def base f_def [symmetric] d_def [symmetric]
      test_window_bit by auto
  have abs: "abs_accept a s = (if d \<ge> REPLAY_WINDOW_SIZE \<or> B - int d \<in> aw_seen a then (False, a)
                               else (True, a\<lparr>aw_seen := insert (B - int d) (aw_seen a)\<rparr>))"
    using i e E by (simp add: abs_accept_def Let_def B_def)
  show ?thesis
  proof (cases "d \<ge> REPLAY_WINDOW_SIZE \<or> B - int d \<in> aw_seen a")
    case True
    then show ?thesis using bits R by (cases "d < REPLAY_WINDOW_SIZE") (auto simp: acc abs dup)
  next
    case False
    then have "d div 8 < length (rw_bitmap w)" using len by (simp add: window_sizes not_le) linarith
    then show ?thesis using False bits R i le
      by (auto simp: acc abs dup window_rel_def set_window_bit B_def simp del: push_bit_of_1)
  qed
qed

lemma Accept_simulates:
  assumes "window_rel w a"
  shows "fst (Accept w s) = fst (abs_accept a s) \<and>
         window_rel (snd (Accept w s)) (snd (abs_accept a s)) \<and>
         IsDuplicate w s = (\<not> fst (abs_accept a s))"
proof -
  consider "\<not> aw_init a" | "aw_init a" "extend_seq (aw_base a) s > aw_base a"
    | "aw_init a" "\<not> extend_seq (aw_base a) s > aw_base a" by blast
  then show ?thesis
  proof cases
    case 1
    then show ?thesis using Accept_first [OF assms, of s] assms
      by (simp add: abs_accept_def IsDuplicate_def window_rel_def)
  next
    case 2
    moreover have "\<not> IsDuplicate w s"
      using assms 2 extend_seq_forward(1) [of s "aw_base a"]
      by (simp add: IsDuplicate_def Let_def window_rel_def)
    ultimately show ?thesis using Accept_forward [OF assms, of s]
      by (simp add: abs_accept_def Let_def)
  next
    case 3
    then show ?thesis using Accept_behind [OF assms] by blast
  qed
qed

section \<open>Runs of a window\<close>

text \<open>
  The extended numbers a run accepts, read off the code's own 64-bit base, which exceeds no
  \<open>2\<^sup>6\<^sup>4\<close> within \<open>2\<^sup>3\<^sup>2\<close> datagrams.
\<close>

fun accepted :: "replay_window \<Rightarrow> u32 list \<Rightarrow> int list" where
  "accepted w [] = []"
| "accepted w (s # ss) =
     (let e = (if rw_initialized w then extend_seq (uint (rw_base w)) s else uint s);
          (r, w') = Accept w s
      in if r then e # accepted w' ss else accepted w' ss)"

lemma extend_seq_bound: "extend_seq B s < B + 2 ^ 31"
  by (simp add: extend_seq_def)

lemma abs_accept_base:
  assumes "0 \<le> aw_base a" and "aw_base a \<le> B"
  shows "0 \<le> aw_base (snd (abs_accept a s)) \<and> aw_base (snd (abs_accept a s)) \<le> B + 2 ^ 32"
  using assms extend_seq_bound [of "aw_base a" s] uint_lt2p [of s]
  by (auto simp: abs_accept_def Let_def)

lemma abs_accept_seen:
  "fst (abs_accept a s) \<Longrightarrow>
     aw_seen (snd (abs_accept a s)) =
       insert (if aw_init a then extend_seq (aw_base a) s else uint s) (if aw_init a then aw_seen a else {})"
  by (auto simp: abs_accept_def Let_def)

lemma abs_accept_fresh:
  assumes "fst (abs_accept a s)" and "aw_init a" and "\<forall>e\<in>aw_seen a. e \<le> aw_base a"
  shows "extend_seq (aw_base a) s \<notin> aw_seen a"
  using assms by (auto simp: abs_accept_def Let_def split: if_splits)

lemma abs_accept_reject: "\<not> fst (abs_accept a s) \<Longrightarrow> snd (abs_accept a s) = a"
  by (auto simp: abs_accept_def Let_def)

lemma accepted_distinct_from:
  assumes "window_rel w a" and "0 \<le> aw_base a" and "aw_base a \<le> int n * 2 ^ 32"
    and "n + length ss < 2 ^ 32"
  shows "distinct (accepted w ss) \<and> set (accepted w ss) \<inter> aw_seen a = {}"
  using assms
proof (induction ss arbitrary: w a n)
  case (Cons s ss)
  let ?a' = "snd (abs_accept a s)" and ?w' = "snd (Accept w s)"
  let ?e = "if aw_init a then extend_seq (aw_base a) s else uint s"
  note sim = Accept_simulates [OF Cons.prems(1), of s]
  have "0 \<le> aw_base ?a'" "aw_base ?a' \<le> int (Suc n) * 2 ^ 32"
    using abs_accept_base [OF Cons.prems(2,3), of s] by (simp_all add: algebra_simps)
  then have IH: "distinct (accepted ?w' ss) \<and> set (accepted ?w' ss) \<inter> aw_seen ?a' = {}"
    using Cons.IH [of ?w' ?a' "Suc n"] sim Cons.prems(4) by simp
  have "aw_base a < 2 ^ 64" using Cons.prems(3,4) by simp
  then have "rw_initialized w \<Longrightarrow> uint (rw_base w) = aw_base a"
    using Cons.prems(1,2) by (auto simp: window_rel_def unsigned_of_int take_bit_int_eq_self)
  then have step: "accepted w (s # ss) = (if fst (abs_accept a s) then [?e] else []) @ accepted ?w' ss"
    using sim Cons.prems(1) by (simp add: Let_def case_prod_beta window_rel_def)
  show ?case
  proof (cases "fst (abs_accept a s)")
    case True
    then have "aw_seen ?a' = insert ?e (aw_seen a)" and "?e \<notin> aw_seen a"
      using abs_accept_seen abs_accept_fresh Cons.prems(1)
      by (auto simp: window_rel_def split: if_splits)
    then show ?thesis unfolding step using IH True by auto
  next
    case False
    then show ?thesis unfolding step using IH abs_accept_reject [OF False] by simp
  qed
qed simp

section \<open>Properties\<close>

text \<open>
  C1. The 1024-bit bitmap window of the code simulates the window that remembers every sequence
  number it ever accepted: from related states \<^verbatim>\<open>Accept\<close> gives the same verdict as the
  abstract window and related states again, \<^verbatim>\<open>IsDuplicate\<close> announces the verdict beforehand,
  and \<^verbatim>\<open>Reset\<close> returns to the initial window.
\<close>

theorem Accept_refines:
  assumes "window_rel w a"
  shows "fst (Accept w s) = fst (abs_accept a s) \<and>
         window_rel (snd (Accept w s)) (snd (abs_accept a s)) \<and>
         IsDuplicate w s = (\<not> fst (Accept w s)) \<and>
         window_rel (rw_Reset w) abs_init"
  using Accept_simulates [OF assms, of s] window_rel_Reset [OF assms] by simp

theorem Accept_refines_witness:
  "fst (Accept rw_init 7) = fst (abs_accept abs_init 7) \<and>
   window_rel (snd (Accept rw_init 7)) (snd (abs_accept abs_init 7)) \<and>
   IsDuplicate rw_init 7 = (\<not> fst (Accept rw_init 7)) \<and>
   window_rel (rw_Reset rw_init) abs_init"
  using Accept_refines [OF window_rel_init, of 7] .

text \<open>
  C2. No datagram is accepted twice: along any run of fewer than \<open>2\<^sup>3\<^sup>2\<close> received sequence
  numbers, starting from a fresh window, the extended sequence numbers that \<^verbatim>\<open>Accept\<close> lets
  through are pairwise distinct, across any number of wrap-arounds of the 32-bit wire number.
\<close>

theorem accepted_distinct:
  assumes "length ss < 2 ^ 32"
  shows "distinct (accepted rw_init ss)"
  using accepted_distinct_from [OF window_rel_init, of 0 ss] assms by (simp add: abs_init_def)

theorem accepted_distinct_witness:
  "distinct (accepted rw_init [4294967295, 0, 4294967295, 0, 5])"
  by (rule accepted_distinct) simp

end
