(* ===== verification/Mux_Ack.thy ===== *)
theory Mux_Ack
  imports Prelude
begin

text \<open>
  The receive side of the mux reliability protocol, \<^verbatim>\<open>ppp/app/mux/MuxAckTracker.h\<close>: the set of
  received sequence numbers kept as merged inclusive ranges (\<^verbatim>\<open>MuxAckTracker\<close>), and the wire codec
  of the ACK frames (\<^verbatim>\<open>EncodeMuxAckFrame\<close>, \<^verbatim>\<open>DecodeMuxAckFrame\<close>). Containers are HOL lists and
  their sizes \<open>nat\<close>; a null pointer is \<open>None\<close> or, for the output buffer, a flag.
\<close>

section \<open>The range set\<close>

record ack_range =
  ar_start :: u32
  ar_end :: u32

definition disjoint_below :: "u32 \<Rightarrow> ack_range \<Rightarrow> bool" where
  "disjoint_below seq r \<longleftrightarrow> ar_end r < seq \<and> seq - ar_end r > 1"

definition disjoint_above :: "u32 \<Rightarrow> ack_range \<Rightarrow> bool" where
  "disjoint_above seq r \<longleftrightarrow> ar_start r > seq \<and> ar_start r - seq > 1"

definition ack_wrapped :: "ack_range list \<Rightarrow> u32 \<Rightarrow> bool" where
  "ack_wrapped ranges seq =
     (case ranges of [] \<Rightarrow> False
      | r # _ \<Rightarrow> let front = ar_start r in front - seq > 0x80000000 \<and> seq < front)"

text \<open>The loop that absorbs the following ranges into the merged one.\<close>

fun absorb :: "ack_range \<Rightarrow> ack_range list \<Rightarrow> ack_range list" where
  "absorb cur [] = [cur]"
| "absorb cur (nx # rest) =
     (if \<not> (ar_start nx > ar_end cur \<and> ar_start nx - ar_end cur > 1)
      then absorb (if ar_end nx > ar_end cur then cur\<lparr>ar_end := ar_end nx\<rparr> else cur) rest
      else cur # nx # rest)"

definition merge_into :: "u32 \<Rightarrow> ack_range \<Rightarrow> ack_range" where
  "merge_into seq r =
     (let r = (if seq < ar_start r then r\<lparr>ar_start := seq\<rparr> else r)
      in if seq > ar_end r then r\<lparr>ar_end := seq\<rparr> else r)"

fun insert_range :: "u32 \<Rightarrow> ack_range list \<Rightarrow> ack_range list" where
  "insert_range seq [] = [\<lparr>ar_start = seq, ar_end = seq\<rparr>]"
| "insert_range seq (r # rest) =
     (if disjoint_below seq r then r # insert_range seq rest
      else if \<not> disjoint_above seq r then absorb (merge_into seq r) rest
      else \<lparr>ar_start = seq, ar_end = seq\<rparr> # r # rest)"

fun drop_oldest :: "nat \<Rightarrow> ack_range list \<Rightarrow> ack_range list" where
  "drop_oldest max_ranges [] = []"
| "drop_oldest max_ranges (r # rest) =
     (if length (r # rest) > max_ranges then drop_oldest max_ranges rest else r # rest)"

definition ack_Add :: "ack_range list \<Rightarrow> u32 \<Rightarrow> nat \<Rightarrow> ack_range list" where
  "ack_Add ranges seq max_ranges =
     (let ranges = (if ack_wrapped ranges seq then [] else ranges);
          ranges = insert_range seq ranges
      in if max_ranges > 0 then drop_oldest max_ranges ranges else ranges)"

definition ack_largest :: "ack_range list \<Rightarrow> u32" where
  "ack_largest ranges = (if ranges = [] then 0 else ar_end (last ranges))"

section \<open>The ACK frame codec\<close>

record ack_block =
  ab_connection_id :: u32
  ab_largest :: u32
  ab_ranges :: "ack_range list"

definition MuxAckFrameMaxSize :: "nat \<Rightarrow> nat \<Rightarrow> nat" where
  "MuxAckFrameMaxSize max_blocks max_ranges = 1 + max_blocks * (9 + max_ranges * 8)"

definition enc_range :: "ack_range \<Rightarrow> bytes" where
  "enc_range r = be32 (ar_start r) @ be32 (ar_end r)"

definition capped_count :: "nat \<Rightarrow> ack_block \<Rightarrow> nat" where
  "capped_count max_ranges_per_block block =
     (if length (ab_ranges block) < max_ranges_per_block then length (ab_ranges block)
      else max_ranges_per_block)"

definition enc_block :: "nat \<Rightarrow> ack_block \<Rightarrow> bytes" where
  "enc_block max_ranges_per_block block =
     (let range_count = capped_count max_ranges_per_block block;
          first = length (ab_ranges block) - range_count
      in be32 (ab_connection_id block) @ be32 (ab_largest block) @ [of_nat range_count] @
         concat (map enc_range (drop first (ab_ranges block))))"

definition EncodeMuxAckFrame :: "bool \<Rightarrow> ack_block list \<Rightarrow> nat \<Rightarrow> nat \<Rightarrow> bytes option" where
  "EncodeMuxAckFrame out_valid blocks cap max_ranges_per_block =
     (if \<not> out_valid \<or> length blocks > 255 then None
      else let need = 1 + sum_list (map (\<lambda>b. 9 + capped_count max_ranges_per_block b * 8) blocks) in
        if cap < need then None
        else Some (of_nat (length blocks) # concat (map (enc_block max_ranges_per_block) blocks)))"

text \<open>
  One turn of the inner loop. The eight bytes it reads are there because the length of the whole
  run was tested beforehand; the test is repeated here so that the reader is total.
\<close>

definition rd_range :: "u32 \<Rightarrow> bytes \<Rightarrow> (ack_range \<times> bytes) option" where
  "rd_range largest p =
     (if length p < 8 then None
      else let r = \<lparr>ar_start = rd32 p, ar_end = rd32 (drop 4 p)\<rparr> in
        if ar_start r > ar_end r \<or> ar_end r > largest then None else Some (r, drop 8 p))"

definition rd_block :: "nat \<Rightarrow> bytes \<Rightarrow> (ack_block \<times> bytes) option" where
  "rd_block max_ranges p =
     (if length p < 9 then None
      else let cid = rd32 p; largest = rd32 (drop 4 p); range_count = unat (p ! 8); p = drop 9 p in
        if range_count = 0 \<or> range_count > max_ranges \<or> length p < range_count * 8 then None
        else case read_items (rd_range largest) range_count p of
            None \<Rightarrow> None
          | Some (rs, p) \<Rightarrow>
              Some (\<lparr>ab_connection_id = cid, ab_largest = largest, ab_ranges = rs\<rparr>, p))"

definition DecodeMuxAckFrame :: "bytes option \<Rightarrow> nat \<Rightarrow> nat \<Rightarrow> ack_block list option" where
  "DecodeMuxAckFrame buf max_blocks max_ranges =
     (case buf of
        Some (b # p) \<Rightarrow>
          (let block_count = unat b in
           if block_count = 0 \<or> block_count > max_blocks then None
           else case read_items (rd_block max_ranges) block_count p of
               Some (blocks, []) \<Rightarrow> Some blocks
             | _ \<Rightarrow> None)
      | _ \<Rightarrow> None)"

section \<open>Ranges as a set of sequence numbers\<close>

definition range_set :: "ack_range \<Rightarrow> u32 set" where
  "range_set r = {s. ar_start r \<le> s \<and> s \<le> ar_end r}"

definition covered :: "ack_range list \<Rightarrow> u32 set" where
  "covered rs = (\<Union>r\<in>set rs. range_set r)"

fun ranges_wf :: "ack_range list \<Rightarrow> bool" where
  "ranges_wf [] = True"
| "ranges_wf (r # rs) =
     (ar_start r \<le> ar_end r \<and>
      list_all (\<lambda>q. unat (ar_end r) + 1 < unat (ar_start q)) rs \<and> ranges_wf rs)"

lemma gap_iff: "a < b \<and> b - a > 1 \<longleftrightarrow> unat a + 1 < unat (b :: u32)"
  by (auto simp: word_less_nat_alt unat_sub_if')

lemma disjoint_iff:
  "disjoint_below seq r \<longleftrightarrow> unat (ar_end r) + 1 < unat seq"
  "disjoint_above seq r \<longleftrightarrow> unat seq + 1 < unat (ar_start r)"
  unfolding disjoint_below_def disjoint_above_def gap_iff by (rule refl)+

lemma absorb_Cons:
  "absorb cur (nx # rest) =
     (if unat (ar_end cur) + 1 < unat (ar_start nx) then cur # nx # rest
      else absorb (if ar_end nx > ar_end cur then cur\<lparr>ar_end := ar_end nx\<rparr> else cur) rest)"
  unfolding absorb.simps gap_iff by simp

declare absorb.simps(2) [simp del]

lemmas range_defs = range_set_def disjoint_iff merge_into_def Let_def word_le_nat_alt word_less_nat_alt

lemma covered_simps [simp]:
  "covered [] = {}" "covered (r # rs) = range_set r \<union> covered rs"
  "covered (xs @ ys) = covered xs \<union> covered ys"
  by (auto simp: covered_def)

lemma covered_above:
  "list_all (\<lambda>q. n \<le> unat (ar_start q)) rs \<Longrightarrow> s \<in> covered rs \<Longrightarrow> n \<le> unat s"
  by (induction rs) (auto simp: range_defs)

lemma absorb_wf:
  assumes "ar_start cur \<le> ar_end cur" and "list_all (\<lambda>q. unat (ar_start cur) < unat (ar_start q)) rs"
    and "ranges_wf rs" and "list_all (\<lambda>q. n \<le> unat (ar_start q)) (cur # rs)"
  shows "ranges_wf (absorb cur rs) \<and> list_all (\<lambda>q. n \<le> unat (ar_start q)) (absorb cur rs)"
  using assms
proof (induction rs arbitrary: cur)
  case (Cons nx rest)
  let ?c = "if ar_end nx > ar_end cur then cur\<lparr>ar_end := ar_end nx\<rparr> else cur"
  show ?case
  proof (cases "unat (ar_end cur) + 1 < unat (ar_start nx)")
    case True
    then have "list_all (\<lambda>q. unat (ar_end cur) + 1 < unat (ar_start q)) rest"
      using Cons.prems(3) by (fastforce simp: list_all_iff word_le_nat_alt)
    then show ?thesis using True Cons.prems by (simp add: absorb_Cons)
  next
    case False
    have "ranges_wf (absorb ?c rest) \<and> list_all (\<lambda>q. n \<le> unat (ar_start q)) (absorb ?c rest)"
      by (rule Cons.IH) (use Cons.prems in \<open>auto simp: word_le_nat_alt word_less_nat_alt\<close>)
    then show ?thesis using False by (simp add: absorb_Cons)
  qed
qed simp

lemma covered_absorb:
  assumes "ar_start cur \<le> ar_end cur" and "list_all (\<lambda>q. unat (ar_start cur) < unat (ar_start q)) rs"
    and "ranges_wf rs"
  shows "covered (absorb cur rs) = range_set cur \<union> covered rs"
  using assms
proof (induction cur rs rule: absorb.induct)
  case (2 cur nx rest)
  let ?c = "if ar_end nx > ar_end cur then cur\<lparr>ar_end := ar_end nx\<rparr> else cur"
  show ?case
  proof (cases "unat (ar_end cur) + 1 < unat (ar_start nx)")
    case False
    then have "\<not> (ar_start nx > ar_end cur \<and> ar_start nx - ar_end cur > 1)" unfolding gap_iff .
    then have "covered (absorb ?c rest) = range_set ?c \<union> covered rest"
      by (rule 2(1)) (use 2(2-4) in \<open>auto simp: word_le_nat_alt word_less_nat_alt\<close>)
    moreover have "range_set ?c = range_set cur \<union> range_set nx"
      using 2(2-4) False by (auto simp: range_defs)
    ultimately show ?thesis using False by (simp add: absorb_Cons Un_assoc)
  qed (simp add: absorb_Cons)
qed simp

lemma insert_range_wf:
  assumes "ranges_wf rs" and "list_all (\<lambda>q. n \<le> unat (ar_start q)) rs" and "n \<le> unat seq"
  shows "ranges_wf (insert_range seq rs) \<and> list_all (\<lambda>q. n \<le> unat (ar_start q)) (insert_range seq rs)"
  using assms
proof (induction seq rs arbitrary: n rule: insert_range.induct)
  case (2 seq r rest)
  let ?m = "unat (ar_end r) + 2"
  have tail: "list_all (\<lambda>q. ?m \<le> unat (ar_start q)) rest" "ar_start r \<le> ar_end r" "ranges_wf rest"
    using 2(2) by (auto simp: list_all_iff)
  consider "disjoint_below seq r" | "\<not> disjoint_below seq r" "\<not> disjoint_above seq r"
    | "\<not> disjoint_below seq r" "disjoint_above seq r" by blast
  then show ?case
  proof cases
    case 1
    then have "?m \<le> unat seq" by (simp add: range_defs)
    with 2(1) [of ?m] 2(1) [of n] 1 2(2-4) tail show ?thesis by (auto simp: list_all_iff Suc_le_eq)
  next
    case mid: 2
    have "ranges_wf (absorb (merge_into seq r) rest) \<and>
          list_all (\<lambda>q. n \<le> unat (ar_start q)) (absorb (merge_into seq r) rest)"
      by (rule absorb_wf)
         (use 2(2-4) tail in \<open>fastforce simp: merge_into_def Let_def word_le_nat_alt word_less_nat_alt list_all_iff\<close>)+
    then show ?thesis using mid by simp
  next
    case 3
    then show ?thesis using 2(2-4) tail by (fastforce simp: range_defs list_all_iff)
  qed
qed simp

lemma covered_insert_range:
  assumes "ranges_wf rs"
  shows "covered (insert_range seq rs) = insert seq (covered rs)"
  using assms
proof (induction seq rs rule: insert_range.induct)
  case (1 seq)
  then show ?case by (auto simp: range_set_def)
next
  case (2 seq r rest)
  have tail: "list_all (\<lambda>q. unat (ar_end r) + 2 \<le> unat (ar_start q)) rest"
    "ar_start r \<le> ar_end r" "ranges_wf rest"
    using 2(2) by (auto simp: list_all_iff)
  show ?case
  proof (cases "disjoint_below seq r \<or> disjoint_above seq r")
    case True
    then show ?thesis using 2 tail by (auto simp: range_set_def)
  next
    case False
    have "covered (absorb (merge_into seq r) rest) = range_set (merge_into seq r) \<union> covered rest"
      by (rule covered_absorb)
         (use tail in \<open>fastforce simp: merge_into_def Let_def word_le_nat_alt word_less_nat_alt list_all_iff\<close>)+
    moreover have "range_set (merge_into seq r) = insert seq (range_set r)"
      using False tail(2) by (auto simp: range_defs word_unat_eq_iff)
    ultimately show ?thesis using False by auto
  qed
qed

lemma absorb_not_Nil [simp]: "absorb cur rs \<noteq> []"
  by (induction rs arbitrary: cur) (simp_all add: absorb_Cons)

lemma insert_range_not_Nil [simp]: "insert_range seq rs \<noteq> []"
  by (induction seq rs rule: insert_range.induct) simp_all

lemma drop_oldest_drop: "drop_oldest m rs = drop (length rs - m) rs"
  by (induction m rs rule: drop_oldest.induct) (auto simp: Suc_diff_le)

lemma ranges_wf_drop: "ranges_wf rs \<Longrightarrow> ranges_wf (drop k rs)"
proof (induction rs arbitrary: k)
  case (Cons r rs)
  then show ?case by (cases k) auto
qed simp

lemma covered_drop:
  assumes "ranges_wf rs" and "k < length rs"
  shows "covered (drop k rs) = {s \<in> covered rs. ar_start (rs ! k) \<le> s}"
  using assms
proof (induction rs arbitrary: k)
  case (Cons r rs)
  then have above: "s \<in> covered rs \<Longrightarrow> ar_end r < s" for s
    using covered_above [of "unat (ar_end r) + 2" rs s]
    by (fastforce simp: list_all_iff word_less_nat_alt)
  show ?case
  proof (cases k)
    case 0
    then show ?thesis using above Cons.prems by (force simp: range_set_def)
  next
    case (Suc j)
    then have "ar_end r < ar_start (rs ! j)" using Cons.prems
      by (fastforce simp: list_all_length word_less_nat_alt)
    then show ?thesis using Suc Cons by (auto simp: range_set_def)
  qed
qed simp

lemma ack_Add_cases:
  assumes "ranges_wf rs"
  obtains xs k where "ack_Add rs seq m = drop k xs" "k < length xs" "ranges_wf xs"
    "covered xs = insert seq (if ack_wrapped rs seq then {} else covered rs)"
    "m > 0 \<longrightarrow> length xs - k \<le> m" "m = 0 \<or> length xs \<le> m \<longrightarrow> k = 0"
    "xs = insert_range seq (if ack_wrapped rs seq then [] else rs)"
proof -
  let ?rs = "if ack_wrapped rs seq then [] else rs"
  define xs k where "xs = insert_range seq ?rs" and "k = (if m > 0 then length xs - m else 0)"
  have "ranges_wf xs"
    using insert_range_wf [of ?rs 0 seq] assms by (simp add: xs_def list_all_iff)
  moreover have "covered xs = insert seq (if ack_wrapped rs seq then {} else covered rs)"
    using assms by (simp add: xs_def covered_insert_range)
  moreover have "ack_Add rs seq m = drop k xs"
    by (simp add: ack_Add_def Let_def drop_oldest_drop xs_def k_def)
  moreover have "0 < length xs" by (simp add: xs_def)
  then have "k < length xs" "m > 0 \<longrightarrow> length xs - k \<le> m" "m = 0 \<or> length xs \<le> m \<longrightarrow> k = 0"
    unfolding k_def by (auto split: nat_diff_split)
  ultimately show thesis using that [of k xs] xs_def by blast
qed

section \<open>Round trip of the frames\<close>

definition range_ok :: "u32 \<Rightarrow> ack_range \<Rightarrow> bool" where
  "range_ok largest r \<longleftrightarrow> ar_start r \<le> ar_end r \<and> ar_end r \<le> largest"

definition block_ok :: "nat \<Rightarrow> ack_block \<Rightarrow> bool" where
  "block_ok max_ranges b \<longleftrightarrow>
     0 < length (ab_ranges b) \<and> length (ab_ranges b) \<le> min 255 max_ranges \<and>
     list_all (range_ok (ab_largest b)) (ab_ranges b)"

lemma length_enc_range [simp, wire]: "length (enc_range r) = 8"
  by (simp add: enc_range_def)

lemma length_concat_ranges [simp, wire]: "length (concat (map enc_range rs)) = 8 * length rs"
  by (induction rs) simp_all

interpretation range_codec: item_codec enc_range "rd_range largest" "range_ok largest" for largest
proof
  fix x :: ack_range and r
  assume "range_ok largest x"
  then show "rd_range largest (enc_range x @ r) = Some (x, r)"
    by (auto simp: rd_range_def enc_range_def range_ok_def Let_def)
next
  fix p x r
  assume rd: "rd_range largest p = Some (x, r)"
  then have len: "8 \<le> length p" by (auto simp: rd_range_def split: if_splits)
  then have "be32 (rd32 p) @ be32 (rd32 (drop 4 p)) @ drop 8 p = p"
    using be32_rd32 [of p] be32_rd32 [of "drop 4 p"] by simp
  then show "range_ok largest x \<and> p = enc_range x @ r"
    using rd by (auto simp: rd_range_def enc_range_def range_ok_def Let_def not_less split: if_splits)
qed

lemma enc_block_ok:
  "length (ab_ranges b) \<le> m \<Longrightarrow>
     enc_block m b = be32 (ab_connection_id b) @ be32 (ab_largest b) @
       [of_nat (length (ab_ranges b))] @ concat (map enc_range (ab_ranges b))"
  by (auto simp: enc_block_def capped_count_def Let_def)

interpretation block_codec: item_codec "enc_block m" "rd_block m" "block_ok m" for m
proof
  fix x :: ack_block and r
  assume ok: "block_ok m x"
  then have "list_all (range_ok (ab_largest x)) (ab_ranges x)" by (simp add: block_ok_def)
  then show "rd_block m (enc_block m x @ r) = Some (x, r)"
    using ok range_codec.read_items_enc [of "ab_largest x" "ab_ranges x" r]
    by (simp add: rd_block_def enc_block_ok block_ok_def Let_def unat_of_nat_byte nth_append)
next
  fix p x r
  assume rd: "rd_block m p = Some (x, r)"
  then have len: "9 \<le> length p" by (auto simp: rd_block_def split: if_splits)
  then have p: "be32 (rd32 p) @ be32 (rd32 (drop 4 p)) @ [p ! 8] @ drop 9 p = p"
    using be32_rd32 [of p] be32_rd32 [of "drop 4 p"] Cons_nth_drop_Suc [of 8 p] by simp
  let ?n = "unat (p ! 8)"
  have it: "read_items (rd_range (rd32 (drop 4 p))) ?n (drop 9 p) = Some (ab_ranges x, r)"
    and x: "ab_connection_id x = rd32 p" "ab_largest x = rd32 (drop 4 p)" "0 < ?n" "?n \<le> m"
    using rd by (auto simp: rd_block_def Let_def split: if_splits option.splits)
  note inv = range_codec.read_items_inv [OF it]
  have "block_ok m x" using inv x by (simp add: block_ok_def unat_byte_le)
  moreover have "enc_block m x @ r = p"
    using inv x by (subst p [symmetric]) (simp add: enc_block_ok)
  ultimately show "block_ok m x \<and> p = enc_block m x @ r" by simp
qed

lemma length_enc_block: "length (enc_block m b) = 9 + capped_count m b * 8"
  by (simp add: enc_block_def capped_count_def Let_def)

lemma length_concat_blocks:
  "length (concat (map (enc_block m) bs)) = sum_list (map (\<lambda>b. 9 + capped_count m b * 8) bs)"
  by (induction bs) (simp_all add: length_enc_block)

lemma Decode_iff_Encode:
  "DecodeMuxAckFrame (Some p) max_blocks max_ranges = Some bs \<longleftrightarrow>
     bs \<noteq> [] \<and> length bs \<le> min 255 max_blocks \<and> list_all (block_ok max_ranges) bs \<and>
     EncodeMuxAckFrame True bs (length p) max_ranges = Some p"
proof -
  have "EncodeMuxAckFrame True bs (length p) max_ranges = Some p \<longleftrightarrow>
          length bs \<le> 255 \<and> p = of_nat (length bs) # concat (map (enc_block max_ranges) bs)"
    using length_concat_blocks [of max_ranges bs] by (auto simp: EncodeMuxAckFrame_def)
  moreover have "DecodeMuxAckFrame (Some p) max_blocks max_ranges = Some bs \<longleftrightarrow>
          (\<exists>b q. p = b # q \<and> 0 < unat b \<and> unat b \<le> max_blocks \<and>
             read_items (rd_block max_ranges) (unat b) q = Some (bs, []))"
    by (cases p) (auto simp: DecodeMuxAckFrame_def Let_def split: option.splits list.splits)
  moreover have "(\<exists>b. 0 < unat b \<and> unat b \<le> max_blocks \<and> length bs = unat b \<and> p = b # q) \<longleftrightarrow>
          bs \<noteq> [] \<and> length bs \<le> min 255 max_blocks \<and> p = of_nat (length bs) # q" for q
    using unat_byte_le unat_of_nat_byte [of "length bs"]
    by (auto intro!: exI [of _ "of_nat (length bs)"])
  ultimately show ?thesis
    unfolding block_codec.read_items_iff by auto
qed

text \<open>What an ACK built from a tracker carries: the newest ranges under the cap.\<close>

definition newest :: "nat \<Rightarrow> ack_block \<Rightarrow> ack_block" where
  "newest m b = b\<lparr>ab_ranges := drop (length (ab_ranges b) - m) (ab_ranges b)\<rparr>"

definition from_tracker :: "ack_block \<Rightarrow> bool" where
  "from_tracker b \<longleftrightarrow> ab_ranges b \<noteq> [] \<and> ranges_wf (ab_ranges b) \<and> ab_largest b = ack_largest (ab_ranges b)"

lemma enc_block_newest: "enc_block m (newest m b) = enc_block m b"
  by (simp add: enc_block_def newest_def capped_count_def Let_def)

lemma ranges_wf_range_ok: "ranges_wf rs \<Longrightarrow> list_all (range_ok (ack_largest rs)) rs"
proof (induction rs)
  case (Cons r rs)
  show ?case
  proof (cases rs)
    case Nil
    then show ?thesis using Cons.prems by (simp add: range_ok_def ack_largest_def)
  next
    case (Cons q qs)
    have IH: "list_all (range_ok (ack_largest rs)) rs" using Cons.IH Cons.prems by simp
    then have "unat (ar_start q) \<le> unat (ack_largest rs)"
      using Cons by (auto simp: range_ok_def word_le_nat_alt)
    then have "range_ok (ack_largest rs) r" using Cons Cons.prems
      by (simp add: range_ok_def word_le_nat_alt)
    moreover have "ack_largest (r # rs) = ack_largest rs" using Cons by (simp add: ack_largest_def)
    ultimately show ?thesis using IH by simp
  qed
qed simp

lemma block_ok_newest:
  assumes "from_tracker b" and "0 < m" "m \<le> 255"
  shows "block_ok m (newest m b)"
proof -
  have "list_all (range_ok (ab_largest b)) (ab_ranges b)"
    using assms ranges_wf_range_ok by (simp add: from_tracker_def)
  then have "list_all (range_ok (ab_largest b)) (drop (length (ab_ranges b) - m) (ab_ranges b))"
    by (auto simp: list_all_iff dest: in_set_dropD)
  then show ?thesis using assms by (auto simp: block_ok_def newest_def from_tracker_def)
qed

section \<open>Properties\<close>

text \<open>
  C3. The tracker keeps its ranges ascending, disjoint and never adjacent, and under its cap;
  after \<^verbatim>\<open>Add\<close> it covers exactly the sequence numbers covered before (none after a detected
  wrap) and the new one, except those below its oldest remaining range, and nothing is lost while
  the merged ranges fit the cap.
\<close>

theorem ack_Add_correct:
  assumes "ranges_wf rs"
  shows "ranges_wf (ack_Add rs seq m) \<and> ack_Add rs seq m \<noteq> [] \<and>
         (m > 0 \<longrightarrow> length (ack_Add rs seq m) \<le> m) \<and>
         covered (ack_Add rs seq m) =
           {s \<in> insert seq (if ack_wrapped rs seq then {} else covered rs).
              ar_start (hd (ack_Add rs seq m)) \<le> s} \<and>
         (m = 0 \<or> length (insert_range seq (if ack_wrapped rs seq then [] else rs)) \<le> m \<longrightarrow>
            covered (ack_Add rs seq m) = insert seq (if ack_wrapped rs seq then {} else covered rs))"
proof -
  obtain xs k where *: "ack_Add rs seq m = drop k xs" "k < length xs" "ranges_wf xs"
    "covered xs = insert seq (if ack_wrapped rs seq then {} else covered rs)"
    "m > 0 \<longrightarrow> length xs - k \<le> m" "m = 0 \<or> length xs \<le> m \<longrightarrow> k = 0"
    "xs = insert_range seq (if ack_wrapped rs seq then [] else rs)"
    by (rule ack_Add_cases [OF assms])
  have "covered (drop k xs) = {s \<in> covered xs. ar_start (hd (drop k xs)) \<le> s}"
    using covered_drop [OF *(3,2)] *(2) by (simp add: hd_drop_conv_nth)
  moreover have "drop k xs \<noteq> []" "m > 0 \<longrightarrow> length (drop k xs) \<le> m"
    "m = 0 \<or> length xs \<le> m \<longrightarrow> covered (drop k xs) = covered xs"
    using *(2,5,6) by auto
  ultimately show ?thesis
    using ranges_wf_drop [OF *(3), of k] unfolding *(1) *(4) *(7) [symmetric]
    by (intro conjI) assumption+
qed

theorem ack_Add_correct_witness:
  "let rs = [\<lparr>ar_start = 1, ar_end = 3\<rparr>, \<lparr>ar_start = 5, ar_end = 9\<rparr>] in
   ranges_wf (ack_Add rs 4 8) \<and> ack_Add rs 4 8 = [\<lparr>ar_start = 1, ar_end = 9\<rparr>] \<and>
   covered (ack_Add rs 4 8) = insert 4 (covered rs)"
proof -
  let ?rs = "[\<lparr>ar_start = 1, ar_end = 3\<rparr>, \<lparr>ar_start = 5, ar_end = 9\<rparr>] :: ack_range list"
  have "ranges_wf ?rs" and "ack_Add ?rs 4 8 = [\<lparr>ar_start = 1, ar_end = 9\<rparr>]" and "\<not> ack_wrapped ?rs 4"
    and "length (insert_range 4 ?rs) \<le> 8"
    by code_simp+
  then show ?thesis unfolding Let_def using ack_Add_correct [of ?rs 4 8] by (auto simp only: if_False)
qed

text \<open>
  C4. The decoder is the exact inverse of the encoder: \<^verbatim>\<open>DecodeMuxAckFrame\<close> accepts a payload
  and returns \<open>bs\<close> if and only if \<open>bs\<close> is a non-empty list of well-formed blocks within the
  caps whose encoding is that very payload. Truncation, trailing bytes, inverted ranges and ranges
  above \<^verbatim>\<open>largest\<close> are therefore all rejected.
\<close>

theorem DecodeMuxAckFrame_iff:
  "DecodeMuxAckFrame (Some p) max_blocks max_ranges = Some bs \<longleftrightarrow>
     bs \<noteq> [] \<and> length bs \<le> min 255 max_blocks \<and> list_all (block_ok max_ranges) bs \<and>
     EncodeMuxAckFrame True bs (length p) max_ranges = Some p"
  by (rule Decode_iff_Encode)

text \<open>
  What the receiver tracked is what the sender learns: blocks built from non-empty trackers
  always encode into a buffer of \<^verbatim>\<open>MuxAckFrameMaxSize\<close> bytes, and decoding the payload under the
  same caps gives each block back with its newest \<open>m\<close> ranges.
\<close>

theorem ack_frame_roundtrip:
  assumes "list_all from_tracker bs" and "bs \<noteq> []" and "length bs \<le> max_blocks" and "max_blocks \<le> 255"
    and "0 < m" and "m \<le> 255"
  shows "\<exists>p. EncodeMuxAckFrame True bs (MuxAckFrameMaxSize max_blocks m) m = Some p \<and>
             DecodeMuxAckFrame (Some p) max_blocks m = Some (map (newest m) bs)"
proof -
  let ?p = "of_nat (length bs) # concat (map (enc_block m) bs)"
  have "sum_list (map (\<lambda>b. 9 + capped_count m b * 8) bs) \<le> length bs * (9 + m * 8)"
    by (induction bs) (simp_all add: capped_count_def)
  also have "\<dots> \<le> max_blocks * (9 + m * 8)" using assms(3) by (rule mult_le_mono1)
  finally have "EncodeMuxAckFrame True bs (MuxAckFrameMaxSize max_blocks m) m = Some ?p"
    using assms by (simp add: EncodeMuxAckFrame_def MuxAckFrameMaxSize_def Let_def)
  moreover have "EncodeMuxAckFrame True (map (newest m) bs) (length ?p) m = Some ?p"
    using assms length_concat_blocks [of m "map (newest m) bs"]
    by (simp add: EncodeMuxAckFrame_def Let_def comp_def enc_block_newest)
  moreover have "list_all (block_ok m) (map (newest m) bs)"
    using assms block_ok_newest by (auto simp: list_all_iff)
  ultimately show ?thesis
    using assms Decode_iff_Encode [of ?p max_blocks m "map (newest m) bs"] by auto
qed

theorem ack_frame_roundtrip_witness:
  "\<exists>p. EncodeMuxAckFrame True [\<lparr>ab_connection_id = 7, ab_largest = 9,
            ab_ranges = [\<lparr>ar_start = 1, ar_end = 3\<rparr>, \<lparr>ar_start = 5, ar_end = 9\<rparr>]\<rparr>]
          (MuxAckFrameMaxSize 8 1) 1 = Some p \<and>
       DecodeMuxAckFrame (Some p) 8 1 =
         Some [\<lparr>ab_connection_id = 7, ab_largest = 9, ab_ranges = [\<lparr>ar_start = 5, ar_end = 9\<rparr>]\<rparr>]"
proof -
  let ?b = "\<lparr>ab_connection_id = 7, ab_largest = 9,
             ab_ranges = [\<lparr>ar_start = 1, ar_end = 3\<rparr>, \<lparr>ar_start = 5, ar_end = 9\<rparr>]\<rparr> :: ack_block"
  have "list_all from_tracker [?b]" and
    "map (newest 1) [?b] = [\<lparr>ab_connection_id = 7, ab_largest = 9, ab_ranges = [\<lparr>ar_start = 5, ar_end = 9\<rparr>]\<rparr>]"
    by code_simp+
  then show ?thesis using ack_frame_roundtrip [of "[?b]" 8 1] by simp
qed

end
