(* ===== verification/Mux_Retransmit.thy ===== *)
theory Mux_Retransmit
  imports Mux_Ack
begin

text \<open>
  The sender's retransmission buffer, \<^verbatim>\<open>ppp/app/mux/MuxRetransmitBuffer.h\<close>. The hash map
  \<^verbatim>\<open>entries_\<close> is a HOL map; operations that iterate over it take the iteration order of the hash
  table as an argument \<open>it\<close>, about which a client only knows that it enumerates the keys
  (\<open>enumerates\<close>), so every result holds for each order a hash table may have. The list iterator a
  C++ entry stores is the position of its key in \<open>rb_order\<close>. Byte counters count bytes that are in
  memory and are \<open>nat\<close>; ticks, attempts and marks keep their widths.
\<close>

section \<open>State and keys\<close>

record rtx_entry =
  re_buffer :: bytes
  re_length :: nat
  re_first_sent_tick :: u64
  re_last_sent_tick :: u64
  re_attempts :: u32
  re_fast_rtx_mark :: u32
  re_orig_link_id :: u16
  re_last_link_id :: u16

record rtx_buffer =
  rb_order :: "u64 list"
  rb_entries :: "u64 \<rightharpoonup> rtx_entry"
  rb_cid_bytes :: "u32 \<rightharpoonup> nat"
  rb_bytes :: nat

definition rtx_empty :: rtx_buffer where
  "rtx_empty = \<lparr>rb_order = [], rb_entries = (\<lambda>_. None), rb_cid_bytes = (\<lambda>_. None), rb_bytes = 0\<rparr>"

definition Key :: "u32 \<Rightarrow> u32 \<Rightarrow> u64" where
  "Key connection_id sequence = push_bit 32 (ucast connection_id) OR ucast sequence"

definition KeyCid :: "u64 \<Rightarrow> u32" where
  "KeyCid key = ucast (drop_bit 32 key)"

definition KeySeq :: "u64 \<Rightarrow> u32" where
  "KeySeq key = ucast (key AND 0xFFFFFFFF)"

definition CidBytes :: "rtx_buffer \<Rightarrow> u32 \<Rightarrow> nat" where
  "CidBytes b cid = (case rb_cid_bytes b cid of None \<Rightarrow> 0 | Some n \<Rightarrow> n)"

section \<open>Operations\<close>

definition Track :: "rtx_buffer \<Rightarrow> u32 \<Rightarrow> u32 \<Rightarrow> bytes \<Rightarrow> nat \<Rightarrow> u64 \<Rightarrow> nat \<Rightarrow> u16 \<Rightarrow> bool \<times> rtx_buffer" where
  "Track b connection_id sequence buffer len now byte_cap link_id =
     (let key = Key connection_id sequence in
      if rb_entries b key \<noteq> None then (True, b)
      else if byte_cap > 0 \<and> rb_bytes b + len > byte_cap then (False, b)
      else let entry = \<lparr>re_buffer = buffer, re_length = len, re_first_sent_tick = now,
                        re_last_sent_tick = now, re_attempts = 0, re_fast_rtx_mark = 0,
                        re_orig_link_id = link_id, re_last_link_id = link_id\<rparr>
           in (True, b\<lparr>rb_order := rb_order b @ [key],
                       rb_entries := (rb_entries b)(key \<mapsto> entry),
                       rb_bytes := rb_bytes b + len,
                       rb_cid_bytes := (rb_cid_bytes b)(connection_id \<mapsto> CidBytes b connection_id + len)\<rparr>))"

definition ReleaseCidBytes :: "(u32 \<rightharpoonup> nat) \<Rightarrow> u32 \<Rightarrow> nat \<Rightarrow> (u32 \<rightharpoonup> nat)" where
  "ReleaseCidBytes cb connection_id len =
     (case cb connection_id of
        None \<Rightarrow> cb
      | Some n \<Rightarrow> if n \<le> len then cb(connection_id := None) else cb(connection_id \<mapsto> n - len))"

definition seq_acked :: "ack_range list \<Rightarrow> u32 \<Rightarrow> bool" where
  "seq_acked ranges seq = list_ex (\<lambda>r. seq \<ge> ar_start r \<and> seq \<le> ar_end r) ranges"

record ack_acc =
  aa_rtt :: u64
  aa_link :: u16
  aa_buf :: rtx_buffer

definition ack_one :: "u32 \<Rightarrow> u64 \<Rightarrow> u64 \<Rightarrow> ack_acc \<Rightarrow> ack_acc" where
  "ack_one connection_id now key a =
     (case rb_entries (aa_buf a) key of
        None \<Rightarrow> a
      | Some e \<Rightarrow>
          let a = (if aa_rtt a = 0 \<and> re_attempts e = 0 \<and> now \<ge> re_first_sent_tick e
                   then a\<lparr>aa_rtt := now - re_first_sent_tick e, aa_link := re_orig_link_id e\<rparr> else a);
              b = aa_buf a
          in a\<lparr>aa_buf := b\<lparr>rb_bytes := rb_bytes b - re_length e,
                           rb_cid_bytes := ReleaseCidBytes (rb_cid_bytes b) connection_id (re_length e),
                           rb_order := remove1 key (rb_order b),
                           rb_entries := (rb_entries b)(key := None)\<rparr>\<rparr>)"

definition fast_one :: "u32 \<Rightarrow> u32 \<Rightarrow> u64 \<Rightarrow> u32 \<Rightarrow> u64 \<Rightarrow> u64 \<Rightarrow> rtx_buffer \<times> u64 list \<Rightarrow> rtx_buffer \<times> u64 list" where
  "fast_one connection_id largest now fast_threshold fast_time_threshold key = (\<lambda>(b, fast_candidates).
     case rb_entries b key of
       None \<Rightarrow> (b, fast_candidates)
     | Some entry \<Rightarrow>
         let seq = KeySeq key in
         if KeyCid key \<noteq> connection_id then (b, fast_candidates)
         else if \<not> largest > seq then (b, fast_candidates)
         else if largest - seq < fast_threshold then (b, fast_candidates)
         else if re_fast_rtx_mark entry = largest then (b, fast_candidates)
         else if fast_time_threshold > 0 \<and> now \<ge> re_first_sent_tick entry \<and>
                 now - re_first_sent_tick entry < fast_time_threshold then (b, fast_candidates)
         else (b\<lparr>rb_entries := (rb_entries b)(key \<mapsto> entry\<lparr>re_fast_rtx_mark := largest\<rparr>)\<rparr>,
               fast_candidates @ [key]))"

text \<open>
  \<^verbatim>\<open>Ack\<close>: collect the covered keys, release them, then scan what is left; the result is the RTT
  sample, the link it belongs to, the fast-retransmit candidates and the buffer.
\<close>

definition Ack ::
  "u64 list \<Rightarrow> rtx_buffer \<Rightarrow> u32 \<Rightarrow> u32 \<Rightarrow> ack_range list \<Rightarrow> u64 \<Rightarrow> u32 \<Rightarrow> u64 \<Rightarrow>
     u64 \<times> u16 \<times> u64 list \<times> rtx_buffer" where
  "Ack it b connection_id largest ranges now fast_threshold fast_time_threshold =
     (let acked = filter (\<lambda>k. KeyCid k = connection_id \<and> seq_acked ranges (KeySeq k)) it;
          a = fold (ack_one connection_id now) acked \<lparr>aa_rtt = 0, aa_link = 0, aa_buf = b\<rparr>;
          (b, candidates) = fold (fast_one connection_id largest now fast_threshold fast_time_threshold) it
                              (aa_buf a, [])
      in (aa_rtt a, aa_link a, candidates, b))"

fun shift_saturating :: "nat \<Rightarrow> u64 \<Rightarrow> u64" where
  "shift_saturating 0 effective = effective"
| "shift_saturating (Suc s) effective =
     (if effective > drop_bit 1 (- 1) then - 1 else shift_saturating s (push_bit 1 effective))"

definition effective_pto :: "u32 \<Rightarrow> u64 \<Rightarrow> u64 \<Rightarrow> u64" where
  "effective_pto attempts base_pto pto_max =
     (let shift = (if attempts > 5 then 5 else attempts);
          effective = shift_saturating (unat shift) base_pto
      in if effective > pto_max then pto_max else effective)"

fun CollectExpired ::
  "u64 list \<Rightarrow> rtx_buffer \<Rightarrow> u64 \<Rightarrow> u64 \<Rightarrow> u64 \<Rightarrow> nat \<Rightarrow> u64 list \<Rightarrow> u64 list" where
  "CollectExpired [] b now base_pto pto_max max_count expired = expired"
| "CollectExpired (key # it) b now base_pto pto_max max_count expired =
     (if length expired \<ge> max_count then expired
      else case rb_entries b key of
          None \<Rightarrow> CollectExpired it b now base_pto pto_max max_count expired
        | Some e \<Rightarrow>
            if now < re_last_sent_tick e then CollectExpired it b now base_pto pto_max max_count expired
            else CollectExpired it b now base_pto pto_max max_count
                   (if now - re_last_sent_tick e \<ge> effective_pto (re_attempts e) base_pto pto_max
                    then expired @ [key] else expired))"

definition MarkRetransmitted :: "rtx_buffer \<Rightarrow> u64 \<Rightarrow> u64 \<Rightarrow> u16 \<Rightarrow> rtx_buffer" where
  "MarkRetransmitted b key now link_id =
     (case rb_entries b key of
        None \<Rightarrow> b
      | Some e \<Rightarrow> b\<lparr>rb_entries := (rb_entries b)(key \<mapsto>
            e\<lparr>re_attempts := re_attempts e + 1, re_last_sent_tick := now, re_last_link_id := link_id\<rparr>)\<rparr>)"

fun take_inflight :: "u16 \<Rightarrow> u64 list \<Rightarrow> rtx_buffer \<Rightarrow> u64 list \<Rightarrow> rtx_buffer \<times> u64 list" where
  "take_inflight link_id [] b out = (b, out)"
| "take_inflight link_id (key # keys) b out =
     (case rb_entries b key of
        None \<Rightarrow> take_inflight link_id keys b out
      | Some e \<Rightarrow>
          if re_last_link_id e \<noteq> link_id then take_inflight link_id keys b out
          else take_inflight link_id keys
                 (b\<lparr>rb_entries := (rb_entries b)(key \<mapsto> e\<lparr>re_last_link_id := 0, re_last_sent_tick := 0\<rparr>)\<rparr>)
                 (out @ [key]))"

definition TakeLinkInflight :: "rtx_buffer \<Rightarrow> u16 \<Rightarrow> u64 list \<Rightarrow> rtx_buffer \<times> u64 list" where
  "TakeLinkInflight b link_id out =
     (if link_id = 0 then (b, out) else take_inflight link_id (rb_order b) b out)"

definition erase_one :: "u32 \<Rightarrow> u64 \<Rightarrow> rtx_buffer \<Rightarrow> rtx_buffer" where
  "erase_one connection_id key b =
     (case rb_entries b key of
        None \<Rightarrow> b
      | Some e \<Rightarrow>
          if KeyCid key = connection_id
          then b\<lparr>rb_bytes := rb_bytes b - re_length e, rb_order := remove1 key (rb_order b),
                 rb_entries := (rb_entries b)(key := None)\<rparr>
          else b)"

definition EraseCid :: "u64 list \<Rightarrow> rtx_buffer \<Rightarrow> u32 \<Rightarrow> rtx_buffer" where
  "EraseCid it b connection_id =
     fold (erase_one connection_id) it (b\<lparr>rb_cid_bytes := (rb_cid_bytes b)(connection_id := None)\<rparr>)"

definition rtx_Clear :: "rtx_buffer \<Rightarrow> rtx_buffer" where
  "rtx_Clear b = b\<lparr>rb_entries := (\<lambda>_. None), rb_order := [], rb_cid_bytes := (\<lambda>_. None), rb_bytes := 0\<rparr>"

section \<open>Keys\<close>

lemma KeyCid_Key [simp]: "KeyCid (Key c s) = c"
proof (rule bit_word_eqI)
  fix n assume "n < LENGTH(32)"
  then show "bit (KeyCid (Key c s)) n = bit c n"
    using bit_imp_le_length [of s "32 + n"] by (auto simp: KeyCid_def Key_def bit_simps)
qed

lemma KeySeq_Key [simp]: "KeySeq (Key c s) = s"
proof (rule bit_word_eqI)
  fix n assume "n < LENGTH(32)"
  then show "bit (KeySeq (Key c s)) n = bit s n"
    by (auto simp: KeySeq_def Key_def mask_FFFFFFFF bit_simps)
qed

lemma Key_KeyCid_KeySeq: "Key (KeyCid k) (KeySeq k) = k"
proof (rule bit_word_eqI)
  fix n assume n: "n < LENGTH(64)"
  then show "bit (Key (KeyCid k) (KeySeq k)) n = bit k n"
    by (cases "n < 32") (auto simp: KeySeq_def KeyCid_def Key_def mask_FFFFFFFF bit_simps)
qed

section \<open>Accounting invariant\<close>

definition entry_len :: "(u64 \<rightharpoonup> rtx_entry) \<Rightarrow> u64 \<Rightarrow> nat" where
  "entry_len es k = (case es k of None \<Rightarrow> 0 | Some e \<Rightarrow> re_length e)"

definition cid_sum :: "rtx_buffer \<Rightarrow> u32 \<Rightarrow> nat" where
  "cid_sum b c = sum_list (map (entry_len (rb_entries b)) (filter (\<lambda>k. KeyCid k = c) (rb_order b)))"

text \<open>The accounting holds for every connection outside \<open>C\<close>.\<close>

definition rtx_inv_except :: "u32 set \<Rightarrow> rtx_buffer \<Rightarrow> bool" where
  "rtx_inv_except C b \<longleftrightarrow>
     distinct (rb_order b) \<and> set (rb_order b) = dom (rb_entries b) \<and>
     rb_bytes b = sum_list (map (entry_len (rb_entries b)) (rb_order b)) \<and>
     (\<forall>c. c \<notin> C \<longrightarrow> CidBytes b c = cid_sum b c)"

abbreviation rtx_inv :: "rtx_buffer \<Rightarrow> bool" where
  "rtx_inv \<equiv> rtx_inv_except {}"

definition enumerates :: "u64 list \<Rightarrow> rtx_buffer \<Rightarrow> bool" where
  "enumerates it b \<longleftrightarrow> distinct it \<and> set it = dom (rb_entries b)"

lemma sum_list_filter_remove1:
  assumes "distinct xs" and "k \<in> set xs"
  shows "sum_list (map f (filter P (remove1 k xs))) =
         (sum_list (map f (filter P xs)) :: nat) - (if P k then f k else 0)"
proof -
  have "filter P (remove1 k xs) = (if P k then remove1 k (filter P xs) else filter P xs)"
    using assms by (auto simp: filter_remove1 remove1_idem)
  then show ?thesis using assms sum_list_map_remove1 [of k "filter P xs" f] by auto
qed

lemma entry_len_upd_sum:
  "k \<notin> set xs \<Longrightarrow> sum_list (map (entry_len (es(k := v))) xs) = sum_list (map (entry_len es) xs)"
  by (auto simp: entry_len_def intro!: arg_cong [where f = sum_list] map_cong)

text \<open>Removing one entry, as \<^verbatim>\<open>Ack\<close> and \<^verbatim>\<open>EraseCid\<close> do.\<close>

definition remove_key :: "u64 \<Rightarrow> rtx_entry \<Rightarrow> (u32 \<rightharpoonup> nat) \<Rightarrow> rtx_buffer \<Rightarrow> rtx_buffer" where
  "remove_key k e cb b = b\<lparr>rb_bytes := rb_bytes b - re_length e, rb_cid_bytes := cb,
     rb_order := remove1 k (rb_order b), rb_entries := (rb_entries b)(k := None)\<rparr>"

lemma remove_key_inv:
  assumes inv: "rtx_inv_except C b" and e: "rb_entries b k = Some e"
    and cb: "\<And>c. c \<notin> C \<Longrightarrow> CidBytes (b\<lparr>rb_cid_bytes := cb\<rparr>) c =
                CidBytes b c - (if c = KeyCid k then re_length e else 0)"
  shows "rtx_inv_except C (remove_key k e cb b)"
proof -
  have d: "distinct (rb_order b)" "set (rb_order b) = dom (rb_entries b)" "k \<in> set (rb_order b)"
    using inv e by (auto simp: rtx_inv_except_def)
  have k: "k \<notin> set (remove1 k (rb_order b))" using d by simp
  have len: "entry_len (rb_entries b) k = re_length e" using e by (simp add: entry_len_def)
  have "CidBytes (remove_key k e cb b) c = CidBytes (b\<lparr>rb_cid_bytes := cb\<rparr>) c" for c
    by (simp add: CidBytes_def remove_key_def)
  moreover have "cid_sum (remove_key k e cb b) c =
                 cid_sum b c - (if KeyCid k = c then re_length e else 0)" for c
    using k sum_list_filter_remove1 [OF d(1,3), of "entry_len (rb_entries b)" "\<lambda>k. KeyCid k = c"]
    by (simp add: cid_sum_def remove_key_def entry_len_upd_sum len)
  moreover have "sum_list (map (entry_len (rb_entries b)) (remove1 k (rb_order b))) =
                 sum_list (map (entry_len (rb_entries b)) (rb_order b)) - re_length e"
    using sum_list_map_remove1 [OF d(3), of "entry_len (rb_entries b)"] by (simp add: len)
  ultimately show ?thesis
    using inv k d cb unfolding rtx_inv_except_def
    by (auto simp: remove_key_def entry_len_upd_sum)
qed

lemma CidBytes_Release:
  "CidBytes (b\<lparr>rb_cid_bytes := ReleaseCidBytes (rb_cid_bytes b) cid n\<rparr>) c =
     CidBytes b c - (if c = cid then n else 0)"
  by (simp add: CidBytes_def ReleaseCidBytes_def split: option.splits)

text \<open>An update of one entry that keeps its length.\<close>

lemma update_entry_inv:
  assumes "rtx_inv_except C b" and "rb_entries b k = Some e" and "re_length e' = re_length e"
  shows "rtx_inv_except C (b\<lparr>rb_entries := (rb_entries b)(k \<mapsto> e')\<rparr>)"
proof -
  have "entry_len ((rb_entries b)(k \<mapsto> e')) = entry_len (rb_entries b)"
    using assms by (auto simp: entry_len_def fun_eq_iff)
  then show ?thesis using assms
    by (auto simp: rtx_inv_except_def CidBytes_def cid_sum_def)
qed

lemma Track_inv:
  assumes "rtx_inv b"
  shows "rtx_inv (snd (Track b cid seq buf n now cap link))"
proof (cases "rb_entries b (Key cid seq)")
  case None
  then have "Key cid seq \<notin> set (rb_order b)" using assms by (auto simp: rtx_inv_except_def)
  then show ?thesis using assms None
    by (auto simp: rtx_inv_except_def Track_def Let_def cid_sum_def CidBytes_def entry_len_upd_sum)
       (auto simp: entry_len_def)
qed (use assms in \<open>simp add: Track_def\<close>)

lemma ack_one_buf:
  "aa_buf (ack_one cid now k a) =
     (case rb_entries (aa_buf a) k of None \<Rightarrow> aa_buf a
      | Some e \<Rightarrow> remove_key k e (ReleaseCidBytes (rb_cid_bytes (aa_buf a)) cid (re_length e)) (aa_buf a))"
  by (simp add: ack_one_def remove_key_def Let_def split: option.splits)

lemma ack_one_inv:
  assumes "rtx_inv (aa_buf a)" and "KeyCid k = cid"
  shows "rtx_inv (aa_buf (ack_one cid now k a))"
  using assms remove_key_inv [OF assms(1)] CidBytes_Release
  by (auto simp: ack_one_buf split: option.splits)

lemma fold_invariant_set:
  "P s \<Longrightarrow> (\<And>x s. x \<in> set xs \<Longrightarrow> P s \<Longrightarrow> P (f x s)) \<Longrightarrow> P (fold f xs s)"
  by (induction xs arbitrary: s) auto

lemma fast_one_inv:
  "rtx_inv_except C (fst p) \<Longrightarrow> rtx_inv_except C (fst (fast_one cid l now t tt k p))"
  by (cases p) (auto simp: fast_one_def Let_def intro: update_entry_inv split: option.splits)

lemma Ack_inv:
  assumes "rtx_inv b"
  shows "rtx_inv (snd (snd (snd (Ack it b cid l rs now t tt))))"
proof -
  let ?acked = "filter (\<lambda>k. KeyCid k = cid \<and> seq_acked rs (KeySeq k)) it"
  let ?a = "fold (ack_one cid now) ?acked \<lparr>aa_rtt = 0, aa_link = 0, aa_buf = b\<rparr>"
  have "rtx_inv (aa_buf ?a)"
    by (rule fold_invariant_set [where P = "\<lambda>a. rtx_inv (aa_buf a)"])
       (use assms in \<open>auto intro: ack_one_inv\<close>)
  then have "rtx_inv (fst (fold (fast_one cid l now t tt) it (aa_buf ?a, [])))"
    by (intro fold_invariant_set [where P = "\<lambda>p. rtx_inv (fst p)"]) (auto intro: fast_one_inv)
  then show ?thesis by (simp add: Ack_def Let_def case_prod_beta)
qed

lemma MarkRetransmitted_inv: "rtx_inv b \<Longrightarrow> rtx_inv (MarkRetransmitted b k now link)"
  by (auto simp: MarkRetransmitted_def intro: update_entry_inv split: option.splits)

lemma take_inflight_inv: "rtx_inv b \<Longrightarrow> rtx_inv (fst (take_inflight link ks b out))"
  by (induction link ks b out rule: take_inflight.induct)
     (auto simp: update_entry_inv split: option.splits)

lemma TakeLinkInflight_inv: "rtx_inv b \<Longrightarrow> rtx_inv (fst (TakeLinkInflight b link out))"
  by (simp add: TakeLinkInflight_def take_inflight_inv)

lemma erase_one_eq:
  "erase_one cid k b =
     (case rb_entries b k of None \<Rightarrow> b
      | Some e \<Rightarrow> if KeyCid k = cid then remove_key k e (rb_cid_bytes b) b else b)"
  by (simp add: erase_one_def remove_key_def split: option.splits)

lemma erase_one_inv: "rtx_inv_except {cid} b \<Longrightarrow> rtx_inv_except {cid} (erase_one cid k b)"
  by (auto simp: erase_one_eq CidBytes_def intro!: remove_key_inv split: option.splits if_splits)

lemma erase_entries:
  "rb_entries (fold (erase_one cid) it b) k =
     (if k \<in> set it \<and> KeyCid k = cid then None else rb_entries b k)"
  by (induction it arbitrary: b) (auto simp: erase_one_def split: option.splits)

lemma erase_cid_bytes: "rb_cid_bytes (fold (erase_one cid) it b) = rb_cid_bytes b"
  by (induction it arbitrary: b) (auto simp: erase_one_def split: option.splits)

lemma EraseCid_entries:
  "enumerates it b \<Longrightarrow>
     rb_entries (EraseCid it b cid) k = (if KeyCid k = cid then None else rb_entries b k)"
  by (auto simp: EraseCid_def erase_entries enumerates_def)

lemma EraseCid_inv:
  assumes inv: "rtx_inv b" and it: "enumerates it b"
  shows "rtx_inv (EraseCid it b cid)"
proof -
  let ?b0 = "b\<lparr>rb_cid_bytes := (rb_cid_bytes b)(cid := None)\<rparr>"
  have "rtx_inv_except {cid} ?b0"
    using inv by (auto simp: rtx_inv_except_def CidBytes_def cid_sum_def)
  then have I: "rtx_inv_except {cid} (EraseCid it b cid)"
    unfolding EraseCid_def
    by (rule fold_invariant_set [where P = "rtx_inv_except {cid}"]) (rule erase_one_inv)
  have "KeyCid k \<noteq> cid" if "k \<in> set (rb_order (EraseCid it b cid))" for k
    using that I EraseCid_entries [OF it, of cid k]
    by (auto simp: rtx_inv_except_def dom_def split: if_splits)
  then have "filter (\<lambda>k. KeyCid k = cid) (rb_order (EraseCid it b cid)) = []"
    by (simp add: filter_empty_conv)
  moreover have "CidBytes (EraseCid it b cid) cid = 0"
    by (simp add: CidBytes_def EraseCid_def erase_cid_bytes)
  ultimately have "CidBytes (EraseCid it b cid) cid = cid_sum (EraseCid it b cid) cid"
    by (simp add: cid_sum_def)
  then show ?thesis using I unfolding rtx_inv_except_def by auto
qed

lemma rtx_empty_inv: "rtx_inv rtx_empty"
  by (simp add: rtx_inv_except_def rtx_empty_def CidBytes_def cid_sum_def)

lemma rtx_Clear_empty: "rtx_Clear b = rtx_empty"
  by (simp add: rtx_Clear_def rtx_empty_def)

section \<open>Reachable buffers\<close>

text \<open>Every sequence of calls of the owner, all tracked under one byte cap.\<close>

inductive rtx_reach :: "nat \<Rightarrow> rtx_buffer \<Rightarrow> bool" for cap where
  reach_empty: "rtx_reach cap rtx_empty"
| reach_track: "rtx_reach cap b \<Longrightarrow> rtx_reach cap (snd (Track b cid seq buf n now cap link))"
| reach_ack: "rtx_reach cap b \<Longrightarrow> enumerates it b \<Longrightarrow>
     Ack it b cid l rs now t tt = (rtt, lnk, cs, b') \<Longrightarrow> rtx_reach cap b'"
| reach_mark: "rtx_reach cap b \<Longrightarrow> rtx_reach cap (MarkRetransmitted b k now link)"
| reach_take: "rtx_reach cap b \<Longrightarrow> TakeLinkInflight b link out = (b', out') \<Longrightarrow> rtx_reach cap b'"
| reach_erase: "rtx_reach cap b \<Longrightarrow> enumerates it b \<Longrightarrow> rtx_reach cap (EraseCid it b cid)"
| reach_clear: "rtx_reach cap b \<Longrightarrow> rtx_reach cap (rtx_Clear b)"

lemma rtx_reach_inv: "rtx_reach cap b \<Longrightarrow> rtx_inv b"
proof (induction rule: rtx_reach.induct)
  case (reach_ack b it cid l rs now t tt rtt lnk cs b')
  then show ?case using Ack_inv [of b it cid l rs now t tt] by simp
next
  case (reach_take b link out b' out')
  then show ?case using TakeLinkInflight_inv [of b link out] by simp
qed (auto simp: rtx_empty_inv rtx_Clear_empty intro: Track_inv MarkRetransmitted_inv EraseCid_inv)

text \<open>No operation but \<^verbatim>\<open>Track\<close> raises the byte count.\<close>

lemma ack_one_bytes: "rb_bytes (aa_buf (ack_one cid now k a)) \<le> rb_bytes (aa_buf a)"
  by (simp add: ack_one_buf remove_key_def split: option.splits)

lemma fast_one_bytes: "rb_bytes (fst (fast_one cid l now t tt k p)) = rb_bytes (fst p)"
  by (cases p) (simp add: fast_one_def Let_def split: option.splits)

lemma Ack_bytes:
  assumes "Ack it b cid l rs now t tt = (rtt, lnk, cs, b')"
  shows "rb_bytes b' \<le> rb_bytes b"
proof -
  let ?acked = "filter (\<lambda>k. KeyCid k = cid \<and> seq_acked rs (KeySeq k)) it"
  let ?a = "fold (ack_one cid now) ?acked \<lparr>aa_rtt = 0, aa_link = 0, aa_buf = b\<rparr>"
  have "rb_bytes (aa_buf ?a) \<le> rb_bytes b"
    by (rule fold_invariant_set [where P = "\<lambda>a. rb_bytes (aa_buf a) \<le> rb_bytes b"])
       (auto intro: order_trans [OF ack_one_bytes])
  moreover have "rb_bytes (fst (fold (fast_one cid l now t tt) it (aa_buf ?a, []))) = rb_bytes (aa_buf ?a)"
    by (rule fold_invariant_set [where P = "\<lambda>p. rb_bytes (fst p) = rb_bytes (aa_buf ?a)"])
       (auto simp: fast_one_bytes)
  ultimately show ?thesis using assms by (auto simp: Ack_def Let_def case_prod_beta)
qed

lemma take_inflight_bytes: "rb_bytes (fst (take_inflight link ks b out)) = rb_bytes b"
  by (induction link ks b out rule: take_inflight.induct) (auto split: option.splits)

lemma EraseCid_bytes: "rb_bytes (EraseCid it b cid) \<le> rb_bytes b"
  unfolding EraseCid_def
  by (rule fold_invariant_set [where P = "\<lambda>x. rb_bytes x \<le> rb_bytes b"])
     (auto simp: erase_one_def split: option.splits)

lemma rtx_reach_bytes: "rtx_reach cap b \<Longrightarrow> 0 < cap \<Longrightarrow> rb_bytes b \<le> cap"
proof (induction rule: rtx_reach.induct)
  case (reach_ack b it cid l rs now t tt rtt lnk cs b')
  then show ?case using Ack_bytes [of it b cid l rs now t tt rtt lnk cs b'] by simp
next
  case (reach_take b link out b' out')
  then show ?case using take_inflight_bytes [of link "rb_order b" b out]
    by (auto simp: TakeLinkInflight_def split: if_splits)
next
  case (reach_erase b it cid)
  then show ?case using EraseCid_bytes [of it b cid] by simp
qed (auto simp: rtx_Clear_empty Track_def Let_def MarkRetransmitted_def rtx_empty_def split: option.splits)

section \<open>Acknowledgement\<close>

definition fast_due :: "u32 \<Rightarrow> u32 \<Rightarrow> u64 \<Rightarrow> u32 \<Rightarrow> u64 \<Rightarrow> u64 \<Rightarrow> rtx_entry \<Rightarrow> bool" where
  "fast_due cid largest now t tt k e \<longleftrightarrow>
     KeyCid k = cid \<and> largest > KeySeq k \<and> largest - KeySeq k \<ge> t \<and> re_fast_rtx_mark e \<noteq> largest \<and>
     (tt = 0 \<or> now < re_first_sent_tick e \<or> now - re_first_sent_tick e \<ge> tt)"

definition due_in :: "u32 \<Rightarrow> u32 \<Rightarrow> u64 \<Rightarrow> u32 \<Rightarrow> u64 \<Rightarrow> rtx_buffer \<Rightarrow> u64 \<Rightarrow> bool" where
  "due_in cid largest now t tt b k =
     (case rb_entries b k of None \<Rightarrow> False | Some e \<Rightarrow> fast_due cid largest now t tt k e)"

lemma fast_one_eq:
  "fast_one cid l now t tt k (b, cs) =
     (if due_in cid l now t tt b k
      then (b\<lparr>rb_entries := (rb_entries b)(k \<mapsto> (the (rb_entries b k))\<lparr>re_fast_rtx_mark := l\<rparr>)\<rparr>, cs @ [k])
      else (b, cs))"
  by (auto simp: fast_one_def due_in_def fast_due_def Let_def not_less not_le word_gt_0 split: option.splits)

lemma due_in_other:
  "k \<noteq> k' \<Longrightarrow> due_in cid l now t tt (b\<lparr>rb_entries := (rb_entries b)(k' \<mapsto> e)\<rparr>) k = due_in cid l now t tt b k"
  by (simp add: due_in_def)

lemma fold_fast_one:
  "distinct it \<Longrightarrow> fold (fast_one cid l now t tt) it (b, cs) = (b', cs') \<Longrightarrow>
     cs' = cs @ filter (due_in cid l now t tt b) it \<and>
     (\<forall>k. rb_entries b' k =
        (if k \<in> set it \<and> due_in cid l now t tt b k
         then Some ((the (rb_entries b k))\<lparr>re_fast_rtx_mark := l\<rparr>) else rb_entries b k))"
proof (induction it arbitrary: b cs)
  case (Cons a it)
  let ?D = "due_in cid l now t tt"
  let ?b = "b\<lparr>rb_entries := (rb_entries b)(a \<mapsto> (the (rb_entries b a))\<lparr>re_fast_rtx_mark := l\<rparr>)\<rparr>"
  show ?case
  proof (cases "?D b a")
    case True
    have D: "?D ?b k = ?D b k" if "k \<in> set it" for k
      by (rule due_in_other) (use Cons.prems(1) that in auto)
    then have "filter (?D ?b) it = filter (?D b) it" by (rule filter_cong [OF refl])
    moreover note D
    moreover have "cs' = (cs @ [a]) @ filter (?D ?b) it \<and>
       (\<forall>k. rb_entries b' k = (if k \<in> set it \<and> ?D ?b k
         then Some ((the (rb_entries ?b k))\<lparr>re_fast_rtx_mark := l\<rparr>) else rb_entries ?b k))"
      using Cons.IH [of ?b "cs @ [a]"] Cons.prems True by (simp add: fast_one_eq)
    ultimately show ?thesis using True Cons.prems(1) by auto
  next
    case False
    then show ?thesis using Cons by (auto simp: fast_one_eq)
  qed
qed simp

lemma fold_ack_entries:
  "rb_entries (aa_buf (fold (ack_one cid now) ks a)) k =
     (if k \<in> set ks then None else rb_entries (aa_buf a) k)"
  by (induction ks arbitrary: a) (auto simp: ack_one_buf remove_key_def split: option.splits)

text \<open>Where the RTT sample comes from.\<close>

definition sample_from :: "rtx_buffer \<Rightarrow> u64 set \<Rightarrow> u64 \<Rightarrow> ack_acc \<Rightarrow> bool" where
  "sample_from b K now a \<longleftrightarrow> aa_rtt a = 0 \<or>
     (\<exists>k\<in>K. \<exists>e. rb_entries b k = Some e \<and> re_attempts e = 0 \<and> re_first_sent_tick e \<le> now \<and>
        aa_rtt a = now - re_first_sent_tick e \<and> aa_link a = re_orig_link_id e)"

lemma ack_one_sample:
  "k \<in> K \<Longrightarrow> sample_from b K now a \<Longrightarrow>
     (\<And>k e. rb_entries (aa_buf a) k = Some e \<Longrightarrow> rb_entries b k = Some e) \<Longrightarrow>
     sample_from b K now (ack_one cid now k a)"
  by (auto simp: sample_from_def ack_one_def Let_def split: option.splits)

lemma fold_ack_sample:
  "set ks \<subseteq> K \<Longrightarrow> sample_from b K now a \<Longrightarrow>
     (\<And>k e. rb_entries (aa_buf a) k = Some e \<Longrightarrow> rb_entries b k = Some e) \<Longrightarrow>
     sample_from b K now (fold (ack_one cid now) ks a)"
proof (induction ks arbitrary: a)
  case (Cons k ks)
  have sub: "rb_entries (aa_buf (ack_one cid now k a)) j = Some e \<Longrightarrow> rb_entries b j = Some e" for j e
    using Cons.prems(3) by (auto simp: ack_one_buf remove_key_def split: option.splits if_splits)
  have "sample_from b K now (ack_one cid now k a)"
    using ack_one_sample [of k K b now a cid] Cons.prems by auto
  then show ?case using Cons.IH [of "ack_one cid now k a"] Cons.prems(1) sub by simp
qed simp

lemma Ack_cases:
  assumes it: "enumerates it b" and ack: "Ack it b cid l rs now t tt = (rtt, link, cs, b')"
  defines "acked \<equiv> \<lambda>k. KeyCid k = cid \<and> seq_acked rs (KeySeq k)"
  shows "cs = filter (\<lambda>k. \<not> acked k \<and> due_in cid l now t tt b k) it"
    and "rb_entries b' k = (if acked k then None
           else if due_in cid l now t tt b k then Some ((the (rb_entries b k))\<lparr>re_fast_rtx_mark := l\<rparr>)
           else rb_entries b k)"
    and "sample_from b {k. acked k} now \<lparr>aa_rtt = rtt, aa_link = link, aa_buf = b'\<rparr>"
proof -
  let ?a = "fold (ack_one cid now) (filter acked it) \<lparr>aa_rtt = 0, aa_link = 0, aa_buf = b\<rparr>"
  have F: "fold (fast_one cid l now t tt) it (aa_buf ?a, []) = (b', cs)"
    and r: "rtt = aa_rtt ?a" "link = aa_link ?a"
    using ack by (auto simp: Ack_def Let_def acked_def case_prod_beta prod_eq_iff)
  have e: "rb_entries (aa_buf ?a) k = (if acked k then None else rb_entries b k)" for k
    using it by (auto simp: fold_ack_entries enumerates_def)
  then have due: "due_in cid l now t tt (aa_buf ?a) k \<longleftrightarrow> \<not> acked k \<and> due_in cid l now t tt b k" for k
    by (simp add: due_in_def)
  have d: "distinct it" using it by (simp add: enumerates_def)
  note spec = fold_fast_one [OF d F, unfolded due]
  show "cs = filter (\<lambda>k. \<not> acked k \<and> due_in cid l now t tt b k) it" using spec by simp
  have "due_in cid l now t tt b k \<Longrightarrow> k \<in> set it"
    using it by (auto simp: enumerates_def due_in_def split: option.splits)
  then show "rb_entries b' k = (if acked k then None
           else if due_in cid l now t tt b k then Some ((the (rb_entries b k))\<lparr>re_fast_rtx_mark := l\<rparr>)
           else rb_entries b k)"
    using spec by (simp add: e)
  have "sample_from b {k. acked k} now ?a"
    by (rule fold_ack_sample) (auto simp: sample_from_def)
  then show "sample_from b {k. acked k} now \<lparr>aa_rtt = rtt, aa_link = link, aa_buf = b'\<rparr>"
    by (simp add: sample_from_def r)
qed

section \<open>Timeouts and carrier exits\<close>

lemma unat_shift_saturating:
  "unat (shift_saturating s x) = min (2 ^ 64 - 1) (unat x * 2 ^ s)"
proof (induction s x rule: shift_saturating.induct)
  case (1 x)
  then show ?case using unsigned_less [of x, where 'a = nat] by simp
next
  case (2 s x)
  have "drop_bit 1 (- 1 :: u64) = 0x7FFFFFFFFFFFFFFF" by (simp add: mask_eq_exp_minus_1)
  then have half: "x > drop_bit 1 (- 1) \<longleftrightarrow> 2 ^ 63 \<le> unat x"
    unfolding word_less_nat_alt by simp presburger
  show ?case
  proof (cases "x > drop_bit 1 (- 1)")
    case True
    then have "2 ^ 63 \<le> unat x" by (simp only: half)
    then have "2 ^ 63 * 2 \<le> unat x * 2 ^ Suc s"
      by (intro mult_le_mono) (simp_all add: self_le_power)
    then show ?thesis using True by (simp add: unsigned_minus_1_eq_mask mask_eq_exp_minus_1)
  next
    case False
    then have le: "unat x < 2 ^ 63" by (simp only: half not_le)
    then have "unat (push_bit 1 x) = unat x * 2"
      by (simp add: push_bit_eq_mult unat_word_ariths)
    then show ?thesis using False 2 by (simp add: mult.assoc)
  qed
qed

lemma unat_effective_pto:
  "unat (effective_pto n base m) = min (unat m) (unat base * 2 ^ min (unat n) 5)"
proof -
  have "unat (if n > 5 then 5 else n) = min (unat n) 5"
    by (simp add: word_less_nat_alt min_def)
  then have "unat (effective_pto n base m) = min (unat m) (min (2 ^ 64 - 1) (unat base * 2 ^ min (unat n) 5))"
    by (simp add: effective_pto_def Let_def word_less_nat_alt unat_shift_saturating min_def)
  moreover have "unat m \<le> 2 ^ 64 - 1" using unsigned_less [of m, where 'a = nat] by simp
  ultimately show ?thesis by (simp add: min_def)
qed

definition pto_expired :: "rtx_buffer \<Rightarrow> u64 \<Rightarrow> u64 \<Rightarrow> u64 \<Rightarrow> u64 \<Rightarrow> bool" where
  "pto_expired b now base m k =
     (case rb_entries b k of None \<Rightarrow> False
      | Some e \<Rightarrow> unat now \<ge> unat (re_last_sent_tick e) + min (unat m) (unat base * 2 ^ min (unat (re_attempts e)) 5))"

lemma expired_test:
  "(\<not> now < tick \<and> now - tick \<ge> effective_pto n base m) \<longleftrightarrow>
     unat now \<ge> unat tick + min (unat m) (unat base * 2 ^ min (unat n) 5)"
  unfolding word_le_nat_alt word_less_nat_alt unat_effective_pto [symmetric]
  by (auto simp: unat_sub_if')

lemma CollectExpired_eq:
  "length expired \<le> n \<Longrightarrow>
   CollectExpired it b now base m n expired = expired @ take (n - length expired) (filter (pto_expired b now base m) it)"
proof (induction it b now base m n expired rule: CollectExpired.induct)
  case (2 key it b now base m n expired)
  have "pto_expired b now base m key \<longleftrightarrow>
          (\<exists>e. rb_entries b key = Some e \<and> \<not> now < re_last_sent_tick e \<and>
               now - re_last_sent_tick e \<ge> effective_pto (re_attempts e) base m)"
    by (auto simp: pto_expired_def expired_test split: option.splits)
  then show ?case using 2
    by (cases "length expired = n") (auto simp: Suc_diff_Suc take_Cons' split: option.splits)
qed simp

lemma take_inflight_eq:
  "distinct ks \<Longrightarrow> link \<noteq> 0 \<Longrightarrow> take_inflight link ks b out = (b', out') \<Longrightarrow>
     out' = out @ filter (\<lambda>k. \<exists>e. rb_entries b k = Some e \<and> re_last_link_id e = link) ks \<and>
     (\<forall>k. rb_entries b' k = (case rb_entries b k of None \<Rightarrow> None
        | Some e \<Rightarrow> if k \<in> set ks \<and> re_last_link_id e = link
                    then Some (e\<lparr>re_last_link_id := 0, re_last_sent_tick := 0\<rparr>) else Some e))"
proof (induction link ks b out rule: take_inflight.induct)
  case (2 link key keys b out)
  show ?case
  proof (cases "\<exists>e. rb_entries b key = Some e \<and> re_last_link_id e = link")
    case True
    then obtain e where e: "rb_entries b key = Some e" "re_last_link_id e = link" by blast
    let ?b = "b\<lparr>rb_entries := (rb_entries b)(key \<mapsto> e\<lparr>re_last_link_id := 0, re_last_sent_tick := 0\<rparr>)\<rparr>"
    have "filter (\<lambda>k. \<exists>e. rb_entries ?b k = Some e \<and> re_last_link_id e = link) keys =
          filter (\<lambda>k. \<exists>e. rb_entries b k = Some e \<and> re_last_link_id e = link) keys"
      using 2(4) by (intro filter_cong) auto
    then show ?thesis using 2 e by (fastforce split: option.splits)
  next
    case False
    then have "take_inflight link keys b out = (b', out')"
      using 2(6) by (auto split: option.splits if_splits)
    then show ?thesis using 2 False by (fastforce split: option.splits)
  qed
qed (auto split: option.splits)

lemma filter_True_const: "filter (\<lambda>_. True) xs = xs"
  by simp

section \<open>Properties\<close>

text \<open>
  C5. In every buffer reachable by the owner's calls, whatever the hash order, the insertion list
  and the map hold the same keys without repetition, \<^verbatim>\<open>bytes()\<close> is the sum of the retained frame
  lengths, \<^verbatim>\<open>CidBytes\<close> is the sum over the frames of that connection, and the byte cap given to
  \<^verbatim>\<open>Track\<close> is never exceeded.
\<close>

theorem rtx_accounting:
  assumes "rtx_reach cap b"
  shows "distinct (rb_order b) \<and> set (rb_order b) = dom (rb_entries b) \<and>
         rb_bytes b = sum_list (map (\<lambda>k. re_length (the (rb_entries b k))) (rb_order b)) \<and>
         (\<forall>c. CidBytes b c = sum_list (map (\<lambda>k. re_length (the (rb_entries b k)))
                                       (filter (\<lambda>k. KeyCid k = c) (rb_order b)))) \<and>
         (cap > 0 \<longrightarrow> rb_bytes b \<le> cap)"
proof -
  have inv: "rtx_inv b" using rtx_reach_inv [OF assms] .
  then have m: "sum_list (map (entry_len (rb_entries b)) (filter P (rb_order b))) =
      sum_list (map (\<lambda>k. re_length (the (rb_entries b k))) (filter P (rb_order b)))" for P
    by (intro arg_cong [where f = sum_list] map_cong [OF refl])
       (auto simp: entry_len_def rtx_inv_except_def dom_def split: option.splits)
  have m0: "sum_list (map (entry_len (rb_entries b)) (rb_order b)) =
      sum_list (map (\<lambda>k. re_length (the (rb_entries b k))) (rb_order b))"
    by (rule m [of "\<lambda>_. True", unfolded filter_True_const])
  show ?thesis
    using inv rtx_reach_bytes [OF assms] unfolding rtx_inv_except_def cid_sum_def m m0 by blast
qed

theorem rtx_accounting_witness:
  "let b = snd (Track rtx_empty 5 1 [] 100 0 4096 2) in
   rb_bytes b = 100 \<and> CidBytes b 5 = 100 \<and> rb_bytes b \<le> 4096 \<and> distinct (rb_order b)"
proof -
  let ?b = "snd (Track rtx_empty 5 1 [] 100 0 4096 2)"
  have "rtx_reach 4096 ?b" by (intro rtx_reach.intros)
  from rtx_accounting [OF this] show ?thesis
    by (simp add: Track_def rtx_empty_def CidBytes_def Let_def)
qed

text \<open>
  C6. \<^verbatim>\<open>Ack\<close> releases exactly the frames of the acknowledged connection whose sequence lies in an
  acknowledged range and leaves every other frame in place; it reports, once each, exactly the
  remaining frames of that connection that are at least the threshold below \<^verbatim>\<open>largest\<close>, old enough,
  and not yet reported for this \<^verbatim>\<open>largest\<close>, and marks them, so that no later ACK with the same
  \<^verbatim>\<open>largest\<close> reports them again; a non-zero RTT sample is the age of an acknowledged frame that was
  never retransmitted (Karn's rule), attributed to the link it was first sent on.
\<close>

theorem Ack_correct:
  assumes "enumerates it b" and "Ack it b cid l rs now t tt = (rtt, link, cs, b')"
  shows "(\<forall>k. rb_entries b' k = None \<longleftrightarrow>
            rb_entries b k = None \<or> KeyCid k = cid \<and> seq_acked rs (KeySeq k)) \<and>
         (\<forall>k e'. rb_entries b' k = Some e' \<longrightarrow>
            (\<exists>e. rb_entries b k = Some e \<and> (e' = e \<or> k \<in> set cs \<and> e' = e\<lparr>re_fast_rtx_mark := l\<rparr>))) \<and>
         distinct cs \<and>
         set cs = {k. \<exists>e. rb_entries b k = Some e \<and> \<not> seq_acked rs (KeySeq k) \<and> fast_due cid l now t tt k e} \<and>
         (\<forall>k\<in>set cs. \<forall>e now2 t2 tt2. rb_entries b' k = Some e \<longrightarrow> \<not> fast_due cid l now2 t2 tt2 k e) \<and>
         (rtt \<noteq> 0 \<longrightarrow> (\<exists>k e. rb_entries b k = Some e \<and> KeyCid k = cid \<and> seq_acked rs (KeySeq k) \<and>
            re_attempts e = 0 \<and> re_first_sent_tick e \<le> now \<and> rtt = now - re_first_sent_tick e \<and>
            link = re_orig_link_id e))"
proof -
  note A = Ack_cases [OF assms]
  have it: "distinct it" "set it = dom (rb_entries b)" using assms(1) by (auto simp: enumerates_def)
  have cs: "set cs = {k. \<exists>e. rb_entries b k = Some e \<and> \<not> seq_acked rs (KeySeq k) \<and> fast_due cid l now t tt k e}"
    using it unfolding A(1) by (auto simp: due_in_def fast_due_def dom_def split: option.splits)
  have gone: "\<forall>k. rb_entries b' k = None \<longleftrightarrow>
      rb_entries b k = None \<or> KeyCid k = cid \<and> seq_acked rs (KeySeq k)"
    by (auto simp: A(2) due_in_def split: option.splits)
  have kept: "\<forall>k e'. rb_entries b' k = Some e' \<longrightarrow>
      (\<exists>e. rb_entries b k = Some e \<and> (e' = e \<or> k \<in> set cs \<and> e' = e\<lparr>re_fast_rtx_mark := l\<rparr>))"
    unfolding cs by (auto simp: A(2) due_in_def fast_due_def split: option.splits if_splits)
  have marked: "\<forall>k\<in>set cs. \<forall>e now2 t2 tt2. rb_entries b' k = Some e \<longrightarrow> \<not> fast_due cid l now2 t2 tt2 k e"
    unfolding cs by (auto simp: A(2) due_in_def fast_due_def split: option.splits if_splits)
  have sample: "rtt \<noteq> 0 \<longrightarrow> (\<exists>k e. rb_entries b k = Some e \<and> KeyCid k = cid \<and> seq_acked rs (KeySeq k) \<and>
      re_attempts e = 0 \<and> re_first_sent_tick e \<le> now \<and> rtt = now - re_first_sent_tick e \<and>
      link = re_orig_link_id e)"
    using A(3) by (auto simp: sample_from_def)
  have "distinct cs" using it(1) by (simp add: A(1))
  then show ?thesis by (intro conjI gone kept cs marked sample)
qed

theorem Ack_correct_witness:
  "let b = snd (Track rtx_empty 5 1 [] 100 10 4096 2);
       (rtt, link, cs, b') = Ack [Key 5 1] b 5 1 [\<lparr>ar_start = 1, ar_end = 1\<rparr>] 30 3 0
   in rtt = 20 \<and> link = 2 \<and> cs = [] \<and> rb_entries b' (Key 5 1) = None"
proof -
  let ?b = "snd (Track rtx_empty 5 1 [] 100 10 4096 2)"
  obtain rtt link cs b' where A: "Ack [Key 5 1] ?b 5 1 [\<lparr>ar_start = 1, ar_end = 1\<rparr>] 30 3 0 = (rtt, link, cs, b')"
    by (metis prod_cases4)
  have "enumerates [Key 5 1] ?b" by (simp add: enumerates_def Track_def rtx_empty_def Let_def)
  note C = Ack_correct [OF this A]
  have "rtt = 20" "link = 2" "cs = []"
    using A by (auto simp: Ack_def Track_def rtx_empty_def Let_def seq_acked_def ack_one_def fast_one_def
        case_prod_beta split: if_splits)
  then show ?thesis using A C by (simp add: seq_acked_def)
qed

text \<open>
  The probe timeout backs off exponentially without overflow: \<^verbatim>\<open>CollectExpired\<close> appends, up to
  its bound, exactly the frames whose last transmission lies at least
  \<open>min pto_max (base_pto * 2\<^sup>k)\<close> ticks back, \<open>k\<close> being the number of retransmissions but at most 5,
  the product taken in the integers; the frames come in the iteration order of the hash table.
\<close>

theorem CollectExpired_correct:
  assumes "length expired \<le> max_count"
  shows "CollectExpired it b now base_pto pto_max max_count expired =
           expired @ take (max_count - length expired)
             (filter (\<lambda>k. \<exists>e. rb_entries b k = Some e \<and>
                unat (re_last_sent_tick e) +
                  min (unat pto_max) (unat base_pto * 2 ^ min (unat (re_attempts e)) 5) \<le> unat now) it)"
proof -
  have "pto_expired b now base_pto pto_max = (\<lambda>k. \<exists>e. rb_entries b k = Some e \<and>
          unat (re_last_sent_tick e) +
            min (unat pto_max) (unat base_pto * 2 ^ min (unat (re_attempts e)) 5) \<le> unat now)"
    by (auto simp: pto_expired_def fun_eq_iff split: option.splits)
  then show ?thesis using CollectExpired_eq [OF assms] by simp
qed

theorem CollectExpired_correct_witness:
  "CollectExpired [Key 5 1] (snd (Track rtx_empty 5 1 [] 100 10 4096 2)) 510 500 3000 32 [] = [Key 5 1]"
  using CollectExpired_correct [of "[]" 32 "[Key 5 1]" "snd (Track rtx_empty 5 1 [] 100 10 4096 2)" 510 500 3000]
  by (simp add: Track_def rtx_empty_def Let_def)

text \<open>
  When a carrier exits, \<^verbatim>\<open>TakeLinkInflight\<close> hands out, oldest first, exactly the unacknowledged
  frames last sent on it, and orphans each, so no frame stays attributed to the dead carrier and a
  second call hands out nothing; the unknown link 0 is never matched.
\<close>

theorem TakeLinkInflight_correct:
  assumes "rtx_reach cap b" and "TakeLinkInflight b link out = (b', out')"
  shows "(link \<noteq> 0 \<longrightarrow> out' = out @ filter (\<lambda>k. re_last_link_id (the (rb_entries b k)) = link) (rb_order b) \<and>
            (\<forall>k e. rb_entries b' k = Some e \<longrightarrow> re_last_link_id e \<noteq> link)) \<and>
         (link = 0 \<longrightarrow> out' = out \<and> b' = b) \<and>
         dom (rb_entries b') = dom (rb_entries b) \<and>
         TakeLinkInflight b' link [] = (b', [])"
proof (cases "link = 0")
  case True
  then show ?thesis using assms by (simp add: TakeLinkInflight_def)
next
  case False
  have inv: "distinct (rb_order b)" "set (rb_order b) = dom (rb_entries b)"
    using rtx_reach_inv [OF assms(1)] by (auto simp: rtx_inv_except_def)
  have t: "take_inflight link (rb_order b) b out = (b', out')" using assms(2) False
    by (simp add: TakeLinkInflight_def)
  note T = take_inflight_eq [OF inv(1) False t]
  have "filter (\<lambda>k. \<exists>e. rb_entries b k = Some e \<and> re_last_link_id e = link) (rb_order b) =
        filter (\<lambda>k. re_last_link_id (the (rb_entries b k)) = link) (rb_order b)"
    using inv(2) by (intro filter_cong) auto
  moreover have gone: "re_last_link_id e \<noteq> link" if "rb_entries b' k = Some e" for k e
    using that T False inv(2) by (auto split: option.splits if_splits)
  moreover have "dom (rb_entries b') = dom (rb_entries b)"
    using T by (auto simp: dom_def split: option.splits if_splits)
  moreover have "take_inflight link ks b' [] = (b', [])" for ks
    using gone by (induction ks) (auto split: option.splits)
  ultimately show ?thesis using T False by (simp add: TakeLinkInflight_def)
qed

theorem TakeLinkInflight_correct_witness:
  "snd (TakeLinkInflight (snd (Track rtx_empty 5 1 [] 100 10 4096 2)) 2 []) = [Key 5 1]"
proof -
  let ?b = "snd (Track rtx_empty 5 1 [] 100 10 4096 2)"
  obtain b' out' where T: "TakeLinkInflight ?b 2 [] = (b', out')" by fastforce
  have "rtx_reach 4096 ?b" by (intro rtx_reach.intros)
  from TakeLinkInflight_correct [OF this T] T show ?thesis
    by (simp add: Track_def rtx_empty_def Let_def)
qed

end
