(* ===== verification/Mux_Reorder.thy ===== *)
theory Mux_Reorder
  imports Prelude
begin

text \<open>
  The bounded per-flow reorder buffer, \<^verbatim>\<open>MuxFlowReorderBuffer<T>\<close> of
  \<^verbatim>\<open>ppp/app/mux/MuxFlowReorderBuffer.h\<close>. The ordered map \<^verbatim>\<open>std::map<uint32_t, Entry>\<close> is the list of
  its nodes in key order; sizes and byte counts are \<open>nat\<close> (the code's cap tests avoid every sum
  that could overflow).
\<close>

section \<open>The buffer\<close>

record 'a reorder_entry =
  ro_value :: 'a
  ro_bytes :: nat

record 'a reorder_buffer =
  ro_packets :: "(u32 \<times> 'a reorder_entry) list"
  ro_buffered_bytes :: nat

definition reorder_empty :: "'a reorder_buffer" where
  "reorder_empty = \<lparr>ro_packets = [], ro_buffered_bytes = 0\<rparr>"

text \<open>\<^verbatim>\<open>std::map\<close>: insertion in key order, erasure, and \<^verbatim>\<open>lower_bound\<close>.\<close>

fun map_emplace :: "u32 \<Rightarrow> 'v \<Rightarrow> (u32 \<times> 'v) list \<Rightarrow> (u32 \<times> 'v) list" where
  "map_emplace k v [] = [(k, v)]"
| "map_emplace k v ((k', v') # m) =
     (if k < k' then (k, v) # (k', v') # m
      else if k = k' then (k', v') # m
      else (k', v') # map_emplace k v m)"

definition map_erase :: "u32 \<Rightarrow> (u32 \<times> 'v) list \<Rightarrow> (u32 \<times> 'v) list" where
  "map_erase k m = filter (\<lambda>p. fst p \<noteq> k) m"

definition lower_bound :: "u32 \<Rightarrow> (u32 \<times> 'v) list \<Rightarrow> (u32 \<times> 'v) option" where
  "lower_bound k m = find (\<lambda>p. k \<le> fst p) m"

definition TryInsert ::
  "'a reorder_buffer \<Rightarrow> u32 \<Rightarrow> u32 \<Rightarrow> 'a \<Rightarrow> nat \<Rightarrow> nat \<Rightarrow> nat \<Rightarrow> bool \<times> 'a reorder_buffer" where
  "TryInsert b sequence reference value n byte_cap entry_cap =
     (let distance = sequence - reference in
      if distance = 0 \<or> distance \<ge> 0x80000000 \<or>
         map_of (ro_packets b) sequence \<noteq> None \<or> length (ro_packets b) \<ge> entry_cap \<or>
         n > byte_cap \<or> ro_buffered_bytes b > byte_cap - n then (False, b)
      else (True, b\<lparr>ro_packets := map_emplace sequence \<lparr>ro_value = value, ro_bytes = n\<rparr> (ro_packets b),
                    ro_buffered_bytes := ro_buffered_bytes b + n\<rparr>))"

definition Take :: "'a reorder_buffer \<Rightarrow> u32 \<Rightarrow> ('a \<times> 'a reorder_buffer) option" where
  "Take b sequence =
     (case map_of (ro_packets b) sequence of
        None \<Rightarrow> None
      | Some e \<Rightarrow> Some (ro_value e, b\<lparr>ro_buffered_bytes := ro_buffered_bytes b - ro_bytes e,
                                      ro_packets := map_erase sequence (ro_packets b)\<rparr>))"

definition FirstSequence :: "'a reorder_buffer \<Rightarrow> u32 \<Rightarrow> u32 option" where
  "FirstSequence b reference =
     (if ro_packets b = [] then None
      else let packet = (case lower_bound (reference + 1) (ro_packets b) of
                           None \<Rightarrow> hd (ro_packets b) | Some p \<Rightarrow> p);
               distance = fst packet - reference
           in if distance = 0 \<or> distance \<ge> 0x80000000 then None else Some (fst packet))"

section \<open>The ordered map\<close>

definition keys_sorted :: "(u32 \<times> 'v) list \<Rightarrow> bool" where
  "keys_sorted m = sorted_wrt (<) (map fst m)"

lemma keys_sorted_distinct: "keys_sorted m \<Longrightarrow> distinct (map fst m)"
  by (simp add: keys_sorted_def strict_sorted_iff)

lemma set_map_emplace_keys: "fst ` set (map_emplace k v m) = insert k (fst ` set m)"
  by (induction k v m rule: map_emplace.induct) auto

lemma keys_sorted_emplace: "keys_sorted m \<Longrightarrow> keys_sorted (map_emplace k v m)"
proof (induction k v m rule: map_emplace.induct)
  case (2 k v k' v' m)
  then show ?case
    using set_map_emplace_keys [of k v m] by (auto simp: keys_sorted_def)
qed (simp add: keys_sorted_def)

lemma map_of_emplace:
  "keys_sorted m \<Longrightarrow> map_of m k = None \<Longrightarrow> map_of (map_emplace k v m) = (map_of m)(k \<mapsto> v)"
proof (induction k v m rule: map_emplace.induct)
  case (2 k v k' v' m)
  then show ?case by (auto simp: keys_sorted_def fun_eq_iff split: if_splits)
qed auto

lemma sum_emplace:
  "map_of m k = None \<Longrightarrow>
     sum_list (map (\<lambda>p. f (snd p)) (map_emplace k v m)) = (f v :: nat) + sum_list (map (\<lambda>p. f (snd p)) m)"
  by (induction k v m rule: map_emplace.induct) (auto split: if_splits)

lemma length_emplace: "map_of m k = None \<Longrightarrow> length (map_emplace k v m) = Suc (length m)"
  by (induction k v m rule: map_emplace.induct) (auto split: if_splits)

lemma map_of_erase: "map_of (map_erase k m) = (map_of m)(k := None)"
  by (induction m) (auto simp: map_erase_def fun_eq_iff)

lemma keys_sorted_erase: "keys_sorted m \<Longrightarrow> keys_sorted (map_erase k m)"
  unfolding keys_sorted_def map_erase_def
  by (induction m) auto

lemma sum_erase:
  "distinct (map fst m) \<Longrightarrow> map_of m k = Some v \<Longrightarrow>
     sum_list (map (\<lambda>p. f (snd p)) m) = (f v :: nat) + sum_list (map (\<lambda>p. f (snd p)) (map_erase k m))"
proof (induction m)
  case (Cons p m)
  show ?case
  proof (cases "fst p = k")
    case True
    then have "filter (\<lambda>p. fst p \<noteq> k) m = m" using Cons.prems(1) by (auto simp: image_iff intro!: filter_True)
    then show ?thesis using True Cons.prems by (cases p) (simp add: map_erase_def)
  next
    case False
    then show ?thesis using Cons by (cases p) (simp add: map_erase_def)
  qed
qed simp

text \<open>The element found by \<^verbatim>\<open>lower_bound\<close>, wrapping to \<^verbatim>\<open>begin()\<close>, is the next one on the circle.\<close>

lemma lower_bound_nearest:
  fixes m :: "(u32 \<times> 'v) list" and r :: u32
  assumes "keys_sorted m" and "m \<noteq> []"
  defines "p \<equiv> (case lower_bound r m of None \<Rightarrow> hd m | Some p \<Rightarrow> p)"
  shows "p \<in> set m \<and> (\<forall>q\<in>set m. unat (fst p - r) \<le> unat (fst q - r))"
proof (cases "lower_bound r m")
  case None
  then have lt: "\<forall>q\<in>set m. fst q < r" by (auto simp: lower_bound_def find_None_iff)
  have "\<forall>q\<in>set m. fst (hd m) \<le> fst q"
    using assms(1,2) by (cases m) (auto simp: keys_sorted_def order_less_imp_le)
  then show ?thesis using None assms(2) lt
    by (auto simp: p_def unat_sub_if' word_le_nat_alt word_less_nat_alt)
next
  case (Some q)
  then obtain i where i: "i < length m" "q = m ! i" "r \<le> fst q" "\<forall>j<i. \<not> r \<le> fst (m ! j)"
    by (auto simp: lower_bound_def find_Some_iff)
  have "unat (fst q - r) \<le> unat (fst (m ! j) - r)" if "j < length m" for j
  proof (cases "j < i")
    case True
    then show ?thesis using i unsigned_less [of "fst q", where 'a = nat]
      by (auto simp: unat_sub_if' word_le_nat_alt)
  next
    case False
    then have "fst q \<le> fst (m ! j)"
      using assms(1) i that sorted_wrt_nth_less [of "(<)" "map fst m" i j]
      by (cases "i = j") (auto simp: keys_sorted_def order_less_imp_le)
    then show ?thesis using i by (auto simp: unat_sub_if' word_le_nat_alt)
  qed
  then have "unat (fst q - r) \<le> unat (fst q' - r)" if "q' \<in> set m" for q'
    using that unfolding in_set_conv_nth by blast
  then show ?thesis using Some i by (simp add: p_def)
qed

section \<open>What the buffer promises\<close>

definition reorder_wf :: "'a reorder_buffer \<Rightarrow> bool" where
  "reorder_wf b \<longleftrightarrow> keys_sorted (ro_packets b) \<and>
     ro_buffered_bytes b = sum_list (map (\<lambda>p. ro_bytes (snd p)) (ro_packets b))"

definition ro_lookup :: "'a reorder_buffer \<Rightarrow> u32 \<Rightarrow> 'a option" where
  "ro_lookup b k = map_option ro_value (map_of (ro_packets b) k)"

definition ro_size :: "'a reorder_buffer \<Rightarrow> nat" where
  "ro_size b = length (ro_packets b)"

text \<open>
  The contract under which a receiver uses a store of future frames: an accepted insertion adds
  exactly its frame, a take removes exactly the frame it returns.
\<close>

locale frame_store =
  fixes wf :: "'s \<Rightarrow> bool"
    and look :: "'s \<Rightarrow> u32 \<Rightarrow> 'a option"
    and count :: "'s \<Rightarrow> nat"
    and put :: "'s \<Rightarrow> u32 \<Rightarrow> u32 \<Rightarrow> 'a \<Rightarrow> nat \<Rightarrow> nat \<Rightarrow> nat \<Rightarrow> bool \<times> 's"
    and tk :: "'s \<Rightarrow> u32 \<Rightarrow> ('a \<times> 's) option"
  assumes put_True: "wf s \<Longrightarrow> put s k r v n bc ec = (True, s') \<Longrightarrow>
        wf s' \<and> look s k = None \<and> look s' = (look s)(k \<mapsto> v) \<and> 0 < unat (k - r) \<and> unat (k - r) < 2 ^ 31"
    and put_False: "put s k r v n bc ec = (False, s') \<Longrightarrow> s' = s"
    and tk_None: "tk s k = None \<longleftrightarrow> look s k = None"
    and tk_Some: "wf s \<Longrightarrow> tk s k = Some (v, s') \<Longrightarrow>
        wf s' \<and> look s k = Some v \<and> look s' = (look s)(k := None) \<and> count s' < count s"
begin

text \<open>Insertion after insertion keeps what is there; a frame comes out once.\<close>

lemma put_keeps: "wf s \<Longrightarrow> put s k r v n bc ec = (b, s') \<Longrightarrow> look s j = Some w \<Longrightarrow> look s' j = Some w"
  using put_True [of s k r v n bc ec s'] put_False [of s k r v n bc ec s'] by (cases b) auto

lemma put_tk: "wf s \<Longrightarrow> put s k r v n bc ec = (True, s') \<Longrightarrow> \<exists>s''. tk s' k = Some (v, s'') \<and> look s'' = look s"
proof -
  assume a: "wf s" "put s k r v n bc ec = (True, s')"
  note p = put_True [OF a]
  then obtain x s'' where t: "tk s' k = Some (x, s'')" using tk_None [of s' k] by fastforce
  note q = tk_Some [OF conjunct1 [OF p] t]
  then have "look s'' = look s" using p by (auto simp: fun_eq_iff)
  moreover have "x = v" using p q by simp
  ultimately show ?thesis using t by blast
qed

lemma tk_once: "wf s \<Longrightarrow> tk s k = Some (v, s') \<Longrightarrow> tk s' k = None"
  using tk_Some tk_None [of s' k] by fastforce

end

lemma TryInsert_True:
  assumes "reorder_wf b" and "TryInsert b k r v n bc ec = (True, b')"
  shows "reorder_wf b' \<and> ro_lookup b k = None \<and> ro_lookup b' = (ro_lookup b)(k \<mapsto> v) \<and>
         0 < unat (k - r) \<and> unat (k - r) < 2 ^ 31 \<and> ro_size b' = Suc (ro_size b) \<and>
         ro_size b' \<le> ec \<and> ro_buffered_bytes b' = ro_buffered_bytes b + n \<and> ro_buffered_bytes b' \<le> bc"
  using assms
  by (auto simp: TryInsert_def Let_def reorder_wf_def ro_lookup_def ro_size_def keys_sorted_emplace
      map_of_emplace sum_emplace length_emplace word_le_nat_alt unat_gt_0 fun_eq_iff split: if_splits)

lemma Take_Some:
  assumes "reorder_wf b" and "Take b k = Some (v, b')"
  shows "reorder_wf b' \<and> ro_lookup b k = Some v \<and> ro_lookup b' = (ro_lookup b)(k := None) \<and>
         ro_size b' < ro_size b \<and> ro_buffered_bytes b' \<le> ro_buffered_bytes b"
proof -
  obtain e where e: "map_of (ro_packets b) k = Some e" "v = ro_value e"
    "b' = b\<lparr>ro_buffered_bytes := ro_buffered_bytes b - ro_bytes e, ro_packets := map_erase k (ro_packets b)\<rparr>"
    using assms(2) by (auto simp: Take_def split: option.splits)
  have "length (map_erase k (ro_packets b)) < length (ro_packets b)"
    unfolding map_erase_def
    by (rule length_filter_less [of "(k, e)"]) (use map_of_SomeD [OF e(1)] in auto)
  moreover have "sum_list (map (\<lambda>p. ro_bytes (snd p)) (ro_packets b)) =
        ro_bytes e + sum_list (map (\<lambda>p. ro_bytes (snd p)) (map_erase k (ro_packets b)))"
    using assms(1) e(1) by (intro sum_erase keys_sorted_distinct) (simp_all add: reorder_wf_def)
  ultimately show ?thesis
    using assms(1) e(1) unfolding e(2,3)
    by (simp add: reorder_wf_def ro_lookup_def ro_size_def keys_sorted_erase map_of_erase fun_eq_iff)
qed

interpretation store: frame_store reorder_wf ro_lookup ro_size TryInsert Take
proof
  show "reorder_wf s \<Longrightarrow> TryInsert s k r v n bc ec = (True, s') \<Longrightarrow>
        reorder_wf s' \<and> ro_lookup s k = None \<and> ro_lookup s' = (ro_lookup s)(k \<mapsto> v) \<and>
        0 < unat (k - r) \<and> unat (k - r) < 2 ^ 31" for s s' :: "'a reorder_buffer" and k r v n bc ec
    using TryInsert_True [of s k r v n bc ec s'] by blast
  show "TryInsert s k r v n bc ec = (False, s') \<Longrightarrow> s' = s" for s s' :: "'a reorder_buffer" and k r v n bc ec
    by (auto simp: TryInsert_def Let_def split: if_splits)
  show "Take s k = None \<longleftrightarrow> ro_lookup s k = None" for s :: "'a reorder_buffer" and k
    by (simp add: Take_def ro_lookup_def split: option.splits)
  show "reorder_wf s \<Longrightarrow> Take s k = Some (v, s') \<Longrightarrow>
        reorder_wf s' \<and> ro_lookup s k = Some v \<and> ro_lookup s' = (ro_lookup s)(k := None) \<and> ro_size s' < ro_size s"
    for s s' :: "'a reorder_buffer" and k v
    using Take_Some [of s k v s'] by blast
qed

lemma unat_after: "k \<noteq> r \<Longrightarrow> unat (k - r) = Suc (unat (k - (r + 1 :: u32)))"
  using unatSuc [of "k - (r + 1)"] by simp

lemma nearest_iff:
  fixes r s p :: u32 and K :: "u32 set"
  assumes "p \<in> K" and "\<forall>k\<in>K. unat (p - (r + 1)) \<le> unat (k - (r + 1))"
  shows "s \<in> K \<and> 0 < unat (s - r) \<and> unat (s - r) < 2 ^ 31 \<and> (\<forall>k\<in>K. k = r \<or> unat (s - r) \<le> unat (k - r)) \<longleftrightarrow>
         s = p \<and> 0 < unat (p - r) \<and> unat (p - r) < 2 ^ 31"
proof
  assume L: "s \<in> K \<and> 0 < unat (s - r) \<and> unat (s - r) < 2 ^ 31 \<and> (\<forall>k\<in>K. k = r \<or> unat (s - r) \<le> unat (k - r))"
  then have sr: "s \<noteq> r" by auto
  have "unat (s - (r + 1)) \<le> unat (p - (r + 1))"
  proof (cases "p = r")
    case True
    then have "p - (r + 1) = - 1" by simp
    then show ?thesis by (simp add: word_le_nat_alt [symmetric])
  next
    case False
    then have "unat (s - r) \<le> unat (p - r)" using L assms(1) by blast
    then show ?thesis using False sr by (simp add: unat_after)
  qed
  moreover have "unat (p - (r + 1)) \<le> unat (s - (r + 1))" using assms(2) L by blast
  ultimately have "s - (r + 1) = p - (r + 1)" unfolding word_unat_eq_iff by (rule antisym)
  then have "s = p" by simp
  then show "s = p \<and> 0 < unat (p - r) \<and> unat (p - r) < 2 ^ 31" using L by simp
next
  assume R: "s = p \<and> 0 < unat (p - r) \<and> unat (p - r) < 2 ^ 31"
  then have "p \<noteq> r" by auto
  then have "k = r \<or> unat (p - r) \<le> unat (k - r)" if "k \<in> K" for k
    using assms(2) that unat_after [of p r] unat_after [of k r] by (cases "k = r") auto
  then show "s \<in> K \<and> 0 < unat (s - r) \<and> unat (s - r) < 2 ^ 31 \<and> (\<forall>k\<in>K. k = r \<or> unat (s - r) \<le> unat (k - r))"
    using R assms(1) by blast
qed

section \<open>Properties\<close>

text \<open>
  \<^verbatim>\<open>FirstSequence\<close> finds the next buffered frame on the 32-bit circle: it returns \<open>s\<close> exactly
  when \<open>s\<close> is buffered, lies in the future half of the space as seen from the reference, and no
  other buffered sequence number is nearer; wrap-around of the key order does not matter.
\<close>

theorem FirstSequence_nearest:
  assumes "reorder_wf b"
  shows "FirstSequence b r = Some s \<longleftrightarrow>
           ro_lookup b s \<noteq> None \<and> 0 < unat (s - r) \<and> unat (s - r) < 2 ^ 31 \<and>
           (\<forall>k. ro_lookup b k \<noteq> None \<longrightarrow> k = r \<or> unat (s - r) \<le> unat (k - r))"
proof (cases "ro_packets b = []")
  case False
  let ?p = "case lower_bound (r + 1) (ro_packets b) of None \<Rightarrow> hd (ro_packets b) | Some p \<Rightarrow> p"
  have wf: "keys_sorted (ro_packets b)" using assms by (simp add: reorder_wf_def)
  have near: "fst ?p \<in> fst ` set (ro_packets b)"
    "\<forall>k\<in>fst ` set (ro_packets b). unat (fst ?p - (r + 1)) \<le> unat (k - (r + 1))"
    using lower_bound_nearest [OF wf False, of "r + 1"] by auto
  have dom: "ro_lookup b k \<noteq> None \<longleftrightarrow> k \<in> fst ` set (ro_packets b)" for k
    by (simp add: ro_lookup_def map_of_eq_None_iff)
  have "FirstSequence b r = Some s \<longleftrightarrow> s = fst ?p \<and> 0 < unat (fst ?p - r) \<and> unat (fst ?p - r) < 2 ^ 31"
    using False by (auto simp: FirstSequence_def Let_def word_le_nat_alt unat_gt_0)
  then show ?thesis unfolding dom nearest_iff [OF near, symmetric] by blast
qed (simp add: FirstSequence_def ro_lookup_def)

theorem FirstSequence_nearest_witness:
  "FirstSequence (snd (TryInsert (snd (TryInsert reorder_empty 1 4294967290 () 10 100 10)) 4294967294 4294967290 () 10 100 10))
     4294967290 = Some 4294967294"
proof -
  let ?b = "snd (TryInsert (snd (TryInsert reorder_empty 1 4294967290 () 10 100 10)) 4294967294 4294967290 () 10 100 10)"
  have "?b = \<lparr>ro_packets = [(1, \<lparr>ro_value = (), ro_bytes = 10\<rparr>), (4294967294, \<lparr>ro_value = (), ro_bytes = 10\<rparr>)],
              ro_buffered_bytes = 20\<rparr>"
    by (simp add: TryInsert_def reorder_empty_def Let_def)
  moreover have "reorder_wf \<lparr>ro_packets = [(1, \<lparr>ro_value = (), ro_bytes = 10\<rparr>),
       (4294967294, \<lparr>ro_value = (), ro_bytes = 10\<rparr>)], ro_buffered_bytes = 20\<rparr>"
    by (simp add: reorder_wf_def keys_sorted_def)
  ultimately show ?thesis using FirstSequence_nearest [of ?b 4294967290 4294967294]
    by (simp add: ro_lookup_def)
qed

end
