(* ===== verification/Mux_Fec.thy ===== *)
theory Mux_Fec
  imports Prelude
begin

text \<open>
  The XOR parity codec of the mux reliability protocol, \<^verbatim>\<open>ppp/app/mux/MuxFecCodec.h\<close>: the group
  accumulator of the sender, the wire format of a parity frame and the recovery of one lost frame.
  A frame is the list of its bytes, so the length arguments of the code are list lengths; a null
  pointer in the receiver's table of present frames is \<open>None\<close>.
\<close>

section \<open>Encoder\<close>

record fec_frame_id =
  fi_connection_id :: u32
  fi_sequence :: u32

record fec_encoder =
  fe_entries :: "fec_frame_id list"
  fe_parity :: bytes
  fe_first_add_tick :: u64

definition fec_init :: fec_encoder where
  "fec_init = \<lparr>fe_entries = [], fe_parity = [], fe_first_add_tick = 0\<rparr>"

definition fec_Reset :: "fec_encoder \<Rightarrow> u64 \<Rightarrow> fec_encoder" where
  "fec_Reset e now = e\<lparr>fe_entries := [], fe_parity := [], fe_first_add_tick := now\<rparr>"

text \<open>The block of a frame, and folding a block into the front of a parity block.\<close>

definition fec_block :: "bytes \<Rightarrow> bytes" where
  "fec_block frame =
     (let len = of_nat (length frame) :: u32 in [byte_at 1 len, byte_at 0 len] @ frame)"

fun xor_into :: "bytes \<Rightarrow> bytes \<Rightarrow> bytes" where
  "xor_into (p # ps) (b # bs) = (p XOR b) # xor_into ps bs"
| "xor_into ps [] = ps"
| "xor_into [] bs = []"

definition fec_Add :: "fec_encoder \<Rightarrow> u32 \<Rightarrow> u32 \<Rightarrow> bytes \<Rightarrow> fec_encoder" where
  "fec_Add e connection_id sequence frame =
     (let parity = (if fe_entries e = [] then replicate (length frame + 2) 0
                    else if length (fe_parity e) < length frame + 2
                    then fe_parity e @ replicate (length frame + 2 - length (fe_parity e)) 0
                    else fe_parity e)
      in e\<lparr>fe_parity := xor_into parity (fec_block frame),
           fe_entries := fe_entries e @ [\<lparr>fi_connection_id = connection_id, fi_sequence = sequence\<rparr>]\<rparr>)"

definition fec_MaxPayloadSize :: "fec_encoder \<Rightarrow> nat" where
  "fec_MaxPayloadSize e = 1 + length (fe_entries e) * 8 + 2 + length (fe_parity e)"

definition enc_frame_id :: "fec_frame_id \<Rightarrow> bytes" where
  "enc_frame_id i = be32 (fi_connection_id i) @ be32 (fi_sequence i)"

definition fec_Build :: "fec_encoder \<Rightarrow> int \<Rightarrow> bytes option" where
  "fec_Build e cap =
     (if fe_entries e = [] \<or> length (fe_entries e) > 255 \<or> length (fe_parity e) > 0xFFFF then None
      else if cap < 0 \<or> nat cap < fec_MaxPayloadSize e then None
      else Some ([of_nat (length (fe_entries e))] @ concat (map enc_frame_id (fe_entries e)) @
                 be16 (of_nat (length (fe_parity e)) :: u64) @ fe_parity e))"

section \<open>Decoder\<close>

record fec_view =
  fv_entries :: "fec_frame_id list"
  fv_parity :: bytes

definition rd_frame_id :: "bytes \<Rightarrow> (fec_frame_id \<times> bytes) option" where
  "rd_frame_id p =
     (if length p < 8 then None
      else Some (\<lparr>fi_connection_id = rd32 p, fi_sequence = rd32 (drop 4 p)\<rparr>, drop 8 p))"

definition ParseMuxFecFrame :: "bytes option \<Rightarrow> int \<Rightarrow> fec_view option" where
  "ParseMuxFecFrame buf max_count =
     (case buf of
        Some (c # p) \<Rightarrow>
          (let count = unat c in
           if count = 0 \<or> int count > max_count \<or> length p < count * 8 + 2 then None
           else case read_items rd_frame_id count p of
               None \<Rightarrow> None
             | Some (entries, p) \<Rightarrow>
                 let parity_len = unat (push_bit 8 (ucast (p ! 0)) OR ucast (p ! 1) :: u64);
                     p = drop 2 p
                 in if parity_len < 3 \<or> parity_len \<noteq> length p then None
                    else Some \<lparr>fv_entries = entries, fv_parity = take parity_len p\<rparr>)
      | _ \<Rightarrow> None)"

text \<open>The loop over the group: every slot but the missing one is folded back out of the parity.\<close>

fun fec_fold :: "nat \<Rightarrow> bytes option list \<Rightarrow> nat \<Rightarrow> nat \<Rightarrow> bytes \<Rightarrow> bytes option" where
  "fec_fold parity_len [] i missing_index recovered = Some recovered"
| "fec_fold parity_len (f # fs) i missing_index recovered =
     (if i = missing_index then fec_fold parity_len fs (Suc i) missing_index recovered
      else case f of
          None \<Rightarrow> None
        | Some frame \<Rightarrow>
            if length frame + 2 > parity_len then None
            else fec_fold parity_len fs (Suc i) missing_index (xor_into recovered (fec_block frame)))"

definition MuxFecRecover :: "fec_view \<Rightarrow> bytes option list \<Rightarrow> int \<Rightarrow> bool \<Rightarrow> int \<Rightarrow> bytes option" where
  "MuxFecRecover view present missing_index out_valid cap =
     (let count = length (fv_entries view); parity_len = length (fv_parity view) in
      if \<not> out_valid \<or> missing_index < 0 \<or> missing_index \<ge> int count \<or> parity_len < 3 then None
      else case fec_fold parity_len (take count present) 0 (nat missing_index) (fv_parity view) of
          None \<Rightarrow> None
        | Some recovered \<Rightarrow>
            let recovered_length = unat (push_bit 8 (ucast (recovered ! 0)) OR ucast (recovered ! 1) :: u32) in
            if recovered_length = 0 \<or> recovered_length + 2 > parity_len \<or> int recovered_length > cap then None
            else Some (take recovered_length (drop 2 recovered)))"

section \<open>Parity algebra\<close>

definition blk :: "bytes \<Rightarrow> nat \<Rightarrow> u8" where
  "blk frame j = (if j < length (fec_block frame) then fec_block frame ! j else 0)"

definition xorsum :: "bytes list \<Rightarrow> nat \<Rightarrow> u8" where
  "xorsum frames j = foldr (\<lambda>f a. blk f j XOR a) frames 0"

lemma length_fec_block [simp]: "length (fec_block f) = length f + 2"
  by (simp add: fec_block_def Let_def)

lemma length_xor_into [simp]: "length (xor_into p b) = length p"
  by (induction p b rule: xor_into.induct) auto

lemma nth_xor_into:
  "j < length p \<Longrightarrow> xor_into p b ! j = p ! j XOR (if j < length b then b ! j else 0)"
proof (induction p b arbitrary: j rule: xor_into.induct)
  case (1 p ps b bs)
  then show ?case by (cases j) auto
qed auto

lemma nth_xor_block: "j < length p \<Longrightarrow> xor_into p (fec_block f) ! j = p ! j XOR blk f j"
  by (simp add: nth_xor_into blk_def)

lemma xorsum_simps [simp]:
  "xorsum [] j = 0" "xorsum (f # fs) j = blk f j XOR xorsum fs j"
  by (simp_all add: xorsum_def)

lemma xorsum_append: "xorsum (fs @ gs) j = xorsum fs j XOR xorsum gs j"
  by (induction fs) (simp_all add: xor.assoc)

text \<open>The encoder holds the XOR of the zero-padded blocks of its group.\<close>

definition fec_group :: "fec_encoder \<Rightarrow> (u32 \<times> u32 \<times> bytes) list \<Rightarrow> bool" where
  "fec_group e fs \<longleftrightarrow>
     fe_entries e = map (\<lambda>(c, s, f). \<lparr>fi_connection_id = c, fi_sequence = s\<rparr>) fs \<and>
     (\<forall>(c, s, f)\<in>set fs. length f + 2 \<le> length (fe_parity e)) \<and>
     (fs \<noteq> [] \<longrightarrow> (\<exists>(c, s, f)\<in>set fs. length (fe_parity e) = length f + 2)) \<and>
     (\<forall>j<length (fe_parity e). fe_parity e ! j = xorsum (map (snd \<circ> snd) fs) j)"

lemma fec_group_Reset: "fec_group (fec_Reset e now) []"
  by (simp add: fec_group_def fec_Reset_def)

lemma blk_beyond: "length f + 2 \<le> j \<Longrightarrow> blk f j = 0"
  by (simp add: blk_def)

lemma xorsum_beyond: "\<forall>f\<in>set fs. length f + 2 \<le> j \<Longrightarrow> xorsum fs j = 0"
  by (induction fs) (auto simp: blk_beyond)

lemma fec_group_Add:
  assumes "fec_group e fs"
  shows "fec_group (fec_Add e c s f) (fs @ [(c, s, f)])"
proof -
  define P where "P = (if fe_entries e = [] then replicate (length f + 2) 0
                    else if length (fe_parity e) < length f + 2
                    then fe_parity e @ replicate (length f + 2 - length (fe_parity e)) 0
                    else fe_parity e)"
  have e: "fec_Add e c s f = e\<lparr>fe_parity := xor_into P (fec_block f),
           fe_entries := fe_entries e @ [\<lparr>fi_connection_id = c, fi_sequence = s\<rparr>]\<rparr>"
    by (simp add: fec_Add_def P_def Let_def)
  have len: "length P = (if fs = [] then length f + 2 else max (length (fe_parity e)) (length f + 2))"
    using assms by (auto simp: P_def fec_group_def)
  have P: "P ! j = xorsum (map (snd \<circ> snd) fs) j" if "j < length P" for j
  proof (cases "fs = []")
    case True
    then have "P = replicate (length f + 2) 0" using assms by (simp add: P_def fec_group_def)
    then show ?thesis using True that by (simp only: nth_replicate length_replicate xorsum_simps list.map)
  next
    case False
    have "xorsum (map (snd \<circ> snd) fs) j = 0" if "length (fe_parity e) \<le> j"
      using assms that by (intro xorsum_beyond) (fastforce simp: fec_group_def)
    then show ?thesis using assms that False by (auto simp: P_def fec_group_def nth_append)
  qed
  show ?thesis
    using assms len P unfolding e
    by (auto simp: fec_group_def nth_xor_block xorsum_append max_def split: if_splits)
qed

section \<open>Recovery\<close>

definition others :: "nat \<Rightarrow> nat \<Rightarrow> bytes list \<Rightarrow> bytes list" where
  "others i m gs = map snd (filter (\<lambda>p. fst p \<noteq> m) (enumerate i gs))"

lemma others_simps [simp]:
  "others i m [] = []" "others i m (g # gs) = (if i = m then others (Suc i) m gs else g # others (Suc i) m gs)"
  by (simp_all add: others_def)

lemma others_above: "m < i \<Longrightarrow> others i m gs = gs"
  by (induction gs arbitrary: i) auto

lemma xorsum_others:
  "i \<le> m \<Longrightarrow> m < i + length gs \<Longrightarrow> xorsum gs j XOR xorsum (others i m gs) j = blk (gs ! (m - i)) j"
proof (induction gs arbitrary: i)
  case (Cons g gs)
  show ?case
  proof (cases "i = m")
    case True
    then show ?thesis by (simp add: others_above xor.assoc)
  next
    case False
    then have "(g # gs) ! (m - i) = gs ! (m - Suc i)" using Cons.prems by (simp add: nth_Cons')
    then show ?thesis using False Cons.IH [of "Suc i"] Cons.prems
      by (simp add: xor.assoc xor.left_commute)
  qed
qed simp

lemma fec_fold_spec:
  assumes "length r = L" and "length gs = length ps"
    and "\<And>k. k < length ps \<Longrightarrow> i + k \<noteq> m \<Longrightarrow> ps ! k = Some (gs ! k) \<and> length (gs ! k) + 2 \<le> L"
  shows "\<exists>r'. fec_fold L ps i m r = Some r' \<and> length r' = L \<and>
              (\<forall>j<L. r' ! j = r ! j XOR xorsum (others i m gs) j)"
  using assms
proof (induction ps arbitrary: gs i r)
  case (Cons q ps)
  then obtain g gs' where gs: "gs = g # gs'" "length gs' = length ps" by (cases gs) auto
  have hyp: "ps ! k = Some (gs' ! k) \<and> length (gs' ! k) + 2 \<le> L" if "k < length ps" "Suc i + k \<noteq> m" for k
    using Cons.prems(3) [of "Suc k"] that by (simp add: gs)
  show ?case
  proof (cases "i = m")
    case True
    then show ?thesis using Cons.IH [of r gs' "Suc i"] Cons.prems(1) gs hyp by simp
  next
    case False
    then have q: "q = Some g" "length g + 2 \<le> L" using Cons.prems(3) [of 0] by (simp_all add: gs)
    obtain r' where "fec_fold L ps (Suc i) m (xor_into r (fec_block g)) = Some r'" "length r' = L"
      "\<forall>j<L. r' ! j = xor_into r (fec_block g) ! j XOR xorsum (others (Suc i) m gs') j"
      using Cons.IH [of "xor_into r (fec_block g)" gs' "Suc i"] Cons.prems(1) gs(2) hyp by auto
    then show ?thesis using False q Cons.prems(1) by (simp add: gs nth_xor_block xor.assoc)
  qed
qed simp

interpretation id_codec: item_codec enc_frame_id rd_frame_id "\<lambda>_. True"
proof
  show "rd_frame_id (enc_frame_id x @ r) = Some (x, r)" for x :: fec_frame_id and r
    by (simp add: rd_frame_id_def enc_frame_id_def)
  fix p x r assume rd: "rd_frame_id p = Some (x, r)"
  then have len: "8 \<le> length p" by (auto simp: rd_frame_id_def split: if_splits)
  then have "be32 (rd32 p) @ be32 (rd32 (drop 4 p)) @ drop 8 p = p"
    using be32_rd32 [of p] be32_rd32 [of "drop 4 p"] by simp
  then show "True \<and> p = enc_frame_id x @ r"
    using rd by (auto simp: rd_frame_id_def enc_frame_id_def split: if_splits)
qed

lemma length_enc_frame_id [simp, wire]: "length (enc_frame_id i) = 8"
  by (simp add: enc_frame_id_def)

lemma length_concat_ids [simp, wire]: "length (concat (map enc_frame_id is)) = 8 * length is"
  by (induction "is") simp_all

lemma unat_low16: "n \<le> 0xFFFF \<Longrightarrow> unat (take_bit 16 (of_nat n :: u64)) = n"
  "n \<le> 0xFFFF \<Longrightarrow> unat (take_bit 16 (of_nat n :: u32)) = n"
  by (simp_all add: unsigned_take_bit_eq unsigned_of_nat take_bit_take_bit take_bit_nat_eq_self)

lemma Parse_Build:
  assumes "fec_Build e cap = Some p" and "int (length (fe_entries e)) \<le> max_count" and "3 \<le> length (fe_parity e)"
  shows "ParseMuxFecFrame (Some p) max_count = Some \<lparr>fv_entries = fe_entries e, fv_parity = fe_parity e\<rparr>"
proof -
  let ?n = "length (fe_entries e)" and ?L = "length (fe_parity e)"
  have b: "?n \<noteq> 0" "?n \<le> 255" "?L \<le> 0xFFFF"
    and p: "p = of_nat ?n # concat (map enc_frame_id (fe_entries e)) @ be16 (of_nat ?L :: u64) @ fe_parity e"
    using assms(1) by (auto simp: fec_Build_def split: if_splits)
  have "read_items rd_frame_id ?n (concat (map enc_frame_id (fe_entries e)) @ be16 (of_nat ?L :: u64) @ fe_parity e) =
        Some (fe_entries e, be16 (of_nat ?L :: u64) @ fe_parity e)"
    using id_codec.read_items_enc [of "fe_entries e"] by (simp add: list_all_iff)
  moreover have "unat (push_bit 8 (ucast (byte_at 1 (of_nat ?L :: u64))) OR ucast (byte_at 0 (of_nat ?L :: u64)) :: u64) = ?L"
    using b by (simp only: be16_value unat_low16)
  ultimately show ?thesis
    using b assms(2,3) unfolding p by (simp add: ParseMuxFecFrame_def Let_def unat_of_nat_byte be16_def)
qed

definition fec_add_all :: "(u32 \<times> u32 \<times> bytes) list \<Rightarrow> fec_encoder \<Rightarrow> fec_encoder" where
  "fec_add_all fs e = fold (\<lambda>(c, s, f) e. fec_Add e c s f) fs e"

lemma fec_group_add_all: "fec_group e gs \<Longrightarrow> fec_group (fec_add_all fs e) (gs @ fs)"
proof (induction fs arbitrary: e gs)
  case (Cons x fs)
  obtain c s f where x: "x = (c, s, f)" by (cases x)
  show ?case using Cons.IH [OF fec_group_Add [OF Cons.prems, of c s f]]
    by (simp add: x fec_add_all_def)
qed (simp add: fec_add_all_def)

lemma Recover_group:
  assumes g: "fec_group e fs" and m: "m < length fs"
    and frames: "\<forall>(c, s, f)\<in>set fs. 0 < length f \<and> length f \<le> 65533"
    and present: "length present = length fs"
      "\<forall>k<length fs. k \<noteq> m \<longrightarrow> present ! k = Some (snd (snd (fs ! k)))"
    and cap: "int (length (snd (snd (fs ! m)))) \<le> cap"
  shows "MuxFecRecover \<lparr>fv_entries = fe_entries e, fv_parity = fe_parity e\<rparr> present (int m) True cap =
         Some (snd (snd (fs ! m)))"
proof -
  define gs where "gs = map (snd \<circ> snd) fs"
  define L where "L = length (fe_parity e)"
  define f where "f = snd (snd (fs ! m))"
  have gk: "gs ! k = snd (snd (fs ! k))" if "k < length fs" for k using that by (simp add: gs_def)
  have fit: "length (snd (snd (fs ! k))) + 2 \<le> L" if "k < length fs" for k
    using g that by (fastforce simp: fec_group_def L_def dest: nth_mem)
  have f: "0 < length f" "length f \<le> 65533" "length f + 2 \<le> L"
    using bspec [OF frames nth_mem [OF m]] fit [OF m] by (auto simp: f_def case_prod_beta)
  then have L: "\<not> L < 3" by linarith
  obtain r where r: "fec_fold L present 0 m (fe_parity e) = Some r" "length r = L"
    and rj: "\<forall>j<L. r ! j = fe_parity e ! j XOR xorsum (others 0 m gs) j"
    using fec_fold_spec [of "fe_parity e" L gs present 0 m] present fit
    by (auto simp: L_def gs_def)
  have blk: "r ! j = blk f j" if "j < L" for j
    using g rj xorsum_others [of 0 m gs j] m that gk [OF m]
    by (simp add: fec_group_def L_def gs_def [symmetric] f_def) (simp add: gs_def)
  let ?w = "of_nat (length f) :: u32"
  have "r ! 0 = byte_at 1 ?w" "r ! 1 = byte_at 0 ?w"
    using blk f by (simp_all add: blk_def fec_block_def Let_def)
  then have len: "unat (push_bit 8 (ucast (r ! 0)) OR ucast (r ! 1) :: u32) = length f"
    using f by (simp only: be16_value unat_low16)
  have "take (length f) (drop 2 r) = f"
    using r f by (intro nth_equalityI) (simp_all add: blk blk_def fec_block_def Let_def)
  moreover have "length (fe_entries e) = length fs" using g by (simp add: fec_group_def)
  ultimately show ?thesis
    using r f m present len cap L
    by (simp add: MuxFecRecover_def Let_def L_def [symmetric] f_def [symmetric])
qed

section \<open>Properties\<close>

text \<open>
  C7. One loss per group is always repaired: for any non-empty group of at most 255 frames of 1 to
  65533 bytes, the parity frame built by the sender parses back to the covered identities, and from
  it and all but one of the frames \<^verbatim>\<open>MuxFecRecover\<close> returns exactly the missing frame.
\<close>

theorem fec_recovers_missing_frame:
  assumes "fs \<noteq> []" and "length fs \<le> 255" and "int (length fs) \<le> max_count"
    and "\<forall>(c, s, f)\<in>set fs. 0 < length f \<and> length f \<le> 65533"
    and "int (1 + 8 * length fs + 2 + 65535) \<le> out_cap"
    and "m < length fs" and "length present = length fs"
    and "\<forall>k<length fs. k \<noteq> m \<longrightarrow> present ! k = Some (snd (snd (fs ! k)))"
    and "int (length (snd (snd (fs ! m)))) \<le> cap"
  shows "\<exists>p v. fec_Build (fec_add_all fs (fec_Reset e now)) out_cap = Some p \<and>
               ParseMuxFecFrame (Some p) max_count = Some v \<and>
               fv_entries v = map (\<lambda>(c, s, f). \<lparr>fi_connection_id = c, fi_sequence = s\<rparr>) fs \<and>
               MuxFecRecover v present (int m) True cap = Some (snd (snd (fs ! m)))"
proof -
  let ?e = "fec_add_all fs (fec_Reset e now)"
  have g: "fec_group ?e fs" using fec_group_add_all [OF fec_group_Reset, of fs] by simp
  then obtain x where x: "x \<in> set fs" "length (fe_parity ?e) = length (snd (snd x)) + 2"
    using assms(1) by (auto simp: fec_group_def case_prod_beta)
  then have "0 < length (snd (snd x)) \<and> length (snd (snd x)) \<le> 65533"
    using bspec [OF assms(4) x(1)] by (simp add: case_prod_beta)
  then have par: "3 \<le> length (fe_parity ?e)" "length (fe_parity ?e) \<le> 65535" using x(2) by linarith+
  have ids: "fe_entries ?e = map (\<lambda>(c, s, f). \<lparr>fi_connection_id = c, fi_sequence = s\<rparr>) fs"
    using g by (simp add: fec_group_def)
  moreover have "fec_MaxPayloadSize ?e \<le> nat out_cap"
    using assms(5) par(2) by (simp add: fec_MaxPayloadSize_def ids)
  ultimately obtain p where p: "fec_Build ?e out_cap = Some p"
    using assms(1,2,5) par by (auto simp: fec_Build_def not_less)
  have "ParseMuxFecFrame (Some p) max_count = Some \<lparr>fv_entries = fe_entries ?e, fv_parity = fe_parity ?e\<rparr>"
    using Parse_Build [OF p] assms(3) par ids by simp
  then show ?thesis using p ids Recover_group [OF g assms(6,4,7,8,9)]
    by (intro exI [of _ p] exI [of _ "\<lparr>fv_entries = fe_entries ?e, fv_parity = fe_parity ?e\<rparr>"]) simp
qed

theorem fec_recovers_missing_frame_witness:
  "\<exists>p v. fec_Build (fec_add_all [(5, 1, [0xAA, 0xBB]), (5, 2, [0xCC])] (fec_Reset fec_init 0)) 70000 = Some p \<and>
         ParseMuxFecFrame (Some p) 8 = Some v \<and>
         fv_entries v = [\<lparr>fi_connection_id = 5, fi_sequence = 1\<rparr>, \<lparr>fi_connection_id = 5, fi_sequence = 2\<rparr>] \<and>
         MuxFecRecover v [None, Some [0xCC]] 0 True 1500 = Some [0xAA, 0xBB]"
  using fec_recovers_missing_frame [of "[(5, 1, [0xAA, 0xBB]), (5, 2, [0xCC])]" 8 70000 0 "[None, Some [0xCC]]" 1500 fec_init 0]
  by (simp add: less_Suc_eq)

end
