(* ===== verification/Mux_Flow.thy ===== *)
theory Mux_Flow
  imports Prelude "HOL-Library.Multiset"
begin

text \<open>
  The flow-control policies of the mux: receive-side reorder budget and gap clock
  (\<^verbatim>\<open>MuxRxBackpressure.h\<close>), send window, carrier choice and XON/XOFF (\<^verbatim>\<open>MuxTxBackpressure.h\<close>,
  \<^verbatim>\<open>vmux_skt.cpp\<close>), inbound queue limit (\<^verbatim>\<open>MuxRxQueueLimit.h\<close>), context admission
  (\<^verbatim>\<open>MuxFlowContextAdmission.h\<close>) and the write accounting of a retiring carrier
  (\<^verbatim>\<open>MuxLinkDrainState.h\<close>). \<^verbatim>\<open>std::size_t\<close> is a 64-bit word here, since these functions
  saturate on its bounds; signed arguments are \<open>int\<close>.
\<close>

abbreviation size_max :: u64 where
  "size_max \<equiv> - 1"

section \<open>Receive side\<close>

datatype MuxReorderAdmit = AcceptBytes | AcceptAndPause | Reject

definition MuxReorderHardCap :: "u64 \<Rightarrow> u64 \<Rightarrow> u64" where
  "MuxReorderHardCap soft_cap hard_factor =
     (let factor = (if hard_factor < 1 then 1 else hard_factor) in
      if soft_cap > size_max div factor then size_max else soft_cap * factor)"

definition AdmitReorderBytes :: "u64 \<Rightarrow> u64 \<Rightarrow> u64 \<Rightarrow> u64 \<Rightarrow> MuxReorderAdmit" where
  "AdmitReorderBytes buffered incoming soft_cap hard_factor =
     (if soft_cap = 0 then AcceptBytes
      else let total = (if incoming > size_max - buffered then size_max else buffered + incoming) in
        if total \<le> soft_cap then AcceptBytes
        else if total \<le> MuxReorderHardCap soft_cap hard_factor then AcceptAndPause else Reject)"

definition MuxReorderShouldResume :: "u64 \<Rightarrow> u64 \<Rightarrow> bool" where
  "MuxReorderShouldResume buffered soft_cap \<longleftrightarrow> soft_cap = 0 \<or> buffered \<le> soft_cap div 2"

definition MuxPauseWouldStallAll :: "nat \<Rightarrow> nat \<Rightarrow> bool" where
  "MuxPauseWouldStallAll paused live \<longleftrightarrow> live = 0 \<or> paused \<ge> live"

definition MuxGapClockOnBuffered :: "u64 \<Rightarrow> u64 \<Rightarrow> u64" where
  "MuxGapClockOnBuffered since now = (if since = 0 then now else since)"

definition MuxGapClockAfterAdvance :: "u64 \<Rightarrow> bool \<Rightarrow> u64" where
  "MuxGapClockAfterAdvance now still_buffered = (if still_buffered then now else 0)"

definition MuxGapExpired :: "u64 \<Rightarrow> u64 \<Rightarrow> u64 \<Rightarrow> bool" where
  "MuxGapExpired since now timeout \<longleftrightarrow> since \<noteq> 0 \<and> now \<ge> since \<and> now - since > timeout"

datatype FlowContextAdmission = AllowExisting | AllowCreate | RejectUnknown | RejectCap | RejectZero

definition AdmitFlowContext :: "u32 \<Rightarrow> bool \<Rightarrow> bool \<Rightarrow> nat \<Rightarrow> nat \<Rightarrow> FlowContextAdmission" where
  "AdmitFlowContext connection_id already_tracked socket_exists current_contexts context_cap =
     (if connection_id = 0 then RejectZero
      else if already_tracked then AllowExisting
      else if \<not> socket_exists then RejectUnknown
      else if context_cap > 0 \<and> current_contexts \<ge> context_cap then RejectCap
      else AllowCreate)"

definition kMuxRxQueueHardMaxPackets :: nat where
  "kMuxRxQueueHardMaxPackets = 16384"

definition kMuxRxQueueHardMaxBytesNoFc :: int where
  "kMuxRxQueueHardMaxBytesNoFc = 256 * 2 ^ 20"

definition MuxRxQueueHardMaxBytes :: "int \<Rightarrow> int" where
  "MuxRxQueueHardMaxBytes soft_congestions =
     (if soft_congestions < 1 then kMuxRxQueueHardMaxBytesNoFc else soft_congestions * 2)"

definition MuxRxQueueOverflows :: "nat \<Rightarrow> int \<Rightarrow> int \<Rightarrow> int \<Rightarrow> bool" where
  "MuxRxQueueOverflows queued_packets queued_bytes incoming_bytes soft_congestions =
     (if queued_packets \<ge> kMuxRxQueueHardMaxPackets then True
      else queued_bytes + (if incoming_bytes > 0 then incoming_bytes else 0) > MuxRxQueueHardMaxBytes soft_congestions)"

definition MuxIsNoopPush :: "int \<Rightarrow> bool" where
  "MuxIsNoopPush payload_size \<longleftrightarrow> payload_size \<le> 0"

section \<open>Send side\<close>

datatype MuxTxAdmit = Send | HoldSession | HoldFlow

definition MuxTxHardCap :: "u64 \<Rightarrow> u64 \<Rightarrow> u64" where
  "MuxTxHardCap window hard_factor =
     (let factor = (if hard_factor < 1 then 1 else hard_factor) in
      if window > size_max div factor then size_max else window * factor)"

definition MuxTxFitsWindow :: "u64 \<Rightarrow> u64 \<Rightarrow> u64 \<Rightarrow> bool" where
  "MuxTxFitsWindow inflight incoming window =
     (if window = 0 \<or> inflight = 0 then True else incoming \<le> window \<and> inflight \<le> window - incoming)"

definition AdmitTxFrame :: "u64 \<Rightarrow> u64 \<Rightarrow> u64 \<Rightarrow> u64 \<Rightarrow> u64 \<Rightarrow> MuxTxAdmit" where
  "AdmitTxFrame session_inflight flow_inflight incoming session_window flow_window =
     (if incoming = 0 then Send
      else if \<not> MuxTxFitsWindow flow_inflight incoming flow_window then HoldFlow
      else if \<not> MuxTxFitsWindow session_inflight incoming session_window then HoldSession
      else Send)"

definition MuxTxOverHardCap :: "u64 \<Rightarrow> u64 \<Rightarrow> u64 \<Rightarrow> u64 \<Rightarrow> bool" where
  "MuxTxOverHardCap inflight incoming window hard_factor =
     (if window = 0 then False
      else let hard = MuxTxHardCap window hard_factor in incoming > hard \<or> inflight > hard - incoming)"

definition MuxTxShouldCoupleCompletion ::
  "nat \<Rightarrow> nat \<Rightarrow> bool \<Rightarrow> nat \<Rightarrow> nat \<Rightarrow> nat \<Rightarrow> nat \<Rightarrow> bool" where
  "MuxTxShouldCoupleCompletion session_frames session_high_water flow_parked flow_frames flow_bytes
       flow_max_frames flow_max_bytes =
     (if session_high_water > 0 \<and> session_frames \<ge> session_high_water then True
      else if flow_parked then True
      else if flow_max_frames > 0 \<and> flow_frames \<ge> flow_max_frames div 2 then True
      else flow_max_bytes > 0 \<and> flow_bytes \<ge> flow_max_bytes div 2)"

record link_load =
  ll_queued_bytes :: nat
  ll_srtt_ms :: u64
  ll_has_rtt :: bool
  ll_has_credit :: bool

definition kMuxRttTieMarginMs :: u64 where
  "kMuxRttTieMarginMs = 10"

definition better_link :: "link_load \<Rightarrow> link_load \<Rightarrow> bool" where
  "better_link l b =
     (if ll_queued_bytes l \<noteq> ll_queued_bytes b then ll_queued_bytes l < ll_queued_bytes b
      else ll_has_rtt l \<and> ll_has_rtt b \<and> ll_srtt_ms l + kMuxRttTieMarginMs < ll_srtt_ms b)"

fun pick_loop :: "link_load list \<Rightarrow> nat \<Rightarrow> nat option \<Rightarrow> link_load list \<Rightarrow> nat option" where
  "pick_loop links i best [] = best"
| "pick_loop links i best (l # ls) =
     (if \<not> ll_has_credit l then pick_loop links (Suc i) best ls
      else case best of
          None \<Rightarrow> pick_loop links (Suc i) (Some i) ls
        | Some b \<Rightarrow> pick_loop links (Suc i) (if better_link l (links ! b) then Some i else Some b) ls)"

definition MuxPickLeastLoaded :: "link_load list \<Rightarrow> int" where
  "MuxPickLeastLoaded links = (case pick_loop links 0 None links of None \<Rightarrow> -1 | Some i \<Rightarrow> int i)"

definition MuxPushIsZeroCopy :: "int \<Rightarrow> int \<Rightarrow> int \<Rightarrow> bool" where
  "MuxPushIsZeroCopy payload buffer min_payload \<longleftrightarrow> payload \<ge> min_payload \<and> payload > 0 \<and> payload * 2 \<ge> buffer"

section \<open>XON and XOFF\<close>

datatype MuxFlowControlAction = FcNone | SendXon | SendXoff

definition MuxFlowControlNext :: "bool \<Rightarrow> int \<Rightarrow> int \<Rightarrow> MuxFlowControlAction" where
  "MuxFlowControlNext peer_running backlog threshold =
     (if threshold < 1 then FcNone
      else if peer_running then (if backlog \<ge> threshold then SendXoff else FcNone)
      else if backlog \<le> threshold div 2 then SendXon else FcNone)"

definition MuxFlowControlIsFresh :: "bool \<Rightarrow> u32 \<Rightarrow> u32 \<Rightarrow> bool" where
  "MuxFlowControlIsFresh have_last last_version version =
     (if \<not> have_last then True else sint (version - last_version) > 0)"

text \<open>
  \<^verbatim>\<open>vmux_skt::rx_congestions\<close> and \<^verbatim>\<open>post_flow_control\<close>: the receiver's half, with the frame
  (state and version) it posts, if any.
\<close>

record fc_receiver =
  fr_congestions :: int
  fr_running :: bool
  fr_version :: u32

definition fc_receiver_init :: fc_receiver where
  "fc_receiver_init = \<lparr>fr_congestions = 0, fr_running = True, fr_version = 0\<rparr>"

definition post_flow_control :: "fc_receiver \<Rightarrow> bool \<Rightarrow> fc_receiver \<times> (bool \<times> u32) option" where
  "post_flow_control r st =
     (let version = fr_version r + 1 in (r\<lparr>fr_version := version\<rparr>, Some (st, version)))"

definition rx_congestions :: "int \<Rightarrow> fc_receiver \<Rightarrow> int \<Rightarrow> fc_receiver \<times> (bool \<times> u32) option" where
  "rx_congestions max_congestions r v =
     (if v = 0 then (r, None)
      else if max_congestions < 1 then (r, None)
      else let c = fr_congestions r + v;
               c = (if c < 0 then 0 else c);
               r = r\<lparr>fr_congestions := c\<rparr>
           in case MuxFlowControlNext (fr_running r) c max_congestions of
               SendXoff \<Rightarrow> post_flow_control (r\<lparr>fr_running := False\<rparr>) False
             | SendXon \<Rightarrow> post_flow_control (r\<lparr>fr_running := True\<rparr>) True
             | FcNone \<Rightarrow> (r, None))"

text \<open>\<^verbatim>\<open>vmux_skt::tx_acceleration\<close>: the sender's half, applying a received frame.\<close>

record fc_sender =
  fs_versioned :: bool
  fs_version :: u32
  fs_acceleration :: bool
  fs_disposed :: bool

definition fc_sender_init :: fc_sender where
  "fc_sender_init = \<lparr>fs_versioned = False, fs_version = 0, fs_acceleration = True, fs_disposed = False\<rparr>"

definition tx_acceleration_set :: "fc_sender \<Rightarrow> bool \<Rightarrow> fc_sender" where
  "tx_acceleration_set s acceleration =
     (if fs_disposed s then s else s\<lparr>fs_acceleration := acceleration\<rparr>)"

definition tx_acceleration :: "fc_sender \<Rightarrow> bool \<Rightarrow> bool \<Rightarrow> u32 \<Rightarrow> fc_sender" where
  "tx_acceleration s acceleration has_version version =
     (if has_version then
        (if \<not> MuxFlowControlIsFresh (fs_versioned s) (fs_version s) version then s
         else tx_acceleration_set (s\<lparr>fs_versioned := True, fs_version := version\<rparr>) acceleration)
      else tx_acceleration_set s acceleration)"

section \<open>Write accounting of a carrier\<close>

text \<open>
  \<^verbatim>\<open>MuxLinkDrainState\<close>. A ticket is the address of its shared flag; the flag is set by an atomic
  compare-and-exchange before the counter is decremented under the lock, so consuming a ticket is
  two steps of a thread, \<open>consume_flag\<close> and \<open>consume_count\<close>, between which other threads may run.
  \<open>dr_pending\<close> holds the threads between the two.
\<close>

record drain_state =
  dr_inflight :: nat
  dr_retiring :: bool
  dr_flags :: "nat \<rightharpoonup> bool"
  dr_pending :: "nat multiset"

definition drain_init :: drain_state where
  "drain_init = \<lparr>dr_inflight = 0, dr_retiring = False, dr_flags = (\<lambda>_. None), dr_pending = {#}\<rparr>"

text \<open>\<open>t\<close> is the address the allocator returns, or nothing when it throws.\<close>

definition BeginWrite :: "nat option \<Rightarrow> drain_state \<Rightarrow> nat option \<times> drain_state" where
  "BeginWrite t d =
     (if dr_retiring d then (None, d)
      else case t of
          None \<Rightarrow> (None, d)
        | Some t \<Rightarrow> (Some t, d\<lparr>dr_flags := (dr_flags d)(t \<mapsto> False), dr_inflight := dr_inflight d + 1\<rparr>))"

definition BeginRetire :: "drain_state \<Rightarrow> drain_state" where
  "BeginRetire d = d\<lparr>dr_retiring := True\<rparr>"

definition reapable :: "drain_state \<Rightarrow> bool" where
  "reapable d \<longleftrightarrow> dr_retiring d \<and> dr_inflight d = 0"

text \<open>The first half of \<^verbatim>\<open>Consume\<close>; a ticket of another owner or an empty one is \<open>None\<close>.\<close>

definition consume_flag :: "nat option \<Rightarrow> drain_state \<Rightarrow> bool \<times> drain_state" where
  "consume_flag ticket d =
     (case ticket of
        None \<Rightarrow> (False, d)
      | Some t \<Rightarrow>
          if dr_flags d t = Some False
          then (True, d\<lparr>dr_flags := (dr_flags d)(t \<mapsto> True), dr_pending := add_mset t (dr_pending d)\<rparr>)
          else (False, d))"

definition consume_count :: "nat \<Rightarrow> drain_state \<Rightarrow> bool \<times> drain_state" where
  "consume_count t d =
     (let d = d\<lparr>dr_pending := dr_pending d - {#t#}\<rparr> in
      if dr_inflight d = 0 then (False, d) else (True, d\<lparr>dr_inflight := dr_inflight d - 1\<rparr>))"

inductive drain_step :: "drain_state \<Rightarrow> drain_state \<Rightarrow> bool" where
  step_begin: "(case t of None \<Rightarrow> True | Some a \<Rightarrow> dr_flags d a = None) \<Longrightarrow>
     BeginWrite t d = (r, d') \<Longrightarrow> drain_step d d'"
| step_retire: "drain_step d (BeginRetire d)"
| step_flag: "consume_flag ticket d = (r, d') \<Longrightarrow> drain_step d d'"
| step_count: "t \<in># dr_pending d \<Longrightarrow> consume_count t d = (r, d') \<Longrightarrow> drain_step d d'"

section \<open>Saturating arithmetic\<close>

lemma unat_size_max: "unat size_max = 2 ^ 64 - 1"
  by (simp add: unsigned_minus_1_eq_mask mask_eq_exp_minus_1)

lemma saturating_mult:
  fixes w f :: u64
  defines "F \<equiv> if f < 1 then 1 else f"
  shows "unat (if w > size_max div F then size_max else w * F) =
         min (2 ^ 64 - 1) (unat w * max 1 (unat f))"
proof -
  have F: "unat F = max 1 (unat f)" "0 < unat F"
    by (auto simp: F_def word_less_nat_alt max_def)
  have "w > size_max div F \<longleftrightarrow> (2 ^ 64 - 1) div unat F < unat w"
    by (simp add: word_less_nat_alt unat_div unat_size_max)
  then have test: "w > size_max div F \<longleftrightarrow> 2 ^ 64 - 1 < unat w * unat F"
    using F(2) by (simp only: div_less_iff_less_mult)
  show ?thesis
    unfolding F(1) [symmetric]
  proof (cases "w > size_max div F")
    case True
    then show "unat (if w > size_max div F then size_max else w * F) = min (2 ^ 64 - 1) (unat w * unat F)"
      using test by (simp add: unat_size_max)
  next
    case False
    then have "\<not> 2 ^ 64 - 1 < unat w * unat F" using test by simp
    then have "unat w * unat F < 2 ^ 64" by simp
    then show "unat (if w > size_max div F then size_max else w * F) = min (2 ^ 64 - 1) (unat w * unat F)"
      using False by (simp add: unat_word_ariths)
  qed
qed

lemma unat_MuxReorderHardCap:
  "unat (MuxReorderHardCap s f) = min (2 ^ 64 - 1) (unat s * max 1 (unat f))"
  unfolding MuxReorderHardCap_def Let_def by (rule saturating_mult)

lemma unat_MuxTxHardCap:
  "unat (MuxTxHardCap s f) = min (2 ^ 64 - 1) (unat s * max 1 (unat f))"
  unfolding MuxTxHardCap_def Let_def by (rule saturating_mult)

lemma saturating_add:
  fixes a b :: u64
  shows "unat (if b > size_max - a then size_max else a + b) = min (2 ^ 64 - 1) (unat a + unat b)"
proof -
  have "unat (size_max - a) = 2 ^ 64 - 1 - unat a"
    using unsigned_less [of a, where 'a = nat] by (simp add: unat_sub_if' unat_size_max)
  then have test: "b > size_max - a \<longleftrightarrow> 2 ^ 64 - 1 - unat a < unat b"
    by (simp only: word_less_nat_alt)
  show ?thesis
  proof (cases "b > size_max - a")
    case True
    then show ?thesis using test by (simp add: unat_size_max)
  next
    case False
    then have "unat a + unat b < 2 ^ 64" using test unsigned_less [of a, where 'a = nat] by simp
    then show ?thesis using False by (simp add: unat_word_ariths)
  qed
qed

section \<open>Carrier choice\<close>

definition pick_inv :: "link_load list \<Rightarrow> nat \<Rightarrow> nat option \<Rightarrow> bool" where
  "pick_inv links i best =
     (case best of
        None \<Rightarrow> \<forall>j<i. \<not> ll_has_credit (links ! j)
      | Some b \<Rightarrow> b < i \<and> ll_has_credit (links ! b) \<and>
          (\<forall>j<i. ll_has_credit (links ! j) \<longrightarrow> ll_queued_bytes (links ! b) \<le> ll_queued_bytes (links ! j)))"

lemma pick_loop_inv:
  "ls = drop i links \<Longrightarrow> i \<le> length links \<Longrightarrow> pick_inv links i best \<Longrightarrow>
     pick_inv links (length links) (pick_loop links i best ls)"
proof (induction links i best ls rule: pick_loop.induct)
  case (2 links i best l ls)
  have l: "l = links ! i" "ls = drop (Suc i) links" "i < length links"
    using 2(4) by (metis nth_via_drop, metis drop_Suc list.sel(3) tl_drop, metis drop_eq_Nil list.discI not_le)
  have all: "(\<forall>j<Suc i. P j) \<longleftrightarrow> P i \<and> (\<forall>j<i. P j)" for P by (auto simp: less_Suc_eq)
  show ?case
  proof (cases "ll_has_credit l")
    case False
    then have "pick_inv links (Suc i) best"
      using 2(6) l by (auto simp: pick_inv_def all split: option.splits)
    then show ?thesis using 2(1) [OF False] l False by simp
  next
    case True
    show ?thesis
    proof (cases best)
      case None
      then have "pick_inv links (Suc i) (Some i)"
        using 2(6) l True by (auto simp: pick_inv_def all)
      then show ?thesis using 2(2) [OF _ None] True l None by simp
    next
      case (Some b)
      then have "pick_inv links (Suc i) (if better_link l (links ! b) then Some i else Some b)"
        using 2(6) l True by (auto simp: pick_inv_def all better_link_def split: if_splits)
      then show ?thesis using 2(3) [OF _ Some] True l Some by simp
    qed
  qed
qed simp

section \<open>Ordering of XON and XOFF\<close>

lemma fresh_small:
  assumes "i < 2 ^ 31" and "m < 2 ^ 31"
  shows "MuxFlowControlIsFresh True (of_nat m) (of_nat i) \<longleftrightarrow> m < i"
proof -
  have "(of_nat i - of_nat m :: u32) = of_int (int i - int m)" by simp
  then have "sint (of_nat i - of_nat m :: u32) = signed_take_bit 31 (int i - int m)"
    by (simp only: sint_sbintrunc') simp
  also have "\<dots> = int i - int m"
    using assms by (intro signed_take_bit_int_eq_self) simp_all
  finally show ?thesis by (simp add: MuxFlowControlIsFresh_def)
qed

text \<open>The sender after receiving the frames with the given version numbers, in any order.\<close>

definition fc_apply :: "(nat \<Rightarrow> bool) \<Rightarrow> nat list \<Rightarrow> fc_sender \<Rightarrow> fc_sender" where
  "fc_apply B is s = fold (\<lambda>i s. tx_acceleration s (B i) True (of_nat i)) is s"

lemma fc_apply_max:
  assumes "\<forall>i\<in>set is. i < 2 ^ 31" and "is \<noteq> []"
  shows "\<exists>m\<in>set is. (\<forall>i\<in>set is. i \<le> m) \<and>
           fc_apply B is fc_sender_init =
             \<lparr>fs_versioned = True, fs_version = of_nat m, fs_acceleration = B m, fs_disposed = False\<rparr>"
  using assms
proof (induction "is" rule: rev_induct)
  case (snoc i "is")
  show ?case
  proof (cases "is = []")
    case True
    then show ?thesis
      by (simp add: fc_apply_def fc_sender_init_def tx_acceleration_def tx_acceleration_set_def
          MuxFlowControlIsFresh_def)
  next
    case False
    then obtain m where m: "m \<in> set is" "\<forall>j\<in>set is. j \<le> m"
      "fc_apply B is fc_sender_init =
         \<lparr>fs_versioned = True, fs_version = of_nat m, fs_acceleration = B m, fs_disposed = False\<rparr>"
      using snoc by auto
    have "fc_apply B (is @ [i]) fc_sender_init =
            tx_acceleration (fc_apply B is fc_sender_init) (B i) True (of_nat i)"
      by (simp add: fc_apply_def)
    then have step: "fc_apply B (is @ [i]) fc_sender_init =
        (if m < i then \<lparr>fs_versioned = True, fs_version = of_nat i, fs_acceleration = B i, fs_disposed = False\<rparr>
         else \<lparr>fs_versioned = True, fs_version = of_nat m, fs_acceleration = B m, fs_disposed = False\<rparr>)"
      using m snoc.prems(1) by (simp add: tx_acceleration_def tx_acceleration_set_def fresh_small)
    show ?thesis
    proof (cases "m < i")
      case True
      then show ?thesis using m(2) step by (intro bexI [of _ i]) auto
    next
      case False
      then show ?thesis using m(1,2) step by (intro bexI [of _ m]) auto
    qed
  qed
qed simp

text \<open>The frames a receiver posts while its backlog changes.\<close>

fun fc_run :: "int \<Rightarrow> fc_receiver \<Rightarrow> int list \<Rightarrow> fc_receiver \<times> (bool \<times> u32) list" where
  "fc_run c r [] = (r, [])"
| "fc_run c r (v # vs) =
     (let (r', f) = rx_congestions c r v; (r'', fs) = fc_run c r' vs
      in (r'', (case f of None \<Rightarrow> fs | Some x \<Rightarrow> x # fs)))"

lemma rx_congestions_frame:
  "rx_congestions c r v = (r', f) \<Longrightarrow>
     (f = None \<and> fr_running r' = fr_running r \<and> fr_version r' = fr_version r) \<or>
     (f = Some (fr_running r', fr_version r') \<and> fr_version r' = fr_version r + 1)"
  by (auto simp: rx_congestions_def post_flow_control_def Let_def split: if_splits MuxFlowControlAction.splits)

lemma fc_run_frames:
  "fc_run c r vs = (r', fs) \<Longrightarrow> fr_version r = of_nat n \<Longrightarrow>
     (\<forall>i<length fs. snd (fs ! i) = of_nat (Suc n + i)) \<and>
     fr_running r' = (if fs = [] then fr_running r else fst (last fs))"
proof (induction vs arbitrary: r n fs)
  case (Cons v vs)
  obtain r1 f where f: "rx_congestions c r v = (r1, f)" by fastforce
  obtain fs' where fs': "fc_run c r1 vs = (r', fs')" and fs: "fs = (case f of None \<Rightarrow> fs' | Some x \<Rightarrow> x # fs')"
    using Cons.prems(1) f by (cases "fc_run c r1 vs") (auto simp: Let_def)
  from rx_congestions_frame [OF f] show ?case
  proof
    assume "f = None \<and> fr_running r1 = fr_running r \<and> fr_version r1 = fr_version r"
    then show ?thesis using Cons.IH [OF fs', of n] Cons.prems(2) fs by simp
  next
    assume s: "f = Some (fr_running r1, fr_version r1) \<and> fr_version r1 = fr_version r + 1"
    then have v1: "fr_version r1 = of_nat (Suc n)" using Cons.prems(2) by simp
    have "snd (fs ! i) = of_nat (Suc n + i)" if "i < length fs" for i
      using that Cons.IH [OF fs' v1] fs s v1 by (cases i) auto
    then show ?thesis using Cons.IH [OF fs' v1] fs s by auto
  qed
qed auto

section \<open>Drain accounting\<close>

definition drain_inv :: "drain_state \<Rightarrow> bool" where
  "drain_inv d \<longleftrightarrow> finite (dom (dr_flags d)) \<and>
     (\<forall>t. count (dr_pending d) t \<le> 1) \<and> (\<forall>t\<in>#dr_pending d. dr_flags d t = Some True) \<and>
     dr_inflight d = card {t. dr_flags d t = Some False} + size (dr_pending d)"

lemma drain_init_inv: "drain_inv drain_init"
  by (simp add: drain_inv_def drain_init_def)

lemma finite_unconsumed: "finite (dom f) \<Longrightarrow> finite {t. f t = Some False}"
  by (rule finite_subset [of _ "dom f"]) auto

lemma drain_step_inv: "drain_step d d' \<Longrightarrow> drain_inv d \<Longrightarrow> drain_inv d'"
proof (induction rule: drain_step.induct)
  case (step_begin t d r d')
  show ?case
  proof (cases "dr_retiring d \<or> t = None")
    case True
    then show ?thesis using step_begin by (auto simp: BeginWrite_def split: option.splits)
  next
    case False
    then obtain a where a: "t = Some a" "dr_flags d a = None" using step_begin(1) by auto
    have "{x. ((dr_flags d)(a \<mapsto> False)) x = Some False} = insert a {x. dr_flags d x = Some False}"
      by auto
    moreover have "a \<notin> {x. dr_flags d x = Some False}" using a by simp
    ultimately show ?thesis
      using step_begin False a finite_unconsumed [of "dr_flags d"]
      by (auto simp: BeginWrite_def drain_inv_def)
  qed
next
  case (step_retire d)
  then show ?case by (simp add: drain_inv_def BeginRetire_def)
next
  case (step_flag ticket d r d')
  show ?case
  proof (cases "\<exists>t. ticket = Some t \<and> dr_flags d t = Some False")
    case True
    then obtain t where t: "ticket = Some t" "dr_flags d t = Some False" by blast
    have "{x. ((dr_flags d)(t \<mapsto> True)) x = Some False} = {x. dr_flags d x = Some False} - {t}"
      by auto
    moreover have "t \<notin># dr_pending d" using step_flag(2) t by (auto simp: drain_inv_def)
    moreover have "card {x. dr_flags d x = Some False} = Suc (card ({x. dr_flags d x = Some False} - {t}))"
      using t step_flag(2) finite_unconsumed [of "dr_flags d"]
      by (intro card.remove) (auto simp: drain_inv_def)
    ultimately show ?thesis
      using step_flag t by (auto simp: consume_flag_def drain_inv_def not_in_iff)
  next
    case False
    then show ?thesis using step_flag by (auto simp: consume_flag_def split: option.splits if_splits)
  qed
next
  case (step_count t d r d')
  then obtain P where P: "dr_pending d = add_mset t P" by (metis mset_add)
  then have d': "d' = d\<lparr>dr_pending := P, dr_inflight := card {t. dr_flags d t = Some False} + size P\<rparr>"
    using step_count by (auto simp: consume_count_def drain_inv_def Let_def)
  have "count P x \<le> 1" for x
  proof -
    have "count (dr_pending d) x \<le> 1" using step_count(3) by (simp add: drain_inv_def)
    then show ?thesis unfolding P by (simp split: if_splits)
  qed
  then show ?case using step_count(3) unfolding d' by (simp add: drain_inv_def P)
qed

section \<open>Properties\<close>

text \<open>
  The reorder budget classifies in exact integer arithmetic despite 64-bit sizes: a frame is
  accepted within the soft cap, accepted with a pause up to the soft cap times the factor (at least
  1), and rejected beyond, sums and products being cut off only at the largest size.
\<close>

theorem AdmitReorderBytes_exact:
  "AdmitReorderBytes buffered incoming soft_cap hard_factor =
     (let total = min (2 ^ 64 - 1) (unat buffered + unat incoming) in
      if soft_cap = 0 \<or> total \<le> unat soft_cap then AcceptBytes
      else if total \<le> min (2 ^ 64 - 1) (unat soft_cap * max 1 (unat hard_factor)) then AcceptAndPause
      else Reject)"
  unfolding AdmitReorderBytes_def Let_def word_le_nat_alt saturating_add unat_MuxReorderHardCap by simp



text \<open>
  The carrier for the next frame is one with credit and with the fewest bytes in flight among
  all carriers with credit; no carrier is chosen exactly when none has credit.
\<close>

theorem MuxPickLeastLoaded_least:
  "(MuxPickLeastLoaded links = -1 \<longleftrightarrow> (\<forall>l\<in>set links. \<not> ll_has_credit l)) \<and>
   (MuxPickLeastLoaded links \<noteq> -1 \<longrightarrow>
      (\<exists>i<length links. MuxPickLeastLoaded links = int i \<and> ll_has_credit (links ! i) \<and>
         (\<forall>l\<in>set links. ll_has_credit l \<longrightarrow> ll_queued_bytes (links ! i) \<le> ll_queued_bytes l)))"
proof -
  have inv: "pick_inv links (length links) (pick_loop links 0 None links)"
    by (rule pick_loop_inv) (simp_all add: pick_inv_def)
  have all: "(\<forall>l\<in>set links. P l) \<longleftrightarrow> (\<forall>j<length links. P (links ! j))" for P
    by (simp add: all_set_conv_all_nth)
  show ?thesis
  proof (cases "pick_loop links 0 None links")
    case None
    then show ?thesis using inv unfolding all by (simp add: MuxPickLeastLoaded_def pick_inv_def)
  next
    case (Some b)
    then show ?thesis using inv unfolding all by (auto simp: MuxPickLeastLoaded_def pick_inv_def)
  qed
qed

theorem MuxPickLeastLoaded_least_witness:
  "let a = \<lparr>ll_queued_bytes = 9, ll_srtt_ms = 1, ll_has_rtt = True, ll_has_credit = True\<rparr>;
       b = \<lparr>ll_queued_bytes = 4, ll_srtt_ms = 90, ll_has_rtt = True, ll_has_credit = True\<rparr>
   in MuxPickLeastLoaded [a, b] = 1 \<and> (\<exists>i<2. MuxPickLeastLoaded [a, b] = int i \<and> ll_has_credit ([a, b] ! i))"
proof -
  let ?a = "\<lparr>ll_queued_bytes = 9, ll_srtt_ms = 1, ll_has_rtt = True, ll_has_credit = True\<rparr> :: link_load"
  let ?b = "\<lparr>ll_queued_bytes = 4, ll_srtt_ms = 90, ll_has_rtt = True, ll_has_credit = True\<rparr> :: link_load"
  have "MuxPickLeastLoaded [?a, ?b] = 1" by (simp add: MuxPickLeastLoaded_def better_link_def)
  then show ?thesis using MuxPickLeastLoaded_least [of "[?a, ?b]"] by (auto simp: Let_def)
qed

text \<open>
  C9. XON/XOFF converges whatever the delivery order: if a receiver whose backlog changes
  arbitrarily posts fewer than \<open>2\<^sup>3\<^sup>1\<close> control frames and the sender gets each of them once, in any
  order over any carriers, then the sender ends up running exactly when the receiver last asked it
  to run.
\<close>

theorem flow_control_converges:
  assumes "fc_run c fc_receiver_init vs = (r, frames)" and "length frames < 2 ^ 31"
    and "mset received = mset frames"
  shows "fs_acceleration (fold (\<lambda>(st, ver) s. tx_acceleration s st True ver) received fc_sender_init) = fr_running r"
proof -
  have "fr_version fc_receiver_init = of_nat 0" by (simp add: fc_receiver_init_def)
  note run = fc_run_frames [OF assms(1) this]
  define n where "n = length frames"
  define B where "B i = fst (frames ! (i - 1))" for i
  have nth: "frames ! k = (B (Suc k), of_nat (Suc k))" if "k < n" for k
    using run that by (simp add: B_def n_def prod_eq_iff)
  have sub: "set received = set frames" using assms(3) by (metis set_mset_mset)
  have elem: "\<exists>i. 1 \<le> i \<and> i \<le> n \<and> x = (B i, of_nat i)" if x: "x \<in> set received" for x
  proof -
    obtain k where "k < n" "x = frames ! k" using x unfolding sub by (auto simp: in_set_conv_nth n_def)
    then show ?thesis using nth by (intro exI [of _ "Suc k"]) simp
  qed
  then have "\<forall>x. \<exists>i. x \<in> set received \<longrightarrow> 1 \<le> i \<and> i \<le> n \<and> x = (B i, of_nat i)" by blast
  then obtain ix where ix: "x \<in> set received \<Longrightarrow> 1 \<le> ix x \<and> ix x \<le> n \<and> x = (B (ix x), of_nat (ix x))" for x
    by metis
  define "is" where "is = map ix received"
  have rec: "received = map (\<lambda>i. (B i, of_nat i)) is"
    unfolding is_def map_map using ix by (intro map_idI [symmetric]) auto
  then have fold: "fold (\<lambda>(st, ver) s. tx_acceleration s st True ver) received fc_sender_init = fc_apply B is fc_sender_init"
    by (simp add: fc_apply_def fold_map comp_def)
  show ?thesis
  proof (cases "frames = []")
    case True
    then have "received = []" using assms(3) by simp
    then show ?thesis using True run by (simp add: fc_sender_init_def fc_receiver_init_def)
  next
    case False
    then have n: "0 < n" by (simp add: n_def)
    have small: "\<forall>i\<in>set is. i \<le> n" "\<forall>i\<in>set is. i < 2 ^ 31"
      using ix assms(2) by (fastforce simp: is_def n_def)+
    have "frames ! (n - 1) \<in> set received" using n sub by (simp add: n_def)
    then have "(B n, of_nat n) \<in> set received" using nth [of "n - 1"] n by simp
    then obtain j where j: "j \<in> set is" "of_nat j = (of_nat n :: u32)" unfolding rec by auto
    then have "unat (of_nat j :: u32) = unat (of_nat n :: u32)" by simp
    moreover have "j < 2 ^ 31" using small(2) j(1) by blast
    ultimately have jn: "j = n" using assms(2) by (simp add: unat_of_nat n_def take_bit_nat_eq_self)
    then obtain m where "m \<in> set is" "\<forall>i\<in>set is. i \<le> m" "fs_acceleration (fc_apply B is fc_sender_init) = B m"
      using fc_apply_max [OF small(2), of B] j(1) by fastforce
    moreover from this have "m = n" using jn j(1) small(1) by (simp add: le_antisym)
    moreover have "B n = fr_running r" using run False n by (simp add: B_def n_def last_conv_nth)
    ultimately show ?thesis using fold by simp
  qed
qed

theorem flow_control_converges_witness:
  "fs_acceleration (fold (\<lambda>(st, ver) s. tx_acceleration s st True ver) [(True, 2), (False, 1)] fc_sender_init) = True"
proof -
  have "fc_run 10 fc_receiver_init [12, -8] =
          (\<lparr>fr_congestions = 4, fr_running = True, fr_version = 2\<rparr>, [(False, 1), (True, 2)])"
    by code_simp
  from flow_control_converges [OF this, of "[(True, 2), (False, 1)]"] show ?thesis by simp
qed

text \<open>
  A retiring carrier is reaped exactly when its last write is accounted for, under every
  interleaving: in all reachable states the in-flight count is the number of tickets not yet
  consumed plus the consumers that have set their flag and not yet decremented, so no ticket is
  counted down twice, the underflow branch of \<^verbatim>\<open>Consume\<close> is dead, and a reapable carrier has no
  outstanding ticket.
\<close>

theorem drain_accounting:
  assumes "drain_step\<^sup>*\<^sup>* drain_init d"
  shows "dr_inflight d = card {t. dr_flags d t = Some False} + size (dr_pending d) \<and>
         (\<forall>t. t \<in># dr_pending d \<longrightarrow> fst (consume_count t d)) \<and>
         (reapable d \<longrightarrow> (\<forall>t. dr_flags d t \<noteq> Some False) \<and> dr_pending d = {#})"
proof -
  have "drain_inv d" using assms
    by (induction rule: rtranclp_induct) (auto intro: drain_init_inv drain_step_inv)
  then show ?thesis
    using finite_unconsumed [of "dr_flags d"]
    by (auto simp: drain_inv_def reapable_def consume_count_def Let_def)
qed

theorem drain_accounting_witness:
  "let d = BeginRetire (snd (BeginWrite (Some 7) drain_init)) in
   dr_inflight d = card {t. dr_flags d t = Some False} + size (dr_pending d) \<and> \<not> reapable d"
proof -
  let ?w = "snd (BeginWrite (Some 7) drain_init)"
  have "drain_step drain_init ?w"
    by (rule drain_step.step_begin [where t = "Some 7" and r = "Some 7"])
       (simp_all add: drain_init_def BeginWrite_def)
  then have "drain_step\<^sup>*\<^sup>* drain_init ?w" by (rule r_into_rtranclp)
  then have "drain_step\<^sup>*\<^sup>* drain_init (BeginRetire ?w)"
    by (rule rtranclp.rtrancl_into_rtrancl) (rule drain_step.step_retire)
  note acc = drain_accounting [OF this]
  have "\<not> reapable (BeginRetire ?w)"
    by (simp add: reapable_def BeginRetire_def BeginWrite_def drain_init_def)
  with acc show ?thesis unfolding Let_def by blast
qed

end
