(* ===== verification/Mux_Drr.thy ===== *)
theory Mux_Drr
  imports Prelude
begin

text \<open>
  The transmit side of a mux session: one queue per logical connection, served by a byte-based
  deficit round robin (\<^verbatim>\<open>enqueue_flow_tx\<close>, \<^verbatim>\<open>drr_pop_next\<close>, \<^verbatim>\<open>drr_requeue_front\<close>, \<^verbatim>\<open>drr_park_front\<close>,
  \<^verbatim>\<open>drr_unpark_all\<close> of \<^verbatim>\<open>ppp/app/mux/vmux_net.cpp\<close>). The hash map \<^verbatim>\<open>tx_flows_\<close> is a finite map; counters
  are \<open>nat\<close> and the deficit, a signed 64-bit credit far from its limits, is \<open>int\<close>.
\<close>

section \<open>State\<close>

record tx_packet =
  tp_cid :: u32
  tp_length :: int
  tp_assign_seq :: bool

record flow_tx_context =
  ftx_queue :: "tx_packet list"
  ftx_bytes :: nat
  ftx_deficit :: int
  ftx_quantum_due :: bool
  ftx_active :: bool
  ftx_visit_count :: nat
  ftx_parked :: bool

record drr_state =
  tx_flows :: "u32 \<rightharpoonup> flow_tx_context"
  active_tx_flows :: "u32 list"
  tx_rtx_parked_flows :: "u32 list"
  tx_data_frames :: nat
  tx_data_bytes_total :: nat

definition PPP_MUX_TX_FLOW_QUANTUM_BYTES :: nat where "PPP_MUX_TX_FLOW_QUANTUM_BYTES = 16384"
definition PPP_MUX_TX_FLOW_MAX_VISIT_FRAMES :: nat where "PPP_MUX_TX_FLOW_MAX_VISIT_FRAMES = 8"
definition PPP_MUX_TX_FLOW_MAX_FRAMES :: nat where "PPP_MUX_TX_FLOW_MAX_FRAMES = 256"
definition PPP_MUX_TX_FLOW_MAX_BYTES :: nat where "PPP_MUX_TX_FLOW_MAX_BYTES = 1048576"

definition flow_tx_init :: flow_tx_context where
  "flow_tx_init = \<lparr>ftx_queue = [], ftx_bytes = 0, ftx_deficit = 0, ftx_quantum_due = True,
                   ftx_active = False, ftx_visit_count = 0, ftx_parked = False\<rparr>"

definition clear_flow_tx :: "drr_state \<Rightarrow> drr_state" where
  "clear_flow_tx s = s\<lparr>tx_flows := Map.empty, active_tx_flows := [], tx_rtx_parked_flows := [],
                       tx_data_frames := 0, tx_data_bytes_total := 0\<rparr>"

definition drr_init :: drr_state where
  "drr_init = \<lparr>tx_flows = Map.empty, active_tx_flows = [], tx_rtx_parked_flows = [],
               tx_data_frames = 0, tx_data_bytes_total = 0\<rparr>"

section \<open>Operations\<close>

text \<open>\<^verbatim>\<open>packet.length > 0 ? packet.length : 0\<close> and \<^verbatim>\<open>tx_flows_[cid]\<close>, which creates the context.\<close>

definition nbytes :: "tx_packet \<Rightarrow> nat" where
  "nbytes p = (if tp_length p > 0 then nat (tp_length p) else 0)"

definition tx_flow_at :: "drr_state \<Rightarrow> u32 \<Rightarrow> flow_tx_context" where
  "tx_flow_at s cid = (case tx_flows s cid of None \<Rightarrow> flow_tx_init | Some fx \<Rightarrow> fx)"

definition enqueue_flow_tx :: "u32 \<Rightarrow> tx_packet \<Rightarrow> drr_state \<Rightarrow> bool \<times> drr_state" where
  "enqueue_flow_tx cid packet s =
     (let fx = tx_flow_at s cid in
      if length (ftx_queue fx) \<ge> PPP_MUX_TX_FLOW_MAX_FRAMES \<or>
         ftx_bytes fx + nbytes packet > PPP_MUX_TX_FLOW_MAX_BYTES
      then (False, s\<lparr>tx_flows := (tx_flows s)(cid \<mapsto> fx)\<rparr>)
      else let fx = fx\<lparr>ftx_queue := ftx_queue fx @ [packet], ftx_bytes := ftx_bytes fx + nbytes packet\<rparr>;
               s = s\<lparr>tx_data_frames := tx_data_frames s + 1,
                     tx_data_bytes_total := tx_data_bytes_total s + nbytes packet\<rparr>
           in if \<not> ftx_active fx
              then (True, s\<lparr>tx_flows := (tx_flows s)(cid \<mapsto> fx\<lparr>ftx_active := True, ftx_deficit := 0, ftx_quantum_due := True\<rparr>),
                            active_tx_flows := active_tx_flows s @ [cid]\<rparr>)
              else (True, s\<lparr>tx_flows := (tx_flows s)(cid \<mapsto> fx)\<rparr>))"

definition drr_requeue_front :: "tx_packet \<Rightarrow> drr_state \<Rightarrow> drr_state" where
  "drr_requeue_front packet s =
     (let cid = tp_cid packet; fx = tx_flow_at s cid;
          fx = fx\<lparr>ftx_queue := packet # ftx_queue fx, ftx_bytes := ftx_bytes fx + nbytes packet,
                  ftx_deficit := ftx_deficit fx + int (nbytes packet),
                  ftx_quantum_due := False, ftx_visit_count := 0\<rparr>;
          s = s\<lparr>tx_data_frames := tx_data_frames s + 1,
                tx_data_bytes_total := tx_data_bytes_total s + nbytes packet\<rparr>
      in if \<not> ftx_active fx
         then s\<lparr>tx_flows := (tx_flows s)(cid \<mapsto> fx\<lparr>ftx_active := True\<rparr>), active_tx_flows := cid # active_tx_flows s\<rparr>
         else s\<lparr>tx_flows := (tx_flows s)(cid \<mapsto> fx)\<rparr>)"

definition drr_park_front :: "tx_packet \<Rightarrow> drr_state \<Rightarrow> drr_state" where
  "drr_park_front packet s =
     (let cid = tp_cid packet; s = drr_requeue_front packet s;
          s = s\<lparr>active_tx_flows := removeAll cid (active_tx_flows s)\<rparr>;
          fx = (tx_flow_at s cid)\<lparr>ftx_active := True\<rparr>
      in if \<not> ftx_parked fx
         then s\<lparr>tx_flows := (tx_flows s)(cid \<mapsto> fx\<lparr>ftx_parked := True\<rparr>),
                tx_rtx_parked_flows := tx_rtx_parked_flows s @ [cid]\<rparr>
         else s\<lparr>tx_flows := (tx_flows s)(cid \<mapsto> fx)\<rparr>)"

definition unpark_one :: "u32 \<Rightarrow> drr_state \<Rightarrow> drr_state" where
  "unpark_one cid s =
     (case tx_flows s cid of
        None \<Rightarrow> s
      | Some fx \<Rightarrow>
          if \<not> ftx_parked fx then s
          else let fx = fx\<lparr>ftx_parked := False\<rparr> in
            if ftx_queue fx = []
            then s\<lparr>tx_flows := (tx_flows s)(cid \<mapsto> fx\<lparr>ftx_active := False, ftx_deficit := 0, ftx_quantum_due := True\<rparr>)\<rparr>
            else s\<lparr>tx_flows := (tx_flows s)(cid \<mapsto> fx), active_tx_flows := active_tx_flows s @ [cid]\<rparr>)"

definition drr_unpark_all :: "drr_state \<Rightarrow> bool \<times> drr_state" where
  "drr_unpark_all s =
     (if tx_rtx_parked_flows s = [] then (False, s)
      else (True, (fold unpark_one (tx_rtx_parked_flows s) s)\<lparr>tx_rtx_parked_flows := []\<rparr>))"

text \<open>
  Dropping the queue of a connection, as \<^verbatim>\<open>fail_flow\<close> does it (\<open>unpark\<close> true) and as
  \<^verbatim>\<open>release_connection\<close> does it, which leaves the parked list alone.
\<close>

definition drop_flow_tx :: "bool \<Rightarrow> u32 \<Rightarrow> drr_state \<Rightarrow> drr_state" where
  "drop_flow_tx unpark cid s =
     (case tx_flows s cid of
        None \<Rightarrow> s
      | Some fx \<Rightarrow>
          s\<lparr>tx_data_frames := (if tx_data_frames s \<ge> length (ftx_queue fx) then tx_data_frames s - length (ftx_queue fx) else 0),
            tx_data_bytes_total := (if ftx_bytes fx \<le> tx_data_bytes_total s then tx_data_bytes_total s - ftx_bytes fx else 0),
            active_tx_flows := (if ftx_active fx then removeAll cid (active_tx_flows s) else active_tx_flows s),
            tx_rtx_parked_flows := (if unpark \<and> ftx_parked fx then removeAll cid (tx_rtx_parked_flows s) else tx_rtx_parked_flows s),
            tx_flows := (tx_flows s)(cid := None)\<rparr>)"

text \<open>One turn of the loop of \<^verbatim>\<open>drr_pop_next\<close>: the packet popped, if any, and the new state.\<close>

definition drr_pop_head :: "u32 \<Rightarrow> flow_tx_context \<Rightarrow> drr_state \<Rightarrow> tx_packet \<times> drr_state" where
  "drr_pop_head cid fx s =
     (let out = hd (ftx_queue fx); n = nbytes out;
          fx = fx\<lparr>ftx_queue := tl (ftx_queue fx), ftx_visit_count := ftx_visit_count fx + 1,
                  ftx_bytes := (if n \<le> ftx_bytes fx then ftx_bytes fx - n else 0),
                  ftx_deficit := (if ftx_deficit fx - int n < 0 then 0 else ftx_deficit fx - int n)\<rparr>;
          s = s\<lparr>tx_data_frames := (if tx_data_frames s > 0 then tx_data_frames s - 1 else tx_data_frames s),
                tx_data_bytes_total := (if n \<le> tx_data_bytes_total s then tx_data_bytes_total s - n else 0)\<rparr>
      in if ftx_queue fx = []
         then (out, s\<lparr>tx_flows := (tx_flows s)(cid \<mapsto>
                 fx\<lparr>ftx_active := False, ftx_deficit := 0, ftx_quantum_due := True, ftx_visit_count := 0\<rparr>)\<rparr>)
         else if tp_length (hd (ftx_queue fx)) \<le> 0 \<or> ftx_deficit fx \<ge> tp_length (hd (ftx_queue fx))
         then (out, s\<lparr>tx_flows := (tx_flows s)(cid \<mapsto> fx), active_tx_flows := cid # active_tx_flows s\<rparr>)
         else (out, s\<lparr>tx_flows := (tx_flows s)(cid \<mapsto> fx\<lparr>ftx_quantum_due := True, ftx_visit_count := 0\<rparr>),
                      active_tx_flows := active_tx_flows s @ [cid]\<rparr>))"

definition drr_visit :: "u32 \<Rightarrow> drr_state \<Rightarrow> tx_packet option \<times> drr_state" where
  "drr_visit cid s =
     (case tx_flows s cid of
        None \<Rightarrow> (None, s)
      | Some fx \<Rightarrow>
          if ftx_queue fx = []
          then (None, s\<lparr>tx_flows :=
                  (if ftx_bytes fx = 0 then (tx_flows s)(cid := None)
                   else (tx_flows s)(cid \<mapsto> fx\<lparr>ftx_active := False, ftx_deficit := 0, ftx_quantum_due := True\<rparr>))\<rparr>)
          else let fx = (if ftx_quantum_due fx
                         then fx\<lparr>ftx_deficit := ftx_deficit fx + int PPP_MUX_TX_FLOW_QUANTUM_BYTES, ftx_quantum_due := False\<rparr>
                         else fx);
                   again = s\<lparr>tx_flows := (tx_flows s)(cid \<mapsto> fx\<lparr>ftx_visit_count := 0, ftx_quantum_due := True\<rparr>),
                             active_tx_flows := active_tx_flows s @ [cid]\<rparr>
               in if ftx_visit_count fx \<ge> PPP_MUX_TX_FLOW_MAX_VISIT_FRAMES then (None, again)
                  else if tp_length (hd (ftx_queue fx)) > 0 \<and> ftx_deficit fx < tp_length (hd (ftx_queue fx)) then (None, again)
                  else let (out, s) = drr_pop_head cid fx s in (Some out, s))"

fun drr_scan :: "nat \<Rightarrow> drr_state \<Rightarrow> tx_packet option \<times> drr_state" where
  "drr_scan 0 s = (None, s)"
| "drr_scan (Suc budget) s =
     (case active_tx_flows s of
        [] \<Rightarrow> (None, s)
      | cid # ring \<Rightarrow>
          (case drr_visit cid (s\<lparr>active_tx_flows := ring\<rparr>) of
             (Some out, s) \<Rightarrow> (Some out, s)
           | (None, s) \<Rightarrow> drr_scan budget s))"

definition max_rounds :: nat where
  "max_rounds = (65535 + PPP_MUX_TX_FLOW_QUANTUM_BYTES - 1) div PPP_MUX_TX_FLOW_QUANTUM_BYTES + 1"

definition drr_pop_next :: "drr_state \<Rightarrow> tx_packet option \<times> drr_state" where
  "drr_pop_next s =
     (if active_tx_flows s = [] then (None, s)
      else drr_scan (length (active_tx_flows s) * max_rounds) s)"

section \<open>A bounded number of rounds always finds a sendable frame\<close>

lemma max_rounds_eq [simp]: "max_rounds = 5"
  by (simp add: max_rounds_def PPP_MUX_TX_FLOW_QUANTUM_BYTES_def)

text \<open>How many visits a connection needs before its head frame is sent.\<close>

definition credit_need :: "int \<Rightarrow> int \<Rightarrow> nat" where
  "credit_need deficit len = nat ((len - deficit + 16383) div 16384)"

definition need :: "drr_state \<Rightarrow> u32 \<Rightarrow> nat" where
  "need s cid =
     (case tx_flows s cid of
        None \<Rightarrow> 1
      | Some fx \<Rightarrow>
          if ftx_queue fx = [] then 1
          else if ftx_quantum_due fx \<and> ftx_visit_count fx < 8 then max 1 (credit_need (ftx_deficit fx) (tp_length (hd (ftx_queue fx))))
          else if ftx_quantum_due fx then Suc (max 1 (credit_need (ftx_deficit fx + 16384) (tp_length (hd (ftx_queue fx)))))
          else if ftx_visit_count fx \<ge> 8 \<or> ftx_deficit fx < tp_length (hd (ftx_queue fx))
          then Suc (max 1 (credit_need (ftx_deficit fx) (tp_length (hd (ftx_queue fx)))))
          else 1)"

text \<open>Every queued frame fits a 16-bit length and no credit is negative.\<close>

definition frames_fit :: "drr_state \<Rightarrow> bool" where
  "frames_fit s \<longleftrightarrow> (\<forall>cid fx. tx_flows s cid = Some fx \<longrightarrow>
     0 \<le> ftx_deficit fx \<and> (\<forall>p \<in> set (ftx_queue fx). tp_length p \<le> 65535))"

lemma credit_need_le: "0 \<le> d \<Longrightarrow> l \<le> 65535 \<Longrightarrow> credit_need d l \<le> 4"
  unfolding credit_need_def by linarith

lemma credit_need_step: "credit_need d l \<le> 1 \<longleftrightarrow> l \<le> d + 16384"
  unfolding credit_need_def by linarith

lemma credit_need_minus: "\<not> l \<le> d + 16384 \<Longrightarrow> Suc (max 1 (credit_need (d + 16384) l)) \<le> max 1 (credit_need d l)"
  unfolding credit_need_def by linarith

lemma need_le: "frames_fit s \<Longrightarrow> need s cid \<le> 5"
proof -
  assume f: "frames_fit s"
  show ?thesis
  proof (cases "tx_flows s cid")
    case (Some fx)
    have "credit_need d (tp_length (hd (ftx_queue fx))) \<le> 4"
      if "ftx_queue fx \<noteq> []" "d = ftx_deficit fx \<or> d = ftx_deficit fx + 16384" for d
      using f Some that by (intro credit_need_le) (auto simp: frames_fit_def)
    from this [of "ftx_deficit fx"] this [of "ftx_deficit fx + 16384"] Some show ?thesis
      by (auto simp: need_def)
  qed (simp add: need_def)
qed

lemma need_pos: "0 < need s cid"
  by (auto simp: need_def split: option.splits)

definition has_frames :: "drr_state \<Rightarrow> u32 \<Rightarrow> bool" where
  "has_frames s cid \<longleftrightarrow> (case tx_flows s cid of None \<Rightarrow> False | Some fx \<Rightarrow> ftx_queue fx \<noteq> [])"

lemma need_other: "tx_flows s' c = tx_flows s c \<Longrightarrow> need s' c = need s c \<and> has_frames s' c = has_frames s c"
  by (simp add: need_def has_frames_def)

text \<open>A visit that sends nothing removes an idle entry or brings the connection one visit closer.\<close>

lemma drr_visit_idle:
  assumes "\<not> has_frames s cid"
  shows "\<exists>s'. drr_visit cid s = (None, s') \<and> active_tx_flows s' = active_tx_flows s \<and>
           (\<forall>c. c \<noteq> cid \<longrightarrow> tx_flows s' c = tx_flows s c) \<and> (frames_fit s \<longrightarrow> frames_fit s')"
  using assms by (auto simp: drr_visit_def has_frames_def frames_fit_def split: option.splits)

lemma drr_visit_again:
  assumes "has_frames s cid" and "drr_visit cid s = (None, s')" and "frames_fit s"
  shows "active_tx_flows s' = active_tx_flows s @ [cid] \<and> (\<forall>c. c \<noteq> cid \<longrightarrow> tx_flows s' c = tx_flows s c) \<and>
         frames_fit s' \<and> has_frames s' cid \<and> Suc (need s' cid) \<le> need s cid"
proof -
  obtain fx where fx: "tx_flows s cid = Some fx" "ftx_queue fx \<noteq> []"
    using assms(1) by (auto simp: has_frames_def split: option.splits)
  define l where "l = tp_length (hd (ftx_queue fx))"
  define gx where "gx = (if ftx_quantum_due fx
      then fx\<lparr>ftx_deficit := ftx_deficit fx + 16384, ftx_quantum_due := False\<rparr> else fx)"
  have gx: "ftx_queue gx = ftx_queue fx" "ftx_visit_count gx = ftx_visit_count fx"
    "ftx_deficit gx = ftx_deficit fx + (if ftx_quantum_due fx then 16384 else 0)" by (simp_all add: gx_def)
  have stuck: "ftx_visit_count fx \<ge> 8 \<or> ftx_deficit gx < l"
    and s': "s' = s\<lparr>tx_flows := (tx_flows s)(cid \<mapsto> gx\<lparr>ftx_visit_count := 0, ftx_quantum_due := True\<rparr>),
              active_tx_flows := active_tx_flows s @ [cid]\<rparr>"
    using assms(2) fx
    by (auto simp: drr_visit_def gx_def l_def Let_def PPP_MUX_TX_FLOW_QUANTUM_BYTES_def
        PPP_MUX_TX_FLOW_MAX_VISIT_FRAMES_def split: if_splits prod.splits)
  have new: "need s' cid = max 1 (credit_need (ftx_deficit gx) l)" "has_frames s' cid"
    using fx(2) by (simp_all add: s' need_def has_frames_def gx l_def)
  have old: "need s cid =
      (if ftx_quantum_due fx \<and> ftx_visit_count fx < 8 then max 1 (credit_need (ftx_deficit fx) l)
       else Suc (max 1 (credit_need (ftx_deficit gx) l)))"
    using fx stuck by (cases "ftx_quantum_due fx") (auto simp: need_def l_def gx)
  have "Suc (need s' cid) \<le> need s cid"
    using new(1) old stuck credit_need_minus [of l "ftx_deficit fx"] by (auto simp: gx split: if_splits)
  moreover have "frames_fit s'"
    using assms(3) fx by (auto simp: frames_fit_def s' gx)
  ultimately show ?thesis using new(2) by (simp add: s')
qed

lemma drr_scan_finds:
  "distinct (active_tx_flows s) \<Longrightarrow> frames_fit s \<Longrightarrow> \<exists>cid \<in> set (active_tx_flows s). has_frames s cid \<Longrightarrow>
   sum_list (map (need s) (active_tx_flows s)) \<le> fuel \<Longrightarrow> \<exists>p s'. drr_scan fuel s = (Some p, s')"
proof (induction fuel arbitrary: s)
  case 0
  then have "need s c = 0" if "c \<in> set (active_tx_flows s)" for c using that by simp
  then show ?case using 0(3) need_pos by (metis less_irrefl)
next
  case (Suc fuel)
  then obtain cid ring where r: "active_tx_flows s = cid # ring" by (cases "active_tx_flows s") auto
  define t where "t = s\<lparr>active_tx_flows := ring\<rparr>"
  have t: "need t = need s" "has_frames t = has_frames s" "frames_fit t" "active_tx_flows t = ring"
    using Suc.prems(2) by (auto simp: t_def need_def has_frames_def fun_eq_iff frames_fit_def)
  have nc: "cid \<notin> set ring" "distinct ring" using Suc.prems(1) r by auto
  show ?case
  proof (cases "fst (drr_visit cid t)")
    case (Some p)
    then obtain u where "drr_visit cid t = (Some p, u)" by (cases "drr_visit cid t") simp
    then show ?thesis using r by (simp add: t_def)
  next
    case None
    then obtain u where u: "drr_visit cid t = (None, u)" by (cases "drr_visit cid t") simp
    have same: "need u c = need s c \<and> has_frames u c = has_frames s c" if "tx_flows u c = tx_flows t c" for c
      using need_other [OF that] t(1,2) by simp
    have sums: "sum_list (map (need s) ring) + need s cid \<le> Suc fuel" using Suc.prems(4) r by simp
    have other: "sum_list (map (need u) ring) = sum_list (map (need s) ring) \<and> (\<forall>c \<in> set ring. has_frames u c = has_frames s c)"
      if o: "\<forall>c. c \<noteq> cid \<longrightarrow> tx_flows u c = tx_flows t c"
    proof -
      have "need u c = need s c \<and> has_frames u c = has_frames s c" if "c \<in> set ring" for c
        using that o nc(1) by (intro same) auto
      then show ?thesis by (auto intro!: arg_cong [of _ _ sum_list])
    qed
    have "\<exists>p s'. drr_scan fuel u = (Some p, s')"
    proof (cases "has_frames s cid")
      case False
      then have v: "active_tx_flows u = ring" "\<forall>c. c \<noteq> cid \<longrightarrow> tx_flows u c = tx_flows t c" "frames_fit u"
        using drr_visit_idle [of t cid] t u by auto
      moreover have "\<exists>c \<in> set ring. has_frames s c" using Suc.prems(3) r False by auto
      ultimately have "\<exists>c \<in> set (active_tx_flows u). has_frames u c"
        "sum_list (map (need u) (active_tx_flows u)) \<le> fuel"
        using other [OF v(2)] sums need_pos [of s cid] by simp_all
      then show ?thesis using nc(2) v(1,3) by (intro Suc.IH) simp_all
    next
      case True
      then have v: "active_tx_flows u = ring @ [cid]" "\<forall>c. c \<noteq> cid \<longrightarrow> tx_flows u c = tx_flows t c"
        "frames_fit u" "has_frames u cid" "Suc (need u cid) \<le> need s cid"
        using drr_visit_again [of t cid u] t u by auto
      then have "sum_list (map (need u) (active_tx_flows u)) \<le> fuel" using other [OF v(2)] sums by simp
      then show ?thesis using nc v by (intro Suc.IH) auto
    qed
    then show ?thesis using r u by (simp add: t_def)
  qed
qed

section \<open>The scheduling invariant\<close>

definition total :: "(flow_tx_context \<Rightarrow> nat) \<Rightarrow> (u32 \<rightharpoonup> flow_tx_context) \<Rightarrow> nat" where
  "total w m = (\<Sum>c \<in> dom m. w (the (m c)))"

definition weight_at :: "(flow_tx_context \<Rightarrow> nat) \<Rightarrow> (u32 \<rightharpoonup> flow_tx_context) \<Rightarrow> u32 \<Rightarrow> nat" where
  "weight_at w m c = (case m c of None \<Rightarrow> 0 | Some fx \<Rightarrow> w fx)"

lemma total_delete: "finite (dom m) \<Longrightarrow> total w m = weight_at w m c + total w (m(c := None))"
proof (cases "m c")
  case (Some fx)
  assume "finite (dom m)"
  then have "total w m = w (the (m c)) + (\<Sum>x \<in> dom m - {c}. w (the (m x)))"
    using Some unfolding total_def by (intro sum.remove) auto
  also have "(\<Sum>x \<in> dom m - {c}. w (the (m x))) = total w (m(c := None))"
    unfolding total_def by (intro sum.cong) auto
  finally show ?thesis using Some by (simp add: weight_at_def)
qed (simp add: weight_at_def fun_upd_idem)

lemma total_update: "finite (dom m) \<Longrightarrow> total w (m(c \<mapsto> fx)) + weight_at w m c = total w m + w fx"
  using total_delete [of "m(c \<mapsto> fx)" w c] total_delete [of m w c] by (simp add: weight_at_def)

definition queued_bytes :: "tx_packet list \<Rightarrow> nat" where
  "queued_bytes q = sum_list (map nbytes q)"

definition packet_ok :: "u32 \<Rightarrow> tx_packet \<Rightarrow> bool" where
  "packet_ok cid p \<longleftrightarrow> tp_cid p = cid \<and> 0 < tp_length p \<and> tp_length p \<le> 65535"

definition flow_tx_ok :: "u32 list \<Rightarrow> u32 \<Rightarrow> flow_tx_context \<Rightarrow> bool" where
  "flow_tx_ok parked cid fx \<longleftrightarrow>
     (ftx_queue fx \<noteq> [] \<longrightarrow> ftx_active fx) \<and> (ftx_parked fx \<longrightarrow> ftx_active fx \<and> cid \<in> set parked) \<and>
     ftx_bytes fx = queued_bytes (ftx_queue fx) \<and> 0 \<le> ftx_deficit fx \<and> list_all (packet_ok cid) (ftx_queue fx)"

lemma flow_tx_ok_mono: "flow_tx_ok P cid fx \<Longrightarrow> (cid \<in> set P \<Longrightarrow> cid \<in> set P') \<Longrightarrow> flow_tx_ok P' cid fx"
  by (auto simp: flow_tx_ok_def)

lemma flow_tx_ok_other:
  assumes "\<forall>c fx. m c = Some fx \<longrightarrow> flow_tx_ok P c fx" and "m c = Some gx" and "c \<noteq> cid" and "set P - {cid} \<subseteq> set P'"
  shows "flow_tx_ok P' c gx"
  using assms by (blast intro: flow_tx_ok_mono)

definition listed :: "flow_tx_context \<Rightarrow> bool" where
  "listed fx \<longleftrightarrow> ftx_active fx \<and> \<not> ftx_parked fx"

definition drr_inv :: "drr_state \<Rightarrow> bool" where
  "drr_inv s \<longleftrightarrow>
     finite (dom (tx_flows s)) \<and> distinct (active_tx_flows s) \<and>
     set (active_tx_flows s) = {cid. \<exists>fx. tx_flows s cid = Some fx \<and> listed fx} \<and>
     (\<forall>cid fx. tx_flows s cid = Some fx \<longrightarrow> flow_tx_ok (tx_rtx_parked_flows s) cid fx) \<and>
     tx_data_frames s = total (\<lambda>fx. length (ftx_queue fx)) (tx_flows s) \<and>
     tx_data_bytes_total s = total ftx_bytes (tx_flows s)"

lemma drr_inv_init: "drr_inv drr_init"
  by (simp add: drr_inv_def drr_init_def total_def)

text \<open>Replacing, or erasing, the context of one connection keeps the invariant.\<close>

lemma drr_inv_update:
  assumes inv: "drr_inv s" and m: "tx_flows s' = (tx_flows s)(cid \<mapsto> fx)"
    and ok: "flow_tx_ok (tx_rtx_parked_flows s') cid fx"
    and park: "set (tx_rtx_parked_flows s) - {cid} \<subseteq> set (tx_rtx_parked_flows s')"
    and ring: "distinct (active_tx_flows s')"
      "set (active_tx_flows s') = (if listed fx then insert cid (set (active_tx_flows s)) else set (active_tx_flows s) - {cid})"
    and n: "tx_data_frames s' + weight_at (\<lambda>fx. length (ftx_queue fx)) (tx_flows s) cid = tx_data_frames s + length (ftx_queue fx)"
      "tx_data_bytes_total s' + weight_at ftx_bytes (tx_flows s) cid = tx_data_bytes_total s + ftx_bytes fx"
  shows "drr_inv s'"
proof -
  have fin: "finite (dom (tx_flows s))" using inv by (simp add: drr_inv_def)
  have "flow_tx_ok (tx_rtx_parked_flows s') c gx" if "tx_flows s' c = Some gx" for c gx
    using that inv ok park m flow_tx_ok_other [of "tx_flows s" "tx_rtx_parked_flows s" c gx cid]
    by (cases "c = cid") (simp_all add: drr_inv_def)
  moreover have "set (active_tx_flows s') = {c. \<exists>gx. tx_flows s' c = Some gx \<and> listed gx}"
    unfolding ring(2) m using inv by (auto simp: drr_inv_def)
  ultimately show ?thesis
    using fin inv ring(1) n total_update [OF fin, of "\<lambda>fx. length (ftx_queue fx)" cid fx] total_update [OF fin, of ftx_bytes cid fx]
    by (simp add: drr_inv_def m)
qed

lemma drr_inv_erase:
  assumes inv: "drr_inv s" and m: "tx_flows s' = (tx_flows s)(cid := None)"
    and park: "set (tx_rtx_parked_flows s) - {cid} \<subseteq> set (tx_rtx_parked_flows s')"
    and ring: "distinct (active_tx_flows s')" "set (active_tx_flows s') = set (active_tx_flows s) - {cid}"
    and n: "tx_data_frames s' + weight_at (\<lambda>fx. length (ftx_queue fx)) (tx_flows s) cid = tx_data_frames s"
      "tx_data_bytes_total s' + weight_at ftx_bytes (tx_flows s) cid = tx_data_bytes_total s"
  shows "drr_inv s'"
proof -
  have fin: "finite (dom (tx_flows s))" using inv by (simp add: drr_inv_def)
  have "flow_tx_ok (tx_rtx_parked_flows s') c gx" if "tx_flows s' c = Some gx" for c gx
    using that inv park m flow_tx_ok_other [of "tx_flows s" "tx_rtx_parked_flows s" c gx cid]
    by (cases "c = cid") (simp_all add: drr_inv_def)
  moreover have "set (active_tx_flows s') = {c. \<exists>gx. tx_flows s' c = Some gx \<and> listed gx}"
    unfolding ring(2) m using inv by (auto simp: drr_inv_def)
  ultimately show ?thesis
    using fin inv ring(1) n total_delete [OF fin, of "\<lambda>fx. length (ftx_queue fx)" cid] total_delete [OF fin, of ftx_bytes cid]
    by (simp add: drr_inv_def m)
qed

lemma drr_inv_at:
  assumes "drr_inv s"
  shows "flow_tx_ok (tx_rtx_parked_flows s) cid (tx_flow_at s cid) \<and> (cid \<in> set (active_tx_flows s) \<longleftrightarrow> listed (tx_flow_at s cid)) \<and>
     weight_at (\<lambda>fx. length (ftx_queue fx)) (tx_flows s) cid = length (ftx_queue (tx_flow_at s cid)) \<and>
     weight_at ftx_bytes (tx_flows s) cid = ftx_bytes (tx_flow_at s cid)"
  using assms
  by (auto simp: drr_inv_def tx_flow_at_def weight_at_def flow_tx_init_def flow_tx_ok_def listed_def queued_bytes_def
      split: option.split)

lemmas drr_flow_simps = flow_tx_ok_def listed_def queued_bytes_def packet_ok_def

lemma enqueue_inv:
  assumes inv: "drr_inv s" and p: "packet_ok cid p"
  shows "drr_inv (snd (enqueue_flow_tx cid p s))"
proof -
  define fx where "fx = tx_flow_at s cid"
  note at = drr_inv_at [OF inv, of cid, folded fx_def]
  have d: "distinct (active_tx_flows s)" using inv by (simp add: drr_inv_def)
  define gx where "gx = fx\<lparr>ftx_queue := ftx_queue fx @ [p], ftx_bytes := ftx_bytes fx + nbytes p\<rparr>"
  consider "length (ftx_queue fx) \<ge> PPP_MUX_TX_FLOW_MAX_FRAMES \<or> ftx_bytes fx + nbytes p > PPP_MUX_TX_FLOW_MAX_BYTES"
    | "\<not> (length (ftx_queue fx) \<ge> PPP_MUX_TX_FLOW_MAX_FRAMES \<or> ftx_bytes fx + nbytes p > PPP_MUX_TX_FLOW_MAX_BYTES)"
      "ftx_active fx"
    | "\<not> (length (ftx_queue fx) \<ge> PPP_MUX_TX_FLOW_MAX_FRAMES \<or> ftx_bytes fx + nbytes p > PPP_MUX_TX_FLOW_MAX_BYTES)"
      "\<not> ftx_active fx" by blast
  then show ?thesis
  proof cases
    case 1
    show ?thesis
      by (rule drr_inv_update [OF inv, of _ cid fx])
        (use 1 at d in \<open>auto simp: enqueue_flow_tx_def Let_def fx_def [symmetric]\<close>)
  next
    case 2
    show ?thesis
      by (rule drr_inv_update [OF inv, of _ cid gx])
        (use 2 at p d in \<open>auto simp: enqueue_flow_tx_def Let_def fx_def [symmetric] gx_def drr_flow_simps\<close>)
  next
    case 3
    show ?thesis
      by (rule drr_inv_update [OF inv, of _ cid "gx\<lparr>ftx_active := True, ftx_deficit := 0, ftx_quantum_due := True\<rparr>"])
        (use 3 at p d in \<open>auto simp: enqueue_flow_tx_def Let_def fx_def [symmetric] gx_def drr_flow_simps\<close>)
  qed
qed

lemma requeue_inv:
  assumes inv: "drr_inv s" and p: "packet_ok (tp_cid p) p"
  shows "drr_inv (drr_requeue_front p s)"
proof -
  define cid where "cid = tp_cid p"
  define fx where "fx = tx_flow_at s cid"
  note at = drr_inv_at [OF inv, of cid, folded fx_def]
  have d: "distinct (active_tx_flows s)" using inv by (simp add: drr_inv_def)
  define gx where "gx = fx\<lparr>ftx_queue := p # ftx_queue fx, ftx_bytes := ftx_bytes fx + nbytes p,
      ftx_deficit := ftx_deficit fx + int (nbytes p), ftx_quantum_due := False, ftx_visit_count := 0\<rparr>"
  show ?thesis
    unfolding drr_requeue_front_def Let_def cid_def [symmetric] fx_def [symmetric] gx_def [symmetric]
    by (auto intro!: drr_inv_update [OF inv, of _ cid gx] drr_inv_update [OF inv, of _ cid "gx\<lparr>ftx_active := True\<rparr>"])
      (use at p d cid_def in \<open>auto simp: drr_flow_simps gx_def\<close>)
qed

lemma requeue_at: "\<exists>fx. tx_flows (drr_requeue_front p s) (tp_cid p) = Some fx"
  by (simp add: drr_requeue_front_def Let_def)

lemma park_inv:
  assumes "drr_inv s" and p: "packet_ok (tp_cid p) p"
  shows "drr_inv (drr_park_front p s)"
proof -
  define cid where "cid = tp_cid p"
  define t where "t = drr_requeue_front p s"
  have inv: "drr_inv t" using requeue_inv assms by (simp add: t_def)
  define fx where "fx = tx_flow_at t cid"
  have fx: "tx_flow_at (t\<lparr>active_tx_flows := x\<rparr>) cid = fx" for x by (simp add: fx_def tx_flow_at_def)
  note at = drr_inv_at [OF inv, of cid, folded fx_def]
  have d: "distinct (active_tx_flows t)" using inv by (simp add: drr_inv_def)
  have q: "ftx_active fx" using at t_def cid_def
    by (auto simp: fx_def tx_flow_at_def drr_requeue_front_def Let_def)
  show ?thesis
    unfolding drr_park_front_def Let_def cid_def [symmetric] t_def [symmetric] fx
    by (auto intro!: drr_inv_update [OF inv, of _ cid "fx\<lparr>ftx_active := True\<rparr>"]
          drr_inv_update [OF inv, of _ cid "fx\<lparr>ftx_active := True, ftx_parked := True\<rparr>"])
      (use at d q in \<open>auto simp: drr_flow_simps distinct_removeAll\<close>)
qed

lemma unpark_one_inv:
  assumes inv: "drr_inv s"
  shows "drr_inv (unpark_one cid s)"
proof (cases "tx_flows s cid")
  case (Some fx)
  then have fx: "tx_flow_at s cid = fx" by (simp add: tx_flow_at_def)
  note at = drr_inv_at [OF inv, of cid, unfolded fx]
  have d: "distinct (active_tx_flows s)" using inv by (simp add: drr_inv_def)
  consider "\<not> ftx_parked fx" | "ftx_parked fx" "ftx_queue fx = []" | "ftx_parked fx" "ftx_queue fx \<noteq> []" by blast
  then show ?thesis
  proof cases
    case 1
    then show ?thesis using inv Some by (simp add: unpark_one_def)
  next
    case 2
    show ?thesis
      by (rule drr_inv_update [OF inv, of _ cid
            "fx\<lparr>ftx_parked := False, ftx_active := False, ftx_deficit := 0, ftx_quantum_due := True\<rparr>"])
        (use 2 at d Some in \<open>auto simp: unpark_one_def drr_flow_simps\<close>)
  next
    case 3
    show ?thesis
      by (rule drr_inv_update [OF inv, of _ cid "fx\<lparr>ftx_parked := False\<rparr>"])
        (use 3 at d Some in \<open>auto simp: unpark_one_def drr_flow_simps\<close>)
  qed
qed (use inv in \<open>simp add: unpark_one_def\<close>)

text \<open>Unparking leaves no flow parked, so the parked list may be cleared.\<close>

lemma unpark_one_parked:
  "tx_rtx_parked_flows (unpark_one cid s) = tx_rtx_parked_flows s \<and>
   (tx_flows (unpark_one cid s) c = Some fx \<and> ftx_parked fx \<longrightarrow> c \<noteq> cid \<and> tx_flows s c = Some fx)"
  by (auto simp: unpark_one_def Let_def split: option.splits if_splits)

lemma unpark_fold:
  "drr_inv s \<Longrightarrow> drr_inv (fold unpark_one cs s) \<and> tx_rtx_parked_flows (fold unpark_one cs s) = tx_rtx_parked_flows s \<and>
     (\<forall>c fx. tx_flows (fold unpark_one cs s) c = Some fx \<and> ftx_parked fx \<longrightarrow> c \<notin> set cs \<and> tx_flows s c = Some fx)"
proof (induction cs arbitrary: s)
  case (Cons x cs)
  have "drr_inv (unpark_one x s)" by (rule unpark_one_inv [OF Cons.prems])
  note ih = Cons.IH [OF this]
  have "c \<notin> set (x # cs) \<and> tx_flows s c = Some fx"
    if "tx_flows (fold unpark_one (x # cs) s) c = Some fx \<and> ftx_parked fx" for c fx
    using that ih unpark_one_parked [of x s c fx] by auto
  then show ?case using ih unpark_one_parked [of x s] by auto
qed simp

lemma unpark_inv:
  assumes "drr_inv s"
  shows "drr_inv (snd (drr_unpark_all s))"
proof -
  let ?t = "fold unpark_one (tx_rtx_parked_flows s) s"
  note t = unpark_fold [OF assms, of "tx_rtx_parked_flows s"]
  have "\<not> ftx_parked fx" if "tx_flows ?t c = Some fx" for c fx
    using that t assms by (auto simp: drr_inv_def flow_tx_ok_def)
  then have "drr_inv (?t\<lparr>tx_rtx_parked_flows := []\<rparr>)"
    using t by (auto simp: drr_inv_def flow_tx_ok_def)
  then show ?thesis using assms by (simp add: drr_unpark_all_def)
qed

lemma drop_inv:
  assumes inv: "drr_inv s"
  shows "drr_inv (drop_flow_tx unpark cid s)"
proof (cases "tx_flows s cid")
  case (Some fx)
  then have fx: "tx_flow_at s cid = fx" by (simp add: tx_flow_at_def)
  note at = drr_inv_at [OF inv, of cid, unfolded fx]
  have fin: "finite (dom (tx_flows s))" and d: "distinct (active_tx_flows s)" using inv by (simp_all add: drr_inv_def)
  have le: "length (ftx_queue fx) \<le> tx_data_frames s" "ftx_bytes fx \<le> tx_data_bytes_total s"
    using inv at total_delete [OF fin, of "\<lambda>fx. length (ftx_queue fx)" cid] total_delete [OF fin, of ftx_bytes cid]
    by (simp_all add: drr_inv_def)
  show ?thesis
    unfolding drop_flow_tx_def Some option.case
    by (rule drr_inv_erase [OF inv, of _ cid]) (use at d le in \<open>auto simp: listed_def distinct_removeAll\<close>)
qed (use inv in \<open>simp add: drop_flow_tx_def\<close>)

section \<open>Popping\<close>

definition queue_of :: "drr_state \<Rightarrow> u32 \<Rightarrow> tx_packet list" where
  "queue_of s c = (case tx_flows s c of None \<Rightarrow> [] | Some fx \<Rightarrow> ftx_queue fx)"

lemma queue_of_update: "tx_flows s' = (tx_flows s)(cid \<mapsto> fx) \<Longrightarrow> queue_of s' = (queue_of s)(cid := ftx_queue fx)"
  by (simp add: queue_of_def fun_eq_iff)

text \<open>A visit keeps the invariant, and takes at most the head of the visited queue.\<close>

lemma drr_pop_head_ok:
  assumes inv: "drr_inv s" and r: "active_tx_flows s = cid # ring" and m: "tx_flows s cid = Some fx"
    and q: "ftx_queue fx = p # q" and gx: "gx = fx\<lparr>ftx_deficit := d, ftx_quantum_due := b\<rparr>" "int (nbytes p) \<le> d"
    and e: "drr_pop_head cid gx (s\<lparr>active_tx_flows := ring\<rparr>) = (p', s')"
  shows "drr_inv s' \<and> p' = p \<and> queue_of s = (queue_of s')(cid := p # queue_of s' cid)"
proof -
  have fx: "tx_flow_at s cid = fx" using m by (simp add: tx_flow_at_def)
  note at = drr_inv_at [OF inv, of cid, unfolded fx]
  have fin: "finite (dom (tx_flows s))" and di: "distinct (cid # ring)" using inv r by (simp_all add: drr_inv_def)
  have le: "0 < tx_data_frames s" "nbytes p \<le> tx_data_bytes_total s" "nbytes p \<le> ftx_bytes fx"
    using inv at q total_delete [OF fin, of "\<lambda>fx. length (ftx_queue fx)" cid] total_delete [OF fin, of ftx_bytes cid]
    by (auto simp: drr_inv_def flow_tx_ok_def queued_bytes_def)
  define hx where "hx = gx\<lparr>ftx_queue := q, ftx_visit_count := ftx_visit_count gx + 1, ftx_bytes := ftx_bytes fx - nbytes p,
      ftx_deficit := d - int (nbytes p)\<rparr>"
  have listed: "listed fx" using at r by simp
  consider "q = []" | "q \<noteq> []" "tp_length (hd q) \<le> 0 \<or> d - int (nbytes p) \<ge> tp_length (hd q)"
    | "q \<noteq> []" "\<not> (tp_length (hd q) \<le> 0 \<or> d - int (nbytes p) \<ge> tp_length (hd q))" by blast
  then obtain kx where kx: "tx_flows s' = (tx_flows s)(cid \<mapsto> kx)" "ftx_queue kx = q" "p' = p"
      "flow_tx_ok (tx_rtx_parked_flows s) cid kx" "ftx_bytes kx = ftx_bytes fx - nbytes p"
      "distinct (active_tx_flows s')" "set (active_tx_flows s') = (if q = [] then set ring else insert cid (set ring))"
      "listed kx \<longleftrightarrow> q \<noteq> []" "tx_rtx_parked_flows s' = tx_rtx_parked_flows s"
      "tx_data_frames s' = tx_data_frames s - 1" "tx_data_bytes_total s' = tx_data_bytes_total s - nbytes p"
  proof cases
    case 1
    then show thesis
      using e gx q at le listed di
      by (intro that [of "hx\<lparr>ftx_active := False, ftx_deficit := 0, ftx_quantum_due := True, ftx_visit_count := 0\<rparr>"])
        (auto simp: drr_pop_head_def Let_def hx_def drr_flow_simps)
  next
    case 2
    then show thesis
      using e gx q at le listed di
      by (intro that [of hx]) (auto simp: drr_pop_head_def Let_def hx_def drr_flow_simps)
  next
    case 3
    then show thesis
      using e gx q at le listed di
      by (intro that [of "hx\<lparr>ftx_quantum_due := True, ftx_visit_count := 0\<rparr>"])
        (auto simp: drr_pop_head_def Let_def hx_def drr_flow_simps)
  qed
  have "drr_inv s'"
    by (rule drr_inv_update [OF inv kx(1)]) (use kx di r at q le in \<open>auto split: if_splits\<close>)
  moreover have "queue_of s cid = p # q" using m q by (simp add: queue_of_def)
  ultimately show ?thesis using kx(2,3) queue_of_update [OF kx(1)] by (simp add: fun_upd_idem)
qed

lemma drr_visit_ok:
  assumes inv: "drr_inv s" and r: "active_tx_flows s = cid # ring"
    and e: "drr_visit cid (s\<lparr>active_tx_flows := ring\<rparr>) = (o', s')"
  shows "drr_inv s' \<and> (case o' of None \<Rightarrow> queue_of s' = queue_of s
           | Some p \<Rightarrow> queue_of s = (queue_of s')(tp_cid p := p # queue_of s' (tp_cid p)))"
proof -
  obtain fx where m: "tx_flows s cid = Some fx" using inv r by (force simp: drr_inv_def)
  then have fx: "tx_flow_at s cid = fx" by (simp add: tx_flow_at_def)
  note at = drr_inv_at [OF inv, of cid, unfolded fx]
  have di: "distinct (cid # ring)" using inv r by (simp_all add: drr_inv_def)
  show ?thesis
  proof (cases "ftx_queue fx")
    case Nil
    then have "ftx_bytes fx = 0" using at by (simp add: flow_tx_ok_def queued_bytes_def)
    then have s': "o' = None" "s' = s\<lparr>active_tx_flows := ring, tx_flows := (tx_flows s)(cid := None)\<rparr>"
      using e m Nil by (simp_all add: drr_visit_def)
    have "drr_inv s'"
      by (rule drr_inv_erase [OF inv, of _ cid]) (use s' r di at Nil \<open>ftx_bytes fx = 0\<close> in auto)
    then show ?thesis using s' m Nil by (auto simp: queue_of_def fun_eq_iff)
  next
    case (Cons p q)
    define gx where "gx = (if ftx_quantum_due fx
        then fx\<lparr>ftx_deficit := ftx_deficit fx + int PPP_MUX_TX_FLOW_QUANTUM_BYTES, ftx_quantum_due := False\<rparr> else fx)"
    define d where "d = ftx_deficit fx + (if ftx_quantum_due fx then int PPP_MUX_TX_FLOW_QUANTUM_BYTES else 0)"
    have gx: "gx = fx\<lparr>ftx_deficit := d, ftx_quantum_due := False\<rparr>" by (cases fx) (simp add: gx_def d_def)
    have d: "ftx_deficit gx = d" "0 \<le> d" using at by (simp_all add: gx d_def flow_tx_ok_def)
    have p: "tp_cid p = cid" "0 < tp_length p" using at Cons by (simp_all add: flow_tx_ok_def packet_ok_def)
    show ?thesis
    proof (cases "ftx_visit_count fx \<ge> PPP_MUX_TX_FLOW_MAX_VISIT_FRAMES \<or> ftx_deficit gx < tp_length p")
      case True
      have s': "o' = None" "s' = s\<lparr>tx_flows := (tx_flows s)(cid \<mapsto> gx\<lparr>ftx_visit_count := 0, ftx_quantum_due := True\<rparr>),
              active_tx_flows := ring @ [cid]\<rparr>"
        using e m Cons True p by (auto simp: drr_visit_def Let_def gx_def split: if_splits)
      have "drr_inv s'"
        by (rule drr_inv_update [OF inv, of _ cid "gx\<lparr>ftx_visit_count := 0, ftx_quantum_due := True\<rparr>"])
          (use s' r di at d in \<open>auto simp: drr_flow_simps gx\<close>)
      moreover have "ftx_queue gx = ftx_queue fx" by (simp add: gx_def)
      ultimately show ?thesis using s' m queue_of_update [of s' s cid] by (simp add: queue_of_def fun_eq_iff)
    next
      case False
      obtain s'' where "drr_pop_head cid gx (s\<lparr>active_tx_flows := ring\<rparr>) = (p, s'')"
        by (cases "drr_pop_head cid gx (s\<lparr>active_tx_flows := ring\<rparr>)") (simp add: drr_pop_head_def Let_def gx_def Cons split: if_splits)
      moreover from this have "o' = Some p" "s' = s''"
        using e m Cons False by (auto simp: drr_visit_def Let_def gx_def split: if_splits)
      moreover have "int (nbytes p) \<le> ftx_deficit gx" using False p by (simp add: nbytes_def)
      ultimately show ?thesis using drr_pop_head_ok [OF inv r m Cons gx] d(1) p(1) by auto
    qed
  qed
qed

lemma drr_scan_ok:
  "drr_inv s \<Longrightarrow> drr_scan n s = (o', s') \<Longrightarrow>
     drr_inv s' \<and> (case o' of None \<Rightarrow> queue_of s' = queue_of s
        | Some p \<Rightarrow> queue_of s = (queue_of s')(tp_cid p := p # queue_of s' (tp_cid p)))"
proof (induction n arbitrary: s)
  case (Suc n)
  show ?case
  proof (cases "active_tx_flows s")
    case (Cons cid ring)
    obtain o1 s1 where v: "drr_visit cid (s\<lparr>active_tx_flows := ring\<rparr>) = (o1, s1)" by force
    note ok = drr_visit_ok [OF Suc.prems(1) Cons v]
    show ?thesis
    proof (cases o1)
      case None
      then show ?thesis using Suc.IH [of s1] Suc.prems(2) ok Cons v by (simp split: option.splits)
    next
      case (Some p)
      then show ?thesis using Suc.prems(2) ok Cons v by auto
    qed
  qed (use Suc.prems in auto)
qed auto

lemma drr_pop_next_ok:
  "drr_inv s \<Longrightarrow> drr_pop_next s = (o', s') \<Longrightarrow>
     drr_inv s' \<and> (case o' of None \<Rightarrow> queue_of s' = queue_of s
        | Some p \<Rightarrow> queue_of s = (queue_of s')(tp_cid p := p # queue_of s' (tp_cid p)))"
  using drr_scan_ok [of s "length (active_tx_flows s) * max_rounds"]
  by (cases "active_tx_flows s = []") (auto simp: drr_pop_next_def simp del: max_rounds_eq)

lemma drr_inv_frames_fit: "drr_inv s \<Longrightarrow> frames_fit s"
  by (fastforce simp: drr_inv_def frames_fit_def flow_tx_ok_def packet_ok_def list_all_iff)

text \<open>The operations on the transmit queues, in any order; only framed packets of their connection are queued.\<close>

inductive drr_step :: "drr_state \<Rightarrow> drr_state \<Rightarrow> bool" where
  enqueue: "packet_ok cid p \<Longrightarrow> drr_step s (snd (enqueue_flow_tx cid p s))"
| pop: "drr_step s (snd (drr_pop_next s))"
| requeue: "packet_ok (tp_cid p) p \<Longrightarrow> drr_step s (drr_requeue_front p s)"
| park: "packet_ok (tp_cid p) p \<Longrightarrow> drr_step s (drr_park_front p s)"
| unpark: "drr_step s (snd (drr_unpark_all s))"
| drop: "drr_step s (drop_flow_tx unpark cid s)"
| clear: "drr_step s (clear_flow_tx s)"

lemma drr_step_inv: "drr_step s s' \<Longrightarrow> drr_inv s \<Longrightarrow> drr_inv s'"
proof (induction rule: drr_step.induct)
  case (pop s)
  then show ?case using drr_pop_next_ok [of s "fst (drr_pop_next s)" "snd (drr_pop_next s)"] by simp
next
  case (clear s)
  then show ?case by (simp add: clear_flow_tx_def drr_inv_def total_def)
qed (simp_all add: enqueue_inv requeue_inv park_inv unpark_inv drop_inv)

lemma drr_reach_inv: "drr_step\<^sup>*\<^sup>* drr_init s \<Longrightarrow> drr_inv s"
  by (induction rule: rtranclp_induct) (auto intro: drr_inv_init drr_step_inv)

text \<open>One connection with one queued frame.\<close>

definition tx_example :: drr_state where
  "tx_example = snd (enqueue_flow_tx 7 \<lparr>tp_cid = 7, tp_length = 60000, tp_assign_seq = False\<rparr> drr_init)"

lemma tx_example_reach: "drr_step\<^sup>*\<^sup>* drr_init tx_example"
  unfolding tx_example_def by (intro r_into_rtranclp drr_step.enqueue) (simp add: packet_ok_def)

lemma tx_example_flow:
  "tx_flows tx_example 7 = Some \<lparr>ftx_queue = [\<lparr>tp_cid = 7, tp_length = 60000, tp_assign_seq = False\<rparr>], ftx_bytes = 60000,
     ftx_deficit = 0, ftx_quantum_due = True, ftx_active = True, ftx_visit_count = 0, ftx_parked = False\<rparr>"
  by (simp add: tx_example_def enqueue_flow_tx_def drr_init_def tx_flow_at_def flow_tx_init_def nbytes_def
      PPP_MUX_TX_FLOW_MAX_FRAMES_def PPP_MUX_TX_FLOW_MAX_BYTES_def)

text \<open>
  C11. No queued frame is forgotten: whatever sequence of transmit operations has run, a connection
  with queued frames is on the ring exactly once, or parked and on the list the next unparking
  walks; and the session counters are the numbers of frames and bytes actually queued.
\<close>
theorem drr_no_lost_flow:
  assumes "drr_step\<^sup>*\<^sup>* drr_init s" and "tx_flows s cid = Some fx" and "ftx_queue fx \<noteq> []"
  shows "(if ftx_parked fx then cid \<in> set (tx_rtx_parked_flows s) \<and> cid \<notin> set (active_tx_flows s)
          else count_list (active_tx_flows s) cid = 1) \<and>
         tx_data_frames s = (\<Sum>c \<in> dom (tx_flows s). length (queue_of s c)) \<and>
         tx_data_bytes_total s = (\<Sum>c \<in> dom (tx_flows s). queued_bytes (queue_of s c))"
proof -
  have inv: "drr_inv s" using assms(1) by (rule drr_reach_inv)
  have cl: "distinct xs \<Longrightarrow> count_list xs x = (if x \<in> set xs then 1 else 0)" for xs and x :: u32
    by (induction xs) auto
  have "tx_data_frames s = (\<Sum>c \<in> dom (tx_flows s). length (queue_of s c))"
    using inv by (auto simp: drr_inv_def total_def queue_of_def intro!: sum.cong)
  moreover have "tx_data_bytes_total s = (\<Sum>c \<in> dom (tx_flows s). queued_bytes (queue_of s c))"
    using inv by (auto simp: drr_inv_def total_def queue_of_def flow_tx_ok_def intro!: sum.cong)
  moreover have "flow_tx_ok (tx_rtx_parked_flows s) cid fx" "distinct (active_tx_flows s)"
    "cid \<in> set (active_tx_flows s) \<longleftrightarrow> listed fx" using inv assms(2) by (auto simp: drr_inv_def)
  ultimately show ?thesis using assms(3) by (simp add: cl flow_tx_ok_def listed_def)
qed

theorem drr_no_lost_flow_witness:
  "count_list (active_tx_flows tx_example) 7 = 1 \<and>
   tx_data_frames tx_example = (\<Sum>c \<in> dom (tx_flows tx_example). length (queue_of tx_example c))"
  using drr_no_lost_flow [OF tx_example_reach tx_example_flow] by simp

text \<open>
  C10. The round robin always makes progress: in every reachable state in which some connection that
  is not parked has a queued frame, \<^verbatim>\<open>drr_pop_next\<close> returns a frame within its bounded number of
  rounds; the frame is the head of its connection's queue and no other queue changes.
\<close>
theorem drr_pop_next_progress:
  assumes "drr_step\<^sup>*\<^sup>* drr_init s" and "tx_flows s cid = Some fx" and "ftx_queue fx \<noteq> []" and "\<not> ftx_parked fx"
  shows "\<exists>p s'. drr_pop_next s = (Some p, s') \<and>
           queue_of s = (queue_of s')(tp_cid p := p # queue_of s' (tp_cid p))"
proof -
  have inv: "drr_inv s" using assms(1) by (rule drr_reach_inv)
  have ring: "cid \<in> set (active_tx_flows s)"
    using inv assms(2,3,4) by (force simp: drr_inv_def flow_tx_ok_def listed_def)
  have "sum_list (map (need s) cs) \<le> length cs * 5" for cs
    using need_le [OF drr_inv_frames_fit [OF inv]] by (induction cs) (auto simp: add_mono)
  then have "sum_list (map (need s) (active_tx_flows s)) \<le> length (active_tx_flows s) * max_rounds" by simp
  moreover have "has_frames s cid" using assms(2,3) by (simp add: has_frames_def)
  ultimately obtain p s' where "drr_scan (length (active_tx_flows s) * max_rounds) s = (Some p, s')"
    using drr_scan_finds [of s "length (active_tx_flows s) * max_rounds"] ring inv drr_inv_frames_fit [OF inv]
    by (auto simp: drr_inv_def)
  then have "drr_pop_next s = (Some p, s')" using ring by (auto simp: drr_pop_next_def)
  then show ?thesis using drr_pop_next_ok [OF inv] by fastforce
qed

theorem drr_pop_next_progress_witness:
  "\<exists>p s'. drr_pop_next tx_example = (Some p, s') \<and>
     queue_of tx_example = (queue_of s')(tp_cid p := p # queue_of s' (tp_cid p))"
  using drr_pop_next_progress [OF tx_example_reach tx_example_flow] by simp

end
