(* ===== verification/Mux_Receive.thy ===== *)
theory Mux_Receive
  imports Mux_Reorder Mux_Flow Mux_Drr "HOL-Library.AList"
begin

text \<open>
  The receive side of a mux session (\<^verbatim>\<open>ppp/app/mux/vmux_net.cpp\<close>): admission of frames, per-connection
  in-order delivery with a reorder buffer (\<^verbatim>\<open>packet_input_flow\<close>), the global order of the compat mode
  (\<^verbatim>\<open>packet_input_unorder\<close>), the byte budgets, and the pausing of carriers. Calls that leave the
  component (reads into a logical socket, closing a socket, releasing retransmission state, the
  handlers of control frames) are recorded in \<open>calls\<close>, newest first. A hash map is the list of its
  nodes in iteration order; a carrier is named by a number; refreshing activity clocks is not
  part of the state.
\<close>

section \<open>Frames\<close>

definition cmd_none :: u8 where "cmd_none = 0x44"
definition cmd_syn :: u8 where "cmd_syn = 0x45"
definition cmd_syn_ok :: u8 where "cmd_syn_ok = 0x46"
definition cmd_push :: u8 where "cmd_push = 0x47"
definition cmd_fin :: u8 where "cmd_fin = 0x48"
definition cmd_keep_alived :: u8 where "cmd_keep_alived = 0x49"
definition cmd_acceleration :: u8 where "cmd_acceleration = 0x4A"
definition cmd_mux_mode_set :: u8 where "cmd_mux_mode_set = 0x4B"
definition cmd_ack :: u8 where "cmd_ack = 0x4C"
definition cmd_fec :: u8 where "cmd_fec = 0x4D"

lemmas cmd_defs = cmd_none_def cmd_syn_def cmd_syn_ok_def cmd_push_def cmd_fin_def cmd_keep_alived_def
  cmd_acceleration_def cmd_mux_mode_set_def cmd_ack_def cmd_fec_def

definition is_session_control :: "u8 \<Rightarrow> bool" where
  "is_session_control cmd \<longleftrightarrow> cmd = cmd_keep_alived \<or> cmd = cmd_mux_mode_set"

definition is_connection_control :: "u8 \<Rightarrow> bool" where
  "is_connection_control cmd \<longleftrightarrow> cmd = cmd_syn \<or> cmd = cmd_syn_ok \<or> cmd = cmd_acceleration"

definition is_reliability_control :: "u8 \<Rightarrow> bool" where
  "is_reliability_control cmd \<longleftrightarrow> cmd = cmd_ack \<or> cmd = cmd_fec"

definition is_per_flow_data :: "u8 \<Rightarrow> bool" where
  "is_per_flow_data cmd \<longleftrightarrow> cmd = cmd_push \<or> cmd = cmd_fin"

text \<open>A received frame: the 9-byte header, already in host order, and the payload behind it.\<close>

record vmux_frame =
  fr_seq :: u32
  fr_cmd :: u8
  fr_cid :: u32
  fr_payload :: bytes

definition sizeof_vmux_hdr :: nat where "sizeof_vmux_hdr = 9"

definition frame_length :: "vmux_frame \<Rightarrow> nat" where
  "frame_length f = sizeof_vmux_hdr + length (fr_payload f)"

definition max_buffers_size :: nat where "max_buffers_size = 65535 - sizeof_vmux_hdr"

definition packet_before :: "u32 \<Rightarrow> u32 \<Rightarrow> bool" where
  "packet_before seq1 seq2 \<longleftrightarrow> sint (seq1 - seq2) < 0"

definition packet_after :: "u32 \<Rightarrow> u32 \<Rightarrow> bool" where
  "packet_after seq2 seq1 = packet_before seq1 seq2"

section \<open>Session state\<close>

record flow_rx_context =
  flow_rx_next :: u32
  flow_reorder :: "vmux_frame reorder_buffer"
  oldest_buffered_tick :: u64
  primed :: bool
  fin_seen :: bool

definition flow_rx_init :: flow_rx_context where
  "flow_rx_init = \<lparr>flow_rx_next = 0, flow_reorder = reorder_empty, oldest_buffered_tick = 0,
                   primed = False, fin_seen = False\<rparr>"

datatype rx_call =
  Read u32 bytes | ReadEof u32 | Handled vmux_frame | FlowErased u32 | ReleaseReliability u32
  | CloseSocket u32 | CloseExec

record rx_config =
  flow_reorder_cap_bytes :: u64
  session_reorder_cap_bytes :: u64
  flow_context_cap :: nat
  flow_reorder_timeout :: u64
  reliability_on :: bool
  reliability_gap_timeout_ms :: u64

record vmux_net =
  disposed :: bool
  flows :: "(u32 \<times> flow_rx_context) list"
  skts :: "u32 list"
  flow_aggregate_bytes :: u64
  session_reorder_bytes :: u64
  rx_links :: "nat list"
  exited :: "nat \<Rightarrow> bool"
  schedulable :: "nat \<Rightarrow> bool"
  rx_paused :: "nat \<Rightarrow> bool"
  rx_paused_since :: "nat \<Rightarrow> u64"
  rx_paused_links :: "nat list"
  rx_pressure_flows :: "u32 list"
  rx_ack :: u32
  rx_queue :: "(u32 \<times> vmux_frame) list"
  rx_gap_oldest_tick :: u64
  tx_flow_seq :: "(u32 \<times> u32) list"
  drr :: drr_state
  calls :: "rx_call list"

definition PPP_MUX_REORDER_HARD_FACTOR :: u64 where "PPP_MUX_REORDER_HARD_FACTOR = 2"
definition PPP_MUX_FLOW_MAX_CONTEXTS :: nat where "PPP_MUX_FLOW_MAX_CONTEXTS = 4096"
definition PPP_MUX_FLOW_REORDER_TIMEOUT :: u64 where "PPP_MUX_FLOW_REORDER_TIMEOUT = 400"

definition emit :: "rx_call \<Rightarrow> vmux_net \<Rightarrow> vmux_net" where
  "emit e s = s\<lparr>calls := e # calls s\<rparr>"

definition flow_of :: "vmux_net \<Rightarrow> u32 \<Rightarrow> flow_rx_context option" where
  "flow_of s cid = map_of (flows s) cid"

section \<open>Pausing carriers\<close>

definition count_live_carriers :: "vmux_net \<Rightarrow> nat" where
  "count_live_carriers s = length (filter (schedulable s) (rx_links s))"

definition rx_resume_all_links :: "vmux_net \<Rightarrow> vmux_net" where
  "rx_resume_all_links s =
     (if rx_paused_links s = [] then s
      else s\<lparr>rx_paused := (\<lambda>l. if l \<in> set (rx_paused_links s) then False else rx_paused s l), rx_paused_links := []\<rparr>)"

definition rx_release_if_stalled :: "vmux_net \<Rightarrow> vmux_net" where
  "rx_release_if_stalled s =
     (if rx_paused_links s = [] then s
      else let paused_live = length (filter (\<lambda>l. schedulable s l \<and> rx_paused s l) (rx_paused_links s))
           in if MuxPauseWouldStallAll paused_live (count_live_carriers s) then rx_resume_all_links s else s)"

definition rx_pause_link :: "u64 \<Rightarrow> nat \<Rightarrow> vmux_net \<Rightarrow> vmux_net" where
  "rx_pause_link now linklayer s =
     (if \<not> schedulable s linklayer \<or> rx_paused s linklayer then s
      else let s = s\<lparr>rx_paused_since := (rx_paused_since s)(linklayer := now), rx_paused := (rx_paused s)(linklayer := True)\<rparr>;
               s = (if linklayer \<in> set (rx_paused_links s) then s
                    else s\<lparr>rx_paused_links := rx_paused_links s @ [linklayer]\<rparr>)
           in rx_release_if_stalled s)"

definition rx_forget_paused_link :: "nat \<Rightarrow> vmux_net \<Rightarrow> vmux_net" where
  "rx_forget_paused_link linklayer s =
     rx_release_if_stalled (s\<lparr>rx_paused := (rx_paused s)(linklayer := False),
                              rx_paused_links := removeAll linklayer (rx_paused_links s)\<rparr>)"

definition rx_maybe_resume :: "rx_config \<Rightarrow> vmux_net \<Rightarrow> vmux_net" where
  "rx_maybe_resume cfg s =
     (if rx_paused_links s = [] then s\<lparr>rx_pressure_flows := []\<rparr>
      else let s = s\<lparr>rx_pressure_flows := filter (\<lambda>cid.
                 case flow_of s cid of
                   None \<Rightarrow> False
                 | Some fx \<Rightarrow> \<not> MuxReorderShouldResume (of_nat (ro_buffered_bytes (flow_reorder fx))) (flow_reorder_cap_bytes cfg))
                 (rx_pressure_flows s)\<rparr>
           in if rx_pressure_flows s = [] \<and> MuxReorderShouldResume (session_reorder_bytes s) (session_reorder_cap_bytes cfg)
              then rx_resume_all_links s else s)"

section \<open>Byte budgets and flow contexts\<close>

definition note_flow_buffered :: "nat \<Rightarrow> vmux_net \<Rightarrow> vmux_net" where
  "note_flow_buffered n s = s\<lparr>flow_aggregate_bytes := flow_aggregate_bytes s + of_nat n,
                              session_reorder_bytes := session_reorder_bytes s + of_nat n\<rparr>"

definition note_flow_unbuffered :: "nat \<Rightarrow> vmux_net \<Rightarrow> vmux_net" where
  "note_flow_unbuffered n s =
     s\<lparr>flow_aggregate_bytes := (if of_nat n \<ge> flow_aggregate_bytes s then 0 else flow_aggregate_bytes s - of_nat n),
       session_reorder_bytes := (if of_nat n \<ge> session_reorder_bytes s then 0 else session_reorder_bytes s - of_nat n)\<rparr>"

definition try_get_or_create_flow :: "rx_config \<Rightarrow> u32 \<Rightarrow> vmux_net \<Rightarrow> bool \<times> vmux_net" where
  "try_get_or_create_flow cfg connection_id s =
     (let cap = (if flow_context_cap cfg > 0 then flow_context_cap cfg else PPP_MUX_FLOW_MAX_CONTEXTS)
      in case AdmitFlowContext connection_id (flow_of s connection_id \<noteq> None)
                (connection_id \<noteq> 0 \<and> connection_id \<in> set (skts s)) (length (flows s)) cap of
           AllowExisting \<Rightarrow> (True, s)
         | AllowCreate \<Rightarrow> (True, s\<lparr>flows := AList.update connection_id flow_rx_init (flows s)\<rparr>)
         | _ \<Rightarrow> (False, s))"

definition deliver_one :: "vmux_frame \<Rightarrow> vmux_net \<Rightarrow> vmux_net" where
  "deliver_one f s =
     (if fr_cmd f = cmd_push
      then if \<not> MuxIsNoopPush (int (length (fr_payload f))) then emit (Read (fr_cid f) (fr_payload f)) s else s
      else emit (ReadEof (fr_cid f)) s)"

definition erase_flow :: "u32 \<Rightarrow> vmux_net \<Rightarrow> vmux_net" where
  "erase_flow cid s = (if flow_of s cid = None then s else emit (FlowErased cid) (s\<lparr>flows := AList.delete cid (flows s)\<rparr>))"

definition maybe_release_flow :: "u32 \<Rightarrow> flow_rx_context \<Rightarrow> vmux_net \<Rightarrow> vmux_net" where
  "maybe_release_flow connection_id fx s =
     (if fin_seen fx \<and> ro_packets (flow_reorder fx) = []
      then let s = erase_flow connection_id s;
               s = s\<lparr>tx_flow_seq := AList.delete connection_id (tx_flow_seq s)\<rparr>
           in emit (ReleaseReliability connection_id) s
      else s)"

definition fail_flow :: "rx_config \<Rightarrow> u32 \<Rightarrow> vmux_net \<Rightarrow> vmux_net" where
  "fail_flow cfg connection_id s =
     (let s = (case flow_of s connection_id of
                 None \<Rightarrow> s
               | Some fx \<Rightarrow> erase_flow connection_id (note_flow_unbuffered (ro_buffered_bytes (flow_reorder fx)) s));
          s = s\<lparr>tx_flow_seq := AList.delete connection_id (tx_flow_seq s)\<rparr>;
          s = emit (ReleaseReliability connection_id) s;
          s = s\<lparr>drr := drop_flow_tx True connection_id (drr s)\<rparr>;
          s = s\<lparr>rx_pressure_flows := removeAll connection_id (rx_pressure_flows s)\<rparr>;
          s = rx_maybe_resume cfg s
      in if connection_id \<noteq> 0 \<and> connection_id \<in> set (skts s) then emit (CloseSocket connection_id) s else s)"

definition release_connection :: "u32 \<Rightarrow> vmux_net \<Rightarrow> vmux_net" where
  "release_connection connection_id s =
     (if connection_id \<noteq> 0 \<and> connection_id \<in> set (skts s)
      then let s = s\<lparr>skts := removeAll connection_id (skts s)\<rparr>;
               s = erase_flow connection_id s;
               s = s\<lparr>tx_flow_seq := AList.delete connection_id (tx_flow_seq s)\<rparr>;
               s = emit (ReleaseReliability connection_id) s
           in s\<lparr>drr := drop_flow_tx False connection_id (drr s)\<rparr>
      else s)"

section \<open>Per-connection delivery (flow v2)\<close>

definition put_flow :: "u32 \<Rightarrow> flow_rx_context \<Rightarrow> vmux_net \<Rightarrow> vmux_net" where
  "put_flow cid fx s = s\<lparr>flows := AList.update cid fx (flows s)\<rparr>"

text \<open>The loop that replays contiguous buffered frames; each turn removes one from the buffer.\<close>

function flow_replay :: "flow_rx_context \<Rightarrow> vmux_net \<Rightarrow> flow_rx_context \<times> vmux_net" where
  "flow_replay fx s =
     (case Take (flow_reorder fx) (flow_rx_next fx) of
        None \<Rightarrow> (fx, s)
      | Some (pk, buffer) \<Rightarrow>
          let s = note_flow_unbuffered (frame_length pk) s;
              fx = fx\<lparr>flow_reorder := buffer, fin_seen := (if fr_cmd pk = cmd_fin then True else fin_seen fx)\<rparr>;
              s = deliver_one pk s
          in flow_replay (fx\<lparr>flow_rx_next := flow_rx_next fx + 1\<rparr>) s)"
  by pat_completeness auto
termination
proof (relation "measure (\<lambda>(fx, s). length (ro_packets (flow_reorder fx)))", goal_cases)
  case (2 fx s x2 pk buffer)
  then have "(flow_rx_next fx, e) \<in> set (ro_packets (flow_reorder fx)) \<Longrightarrow> ?case" for e
    using length_filter_less [of "(flow_rx_next fx, e)" "ro_packets (flow_reorder fx)" "\<lambda>p. fst p \<noteq> flow_rx_next fx"]
    by (auto simp: Take_def map_erase_def split: option.splits)
  then show ?case using 2 by (auto simp: Take_def split: option.splits dest: map_of_SomeD)
qed simp

definition flow_in_order :: "rx_config \<Rightarrow> u64 \<Rightarrow> vmux_frame \<Rightarrow> flow_rx_context \<Rightarrow> vmux_net \<Rightarrow> vmux_net" where
  "flow_in_order cfg now f fx s =
     (let cid = fr_cid f;
          fx = (if fr_cmd f = cmd_fin then fx\<lparr>fin_seen := True\<rparr> else fx);
          s = deliver_one f s;
          (fx, s) = flow_replay (fx\<lparr>flow_rx_next := flow_rx_next fx + 1\<rparr>) s;
          fx = fx\<lparr>oldest_buffered_tick := MuxGapClockAfterAdvance now (ro_packets (flow_reorder fx) \<noteq> [])\<rparr>;
          s = maybe_release_flow cid fx (put_flow cid fx s)
      in rx_maybe_resume cfg s)"

text \<open>The flow whose gap is oldest; ties go to the first one iterated.\<close>

fun oldest_victim :: "(u32 \<times> flow_rx_context) list \<Rightarrow> u32 \<times> u64 \<Rightarrow> u32 \<times> u64" where
  "oldest_victim [] acc = acc"
| "oldest_victim ((cid, fx) # r) (victim, oldest) =
     (if ro_packets (flow_reorder fx) = [] \<or> oldest_buffered_tick fx = 0 then oldest_victim r (victim, oldest)
      else if oldest = 0 \<or> oldest_buffered_tick fx < oldest then oldest_victim r (cid, oldest_buffered_tick fx)
      else oldest_victim r (victim, oldest))"

definition flow_store :: "rx_config \<Rightarrow> nat \<Rightarrow> u64 \<Rightarrow> vmux_frame \<Rightarrow> MuxReorderAdmit \<Rightarrow> MuxReorderAdmit \<Rightarrow> flow_rx_context \<Rightarrow> vmux_net \<Rightarrow> vmux_net" where
  "flow_store cfg linklayer now f flow_admit session_admit fx s =
     (let cid = fr_cid f;
          flow_hard_cap = MuxReorderHardCap (flow_reorder_cap_bytes cfg) PPP_MUX_REORDER_HARD_FACTOR;
          entry_cap = max 1 (unat flow_hard_cap div sizeof_vmux_hdr)
      in if length (ro_packets (flow_reorder fx)) \<ge> entry_cap then fail_flow cfg cid s
         else case TryInsert (flow_reorder fx) (fr_seq f) (flow_rx_next fx) f (frame_length f) (unat flow_hard_cap) entry_cap of
             (False, _) \<Rightarrow> s
           | (True, buffer) \<Rightarrow>
               let fx = fx\<lparr>flow_reorder := buffer, oldest_buffered_tick := MuxGapClockOnBuffered (oldest_buffered_tick fx) now\<rparr>;
                   s = put_flow cid fx (note_flow_buffered (frame_length f) s)
               in if flow_admit = AcceptAndPause
                  then rx_pause_link now linklayer
                         (if cid \<in> set (rx_pressure_flows s) then s else s\<lparr>rx_pressure_flows := cid # rx_pressure_flows s\<rparr>)
                  else if session_admit = AcceptAndPause then rx_pause_link now linklayer s
                  else s)"

definition flow_future :: "rx_config \<Rightarrow> nat \<Rightarrow> u64 \<Rightarrow> vmux_frame \<Rightarrow> flow_rx_context \<Rightarrow> vmux_net \<Rightarrow> bool \<times> vmux_net" where
  "flow_future cfg linklayer now f fx s =
     (let cid = fr_cid f; len = frame_length f in
      if len < sizeof_vmux_hdr \<or> len > sizeof_vmux_hdr + max_buffers_size then (False, s)
      else if of_nat len > flow_reorder_cap_bytes cfg then (True, fail_flow cfg cid s)
      else let flow_admit = AdmitReorderBytes (of_nat (ro_buffered_bytes (flow_reorder fx))) (of_nat len)
                              (flow_reorder_cap_bytes cfg) PPP_MUX_REORDER_HARD_FACTOR
           in if flow_admit = Reject \<and> ro_packets (flow_reorder fx) \<noteq> [] then (True, fail_flow cfg cid s)
              else let session_hard_cap = MuxReorderHardCap (session_reorder_cap_bytes cfg) PPP_MUX_REORDER_HARD_FACTOR;
                       session_admit = AdmitReorderBytes (session_reorder_bytes s) (of_nat len)
                              (session_reorder_cap_bytes cfg) PPP_MUX_REORDER_HARD_FACTOR
                   in if session_admit = Reject
                      then if ro_packets (flow_reorder fx) \<noteq> [] then (True, fail_flow cfg cid s)
                           else let victim = fst (oldest_victim (flows s) (0, 0));
                                    s = (if victim \<noteq> 0 then fail_flow cfg victim s else s)
                                in if session_reorder_bytes s + of_nat len > session_hard_cap then (True, s)
                                   else (True, flow_store cfg linklayer now f flow_admit session_admit fx s)
                      else (True, flow_store cfg linklayer now f flow_admit session_admit fx s))"

definition packet_input_flow :: "rx_config \<Rightarrow> (vmux_frame \<Rightarrow> bool) \<Rightarrow> nat \<Rightarrow> u64 \<Rightarrow> vmux_frame \<Rightarrow> vmux_net \<Rightarrow> bool \<times> vmux_net" where
  "packet_input_flow cfg packet_input linklayer now f s =
     (if disposed s then (False, s)
      else if is_session_control (fr_cmd f) \<or> is_connection_control (fr_cmd f) \<or> is_reliability_control (fr_cmd f)
      then (packet_input f, emit (Handled f) s)
      else if \<not> is_per_flow_data (fr_cmd f) then (False, s)
      else let (admitted, s) = try_get_or_create_flow cfg (fr_cid f) s in
        if \<not> admitted then (True, s)
        else let fx = the (flow_of s (fr_cid f));
                 fx = (if \<not> primed fx then fx\<lparr>primed := True, flow_rx_next := 1\<rparr> else fx);
                 s = put_flow (fr_cid f) fx s
             in if fr_seq f = flow_rx_next fx then (True, flow_in_order cfg now f fx s)
                else if packet_after (fr_seq f) (flow_rx_next fx) then flow_future cfg linklayer now f fx s
                else (True, s))"

definition flow_evict_expired :: "rx_config \<Rightarrow> u64 \<Rightarrow> vmux_net \<Rightarrow> vmux_net" where
  "flow_evict_expired cfg now s =
     (let gap_timeout = (if reliability_on cfg \<and> reliability_gap_timeout_ms cfg > 0
                         then reliability_gap_timeout_ms cfg else flow_reorder_timeout cfg);
          expired = map fst (filter (\<lambda>(cid, fx). ro_packets (flow_reorder fx) \<noteq> [] \<and> oldest_buffered_tick fx \<noteq> 0 \<and>
                                       now - oldest_buffered_tick fx > gap_timeout) (flows s))
      in fold (fail_flow cfg) expired s)"

text \<open>
  A carrier leaves: the receive part of \<^verbatim>\<open>on_link_exit\<close>. Re-injecting its unacknowledged frames and
  driving the transmit queue belong to other components.
\<close>

definition on_link_exit :: "nat \<Rightarrow> vmux_net \<Rightarrow> vmux_net" where
  "on_link_exit linklayer s =
     (if disposed s \<or> exited s linklayer then s
      else let s = s\<lparr>exited := (exited s)(linklayer := True), schedulable := (schedulable s)(linklayer := False)\<rparr>;
               remaining = length (filter (\<lambda>l. l \<noteq> linklayer \<and> schedulable s l) (rx_links s));
               s = s\<lparr>rx_links := removeAll linklayer (rx_links s)\<rparr>;
               s = rx_forget_paused_link linklayer s
           in if remaining = 0 then emit CloseExec s else s)"

text \<open>The session as a sequence of events on its strand.\<close>

datatype rx_op =
  RxInput nat u64 vmux_frame | RxEvict u64 | RxFail u32 | RxRelease u32 | RxOpen u32
  | RxLinkUp nat | RxLinkExit nat | RxLeaseExpired nat

definition rx_exec :: "rx_config \<Rightarrow> (vmux_frame \<Rightarrow> bool) \<Rightarrow> rx_op \<Rightarrow> vmux_net \<Rightarrow> vmux_net" where
  "rx_exec cfg packet_input op s =
     (case op of
        RxInput l now f \<Rightarrow>
          (let (delivered, s) = packet_input_flow cfg packet_input l now f s in if delivered then s else emit CloseExec s)
      | RxEvict now \<Rightarrow> flow_evict_expired cfg now s
      | RxFail cid \<Rightarrow> fail_flow cfg cid s
      | RxRelease cid \<Rightarrow> release_connection cid s
      | RxOpen cid \<Rightarrow> s\<lparr>skts := cid # skts s\<rparr>
      | RxLinkUp l \<Rightarrow> (if l \<in> set (rx_links s) \<or> exited s l then s
                       else s\<lparr>rx_links := rx_links s @ [l], schedulable := (schedulable s)(l := True)\<rparr>)
      | RxLinkExit l \<Rightarrow> on_link_exit l s
      | RxLeaseExpired l \<Rightarrow> s\<lparr>rx_paused := (rx_paused s)(l := False)\<rparr>)"

definition rx_start :: vmux_net where
  "rx_start = \<lparr>disposed = False, flows = [], skts = [], flow_aggregate_bytes = 0, session_reorder_bytes = 0,
     rx_links = [], exited = (\<lambda>_. False), schedulable = (\<lambda>_. False), rx_paused = (\<lambda>_. False), rx_paused_since = (\<lambda>_. 0),
     rx_paused_links = [], rx_pressure_flows = [], rx_ack = 0, rx_queue = [], rx_gap_oldest_tick = 0,
     tx_flow_seq = [], drr = drr_init, calls = []\<rparr>"

definition rx_run :: "rx_config \<Rightarrow> (vmux_frame \<Rightarrow> bool) \<Rightarrow> rx_op list \<Rightarrow> vmux_net" where
  "rx_run cfg packet_input ops = fold (rx_exec cfg packet_input) ops rx_start"

section \<open>What the helpers leave alone\<close>

named_theorems rx_frame \<open>fields an operation does not touch\<close>

lemma resume_frame [rx_frame]:
  "flows (rx_maybe_resume cfg s) = flows s" "calls (rx_maybe_resume cfg s) = calls s"
  "session_reorder_bytes (rx_maybe_resume cfg s) = session_reorder_bytes s"
  "flow_aggregate_bytes (rx_maybe_resume cfg s) = flow_aggregate_bytes s" "skts (rx_maybe_resume cfg s) = skts s"
  by (simp_all add: rx_maybe_resume_def rx_resume_all_links_def Let_def)

lemma pause_frame [rx_frame]:
  "flows (rx_pause_link now l s) = flows s" "calls (rx_pause_link now l s) = calls s"
  "session_reorder_bytes (rx_pause_link now l s) = session_reorder_bytes s"
  "flow_aggregate_bytes (rx_pause_link now l s) = flow_aggregate_bytes s" "skts (rx_pause_link now l s) = skts s"
  by (simp_all add: rx_pause_link_def rx_release_if_stalled_def rx_resume_all_links_def Let_def)

lemma forget_frame [rx_frame]:
  "flows (rx_forget_paused_link l s) = flows s" "calls (rx_forget_paused_link l s) = calls s"
  "session_reorder_bytes (rx_forget_paused_link l s) = session_reorder_bytes s"
  "flow_aggregate_bytes (rx_forget_paused_link l s) = flow_aggregate_bytes s"
  by (simp_all add: rx_forget_paused_link_def rx_release_if_stalled_def rx_resume_all_links_def Let_def)

lemma note_frame [rx_frame]:
  "flows (note_flow_unbuffered n s) = flows s" "calls (note_flow_unbuffered n s) = calls s"
  "flows (note_flow_buffered n s) = flows s" "calls (note_flow_buffered n s) = calls s"
  by (simp_all add: note_flow_unbuffered_def note_flow_buffered_def)

lemma deliver_frame [rx_frame]:
  "flows (deliver_one f s) = flows s" "session_reorder_bytes (deliver_one f s) = session_reorder_bytes s"
  "flow_aggregate_bytes (deliver_one f s) = flow_aggregate_bytes s"
  by (simp_all add: deliver_one_def emit_def)

section \<open>In-order, exactly-once delivery\<close>

text \<open>What reading one frame hands to its socket.\<close>

definition emits :: "u32 \<Rightarrow> u8 \<times> bytes \<Rightarrow> rx_call list" where
  "emits cid c = (if fst c = cmd_push then if snd c = [] then [] else [Read cid (snd c)] else [ReadEof cid])"

lemma deliver_one_calls: "calls (deliver_one f s) = rev (emits (fr_cid f) (fr_cmd f, fr_payload f)) @ calls s"
  by (simp add: deliver_one_def emits_def emit_def MuxIsNoopPush_def)

definition reads :: "u32 \<Rightarrow> rx_call \<Rightarrow> bool" where
  "reads cid e = (case e of Read c _ \<Rightarrow> c = cid | ReadEof c \<Rightarrow> c = cid | _ \<Rightarrow> False)"

text \<open>The reads of a connection since its context was last erased, oldest first.\<close>

definition lifetime :: "u32 \<Rightarrow> rx_call list \<Rightarrow> rx_call list" where
  "lifetime cid cl = rev (filter (reads cid) (takeWhile (\<lambda>e. e \<noteq> FlowErased cid) cl))"

text \<open>What the first \<open>n\<close> frames of the stream numbered from 1 hand to the socket.\<close>

definition expected :: "(u32 \<Rightarrow> u32 \<Rightarrow> u8 \<times> bytes) \<Rightarrow> u32 \<Rightarrow> nat \<Rightarrow> rx_call list" where
  "expected stream cid n = concat (map (\<lambda>i. emits cid (stream cid (of_nat (Suc i)))) [0..<n])"

lemma expected_Suc: "expected stream cid (Suc n) = expected stream cid n @ emits cid (stream cid (of_nat (Suc n)))"
  by (simp add: expected_def)

lemma emits_reads: "filter (reads c) (emits cid x) = (if c = cid then emits cid x else [])"
  by (auto simp: emits_def reads_def)

lemma emits_not_erased: "FlowErased c \<notin> set (emits cid x)"
  by (auto simp: emits_def)

lemma lifetime_emits: "lifetime c (rev (emits cid x) @ cl) = lifetime c cl @ (if c = cid then emits cid x else [])"
proof -
  have "takeWhile (\<lambda>e. e \<noteq> FlowErased c) (rev (emits cid x) @ cl) = rev (emits cid x) @ takeWhile (\<lambda>e. e \<noteq> FlowErased c) cl"
    by (rule takeWhile_append2) (use emits_not_erased [of c cid x] in auto)
  then show ?thesis by (simp add: lifetime_def rev_filter emits_reads)
qed

lemma lifetime_erased [simp]: "lifetime c (FlowErased cid # cl) = (if c = cid then [] else lifetime c cl)"
  by (simp add: lifetime_def reads_def)

lemma lifetime_other [simp]:
  "lifetime c (ReleaseReliability x # cl) = lifetime c cl" "lifetime c (CloseSocket x # cl) = lifetime c cl"
  "lifetime c (Handled f # cl) = lifetime c cl" "lifetime c (CloseExec # cl) = lifetime c cl"
  by (simp_all add: lifetime_def reads_def)

definition genuine :: "(u32 \<Rightarrow> u32 \<Rightarrow> u8 \<times> bytes) \<Rightarrow> vmux_frame \<Rightarrow> bool" where
  "genuine stream f \<longleftrightarrow> (fr_cmd f, fr_payload f) = stream (fr_cid f) (fr_seq f)"

definition flow_core :: "(u32 \<Rightarrow> u32 \<Rightarrow> u8 \<times> bytes) \<Rightarrow> u32 \<Rightarrow> rx_call list \<Rightarrow> flow_rx_context \<Rightarrow> bool" where
  "flow_core stream cid cl fx \<longleftrightarrow> primed fx \<and> reorder_wf (flow_reorder fx) \<and>
     (\<forall>q f. ro_lookup (flow_reorder fx) q = Some f \<longrightarrow> fr_cid f = cid \<and> fr_seq f = q \<and> genuine stream f) \<and>
     (\<exists>n. flow_rx_next fx = of_nat (Suc n) \<and> lifetime cid cl = expected stream cid n)"

definition flow_ok :: "(u32 \<Rightarrow> u32 \<Rightarrow> u8 \<times> bytes) \<Rightarrow> u32 \<Rightarrow> rx_call list \<Rightarrow> flow_rx_context \<Rightarrow> bool" where
  "flow_ok stream cid cl fx \<longleftrightarrow> flow_core stream cid cl fx \<and> ro_lookup (flow_reorder fx) (flow_rx_next fx) = None"

definition ctx_ok :: "(u32 \<Rightarrow> u32 \<Rightarrow> u8 \<times> bytes) \<Rightarrow> u32 \<Rightarrow> rx_call list \<Rightarrow> flow_rx_context option \<Rightarrow> bool" where
  "ctx_ok stream cid cl c = (case c of None \<Rightarrow> lifetime cid cl = [] | Some fx \<Rightarrow> flow_ok stream cid cl fx)"

definition rx_inv :: "(u32 \<Rightarrow> u32 \<Rightarrow> u8 \<times> bytes) \<Rightarrow> (u32 \<times> flow_rx_context) list \<Rightarrow> rx_call list \<Rightarrow> bool" where
  "rx_inv stream fl cl \<longleftrightarrow> distinct (map fst fl) \<and> (\<forall>cid. ctx_ok stream cid cl (map_of fl cid))"

lemma ctx_ok_lifetime: "lifetime cid cl' = lifetime cid cl \<Longrightarrow> ctx_ok stream cid cl' c = ctx_ok stream cid cl c"
  by (cases c) (simp_all add: ctx_ok_def flow_ok_def flow_core_def)

lemma ctx_ok_simps [simp]:
  "ctx_ok stream cid cl None \<longleftrightarrow> lifetime cid cl = []" "ctx_ok stream cid cl (Some fx) = flow_ok stream cid cl fx"
  by (simp_all add: ctx_ok_def)

lemma rx_inv_erase: "rx_inv stream fl cl \<Longrightarrow> rx_inv stream (AList.delete cid fl) (FlowErased cid # cl)"
  using ctx_ok_lifetime [of _ "FlowErased cid # cl" cl stream]
  by (simp add: rx_inv_def delete_conv' distinct_delete)

lemma rx_inv_quiet:
  "rx_inv stream fl cl \<Longrightarrow> \<forall>c. lifetime c (e # cl) = lifetime c cl \<Longrightarrow> rx_inv stream fl (e # cl)"
  using ctx_ok_lifetime [of _ "e # cl" cl stream] by (simp add: rx_inv_def)

lemma rx_inv_update:
  assumes "rx_inv stream fl cl" and "flow_ok stream cid cl' fx" and "\<forall>c. c \<noteq> cid \<longrightarrow> lifetime c cl' = lifetime c cl"
  shows "rx_inv stream (AList.update cid fx fl) cl'"
  using assms ctx_ok_lifetime [of _ cl' cl stream] by (simp add: rx_inv_def update_conv' distinct_update)

lemma deliver_core:
  assumes "flow_core stream cid cl fx" and "genuine stream f" and "fr_cid f = cid" and "fr_seq f = flow_rx_next fx"
  shows "flow_core stream cid (rev (emits cid (fr_cmd f, fr_payload f)) @ cl) (fx\<lparr>flow_rx_next := flow_rx_next fx + 1\<rparr>)"
proof -
  obtain n where n: "flow_rx_next fx = of_nat (Suc n)" "lifetime cid cl = expected stream cid n"
    using assms(1) by (auto simp: flow_core_def)
  have "lifetime cid (rev (emits cid (fr_cmd f, fr_payload f)) @ cl) = expected stream cid (Suc n)"
    using n assms(2,3,4) by (simp add: lifetime_emits expected_Suc genuine_def)
  moreover have "flow_rx_next fx + 1 = of_nat (Suc (Suc n))" using n(1) by simp
  ultimately have "\<exists>n. flow_rx_next fx + 1 = of_nat (Suc n) \<and>
      lifetime cid (rev (emits cid (fr_cmd f, fr_payload f)) @ cl) = expected stream cid n" by blast
  then show ?thesis using assms(1) by (simp add: flow_core_def)
qed

lemma flow_core_cong:
  "primed fx' = primed fx \<Longrightarrow> flow_reorder fx' = flow_reorder fx \<Longrightarrow> flow_rx_next fx' = flow_rx_next fx \<Longrightarrow>
     flow_core stream cid cl fx' = flow_core stream cid cl fx"
  by (simp add: flow_core_def)

declare flow_replay.simps [simp del]

lemma flow_replay_core:
  "flow_core stream cid (calls s) fx \<Longrightarrow> flow_replay fx s = (fx', s') \<Longrightarrow>
     flow_ok stream cid (calls s') fx' \<and> flows s' = flows s \<and> (\<forall>c. c \<noteq> cid \<longrightarrow> lifetime c (calls s') = lifetime c (calls s))"
proof (induction fx s rule: flow_replay.induct)
  case (1 fx s)
  show ?case
  proof (cases "Take (flow_reorder fx) (flow_rx_next fx)")
    case None
    then have "ro_lookup (flow_reorder fx) (flow_rx_next fx) = None" by (simp add: store.tk_None)
    then show ?thesis using 1(2,3) None by (auto simp: flow_replay.simps [of fx s] flow_ok_def)
  next
    case (Some pb)
    obtain pk b where pb: "pb = (pk, b)" by force
    have wf: "reorder_wf (flow_reorder fx)" using 1(2) by (simp add: flow_core_def)
    note t = store.tk_Some [OF wf Some [unfolded pb]]
    define gx where "gx = fx\<lparr>flow_reorder := b, fin_seen := (if fr_cmd pk = cmd_fin then True else fin_seen fx)\<rparr>"
    define u where "u = deliver_one pk (note_flow_unbuffered (frame_length pk) s)"
    have pk: "fr_cid pk = cid" "fr_seq pk = flow_rx_next gx" "genuine stream pk"
      using 1(2) t by (auto simp: flow_core_def gx_def)
    have "flow_core stream cid (calls s) gx"
      using 1(2) t by (auto simp: flow_core_def gx_def split: if_splits)
    from deliver_core [OF this pk(3,1,2)]
    have c: "flow_core stream cid (calls u) (gx\<lparr>flow_rx_next := flow_rx_next gx + 1\<rparr>)"
      by (simp add: u_def deliver_one_calls pk(1) rx_frame)
    have e: "flow_replay (gx\<lparr>flow_rx_next := flow_rx_next gx + 1\<rparr>) u = (fx', s')"
      using 1(3) Some pb by (simp add: flow_replay.simps [of fx s] Let_def gx_def u_def)
    have l: "lifetime c (calls u) = lifetime c (calls s)" if "c \<noteq> cid" for c
      using that by (simp add: u_def deliver_one_calls pk(1) lifetime_emits rx_frame)
    show ?thesis
      using 1(1) [OF Some pb [symmetric] refl refl refl, folded gx_def, folded u_def, OF c e] l
      by (simp add: u_def rx_frame)
  qed
qed

text \<open>Failing and releasing flows.\<close>

lemma erase_flow_inv: "rx_inv stream (flows s) (calls s) \<Longrightarrow> rx_inv stream (flows (erase_flow cid s)) (calls (erase_flow cid s))"
  by (simp add: erase_flow_def emit_def rx_inv_erase)

lemma emit_inv:
  "rx_inv stream (flows s) (calls s) \<Longrightarrow> \<forall>c. lifetime c (e # calls s) = lifetime c (calls s) \<Longrightarrow>
     rx_inv stream (flows (emit e s)) (calls (emit e s))"
  by (simp add: emit_def rx_inv_quiet)

lemma maybe_release_inv:
  "rx_inv stream (flows s) (calls s) \<Longrightarrow>
     rx_inv stream (flows (maybe_release_flow cid fx s)) (calls (maybe_release_flow cid fx s))"
  using erase_flow_inv [of stream s cid] by (simp add: maybe_release_flow_def Let_def emit_def rx_inv_quiet)

lemma erase_flow_frame [rx_frame]:
  "flows (erase_flow cid s) = AList.delete cid (flows s)"
  "c \<noteq> cid \<Longrightarrow> lifetime c (calls (erase_flow cid s)) = lifetime c (calls s)"
  "session_reorder_bytes (erase_flow cid s) = session_reorder_bytes s"
  "flow_aggregate_bytes (erase_flow cid s) = flow_aggregate_bytes s"
  by (simp_all add: erase_flow_def emit_def flow_of_def map_of_eq_None_iff delete_id)

lemma fail_flow_frame [rx_frame]:
  "flows (fail_flow cfg cid s) = AList.delete cid (flows s)"
  "c \<noteq> cid \<Longrightarrow> lifetime c (calls (fail_flow cfg cid s)) = lifetime c (calls s)"
proof -
  define e where "e = (case flow_of s cid of None \<Rightarrow> s
      | Some fx \<Rightarrow> erase_flow cid (note_flow_unbuffered (ro_buffered_bytes (flow_reorder fx)) s))"
  have d: "flow_of s cid = None \<Longrightarrow> AList.delete cid (flows s) = flows s"
    by (simp add: flow_of_def map_of_eq_None_iff delete_id)
  have "flows e = AList.delete cid (flows s)"
    by (cases "flow_of s cid") (simp_all add: e_def rx_frame d)
  moreover have "c \<noteq> cid \<Longrightarrow> lifetime c (calls e) = lifetime c (calls s)"
    by (cases "flow_of s cid") (simp_all add: e_def rx_frame)
  ultimately show "flows (fail_flow cfg cid s) = AList.delete cid (flows s)"
    "c \<noteq> cid \<Longrightarrow> lifetime c (calls (fail_flow cfg cid s)) = lifetime c (calls s)"
    by (simp_all add: fail_flow_def Let_def e_def [symmetric] emit_def rx_frame)
qed

lemma fail_flow_inv:
  assumes "rx_inv stream (flows s) (calls s)"
  shows "rx_inv stream (flows (fail_flow cfg cid s)) (calls (fail_flow cfg cid s))"
proof -
  define e where "e = (case flow_of s cid of None \<Rightarrow> s
      | Some fx \<Rightarrow> erase_flow cid (note_flow_unbuffered (ro_buffered_bytes (flow_reorder fx)) s))"
  have "rx_inv stream (flows e) (calls e)"
    using assms erase_flow_inv [of stream "note_flow_unbuffered n s" cid for n]
    by (simp add: e_def rx_frame split: option.splits)
  then show ?thesis
    by (simp add: fail_flow_def Let_def e_def [symmetric] emit_def rx_frame rx_inv_quiet)
qed

lemma release_connection_inv:
  assumes "rx_inv stream (flows s) (calls s)"
  shows "rx_inv stream (flows (release_connection cid s)) (calls (release_connection cid s))"
  using assms erase_flow_inv [of stream "s\<lparr>skts := removeAll cid (skts s)\<rparr>" cid]
  by (simp add: release_connection_def Let_def emit_def rx_inv_quiet)

text \<open>The three branches of \<^verbatim>\<open>packet_input_flow\<close>.\<close>

lemma flow_in_order_inv:
  assumes inv: "rx_inv stream (flows s) (calls s)" and fx: "flow_core stream (fr_cid f) (calls s) fx"
    and f: "genuine stream f" "fr_seq f = flow_rx_next fx"
  shows "rx_inv stream (flows (flow_in_order cfg now f fx s)) (calls (flow_in_order cfg now f fx s))"
proof -
  define gx where "gx = (if fr_cmd f = cmd_fin then fx\<lparr>fin_seen := True\<rparr> else fx)"
  define u where "u = deliver_one f s"
  obtain hx v where r: "flow_replay (gx\<lparr>flow_rx_next := flow_rx_next gx + 1\<rparr>) u = (hx, v)" by force
  define kx where "kx = hx\<lparr>oldest_buffered_tick := MuxGapClockAfterAdvance now (ro_packets (flow_reorder hx) \<noteq> [])\<rparr>"
  have "flow_core stream (fr_cid f) (calls s) gx" using fx by (simp add: gx_def flow_core_def)
  then have "flow_core stream (fr_cid f) (calls u) (gx\<lparr>flow_rx_next := flow_rx_next gx + 1\<rparr>)"
    using deliver_core [of stream "fr_cid f" "calls s" gx f] f by (simp add: u_def deliver_one_calls gx_def)
  note v = flow_replay_core [OF this r]
  have "flow_ok stream (fr_cid f) (calls v) kx" using v by (simp add: kx_def flow_ok_def flow_core_def)
  moreover have "\<forall>c. c \<noteq> fr_cid f \<longrightarrow> lifetime c (calls v) = lifetime c (calls s)"
    using v by (simp add: u_def deliver_one_calls lifetime_emits)
  ultimately have "rx_inv stream (AList.update (fr_cid f) kx (flows s)) (calls v)"
    using inv by (intro rx_inv_update)
  then have "rx_inv stream (flows (put_flow (fr_cid f) kx v)) (calls (put_flow (fr_cid f) kx v))"
    using v by (simp add: put_flow_def u_def rx_frame)
  from maybe_release_inv [OF this]
  show ?thesis by (simp add: flow_in_order_def Let_def gx_def [symmetric] u_def [symmetric] r kx_def [symmetric] rx_frame)
qed

lemma flow_store_inv:
  assumes inv: "rx_inv stream (flows s) (calls s)" and fx: "flow_ok stream (fr_cid f) (calls s) fx" and f: "genuine stream f"
  shows "rx_inv stream (flows (flow_store cfg l now f fa sa fx s)) (calls (flow_store cfg l now f fa sa fx s))"
proof -
  define hc where "hc = unat (MuxReorderHardCap (flow_reorder_cap_bytes cfg) PPP_MUX_REORDER_HARD_FACTOR)"
  define ec where "ec = max 1 (hc div sizeof_vmux_hdr)"
  obtain ok b where t: "TryInsert (flow_reorder fx) (fr_seq f) (flow_rx_next fx) f (frame_length f) hc ec = (ok, b)" by force
  have wf: "reorder_wf (flow_reorder fx)" using fx by (simp add: flow_ok_def flow_core_def)
  show ?thesis
  proof (cases "length (ro_packets (flow_reorder fx)) \<ge> ec \<or> \<not> ok")
    case True
    then show ?thesis
      using inv fail_flow_inv [OF inv]
      unfolding flow_store_def Let_def hc_def [symmetric] ec_def [symmetric] t prod.case by (cases ok) simp_all
  next
    case False
    define gx where "gx = fx\<lparr>flow_reorder := b, oldest_buffered_tick := MuxGapClockOnBuffered (oldest_buffered_tick fx) now\<rparr>"
    note p = TryInsert_True [OF wf, of "fr_seq f" "flow_rx_next fx" f "frame_length f" hc ec b]
    have p: "reorder_wf b \<and> ro_lookup b = (ro_lookup (flow_reorder fx))(fr_seq f \<mapsto> f) \<and> 0 < unat (fr_seq f - flow_rx_next fx)"
      using p t False by simp
    have "fr_seq f \<noteq> flow_rx_next fx" using p by auto
    then have "flow_ok stream (fr_cid f) (calls s) gx"
      using fx p f by (auto simp: gx_def flow_ok_def flow_core_def)
    from rx_inv_update [OF inv this]
    have "rx_inv stream (AList.update (fr_cid f) gx (flows s)) (calls s)" by simp
    then show ?thesis
      using False unfolding flow_store_def Let_def hc_def [symmetric] ec_def [symmetric] t prod.case gx_def [symmetric]
      by (simp add: put_flow_def rx_frame)
  qed
qed

lemma oldest_victim_buffered:
  "oldest_victim fl (v, t) = (victim, t') \<Longrightarrow>
     victim = v \<or> (\<exists>fx. (victim, fx) \<in> set fl \<and> ro_packets (flow_reorder fx) \<noteq> [])"
  by (induction fl "(v, t)" arbitrary: v t rule: oldest_victim.induct) (auto split: if_splits)

lemma victim_other:
  assumes "distinct (map fst fl)" and "map_of fl cid = Some fx" and "ro_packets (flow_reorder fx) = []"
    and "fst (oldest_victim fl (0, 0)) \<noteq> 0"
  shows "fst (oldest_victim fl (0, 0)) \<noteq> cid"
proof -
  obtain v t where "oldest_victim fl (0, 0) = (v, t)" by force
  then obtain gx where "(v, gx) \<in> set fl" "ro_packets (flow_reorder gx) \<noteq> []"
    using oldest_victim_buffered assms(4) by fastforce
  then have "map_of fl v = Some gx" using assms(1) by simp
  then show ?thesis using assms(2,3) \<open>ro_packets (flow_reorder gx) \<noteq> []\<close> \<open>oldest_victim fl (0, 0) = (v, t)\<close> by auto
qed

lemma flow_future_inv:
  assumes inv: "rx_inv stream (flows s) (calls s)" and m: "flow_of s (fr_cid f) = Some fx" and f: "genuine stream f"
  shows "rx_inv stream (flows (snd (flow_future cfg l now f fx s))) (calls (snd (flow_future cfg l now f fx s)))"
proof -
  have fx: "flow_ok stream (fr_cid f) (calls s) fx"
    using inv m unfolding rx_inv_def flow_of_def by (metis ctx_ok_simps(2))
  define t where "t = (if fst (oldest_victim (flows s) (0, 0)) \<noteq> 0 then fail_flow cfg (fst (oldest_victim (flows s) (0, 0))) s else s)"
  have t: "rx_inv stream (flows t) (calls t)" using inv fail_flow_inv [OF inv] by (simp add: t_def)
  have tx: "flow_ok stream (fr_cid f) (calls t) fx" if "ro_packets (flow_reorder fx) = []"
  proof -
    have "lifetime (fr_cid f) (calls t) = lifetime (fr_cid f) (calls s)"
      using victim_other [of "flows s" "fr_cid f" fx] inv m that by (auto simp: t_def rx_inv_def flow_of_def rx_frame)
    then show ?thesis using fx by (simp add: flow_ok_def flow_core_def)
  qed
  define P where "P x \<longleftrightarrow> rx_inv stream (flows (snd x)) (calls (snd x))" for x :: "bool \<times> vmux_net"
  have P: "P (b, s)" "P (b, t)" "P (b, fail_flow cfg c s)" "P (b, flow_store cfg l now f fa sa fx s)"
    "ro_packets (flow_reorder fx) = [] \<Longrightarrow> P (b, flow_store cfg l now f fa sa fx t)" for b c fa sa
    using inv t fail_flow_inv [OF inv] flow_store_inv [OF inv fx f] flow_store_inv [OF t tx f] by (simp_all add: P_def)
  have "P (flow_future cfg l now f fx s)"
    unfolding flow_future_def Let_def t_def [symmetric] by (simp add: P)
  then show ?thesis by (simp add: P_def)
qed

lemma try_get_or_create_True:
  assumes "try_get_or_create_flow cfg cid s = (True, t)"
  shows "t = s \<and> flow_of s cid \<noteq> None \<or>
         flow_of s cid = None \<and> t = s\<lparr>flows := AList.update cid flow_rx_init (flows s)\<rparr> \<and> cid \<noteq> 0 \<and> cid \<in> set (skts s)"
  using assms unfolding try_get_or_create_flow_def AdmitFlowContext_def Let_def
  by (simp split: if_splits)

lemma try_get_or_create_False:
  assumes "try_get_or_create_flow cfg cid s = (False, t)"
  shows "t = s"
  using assms unfolding try_get_or_create_flow_def Let_def by (simp split: FlowContextAdmission.splits)

lemma fresh_flow_ok:
  "lifetime cid cl = [] \<Longrightarrow> flow_ok stream cid cl (flow_rx_init\<lparr>primed := True, flow_rx_next := 1\<rparr>)"
  unfolding flow_ok_def flow_core_def
  by (auto simp: flow_rx_init_def reorder_empty_def reorder_wf_def keys_sorted_def ro_lookup_def expected_def intro: exI [of _ 0])

lemma packet_input_flow_inv:
  assumes inv: "rx_inv stream (flows s) (calls s)" and f: "genuine stream f"
  shows "rx_inv stream (flows (snd (packet_input_flow cfg pin l now f s))) (calls (snd (packet_input_flow cfg pin l now f s)))"
proof -
  obtain adm t where t: "try_get_or_create_flow cfg (fr_cid f) s = (adm, t)" by force
  define fx where "fx = the (flow_of t (fr_cid f))"
  define gx where "gx = (if \<not> primed fx then fx\<lparr>primed := True, flow_rx_next := 1\<rparr> else fx)"
  define u where "u = put_flow (fr_cid f) gx t"
  have u: "rx_inv stream (flows u) (calls u)" "flow_of u (fr_cid f) = Some gx" "flow_core stream (fr_cid f) (calls u) gx" if adm: "adm"
  proof -
    have "try_get_or_create_flow cfg (fr_cid f) s = (True, t)" using t adm by simp
    from try_get_or_create_True [OF this]
    consider "t = s" "\<exists>x. flow_of s (fr_cid f) = Some x"
      | "flow_of s (fr_cid f) = None" "t = s\<lparr>flows := AList.update (fr_cid f) flow_rx_init (flows s)\<rparr>"
      by (auto simp only: not_None_eq)
    then have "flow_ok stream (fr_cid f) (calls u) gx \<and> calls u = calls s \<and> (flows t = flows s \<or> flows t = AList.update (fr_cid f) flow_rx_init (flows s))"
    proof cases
      case 1
      then obtain x where x: "flow_of s (fr_cid f) = Some x" by blast
      then have "flow_ok stream (fr_cid f) (calls s) x" using inv unfolding rx_inv_def flow_of_def by (metis ctx_ok_simps(2))
      then show ?thesis using 1(1) x by (simp add: u_def put_flow_def gx_def fx_def flow_ok_def flow_core_def)
    next
      case 2
      then have "lifetime (fr_cid f) (calls s) = []" using inv unfolding rx_inv_def flow_of_def by (metis ctx_ok_simps(1))
      moreover have "gx = flow_rx_init\<lparr>primed := True, flow_rx_next := 1\<rparr>"
        using 2(2) by (simp add: gx_def fx_def flow_of_def update_conv') (simp add: flow_rx_init_def)
      ultimately show ?thesis
        using 2(2) fresh_flow_ok by (simp add: u_def put_flow_def)
    qed
    then have ok: "flow_ok stream (fr_cid f) (calls u) gx" and cl: "calls u = calls s"
      and fl: "flows u = AList.update (fr_cid f) gx (flows s)"
      by (auto simp: u_def put_flow_def)
    show "rx_inv stream (flows u) (calls u)" unfolding fl by (rule rx_inv_update [OF inv ok]) (simp add: cl)
    show "flow_of u (fr_cid f) = Some gx" by (simp add: flow_of_def fl update_conv')
    show "flow_core stream (fr_cid f) (calls u) gx" using ok by (simp add: flow_ok_def)
  qed
  have na: "rx_inv stream (flows t) (calls t)" if "\<not> adm"
    using t that inv try_get_or_create_False [of cfg "fr_cid f" s t] by simp
  define P where "P x \<longleftrightarrow> rx_inv stream (flows (snd x)) (calls (snd x))" for x :: "bool \<times> vmux_net"
  have P: "P (b, s)" "P (b, emit (Handled f) s)" "\<not> adm \<Longrightarrow> P (b, t)" "adm \<Longrightarrow> P (b, u)" "adm \<Longrightarrow> P (flow_future cfg l now f gx u)"
    "adm \<Longrightarrow> fr_seq f = flow_rx_next gx \<Longrightarrow> P (b, flow_in_order cfg now f gx u)" for b
    using inv na u flow_in_order_inv [OF u(1) u(3) f] flow_future_inv [OF u(1,2) f] emit_inv [OF inv, of "Handled f"]
    by (simp_all add: P_def)
  have "P (packet_input_flow cfg pin l now f s)"
    unfolding packet_input_flow_def t prod.case fx_def [symmetric] Let_def gx_def [symmetric] u_def [symmetric] by (simp add: P)
  then show ?thesis by (simp add: P_def)
qed

lemma fold_fail_inv:
  "rx_inv stream (flows s) (calls s) \<Longrightarrow>
     rx_inv stream (flows (fold (fail_flow cfg) cs s)) (calls (fold (fail_flow cfg) cs s))"
  by (induction cs arbitrary: s) (simp_all add: fail_flow_inv)

definition op_genuine :: "(u32 \<Rightarrow> u32 \<Rightarrow> u8 \<times> bytes) \<Rightarrow> rx_op \<Rightarrow> bool" where
  "op_genuine stream op = (case op of RxInput l now f \<Rightarrow> genuine stream f | _ \<Rightarrow> True)"

lemma rx_exec_inv:
  assumes inv: "rx_inv stream (flows s) (calls s)" and "op_genuine stream op"
  shows "rx_inv stream (flows (rx_exec cfg pin op s)) (calls (rx_exec cfg pin op s))"
proof (cases op)
  case (RxInput l now f)
  obtain b t where t: "packet_input_flow cfg pin l now f s = (b, t)" by force
  have "rx_inv stream (flows t) (calls t)"
    using packet_input_flow_inv [OF inv, of f cfg pin l now] assms(2) RxInput t by (simp add: op_genuine_def)
  then show ?thesis using emit_inv [of stream t CloseExec] RxInput t by (simp add: rx_exec_def)
next
  case (RxLinkExit l)
  have "rx_inv stream (flows (emit CloseExec (rx_forget_paused_link l u))) (calls (emit CloseExec (rx_forget_paused_link l u)))"
    if "rx_inv stream (flows u) (calls u)" for u
    using that emit_inv [of stream "rx_forget_paused_link l u" CloseExec] by (simp add: rx_frame)
  then show ?thesis using inv RxLinkExit by (simp add: rx_exec_def on_link_exit_def Let_def rx_frame)
qed (use inv in \<open>simp_all add: rx_exec_def flow_evict_expired_def Let_def fold_fail_inv fail_flow_inv release_connection_inv\<close>)

lemma rx_run_inv:
  assumes "list_all (op_genuine stream) ops"
  shows "rx_inv stream (flows (rx_run cfg pin ops)) (calls (rx_run cfg pin ops))"
proof -
  have "rx_inv stream (flows s) (calls s) \<Longrightarrow> list_all (op_genuine stream) ops \<Longrightarrow>
      rx_inv stream (flows (fold (rx_exec cfg pin) ops s)) (calls (fold (rx_exec cfg pin) ops s))" for s
    by (induction ops arbitrary: s) (simp_all add: rx_exec_inv)
  moreover have "rx_inv stream (flows rx_start) (calls rx_start)"
    by (simp add: rx_inv_def rx_start_def lifetime_def)
  ultimately show ?thesis using assms by (simp add: rx_run_def)
qed


text \<open>Two frames of connection 7, the first of them received twice over two carriers.\<close>

definition rx_example_cfg :: rx_config where
  "rx_example_cfg = \<lparr>flow_reorder_cap_bytes = 4096, session_reorder_cap_bytes = 8192, flow_context_cap = 4,
     flow_reorder_timeout = 400, reliability_on = False, reliability_gap_timeout_ms = 0\<rparr>"

definition rx_example_stream :: "u32 \<Rightarrow> u32 \<Rightarrow> u8 \<times> bytes" where
  "rx_example_stream cid seq = (cmd_push, [ucast seq])"

definition rx_example_ops :: "rx_op list" where
  "rx_example_ops = [RxOpen 7, RxLinkUp 0, RxLinkUp 1,
     RxInput 0 5 \<lparr>fr_seq = 1, fr_cmd = cmd_push, fr_cid = 7, fr_payload = [1]\<rparr>,
     RxInput 1 6 \<lparr>fr_seq = 1, fr_cmd = cmd_push, fr_cid = 7, fr_payload = [1]\<rparr>,
     RxInput 1 7 \<lparr>fr_seq = 2, fr_cmd = cmd_push, fr_cid = 7, fr_payload = [2]\<rparr>]"

lemma rx_example_genuine: "list_all (op_genuine rx_example_stream) rx_example_ops"
  by (simp add: rx_example_ops_def op_genuine_def genuine_def rx_example_stream_def)

lemmas rx_eval = rx_run_def rx_start_def rx_exec_def packet_input_flow_def try_get_or_create_flow_def AdmitFlowContext_def
  flow_of_def put_flow_def flow_in_order_def deliver_one_def emit_def flow_replay.simps Take_def maybe_release_flow_def
  rx_maybe_resume_def flow_rx_init_def reorder_empty_def is_session_control_def is_connection_control_def
  is_reliability_control_def is_per_flow_data_def cmd_defs MuxIsNoopPush_def MuxGapClockAfterAdvance_def
  packet_after_def packet_before_def

lemma rx_example_flow: "\<not> Option.is_none (flow_of (rx_run rx_example_cfg (\<lambda>_. True) rx_example_ops) 7)"
  by (simp add: rx_example_ops_def rx_example_cfg_def rx_eval)


section \<open>Backpressure never stalls the session\<close>

definition links_ok :: "vmux_net \<Rightarrow> bool" where
  "links_ok s \<longleftrightarrow> distinct (rx_links s) \<and>
     (\<forall>l. (rx_paused s l \<longrightarrow> l \<in> set (rx_paused_links s) \<and> schedulable s l) \<and> (schedulable s l \<longrightarrow> l \<in> set (rx_links s)))"

definition not_stalled :: "vmux_net \<Rightarrow> bool" where
  "not_stalled s \<longleftrightarrow> (\<exists>l \<in> set (rx_links s). schedulable s l) \<longrightarrow> (\<exists>l \<in> set (rx_links s). schedulable s l \<and> \<not> rx_paused s l)"

lemma release_ok: "links_ok s \<Longrightarrow> links_ok (rx_release_if_stalled s) \<and> not_stalled (rx_release_if_stalled s)"
proof -
  assume ok: "links_ok s"
  let ?live = "filter (schedulable s) (rx_links s)"
  let ?paused = "filter (\<lambda>l. schedulable s l \<and> rx_paused s l) (rx_paused_links s)"
  have res: "links_ok (rx_resume_all_links s) \<and> not_stalled (rx_resume_all_links s)"
    using ok by (auto simp: links_ok_def not_stalled_def rx_resume_all_links_def)
  have "not_stalled s" if "length ?paused < length ?live"
  proof (rule ccontr)
    assume "\<not> not_stalled s"
    then have "set ?live \<subseteq> set ?paused" using ok by (auto simp: not_stalled_def links_ok_def)
    then have "card (set ?live) \<le> card (set ?paused)" by (rule card_mono [OF finite_set])
    also have "\<dots> \<le> length ?paused" by (rule card_length)
    also have "card (set ?live) = length ?live" using ok by (intro distinct_card) (simp add: links_ok_def)
    finally show False using that by linarith
  qed
  moreover have "not_stalled s" if "rx_paused_links s = []"
    using that ok by (auto simp: links_ok_def not_stalled_def)
  ultimately show ?thesis
    using ok res unfolding rx_release_if_stalled_def Let_def MuxPauseWouldStallAll_def count_live_carriers_def
    by (simp only: if_split de_Morgan_disj not_le) blast
qed

lemma resume_ok: "links_ok s \<Longrightarrow> not_stalled s \<Longrightarrow> links_ok (rx_maybe_resume cfg s) \<and> not_stalled (rx_maybe_resume cfg s)"
  by (auto simp: rx_maybe_resume_def rx_resume_all_links_def Let_def links_ok_def not_stalled_def)

lemma pause_ok: "links_ok s \<Longrightarrow> not_stalled s \<Longrightarrow> links_ok (rx_pause_link now l s) \<and> not_stalled (rx_pause_link now l s)"
proof -
  assume ok: "links_ok s" "not_stalled s"
  define t where "t = s\<lparr>rx_paused_since := (rx_paused_since s)(l := now), rx_paused := (rx_paused s)(l := True)\<rparr>"
  define u where "u = (if l \<in> set (rx_paused_links t) then t else t\<lparr>rx_paused_links := rx_paused_links t @ [l]\<rparr>)"
  have "links_ok u" if "schedulable s l" using ok(1) that by (auto simp: links_ok_def u_def t_def)
  then show ?thesis using ok release_ok [of u] by (simp add: rx_pause_link_def Let_def t_def [symmetric] u_def [symmetric])
qed

text \<open>Operations that do not touch carriers.\<close>

definition same_links :: "vmux_net \<Rightarrow> vmux_net \<Rightarrow> bool" where
  "same_links s t \<longleftrightarrow> rx_links t = rx_links s \<and> schedulable t = schedulable s \<and> rx_paused t = rx_paused s \<and>
     rx_paused_links t = rx_paused_links s"

definition carriers_ok :: "vmux_net \<Rightarrow> bool" where
  "carriers_ok s \<longleftrightarrow> links_ok s \<and> not_stalled s"

lemma carriers_ok_same: "same_links s t \<Longrightarrow> carriers_ok s \<Longrightarrow> carriers_ok t"
  by (simp add: same_links_def carriers_ok_def links_ok_def not_stalled_def)

lemma same_links_simps [simp]:
  "same_links s s" "same_links s (emit e s)" "same_links s (note_flow_buffered n s)" "same_links s (note_flow_unbuffered n s)"
  "same_links s (deliver_one f s)" "same_links s (erase_flow cid s)" "same_links s (put_flow cid fx s)"
  "same_links s (maybe_release_flow cid fx s)" "same_links s (release_connection cid s)"
  "same_links s (snd (try_get_or_create_flow cfg cid s))"
  by (simp_all add: same_links_def emit_def note_flow_buffered_def note_flow_unbuffered_def deliver_one_def erase_flow_def
      put_flow_def maybe_release_flow_def release_connection_def try_get_or_create_flow_def Let_def
      split: FlowContextAdmission.splits)

lemma same_links_trans: "same_links s t \<Longrightarrow> same_links t u \<Longrightarrow> same_links s u"
  by (simp add: same_links_def)

lemma replay_same_links: "flow_replay fx s = (fx', s') \<Longrightarrow> same_links s s'"
proof (induction fx s rule: flow_replay.induct)
  case (1 fx s)
  show ?case
  proof (cases "Take (flow_reorder fx) (flow_rx_next fx)")
    case None
    then show ?thesis using 1(2) by (simp add: flow_replay.simps [of fx s])
  next
    case (Some pb)
    obtain pk b where pb: "pb = (pk, b)" by force
    have "same_links (deliver_one pk (note_flow_unbuffered (frame_length pk) s)) s'"
      using 1(1) [OF Some pb [symmetric] refl refl refl] 1(2) Some pb by (simp add: flow_replay.simps [of fx s] Let_def)
    moreover have "same_links s (deliver_one pk (note_flow_unbuffered (frame_length pk) s))"
      by (rule same_links_trans [of _ "note_flow_unbuffered (frame_length pk) s"]) simp_all
    ultimately show ?thesis using same_links_trans by blast
  qed
qed

lemmas carriers_ok_keep = carriers_ok_same [OF same_links_simps(2)] carriers_ok_same [OF same_links_simps(3)]
  carriers_ok_same [OF same_links_simps(4)] carriers_ok_same [OF same_links_simps(5)] carriers_ok_same [OF same_links_simps(6)]
  carriers_ok_same [OF same_links_simps(7)] carriers_ok_same [OF same_links_simps(8)] carriers_ok_same [OF same_links_simps(9)]

lemma carriers_ok_resume: "carriers_ok s \<Longrightarrow> carriers_ok (rx_maybe_resume cfg s)"
  by (simp add: carriers_ok_def resume_ok)

lemma carriers_ok_pause: "carriers_ok s \<Longrightarrow> carriers_ok (rx_pause_link now l s)"
  by (simp add: carriers_ok_def pause_ok)

lemma carriers_ok_field [simp]:
  "carriers_ok (s\<lparr>tx_flow_seq := x\<rparr>) = carriers_ok s" "carriers_ok (s\<lparr>drr := d\<rparr>) = carriers_ok s"
  "carriers_ok (s\<lparr>rx_pressure_flows := p\<rparr>) = carriers_ok s" "carriers_ok (s\<lparr>skts := k\<rparr>) = carriers_ok s"
  by (simp_all add: carriers_ok_def links_ok_def not_stalled_def)

lemma carriers_ok_fail: "carriers_ok s \<Longrightarrow> carriers_ok (fail_flow cfg cid s)"
  by (simp add: fail_flow_def Let_def carriers_ok_keep carriers_ok_resume split: option.split)

lemma carriers_ok_in_order: "carriers_ok s \<Longrightarrow> carriers_ok (flow_in_order cfg now f fx s)"
proof -
  assume ok: "carriers_ok s"
  obtain hx v where r: "flow_replay ((if fr_cmd f = cmd_fin then fx\<lparr>fin_seen := True\<rparr> else fx)
      \<lparr>flow_rx_next := flow_rx_next (if fr_cmd f = cmd_fin then fx\<lparr>fin_seen := True\<rparr> else fx) + 1\<rparr>) (deliver_one f s) = (hx, v)" by force
  have "carriers_ok v" using carriers_ok_same [OF replay_same_links [OF r]] carriers_ok_keep(4) [OF ok] by blast
  then show ?thesis unfolding flow_in_order_def Let_def r prod.case by (intro carriers_ok_resume carriers_ok_keep)
qed

lemma carriers_ok_store: "carriers_ok s \<Longrightarrow> carriers_ok (flow_store cfg l now f fa sa fx s)"
  unfolding flow_store_def Let_def
  by (simp add: carriers_ok_fail carriers_ok_keep carriers_ok_pause split: prod.split bool.split)

lemma carriers_ok_input: "carriers_ok s \<Longrightarrow> carriers_ok (snd (packet_input_flow cfg pin l now f s))"
proof -
  assume ok: "carriers_ok s"
  obtain adm t where t: "try_get_or_create_flow cfg (fr_cid f) s = (adm, t)" by force
  then have t_ok: "carriers_ok t" using carriers_ok_same [OF same_links_simps(10) ok, of cfg "fr_cid f"] by simp
  define P where "P x \<longleftrightarrow> carriers_ok (snd x)" for x :: "bool \<times> vmux_net"
  have P: "P (b, u) = carriers_ok u" for b u by (simp add: P_def)
  have fut: "P (flow_future cfg l now f fx u)" if "carriers_ok u" for fx u
    unfolding flow_future_def Let_def using that by (simp add: P carriers_ok_fail carriers_ok_store)
  have "P (packet_input_flow cfg pin l now f s)"
    unfolding packet_input_flow_def t prod.case Let_def
    using ok t_ok by (simp add: P fut carriers_ok_keep carriers_ok_in_order)
  then show ?thesis by (simp add: P_def)
qed

lemma carriers_ok_exit: "carriers_ok s \<Longrightarrow> carriers_ok (on_link_exit l s)"
proof -
  assume ok: "carriers_ok s"
  have "carriers_ok (rx_forget_paused_link l (s\<lparr>exited := e, schedulable := (schedulable s)(l := False),
      rx_links := removeAll l (rx_links s)\<rparr>))" for e
    unfolding rx_forget_paused_link_def carriers_ok_def
    by (rule release_ok) (use ok in \<open>auto simp: carriers_ok_def links_ok_def distinct_removeAll\<close>)
  then show ?thesis using ok unfolding on_link_exit_def Let_def by (simp add: carriers_ok_keep)
qed

lemma rx_exec_carriers_ok:
  assumes "carriers_ok s"
  shows "carriers_ok (rx_exec cfg pin op s)"
proof (cases op)
  case (RxInput l now f)
  then show ?thesis using carriers_ok_input [OF assms, of cfg pin l now f]
    by (cases "packet_input_flow cfg pin l now f s") (simp add: rx_exec_def carriers_ok_keep)
next
  case (RxEvict now)
  have "carriers_ok u \<Longrightarrow> carriers_ok (fold (fail_flow cfg) cs u)" for cs u
    by (induction cs arbitrary: u) (simp_all add: carriers_ok_fail)
  then show ?thesis using assms RxEvict by (simp add: rx_exec_def flow_evict_expired_def Let_def)
next
  case (RxLinkUp l)
  have "\<not> rx_paused s l" if "l \<notin> set (rx_links s)" using assms that by (auto simp: carriers_ok_def links_ok_def)
  then show ?thesis using assms RxLinkUp
    by (auto simp: rx_exec_def carriers_ok_def links_ok_def not_stalled_def)
next
  case (RxLeaseExpired l)
  then show ?thesis using assms by (auto simp: rx_exec_def carriers_ok_def links_ok_def not_stalled_def)
qed (use assms in \<open>simp_all add: rx_exec_def carriers_ok_fail carriers_ok_exit carriers_ok_keep\<close>)



section \<open>Byte accounting\<close>

definition buffered :: "(u32 \<times> flow_rx_context) list \<Rightarrow> nat" where
  "buffered fl = sum_list (map (\<lambda>p. ro_buffered_bytes (flow_reorder (snd p))) fl)"

definition bytes_at :: "(u32 \<times> flow_rx_context) list \<Rightarrow> u32 \<Rightarrow> nat" where
  "bytes_at fl cid = (case map_of fl cid of None \<Rightarrow> 0 | Some fx \<Rightarrow> ro_buffered_bytes (flow_reorder fx))"

lemma buffered_update: "buffered (AList.update cid fx fl) + bytes_at fl cid = buffered fl + ro_buffered_bytes (flow_reorder fx)"
  by (induction fl) (auto simp: buffered_def bytes_at_def)

lemma delete_fresh: "cid \<notin> fst ` set fl \<Longrightarrow> AList.delete cid fl = fl"
  by (rule delete_id)

lemma buffered_delete: "distinct (map fst fl) \<Longrightarrow> buffered (AList.delete cid fl) + bytes_at fl cid = buffered fl"
  by (induction fl) (auto simp: buffered_def bytes_at_def delete_fresh)

definition buf_ok :: "vmux_frame reorder_buffer \<Rightarrow> bool" where
  "buf_ok b \<longleftrightarrow> reorder_wf b \<and> (\<forall>p \<in> set (ro_packets b). ro_bytes (snd p) = frame_length (ro_value (snd p)))"

lemma set_emplace: "set (map_emplace k v m) \<subseteq> insert (k, v) (set m)"
  by (induction k v m rule: map_emplace.induct) auto

lemma TryInsert_buf_ok:
  assumes "buf_ok b" and "TryInsert b k r f (frame_length f) bc ec = (True, b')"
  shows "buf_ok b' \<and> ro_buffered_bytes b' = ro_buffered_bytes b + frame_length f"
proof -
  have "ro_packets b' = map_emplace k \<lparr>ro_value = f, ro_bytes = frame_length f\<rparr> (ro_packets b)"
    using assms(2) by (auto simp: TryInsert_def Let_def split: if_splits)
  then have "\<forall>p \<in> set (ro_packets b'). ro_bytes (snd p) = frame_length (ro_value (snd p))"
    using assms(1) set_emplace [of k _ "ro_packets b"] by (fastforce simp: buf_ok_def)
  then show ?thesis using assms TryInsert_True [of b k r f "frame_length f" bc ec b'] by (simp add: buf_ok_def)
qed

lemma Take_buf_ok:
  assumes "buf_ok b" and "Take b k = Some (f, b')"
  shows "buf_ok b' \<and> ro_buffered_bytes b = ro_buffered_bytes b' + frame_length f"
proof -
  obtain e where e: "map_of (ro_packets b) k = Some e" "f = ro_value e"
    "b' = b\<lparr>ro_buffered_bytes := ro_buffered_bytes b - ro_bytes e, ro_packets := map_erase k (ro_packets b)\<rparr>"
    using assms(2) by (auto simp: Take_def split: option.splits)
  have wf: "reorder_wf b" using assms(1) by (simp add: buf_ok_def)
  have "ro_bytes e = frame_length f" using assms(1) e(2) map_of_SomeD [OF e(1)] by (auto simp: buf_ok_def)
  moreover have "ro_bytes e \<le> ro_buffered_bytes b"
    using sum_erase [of "ro_packets b" k e ro_bytes] wf e(1) by (simp add: reorder_wf_def keys_sorted_distinct)
  moreover have "\<forall>p \<in> set (map_erase k (ro_packets b)). ro_bytes (snd p) = frame_length (ro_value (snd p))"
    using assms(1) by (simp add: buf_ok_def map_erase_def)
  ultimately show ?thesis using Take_Some [OF wf assms(2)] e(3) by (simp add: buf_ok_def)
qed

text \<open>
  The session counter is what the contexts hold plus \<open>leak\<close>, and stays within the hard bound, which
  is itself far from the range of \<^verbatim>\<open>size_t\<close>.
\<close>

definition session_hard :: "rx_config \<Rightarrow> nat" where
  "session_hard cfg = unat (MuxReorderHardCap (session_reorder_cap_bytes cfg) PPP_MUX_REORDER_HARD_FACTOR)"

definition acct :: "rx_config \<Rightarrow> nat \<Rightarrow> vmux_net \<Rightarrow> bool" where
  "acct cfg leak s \<longleftrightarrow> distinct (map fst (flows s)) \<and> (\<forall>p \<in> set (flows s). buf_ok (flow_reorder (snd p))) \<and>
     flow_aggregate_bytes s = session_reorder_bytes s \<and>
     unat (session_reorder_bytes s) = buffered (flows s) + leak \<and> unat (session_reorder_bytes s) \<le> session_hard cfg"

lemma unbuffered_exact:
  assumes "flow_aggregate_bytes s = session_reorder_bytes s" and "n \<le> unat (session_reorder_bytes s)"
  shows "flow_aggregate_bytes (note_flow_unbuffered n s) = session_reorder_bytes (note_flow_unbuffered n s) \<and>
         unat (session_reorder_bytes (note_flow_unbuffered n s)) = unat (session_reorder_bytes s) - n"
proof -
  have "n < 2 ^ 64" using assms(2) unsigned_less [of "session_reorder_bytes s", where 'a = nat] by simp
  then have n: "unat (of_nat n :: u64) = n" by (simp add: unat_of_nat take_bit_nat_eq_self)
  have ge: "of_nat n \<ge> session_reorder_bytes s \<longleftrightarrow> n \<ge> unat (session_reorder_bytes s)" by (simp only: word_le_nat_alt n)
  show ?thesis
  proof (cases "n \<ge> unat (session_reorder_bytes s)")
    case True
    then show ?thesis using assms ge by (simp add: note_flow_unbuffered_def)
  next
    case False
    then have "unat (session_reorder_bytes s - of_nat n) = unat (session_reorder_bytes s) - n"
      by (simp add: unat_sub_if' n)
    then show ?thesis using assms ge False by (simp add: note_flow_unbuffered_def)
  qed
qed

lemma buffered_ge: "map_of fl cid = Some fx \<Longrightarrow> ro_buffered_bytes (flow_reorder fx) \<le> buffered fl"
  by (induction fl) (auto simp: buffered_def split: if_splits)

lemma acct_same:
  "acct cfg leak s \<Longrightarrow> flows t = flows s \<Longrightarrow> flow_aggregate_bytes t = flow_aggregate_bytes s \<Longrightarrow>
     session_reorder_bytes t = session_reorder_bytes s \<Longrightarrow> acct cfg leak t"
  by (simp add: acct_def)

lemma in_delete: "p \<in> set (AList.delete cid fl) \<Longrightarrow> p \<in> set fl"
  by (simp add: AList.delete_eq)

lemma acct_erase:
  assumes "acct cfg leak s"
  shows "acct cfg (leak + bytes_at (flows s) cid) (s\<lparr>flows := AList.delete cid (flows s)\<rparr>)"
  using assms buffered_delete [of "flows s" cid] by (auto simp: acct_def distinct_delete dest: in_delete)

lemma acct_put:
  assumes a: "acct cfg leak s" and t: "flows t = AList.update cid fx (flows s)" "flow_aggregate_bytes t = session_reorder_bytes t"
    "buf_ok (flow_reorder fx)"
    "unat (session_reorder_bytes t) + bytes_at (flows s) cid = unat (session_reorder_bytes s) + ro_buffered_bytes (flow_reorder fx)"
    "unat (session_reorder_bytes t) \<le> session_hard cfg"
  shows "acct cfg leak t"
proof -
  have "set (AList.update cid fx fl) \<subseteq> insert (cid, fx) (set fl)" for fl
    by (induction fl) auto
  then have "\<forall>p \<in> set (flows t). buf_ok (flow_reorder (snd p))" using a t(1,3) unfolding acct_def by fastforce
  then show ?thesis
    using a t(2,4,5) buffered_update [of cid fx "flows s"] by (simp add: acct_def t(1) distinct_update)
qed

lemma acct_at: "acct cfg leak s \<Longrightarrow> flow_of s cid = Some fx \<Longrightarrow>
    buf_ok (flow_reorder fx) \<and> bytes_at (flows s) cid = ro_buffered_bytes (flow_reorder fx) \<and>
    ro_buffered_bytes (flow_reorder fx) \<le> unat (session_reorder_bytes s)"
  using buffered_ge [of "flows s" cid fx]
  by (fastforce simp: acct_def flow_of_def bytes_at_def dest: map_of_SomeD)

lemma flow_replay_acct:
  "buf_ok (flow_reorder fx) \<Longrightarrow> flow_aggregate_bytes s = session_reorder_bytes s \<Longrightarrow>
   ro_buffered_bytes (flow_reorder fx) \<le> unat (session_reorder_bytes s) \<Longrightarrow> flow_replay fx s = (fx', s') \<Longrightarrow>
     buf_ok (flow_reorder fx') \<and> flow_aggregate_bytes s' = session_reorder_bytes s' \<and> flows s' = flows s \<and>
     unat (session_reorder_bytes s') + ro_buffered_bytes (flow_reorder fx) =
       unat (session_reorder_bytes s) + ro_buffered_bytes (flow_reorder fx')"
proof (induction fx s rule: flow_replay.induct)
  case (1 fx s)
  show ?case
  proof (cases "Take (flow_reorder fx) (flow_rx_next fx)")
    case None
    then show ?thesis using 1(2-5) by (auto simp: flow_replay.simps [of fx s])
  next
    case (Some pb)
    obtain pk b where pb: "pb = (pk, b)" by force
    note tk = Take_buf_ok [OF 1(2) Some [unfolded pb]]
    define u where "u = deliver_one pk (note_flow_unbuffered (frame_length pk) s)"
    have le: "frame_length pk \<le> unat (session_reorder_bytes s)" using tk 1(4) by simp
    have u: "flow_aggregate_bytes u = session_reorder_bytes u" "flows u = flows s"
      "unat (session_reorder_bytes u) = unat (session_reorder_bytes s) - frame_length pk"
      using unbuffered_exact [OF 1(3) le] by (simp_all add: u_def rx_frame)
    define gx where "gx = fx\<lparr>flow_reorder := b, fin_seen := (if fr_cmd pk = cmd_fin then True else fin_seen fx)\<rparr>"
    have e: "flow_replay (gx\<lparr>flow_rx_next := flow_rx_next gx + 1\<rparr>) u = (fx', s')"
      using 1(5) Some pb by (simp add: flow_replay.simps [of fx s] Let_def gx_def u_def)
    have g: "flow_reorder gx = b" by (simp add: gx_def)
    have "ro_buffered_bytes b \<le> unat (session_reorder_bytes u)" using u(3) tk 1(4) by simp
    then have "buf_ok (flow_reorder fx') \<and> flow_aggregate_bytes s' = session_reorder_bytes s' \<and> flows s' = flows u \<and>
        unat (session_reorder_bytes s') + ro_buffered_bytes b = unat (session_reorder_bytes u) + ro_buffered_bytes (flow_reorder fx')"
      using 1(1) [OF Some pb [symmetric] refl refl refl, folded gx_def, folded u_def, OF _ u(1) _ e] tk by (simp add: g)
    then show ?thesis using u(2,3) tk le by auto
  qed
qed

lemma acct_fail: "acct cfg leak s \<Longrightarrow> acct cfg leak (fail_flow cfg' cid s)"
proof -
  assume a: "acct cfg leak s"
  define e where "e = (case flow_of s cid of None \<Rightarrow> s
      | Some fx \<Rightarrow> erase_flow cid (note_flow_unbuffered (ro_buffered_bytes (flow_reorder fx)) s))"
  have "acct cfg leak e"
  proof (cases "flow_of s cid")
    case (Some fx)
    note at = acct_at [OF a Some]
    have "flow_aggregate_bytes s = session_reorder_bytes s" using a by (simp add: acct_def)
    note u = unbuffered_exact [OF this, of "ro_buffered_bytes (flow_reorder fx)"]
    show ?thesis
      using a at u buffered_delete [of "flows s" cid] Some
      by (auto simp: e_def acct_def rx_frame distinct_delete dest: in_delete)
  qed (use a in \<open>simp add: e_def\<close>)
  then show ?thesis
    by (rule acct_same) (simp_all add: fail_flow_def Let_def e_def [symmetric] emit_def rx_frame)
qed

lemma flow_replay_less:
  "reorder_wf (flow_reorder fx) \<Longrightarrow> flow_replay fx s = (fx', s') \<Longrightarrow>
     ro_buffered_bytes (flow_reorder fx') \<le> ro_buffered_bytes (flow_reorder fx)"
proof (induction fx s rule: flow_replay.induct)
  case (1 fx s)
  show ?case
  proof (cases "Take (flow_reorder fx) (flow_rx_next fx)")
    case None
    then show ?thesis using 1(2,3) by (simp add: flow_replay.simps [of fx s])
  next
    case (Some pb)
    obtain pk b where pb: "pb = (pk, b)" by force
    note tk = Take_Some [OF 1(2) Some [unfolded pb]]
    show ?thesis
      using 1(1) [OF Some pb [symmetric] refl refl refl] 1(3) Some pb tk by (simp add: flow_replay.simps [of fx s] Let_def)
  qed
qed

lemma acct_in_order:
  assumes a: "acct cfg leak s" and fx: "flow_of s (fr_cid f) = Some fx"
  shows "acct cfg leak (flow_in_order cfg' now f fx s)"
proof -
  define gx where "gx = (if fr_cmd f = cmd_fin then fx\<lparr>fin_seen := True\<rparr> else fx)"
  define u where "u = deliver_one f s"
  obtain hx v where r: "flow_replay (gx\<lparr>flow_rx_next := flow_rx_next gx + 1\<rparr>) u = (hx, v)" by force
  define kx where "kx = hx\<lparr>oldest_buffered_tick := MuxGapClockAfterAdvance now (ro_packets (flow_reorder hx) \<noteq> [])\<rparr>"
  define w where "w = put_flow (fr_cid f) kx v"
  have gxr: "flow_reorder gx = flow_reorder fx" by (simp add: gx_def)
  note at = acct_at [OF a fx]
  have "flow_aggregate_bytes u = session_reorder_bytes u" "unat (session_reorder_bytes u) = unat (session_reorder_bytes s)"
    using a by (simp_all add: u_def rx_frame acct_def)
  then have v: "buf_ok (flow_reorder hx)" "flow_aggregate_bytes v = session_reorder_bytes v" "flows v = flows s"
     "unat (session_reorder_bytes v) + ro_buffered_bytes (flow_reorder fx) = unat (session_reorder_bytes s) + ro_buffered_bytes (flow_reorder hx)"
    using flow_replay_acct [OF _ _ _ r] at by (simp_all add: gxr u_def rx_frame)
  have lower: "ro_buffered_bytes (flow_reorder hx) \<le> ro_buffered_bytes (flow_reorder fx)" using flow_replay_less [OF _ r] at by (simp add: gxr buf_ok_def)
  have w: "acct cfg leak w"
    by (rule acct_put [OF a, of _ "fr_cid f" kx])
      (use v at a lower in \<open>simp_all add: w_def put_flow_def kx_def acct_def\<close>)
  have "bytes_at (flows w) (fr_cid f) = 0" if "ro_packets (flow_reorder kx) = []"
    using that v(1) by (simp add: w_def put_flow_def bytes_at_def update_conv' kx_def buf_ok_def reorder_wf_def)
  then have "acct cfg leak (maybe_release_flow (fr_cid f) kx w)"
    using w acct_erase [OF w, of "fr_cid f"]
    by (auto simp: maybe_release_flow_def Let_def acct_def emit_def rx_frame)
  then show ?thesis
    by (rule acct_same)
      (simp_all add: flow_in_order_def Let_def gx_def [symmetric] u_def [symmetric] r kx_def [symmetric] w_def [symmetric] rx_frame)
qed

text \<open>Admission leaves room below the hard bound.\<close>

definition cap_small :: "rx_config \<Rightarrow> bool" where
  "cap_small cfg \<longleftrightarrow> session_reorder_cap_bytes cfg \<noteq> 0 \<and> unat (session_reorder_cap_bytes cfg) < 2 ^ 62"

lemma session_hard_eq: "cap_small cfg \<Longrightarrow> session_hard cfg = 2 * unat (session_reorder_cap_bytes cfg)"
  by (simp add: session_hard_def unat_MuxReorderHardCap PPP_MUX_REORDER_HARD_FACTOR_def cap_small_def)

lemma session_room:
  assumes "cap_small cfg" and "unat session \<le> session_hard cfg" and "n \<le> 65535"
  shows "unat (session + of_nat n :: u64) = unat session + n"
proof -
  have "unat session + n < 2 ^ 64" using assms session_hard_eq [OF assms(1)] by (simp add: cap_small_def)
  moreover have "unat (of_nat n :: u64) = n" using assms(3) by (simp add: unat_of_nat take_bit_nat_eq_self)
  ultimately show ?thesis by (simp add: unat_word_ariths)
qed

lemma admit_not_reject:
  assumes c: "cap_small cfg" and s: "unat session \<le> session_hard cfg" "n \<le> 65535"
    and "AdmitReorderBytes session (of_nat n) (session_reorder_cap_bytes cfg) PPP_MUX_REORDER_HARD_FACTOR \<noteq> Reject"
  shows "unat session + n \<le> session_hard cfg"
proof -
  define total where "total = (if of_nat n > size_max - session then size_max else session + of_nat n :: u64)"
  have n: "unat (of_nat n :: u64) = n" using s(2) by (simp add: unat_of_nat take_bit_nat_eq_self)
  have "unat total = min (2 ^ 64 - 1) (unat session + n)" unfolding total_def saturating_add n by simp
  also have "\<dots> = unat session + n" using c s session_hard_eq [OF c] by (simp add: cap_small_def)
  finally have t: "unat total = unat session + n" .
  have "session_reorder_cap_bytes cfg \<noteq> 0" using c by (simp add: cap_small_def)
  with assms(4) have "total \<le> session_reorder_cap_bytes cfg \<or>
      total \<le> MuxReorderHardCap (session_reorder_cap_bytes cfg) PPP_MUX_REORDER_HARD_FACTOR"
    unfolding AdmitReorderBytes_def Let_def total_def [symmetric] by (simp split: if_splits)
  then have "unat total \<le> unat (session_reorder_cap_bytes cfg) \<or> unat total \<le> session_hard cfg"
    by (simp only: word_le_nat_alt session_hard_def)
  then show ?thesis using t session_hard_eq [OF c] by linarith
qed

lemma acct_store:
  assumes c: "cap_small cfg" and a: "acct cfg leak s" and fx: "flow_of s (fr_cid f) = Some fx"
    and n: "frame_length f \<le> 65535" "unat (session_reorder_bytes s) + frame_length f \<le> session_hard cfg"
  shows "acct cfg leak (flow_store cfg l now f fa sa fx s)"
proof -
  define hc where "hc = unat (MuxReorderHardCap (flow_reorder_cap_bytes cfg) PPP_MUX_REORDER_HARD_FACTOR)"
  define ec where "ec = max 1 (hc div sizeof_vmux_hdr)"
  obtain ok b where t: "TryInsert (flow_reorder fx) (fr_seq f) (flow_rx_next fx) f (frame_length f) hc ec = (ok, b)" by force
  note at = acct_at [OF a fx]
  define gx where "gx = fx\<lparr>flow_reorder := b, oldest_buffered_tick := MuxGapClockOnBuffered (oldest_buffered_tick fx) now\<rparr>"
  define v where "v = put_flow (fr_cid f) gx (note_flow_buffered (frame_length f) s)"
  have s: "unat (session_reorder_bytes s) \<le> session_hard cfg" "flow_aggregate_bytes s = session_reorder_bytes s"
    using a by (simp_all add: acct_def)
  have v: "acct cfg leak v" if ok
  proof (rule acct_put [OF a, of _ "fr_cid f" gx])
    have b: "buf_ok b \<and> ro_buffered_bytes b = ro_buffered_bytes (flow_reorder fx) + frame_length f"
      using TryInsert_buf_ok [of "flow_reorder fx" "fr_seq f" "flow_rx_next fx" f hc ec b] t that at by simp
    have "unat (session_reorder_bytes v) = unat (session_reorder_bytes s) + frame_length f"
      using session_room [OF c s(1) n(1)] by (simp add: v_def put_flow_def note_flow_buffered_def)
    then show "unat (session_reorder_bytes v) + bytes_at (flows s) (fr_cid f) =
        unat (session_reorder_bytes s) + ro_buffered_bytes (flow_reorder gx)" "unat (session_reorder_bytes v) \<le> session_hard cfg"
      using b at n(2) by (simp_all add: gx_def)
    show "flows v = AList.update (fr_cid f) gx (flows s)" "flow_aggregate_bytes v = session_reorder_bytes v" "buf_ok (flow_reorder gx)"
      using b s(2) by (simp_all add: v_def put_flow_def note_flow_buffered_def gx_def)
  qed
  have keep: "acct cfg leak (rx_pause_link now l (if q then v else v\<lparr>rx_pressure_flows := p\<rparr>))" "acct cfg leak (rx_pause_link now l v)"
    if "acct cfg leak v" for q p by (rule acct_same [OF that]; simp add: rx_frame)+
  show ?thesis
    unfolding flow_store_def Let_def hc_def [symmetric] ec_def [symmetric] t prod.case gx_def [symmetric] v_def [symmetric]
    using a v keep acct_fail [OF a] by (cases ok) simp_all
qed

lemma acct_future:
  assumes c: "cap_small cfg" and a: "acct cfg leak s" and fx: "flow_of s (fr_cid f) = Some fx"
  shows "acct cfg leak (snd (flow_future cfg l now f fx s))"
proof -
  define t where "t = (if fst (oldest_victim (flows s) (0, 0)) \<noteq> 0 then fail_flow cfg (fst (oldest_victim (flows s) (0, 0))) s else s)"
  have t: "acct cfg leak t" using a acct_fail [OF a] by (simp add: t_def)
  have dist: "distinct (map fst (flows s))" using a by (simp add: acct_def)
  have tx: "flow_of t (fr_cid f) = Some fx" if "ro_packets (flow_reorder fx) = []"
  proof -
    have m: "map_of (flows s) (fr_cid f) = Some fx" using fx by (simp add: flow_of_def)
    note v = victim_other [OF dist m that]
    show ?thesis
    proof (cases "fst (oldest_victim (flows s) (0, 0)) = 0")
      case False
      then show ?thesis using v m by (simp add: t_def flow_of_def rx_frame delete_conv')
    qed (use fx in \<open>simp add: t_def\<close>)
  qed
  have hard: "unat (session_reorder_bytes u) \<le> session_hard cfg" if "acct cfg leak u" for u using that by (simp add: acct_def)
  define sa where "sa = AdmitReorderBytes (session_reorder_bytes s) (of_nat (frame_length f)) (session_reorder_cap_bytes cfg) PPP_MUX_REORDER_HARD_FACTOR"
  define P where "P x \<longleftrightarrow> acct cfg leak (snd x)" for x :: "bool \<times> vmux_net"
  have P: "P (b, u) = acct cfg leak u" for b u by (simp add: P_def)
  have len: "frame_length f \<le> 65535" if "\<not> frame_length f > sizeof_vmux_hdr + max_buffers_size"
    using that by (simp add: max_buffers_size_def sizeof_vmux_hdr_def)
  have direct: "acct cfg leak (flow_store cfg l now f fa sa fx s)"
    if "\<not> frame_length f > sizeof_vmux_hdr + max_buffers_size" "sa \<noteq> Reject" for fa
    using acct_store [OF c a fx len [OF that(1)]] admit_not_reject [OF c hard [OF a] len [OF that(1)]] that(2) by (simp add: sa_def)
  have evict: "acct cfg leak (flow_store cfg l now f fa sa' fx t)"
    if "\<not> frame_length f > sizeof_vmux_hdr + max_buffers_size" "ro_packets (flow_reorder fx) = []"
      "\<not> session_reorder_bytes t + of_nat (frame_length f) > MuxReorderHardCap (session_reorder_cap_bytes cfg) PPP_MUX_REORDER_HARD_FACTOR"
    for fa sa'
    using acct_store [OF c t tx [OF that(2)] len [OF that(1)]] that(3) session_room [OF c hard [OF t] len [OF that(1)]]
    by (simp add: word_less_nat_alt session_hard_def)
  have "P (flow_future cfg l now f fx s)"
    unfolding flow_future_def Let_def t_def [symmetric] sa_def [symmetric]
    using a t direct evict by (simp add: P acct_fail)
  then show ?thesis by (simp add: P_def)
qed

lemma acct_input:
  assumes c: "cap_small cfg" and a: "acct cfg leak s"
  shows "acct cfg leak (snd (packet_input_flow cfg pin l now f s))"
proof -
  obtain adm t where t: "try_get_or_create_flow cfg (fr_cid f) s = (adm, t)" by force
  define fx where "fx = the (flow_of t (fr_cid f))"
  define gx where "gx = (if \<not> primed fx then fx\<lparr>primed := True, flow_rx_next := 1\<rparr> else fx)"
  define u where "u = put_flow (fr_cid f) gx t"
  have na: "acct cfg leak t" if "\<not> adm" using t that a try_get_or_create_False [of cfg "fr_cid f" s t] by simp
  have u: "acct cfg leak u" "flow_of u (fr_cid f) = Some gx" if adm: "adm"
  proof -
    have "try_get_or_create_flow cfg (fr_cid f) s = (True, t)" using t adm by simp
    from try_get_or_create_True [OF this]
    have "buf_ok (flow_reorder fx) \<and> ro_buffered_bytes (flow_reorder fx) = bytes_at (flows s) (fr_cid f) \<and>
        flows u = AList.update (fr_cid f) gx (flows s) \<and> session_reorder_bytes u = session_reorder_bytes s \<and>
        flow_aggregate_bytes u = flow_aggregate_bytes s"
    proof (elim disjE conjE)
      assume "t = s" "flow_of s (fr_cid f) \<noteq> None"
      then show ?thesis using acct_at [OF a] by (auto simp: fx_def u_def put_flow_def)
    next
      assume "flow_of s (fr_cid f) = None" "t = s\<lparr>flows := AList.update (fr_cid f) flow_rx_init (flows s)\<rparr>"
      then show ?thesis
        by (simp add: fx_def u_def put_flow_def flow_of_def update_conv' flow_rx_init_def buf_ok_def reorder_empty_def
            reorder_wf_def keys_sorted_def bytes_at_def)
    qed
    moreover have "flow_reorder gx = flow_reorder fx" by (simp add: gx_def)
    ultimately show "acct cfg leak u" using a by (intro acct_put [OF a, of _ "fr_cid f" gx]) (simp_all add: acct_def)
    show "flow_of u (fr_cid f) = Some gx" by (simp add: u_def put_flow_def flow_of_def update_conv')
  qed
  define P where "P x \<longleftrightarrow> acct cfg leak (snd x)" for x :: "bool \<times> vmux_net"
  have P: "P (b, v) = acct cfg leak v" for b v by (simp add: P_def)
  have fut: "P (flow_future cfg l now f gx u)" if adm using acct_future [OF c u [OF that]] by (simp add: P_def)
  have "acct cfg leak (emit (Handled f) s)" by (rule acct_same [OF a]) (simp_all add: emit_def)
  then have "P (packet_input_flow cfg pin l now f s)"
    unfolding packet_input_flow_def t prod.case fx_def [symmetric] Let_def gx_def [symmetric] u_def [symmetric]
    using a na u fut acct_in_order [OF u] by (simp add: P)
  then show ?thesis by (simp add: P_def)
qed

text \<open>The bytes that \<^verbatim>\<open>release_connection\<close> drops together with a context.\<close>

definition leak_of :: "rx_op \<Rightarrow> vmux_net \<Rightarrow> nat" where
  "leak_of op s = (case op of RxRelease cid \<Rightarrow> (if cid \<noteq> 0 \<and> cid \<in> set (skts s) then bytes_at (flows s) cid else 0) | _ \<Rightarrow> 0)"

fun leaked :: "rx_config \<Rightarrow> (vmux_frame \<Rightarrow> bool) \<Rightarrow> rx_op list \<Rightarrow> vmux_net \<Rightarrow> nat" where
  "leaked cfg pin [] s = 0"
| "leaked cfg pin (op # ops) s = leak_of op s + leaked cfg pin ops (rx_exec cfg pin op s)"

lemma rx_exec_acct:
  assumes c: "cap_small cfg" and a: "acct cfg leak s"
  shows "acct cfg (leak + leak_of op s) (rx_exec cfg pin op s)"
proof (cases op)
  case (RxInput l now f)
  obtain b t where t: "packet_input_flow cfg pin l now f s = (b, t)" by force
  have "acct cfg leak t" using acct_input [OF c a, of pin l now f] t by simp
  then show ?thesis using RxInput t by (simp add: rx_exec_def leak_of_def acct_def emit_def)
next
  case (RxEvict now)
  have "acct cfg leak u \<Longrightarrow> acct cfg leak (fold (fail_flow cfg) cs u)" for cs u
    by (induction cs arbitrary: u) (simp_all add: acct_fail)
  then show ?thesis using a RxEvict by (simp add: rx_exec_def leak_of_def flow_evict_expired_def Let_def)
next
  case (RxRelease cid)
  show ?thesis
  proof (cases "cid \<noteq> 0 \<and> cid \<in> set (skts s)")
    case True
    have "acct cfg (leak + bytes_at (flows s) cid) (release_connection cid s)"
      by (rule acct_same [OF acct_erase [OF a, of cid]])
        (use True in \<open>simp_all add: release_connection_def Let_def emit_def rx_frame\<close>)
    then show ?thesis using True RxRelease by (simp add: rx_exec_def leak_of_def)
  qed (use a RxRelease in \<open>auto simp: rx_exec_def leak_of_def release_connection_def\<close>)
next
  case (RxLinkExit l)
  have "acct cfg leak (on_link_exit l s)"
    by (rule acct_same [OF a]) (simp_all add: on_link_exit_def Let_def emit_def rx_frame)
  then show ?thesis using RxLinkExit by (simp add: rx_exec_def leak_of_def)
next
  case (RxFail cid)
  then show ?thesis using acct_fail [OF a] by (simp add: rx_exec_def leak_of_def)
qed (use a in \<open>simp_all add: rx_exec_def leak_of_def acct_def\<close>)

lemma rx_run_acct: "cap_small cfg \<Longrightarrow> acct cfg (leaked cfg pin ops rx_start) (rx_run cfg pin ops)"
proof -
  assume c: "cap_small cfg"
  have "acct cfg leak s \<Longrightarrow> acct cfg (leak + leaked cfg pin ops s) (fold (rx_exec cfg pin) ops s)" for leak s
  proof (induction ops arbitrary: leak s)
    case (Cons op ops)
    show ?case using Cons.IH [OF rx_exec_acct [OF c Cons.prems, of op pin]] by (simp add: add.assoc)
  qed simp
  moreover have "acct cfg 0 rx_start" by (simp add: acct_def rx_start_def buffered_def)
  ultimately show ?thesis unfolding rx_run_def by fastforce
qed

text \<open>
  C14. Receive memory is bounded and accounted for: with a configured session cap the bytes buffered
  over all reorder contexts never exceed the hard bound of twice the cap, and the session counter
  is exactly those bytes plus the bytes of the contexts that \<^verbatim>\<open>release_connection\<close> erased while
  they still held frames; without such releases the counter is exact.
\<close>
theorem session_bytes_accounted:
  assumes "cap_small cfg"
  shows "unat (session_reorder_bytes (rx_run cfg packet_input ops)) =
           buffered (flows (rx_run cfg packet_input ops)) + leaked cfg packet_input ops rx_start \<and>
         flow_aggregate_bytes (rx_run cfg packet_input ops) = session_reorder_bytes (rx_run cfg packet_input ops) \<and>
         buffered (flows (rx_run cfg packet_input ops)) \<le> 2 * unat (session_reorder_cap_bytes cfg)"
  using rx_run_acct [OF assms, of packet_input ops] session_hard_eq [OF assms] by (simp add: acct_def)

theorem session_bytes_accounted_witness:
  "unat (session_reorder_bytes (rx_run rx_example_cfg (\<lambda>_. True) rx_example_ops)) =
     buffered (flows (rx_run rx_example_cfg (\<lambda>_. True) rx_example_ops)) + leaked rx_example_cfg (\<lambda>_. True) rx_example_ops rx_start"
proof -
  have "cap_small rx_example_cfg" by (simp add: cap_small_def rx_example_cfg_def)
  from session_bytes_accounted [OF this] show ?thesis by blast
qed

text \<open>
  The leak exists: a connection that receives its second frame first and is then closed leaves a
  session with no receive context at all whose counter still says ten buffered bytes.
\<close>
theorem release_connection_leaks:
  "\<exists>ops. flows (rx_run rx_example_cfg (\<lambda>_. True) ops) = [] \<and>
         session_reorder_bytes (rx_run rx_example_cfg (\<lambda>_. True) ops) = 10"
proof (intro exI conjI)
  let ?ops = "[RxOpen 7, RxLinkUp 0, RxInput 0 5 \<lparr>fr_seq = 2, fr_cmd = cmd_push, fr_cid = 7, fr_payload = [2]\<rparr>, RxRelease 7]"
  have one: "\<not> (2147483648 :: u32) \<le> 1" by (simp add: word_le_nat_alt)
  have "flows (rx_run rx_example_cfg (\<lambda>_. True) ?ops) = [] \<and> session_reorder_bytes (rx_run rx_example_cfg (\<lambda>_. True) ?ops) = 10"
    by (simp add: one rx_eval rx_example_cfg_def flow_future_def flow_store_def frame_length_def sizeof_vmux_hdr_def max_buffers_size_def
        AdmitReorderBytes_def MuxReorderHardCap_def PPP_MUX_REORDER_HARD_FACTOR_def TryInsert_def note_flow_buffered_def
        MuxGapClockOnBuffered_def release_connection_def erase_flow_def Let_def)
  then show "flows (rx_run rx_example_cfg (\<lambda>_. True) ?ops) = []" "session_reorder_bytes (rx_run rx_example_cfg (\<lambda>_. True) ?ops) = 10"
    by blast+
qed

end
