(* ===== verification/Mux_Compat.thy ===== *)
theory Mux_Compat
  imports Mux_Receive
begin

text \<open>
  The compat receive path, \<^verbatim>\<open>packet_input_unorder\<close> of \<^verbatim>\<open>ppp/app/mux/vmux_net.cpp\<close>: one global sequence
  space for all frames of a session. The ordered map \<^verbatim>\<open>rx_queue_\<close> is the list of its nodes under
  the wrapping comparison \<^verbatim>\<open>packet_less\<close>; dispatching a frame is recorded as \<open>Handled\<close> and its result
  is the parameter \<open>packet_input\<close>.
\<close>

section \<open>The receive path\<close>

fun pr_emplace :: "u32 \<Rightarrow> 'v \<Rightarrow> (u32 \<times> 'v) list \<Rightarrow> bool \<times> (u32 \<times> 'v) list" where
  "pr_emplace k v [] = (True, [(k, v)])"
| "pr_emplace k v ((k', v') # m) =
     (if packet_before k k' then (True, (k, v) # (k', v') # m)
      else if packet_before k' k then (let (inserted, m) = pr_emplace k v m in (inserted, (k', v') # m))
      else (False, (k', v') # m))"

fun compat_replay :: "(vmux_frame \<Rightarrow> bool) \<Rightarrow> (u32 \<times> vmux_frame) list \<Rightarrow> vmux_net \<Rightarrow> bool \<times> vmux_net" where
  "compat_replay packet_input [] s = (True, s\<lparr>rx_queue := []\<rparr>)"
| "compat_replay packet_input ((q, f) # queue) s =
     (if rx_ack s = q
      then let s = emit (Handled f) (note_flow_unbuffered (frame_length f) s)
           in if packet_input f then compat_replay packet_input queue (s\<lparr>rx_ack := rx_ack s + 1\<rparr>)
              else (False, s\<lparr>rx_queue := queue\<rparr>)
      else (True, s\<lparr>rx_queue := (q, f) # queue\<rparr>))"

definition compat_future :: "rx_config \<Rightarrow> nat \<Rightarrow> u64 \<Rightarrow> vmux_frame \<Rightarrow> vmux_net \<Rightarrow> bool \<times> vmux_net" where
  "compat_future cfg linklayer now f s =
     (let len = frame_length f in
      if len < sizeof_vmux_hdr \<or> len > sizeof_vmux_hdr + max_buffers_size then (False, s)
      else let admit = AdmitReorderBytes (session_reorder_bytes s) (of_nat len) (session_reorder_cap_bytes cfg) PPP_MUX_REORDER_HARD_FACTOR
           in if admit = Reject then (True, emit CloseExec s)
              else case pr_emplace (fr_seq f) f (rx_queue s) of
                  (False, _) \<Rightarrow> (reliability_on cfg, s)
                | (True, queue) \<Rightarrow>
                    let s = note_flow_buffered len (s\<lparr>rx_queue := queue\<rparr>);
                        s = s\<lparr>rx_gap_oldest_tick := MuxGapClockOnBuffered (rx_gap_oldest_tick s) now\<rparr>
                    in (True, if admit = AcceptAndPause then rx_pause_link now linklayer s else s))"

definition packet_input_unorder :: "rx_config \<Rightarrow> (vmux_frame \<Rightarrow> bool) \<Rightarrow> nat \<Rightarrow> u64 \<Rightarrow> vmux_frame \<Rightarrow> vmux_net \<Rightarrow> bool \<times> vmux_net" where
  "packet_input_unorder cfg packet_input linklayer now f s =
     (if disposed s then (False, s)
      else if is_reliability_control (fr_cmd f) then (packet_input f, emit (Handled f) s)
      else if rx_ack s = fr_seq f
      then let s = emit (Handled f) s in
        if \<not> packet_input f then (False, s)
        else (case compat_replay packet_input (rx_queue s) (s\<lparr>rx_ack := rx_ack s + 1\<rparr>) of
                (False, s) \<Rightarrow> (False, s)
              | (True, s) \<Rightarrow>
                  (True, rx_maybe_resume cfg (s\<lparr>rx_gap_oldest_tick := MuxGapClockAfterAdvance now (rx_queue s \<noteq> [])\<rparr>)))
      else if packet_after (fr_seq f) (rx_ack s) then compat_future cfg linklayer now f s
      else (reliability_on cfg, s))"

definition compat_evict_expired :: "rx_config \<Rightarrow> u64 \<Rightarrow> vmux_net \<Rightarrow> vmux_net" where
  "compat_evict_expired cfg now s =
     (if rx_queue s = [] \<or> rx_gap_oldest_tick s = 0 then s
      else let timeout = flow_reorder_timeout cfg;
               timeout = (if timeout = 0 then PPP_MUX_FLOW_REORDER_TIMEOUT else timeout);
               timeout = (if reliability_on cfg \<and> reliability_gap_timeout_ms cfg > 0 then reliability_gap_timeout_ms cfg else timeout)
           in if now - rx_gap_oldest_tick s \<le> timeout then s else emit CloseExec s)"

section \<open>Wrapping comparison inside the window\<close>

text \<open>How far a sequence number is ahead of the next expected one.\<close>

definition ahead :: "u32 \<Rightarrow> u32 \<Rightarrow> nat" where
  "ahead a q = unat (q - a)"

lemma before_ahead:
  assumes "1 \<le> ahead a k" "ahead a k \<le> 2 ^ 31" "1 \<le> ahead a k'" "ahead a k' \<le> 2 ^ 31"
  shows "packet_before k k' \<longleftrightarrow> ahead a k < ahead a k'"
proof -
  define x y where "x = k - a" and "y = k' - a"
  have "k - k' = x - y" by (simp add: x_def y_def)
  then have u: "unat (k - k') = (if unat y \<le> unat x then unat x - unat y else unat x + 2 ^ 32 - unat y)"
    by (simp add: unat_sub_if')
  have "ahead a k = unat x" "ahead a k' = unat y" by (simp_all add: ahead_def x_def y_def)
  then show ?thesis using assms u unfolding packet_before_def sint_negative by (auto split: if_splits)
qed

lemma ahead_Suc: "1 \<le> ahead a k \<Longrightarrow> ahead a k = Suc (ahead (a + 1) k)"
proof -
  assume a: "1 \<le> ahead a k"
  have "k - (a + 1) = (k - a) - 1" by simp
  then have "ahead (a + 1) k = ahead a k - 1" using a unfolding ahead_def by (simp only: unat_sub_if') simp
  then show ?thesis using a by simp
qed

lemma after_ahead: "packet_after q a \<Longrightarrow> q \<noteq> a \<Longrightarrow> 1 \<le> ahead a q \<and> ahead a q \<le> 2 ^ 31"
proof -
  assume q: "packet_after q a" "q \<noteq> a"
  then have h: "2 ^ 31 \<le> unat (a - q)" by (simp add: packet_after_def packet_before_def sint_negative)
  define w where "w = q - a"
  have "a - q = 0 - w" by (simp add: w_def)
  moreover have w: "0 < unat w" using q(2) by (simp add: w_def unat_gt_0)
  moreover have "unat (0 - w) = 2 ^ 32 - unat w" using w unat_sub_if' [of 0 w] by simp
  ultimately show ?thesis using h unsigned_less [of w, where 'a = nat] by (simp add: ahead_def w_def [symmetric])
qed

section \<open>Global order\<close>

text \<open>The numbers of the sequenced frames dispatched so far, oldest first.\<close>

definition handled :: "rx_call list \<Rightarrow> u32 list" where
  "handled cl = rev (concat (map (\<lambda>e. case e of Handled f \<Rightarrow> if is_reliability_control (fr_cmd f) then [] else [fr_seq f] | _ \<Rightarrow> []) cl))"

definition entry_ok :: "u32 \<Rightarrow> u32 \<times> vmux_frame \<Rightarrow> bool" where
  "entry_ok ack p \<longleftrightarrow> fr_seq (snd p) = fst p \<and> ahead ack (fst p) \<le> 2 ^ 31 \<and> \<not> is_reliability_control (fr_cmd (snd p))"

text \<open>The queue is ordered by distance; nothing in it is due (\<open>queue_ok\<close>), or its first entry may be.\<close>

definition queue_sorted :: "u32 \<Rightarrow> (u32 \<times> vmux_frame) list \<Rightarrow> bool" where
  "queue_sorted ack q \<longleftrightarrow> sorted_wrt (\<lambda>p p'. ahead ack (fst p) < ahead ack (fst p')) q \<and> list_all (entry_ok ack) q"

definition queue_ok :: "u32 \<Rightarrow> (u32 \<times> vmux_frame) list \<Rightarrow> bool" where
  "queue_ok ack q \<longleftrightarrow> queue_sorted ack q \<and> list_all (\<lambda>p. 1 \<le> ahead ack (fst p)) q"

definition compat_inv :: "u32 \<Rightarrow> vmux_net \<Rightarrow> bool" where
  "compat_inv a s \<longleftrightarrow> (\<exists>n. rx_ack s = a + of_nat n \<and> handled (calls s) = map (\<lambda>i. a + of_nat i) [0..<n])"

lemma queue_next: "queue_ok ack q \<Longrightarrow> queue_sorted (ack + 1) q"
proof (induction q)
  case (Cons p q)
  have s: "ahead ack k = Suc (ahead (ack + 1) k)" if "\<exists>p' \<in> set (p # q). k = fst p'" for k
    using that Cons.prems by (intro ahead_Suc) (auto simp: queue_ok_def list_all_iff)
  have "\<forall>p' \<in> set q. ahead (ack + 1) (fst p) < ahead (ack + 1) (fst p')"
    using Cons.prems s [of "fst p"] s by (fastforce simp: queue_ok_def queue_sorted_def)
  moreover have "entry_ok (ack + 1) p" using Cons.prems s [of "fst p"] by (auto simp: queue_ok_def queue_sorted_def entry_ok_def)
  moreover have "queue_ok ack q" using Cons.prems by (simp add: queue_ok_def queue_sorted_def)
  ultimately show ?case using Cons.IH by (simp add: queue_sorted_def)
qed (simp add: queue_sorted_def)

lemma ahead_zero: "ahead a k = 0 \<longleftrightarrow> k = a"
  by (simp add: ahead_def unat_eq_0)

lemma queue_due: "queue_sorted ack (p # q) \<Longrightarrow> fst p = ack \<Longrightarrow> queue_ok ack q"
  by (auto simp: queue_sorted_def queue_ok_def list_all_iff ahead_zero Suc_le_eq)

lemma queue_not_due: "queue_sorted ack (p # q) \<Longrightarrow> fst p \<noteq> ack \<Longrightarrow> queue_ok ack (p # q)"
  using ahead_zero [of ack "fst p"] by (fastforce simp: queue_sorted_def queue_ok_def list_all_iff Suc_le_eq)

lemma compat_inv_handle:
  "compat_inv a s \<Longrightarrow> fr_seq f = rx_ack s \<Longrightarrow> \<not> is_reliability_control (fr_cmd f) \<Longrightarrow>
     rx_ack t = rx_ack s + 1 \<Longrightarrow> calls t = Handled f # calls s \<Longrightarrow> compat_inv a t"
  unfolding compat_inv_def by (elim exE conjE, rule_tac x = "Suc n" in exI) (simp add: handled_def)

lemma compat_replay_ok:
  "compat_inv a s \<Longrightarrow> queue_sorted (rx_ack s) q \<Longrightarrow> compat_replay pin q s = (True, t) \<Longrightarrow>
     compat_inv a t \<and> queue_ok (rx_ack t) (rx_queue t)"
proof (induction pin q s rule: compat_replay.induct)
  case (1 pin s)
  then show ?case by (auto simp: compat_inv_def queue_ok_def queue_sorted_def)
next
  case (2 pin q f queue s)
  define u where "u = emit (Handled f) (note_flow_unbuffered (frame_length f) s)"
  have u: "calls u = Handled f # calls s" "rx_ack u = rx_ack s" by (simp_all add: u_def emit_def note_flow_unbuffered_def)
  show ?case
  proof (cases "rx_ack s = q")
    case True
    have f: "fr_seq f = rx_ack s" "\<not> is_reliability_control (fr_cmd f)"
      using 2(3) True by (simp_all add: queue_sorted_def entry_ok_def)
    have ok: "pin f" using 2(4) True by (auto simp: Let_def split: if_splits)
    have "compat_inv a (u\<lparr>rx_ack := rx_ack u + 1\<rparr>)"
      by (rule compat_inv_handle [OF 2(2) f]) (simp_all add: u)
    moreover have "queue_sorted (rx_ack (u\<lparr>rx_ack := rx_ack u + 1\<rparr>)) queue"
      using queue_next [OF queue_due [OF 2(3)]] True by (simp add: u)
    moreover have "compat_replay pin queue (u\<lparr>rx_ack := rx_ack u + 1\<rparr>) = (True, t)"
      using 2(4) True ok by (simp add: Let_def u_def)
    ultimately show ?thesis using 2(1) [OF True u_def ok] by blast
  next
    case False
    then have "t = s\<lparr>rx_queue := (q, f) # queue\<rparr>" using 2(4) by simp
    then show ?thesis using 2(2) queue_not_due [OF 2(3)] False by (auto simp: compat_inv_def)
  qed
qed

lemma pr_emplace_ok:
  assumes "queue_ok ack q" "1 \<le> ahead ack k" "ahead ack k \<le> 2 ^ 31" "fr_seq f = k" "\<not> is_reliability_control (fr_cmd f)"
    and "pr_emplace k f q = (True, q')"
  shows "queue_ok ack q' \<and> set q' = insert (k, f) (set q)"
  using assms
proof (induction k f q arbitrary: q' rule: pr_emplace.induct)
  case (2 k f k' f' m)
  have w: "1 \<le> ahead ack k'" "ahead ack k' \<le> 2 ^ 31"
    using 2(2) by (simp_all add: queue_ok_def queue_sorted_def entry_ok_def)
  note lt = before_ahead [OF 2(3,4) w] and gt = before_ahead [OF w 2(3,4)]
  show ?case
  proof (cases "packet_before k k'")
    case True
    then have "q' = (k, f) # (k', f') # m" using 2(7) by simp
    then show ?thesis using True lt 2(2-6)
      by (auto simp: queue_ok_def queue_sorted_def entry_ok_def intro: less_trans)
  next
    case False
    then obtain m' where m': "packet_before k' k" "pr_emplace k f m = (True, m')" "q' = (k', f') # m'"
      using 2(7) by (auto simp: Let_def split: if_splits prod.splits)
    have "queue_ok ack m" using 2(2) by (simp add: queue_ok_def queue_sorted_def)
    from 2(1) [OF False m'(1) this 2(3-6) m'(2)]
    show ?thesis using 2(2) m'(1,3) gt by (auto simp: queue_ok_def queue_sorted_def)
  qed
qed (auto simp: queue_ok_def queue_sorted_def entry_ok_def)

lemma compat_frame:
  "rx_ack (rx_maybe_resume cfg s) = rx_ack s" "rx_queue (rx_maybe_resume cfg s) = rx_queue s"
  "rx_ack (rx_pause_link now l s) = rx_ack s" "rx_queue (rx_pause_link now l s) = rx_queue s"
  by (simp_all add: rx_maybe_resume_def rx_pause_link_def rx_release_if_stalled_def rx_resume_all_links_def Let_def)

definition compat_state_ok :: "u32 \<Rightarrow> vmux_net \<Rightarrow> bool" where
  "compat_state_ok a s \<longleftrightarrow> compat_inv a s \<and> queue_ok (rx_ack s) (rx_queue s)"

lemma compat_state_same:
  "compat_state_ok a s \<Longrightarrow> rx_ack t = rx_ack s \<Longrightarrow> rx_queue t = rx_queue s \<Longrightarrow> handled (calls t) = handled (calls s) \<Longrightarrow>
     compat_state_ok a t"
  by (simp add: compat_state_ok_def compat_inv_def)

lemma compat_future_ok:
  assumes ok: "compat_state_ok a s" and f: "packet_after (fr_seq f) (rx_ack s)" "fr_seq f \<noteq> rx_ack s" "\<not> is_reliability_control (fr_cmd f)"
    and e: "compat_future cfg l now f s = (True, t)"
  shows "compat_state_ok a t"
proof -
  obtain ins q where q: "pr_emplace (fr_seq f) f (rx_queue s) = (ins, q)" by force
  consider "t = s" | "t = emit CloseExec s"
    | "ins" "rx_ack t = rx_ack s" "rx_queue t = q" "calls t = calls s"
    using e unfolding compat_future_def Let_def q prod.case
    by (cases ins) (auto simp: compat_frame rx_frame note_flow_buffered_def split: if_splits)
  then show ?thesis
  proof cases
    case 3
    then show ?thesis
      using ok pr_emplace_ok [of "rx_ack s" "rx_queue s" "fr_seq f" f q] after_ahead [OF f(1,2)] f(3) q
      by (simp add: compat_state_ok_def compat_inv_def)
  next
    case 2
    then show ?thesis by (intro compat_state_same [OF ok]) (simp_all add: emit_def handled_def)
  qed (use ok in simp)
qed

lemma packet_input_unorder_ok:
  assumes ok: "compat_state_ok a s" and e: "packet_input_unorder cfg pin l now f s = (True, t)"
  shows "compat_state_ok a t"
proof (cases "is_reliability_control (fr_cmd f)")
  case True
  then have t: "t = emit (Handled f) s"
    using e unfolding packet_input_unorder_def by (cases "disposed s") simp_all
  have "handled (Handled f # calls s) = handled (calls s)" using True by (simp add: handled_def)
  then show ?thesis unfolding t by (intro compat_state_same [OF ok]) (simp_all add: emit_def)
next
  case c: False
  show ?thesis
  proof (cases "fr_seq f = rx_ack s")
    case True
    define u where "u = (emit (Handled f) s)\<lparr>rx_ack := rx_ack s + 1\<rparr>"
    have "compat_inv a u"
      by (rule compat_inv_handle [of a s f]) (use ok True c in \<open>simp_all add: compat_state_ok_def u_def emit_def\<close>)
    moreover have "queue_sorted (rx_ack u) (rx_queue s)"
      using ok queue_next by (simp add: compat_state_ok_def u_def)
    moreover obtain b v where r: "compat_replay pin (rx_queue s) u = (b, v)" by force
    have u: "(emit (Handled f) s)\<lparr>rx_ack := rx_ack (emit (Handled f) s) + 1\<rparr> = u" "rx_queue (emit (Handled f) s) = rx_queue s"
      by (simp_all add: u_def emit_def)
    have bt: "b \<and> t = rx_maybe_resume cfg (v\<lparr>rx_gap_oldest_tick := MuxGapClockAfterAdvance now (rx_queue v \<noteq> [])\<rparr>)"
      using e c True unfolding packet_input_unorder_def Let_def u r prod.case
      by (cases "disposed s"; cases "pin f"; cases b) simp_all
    then have t: "t = rx_maybe_resume cfg (v\<lparr>rx_gap_oldest_tick := MuxGapClockAfterAdvance now (rx_queue v \<noteq> [])\<rparr>)" by blast
    moreover have "compat_replay pin (rx_queue s) u = (True, v)" using r bt by simp
    ultimately have "compat_state_ok a v" using compat_replay_ok by (simp add: compat_state_ok_def)
    then show ?thesis unfolding t by (rule compat_state_same) (simp_all add: compat_frame rx_frame)
  next
    case False
    then have "(packet_after (fr_seq f) (rx_ack s) \<and> compat_future cfg l now f s = (True, t)) \<or> t = s"
      using e c unfolding packet_input_unorder_def
      by (cases "disposed s"; cases "packet_after (fr_seq f) (rx_ack s)") simp_all
    then show ?thesis using ok compat_future_ok [OF ok _ False c] by blast
  qed
qed

text \<open>A session receiving frames until one of them is refused.\<close>

fun compat_run :: "rx_config \<Rightarrow> (vmux_frame \<Rightarrow> bool) \<Rightarrow> (nat \<times> u64 \<times> vmux_frame) list \<Rightarrow> vmux_net \<Rightarrow> vmux_net option" where
  "compat_run cfg packet_input [] s = Some s"
| "compat_run cfg packet_input ((l, now, f) # ins) s =
     (case packet_input_unorder cfg packet_input l now f s of
        (True, s) \<Rightarrow> compat_run cfg packet_input ins s
      | (False, s) \<Rightarrow> None)"

lemma compat_run_ok: "compat_state_ok a s \<Longrightarrow> compat_run cfg pin ins s = Some t \<Longrightarrow> compat_state_ok a t"
proof (induction cfg pin ins s rule: compat_run.induct)
  case (2 cfg pin l now f ins s)
  then obtain u where "packet_input_unorder cfg pin l now f s = (True, u)" "compat_run cfg pin ins u = Some t"
    by (auto split: prod.splits bool.splits)
  then show ?case using 2 packet_input_unorder_ok by (metis (full_types))
qed simp

text \<open>
  Global order in compat mode: whatever order, duplication and loss the carriers produce, the
  sequenced frames of a session are dispatched in the order of their numbers, none twice and none
  skipped, starting from the agreed initial number and across the wrap of the 32-bit counter; and
  no frame that is due stays queued.
\<close>
theorem compat_in_order:
  assumes "compat_run cfg packet_input ins (rx_start\<lparr>rx_ack := a\<rparr>) = Some s"
  shows "\<exists>n. rx_ack s = a + of_nat n \<and> handled (calls s) = map (\<lambda>i. a + of_nat i) [0..<n] \<and>
           rx_ack s \<notin> fst ` set (rx_queue s)"
proof -
  have "compat_state_ok a (rx_start\<lparr>rx_ack := a\<rparr>)"
    by (simp add: compat_state_ok_def compat_inv_def queue_ok_def queue_sorted_def rx_start_def handled_def)
  from compat_run_ok [OF this assms] have "compat_inv a s" "queue_ok (rx_ack s) (rx_queue s)"
    by (simp_all add: compat_state_ok_def)
  moreover from this(2) have "\<forall>p \<in> set (rx_queue s). 1 \<le> ahead (rx_ack s) (fst p)" by (simp add: queue_ok_def list_all_iff)
  then have "rx_ack s \<notin> fst ` set (rx_queue s)" using ahead_zero [of "rx_ack s" "rx_ack s"] by fastforce
  ultimately show ?thesis by (auto simp: compat_inv_def)
qed

text \<open>Two frames in order around the wrap of the sequence counter.\<close>

definition compat_example :: "(nat \<times> u64 \<times> vmux_frame) list" where
  "compat_example = [(0, 5, \<lparr>fr_seq = 0xFFFFFFFF, fr_cmd = cmd_push, fr_cid = 7, fr_payload = [1]\<rparr>),
                     (1, 6, \<lparr>fr_seq = 0, fr_cmd = cmd_push, fr_cid = 7, fr_payload = [2]\<rparr>)]"

theorem compat_in_order_witness:
  "\<exists>s n. compat_run rx_example_cfg (\<lambda>_. True) compat_example (rx_start\<lparr>rx_ack := 0xFFFFFFFF\<rparr>) = Some s \<and>
     rx_ack s = 0xFFFFFFFF + of_nat n \<and> handled (calls s) = map (\<lambda>i. 0xFFFFFFFF + of_nat i) [0..<n]"
proof -
  have "compat_run rx_example_cfg (\<lambda>_. True) compat_example (rx_start\<lparr>rx_ack := 0xFFFFFFFF\<rparr>) \<noteq> None"
    by (simp add: compat_example_def packet_input_unorder_def rx_start_def is_reliability_control_def cmd_defs emit_def
        MuxGapClockAfterAdvance_def rx_maybe_resume_def)
  then obtain s where "compat_run rx_example_cfg (\<lambda>_. True) compat_example (rx_start\<lparr>rx_ack := 0xFFFFFFFF\<rparr>) = Some s" by blast
  then show ?thesis using compat_in_order by blast
qed

end
