(* ===== verification/Text.thy ===== *)
theory Text
  imports Prelude
begin

text \<open>
  The string helpers of \<^verbatim>\<open>src/ppp/stdafx.h\<close> that the components use, and the parsing of dotted
  IPv4 addresses and decimal numbers of the C library. Characters are bytes in the C locale.
\<close>

section \<open>Trimming and case\<close>

definition is_space :: "char \<Rightarrow> bool" where
  "is_space c \<longleftrightarrow> (let n = of_char c :: nat in n = 32 \<or> (9 \<le> n \<and> n \<le> 13))"

definition LTrim :: "string \<Rightarrow> string" where
  "LTrim s = dropWhile is_space s"

definition RTrim :: "string \<Rightarrow> string" where
  "RTrim s = rev (dropWhile is_space (rev s))"

definition lower_char :: "char \<Rightarrow> char" where
  "lower_char c = (let n = of_char c :: nat in if 65 \<le> n \<and> n \<le> 90 then char_of (n + 32) else c)"

definition ToLower :: "string \<Rightarrow> string" where
  "ToLower s = map lower_char s"

text \<open>\<open>ATrim\<close> removes every white-space character, also between others.\<close>

definition ATrim :: "string \<Rightarrow> string" where
  "ATrim s = filter (\<lambda>c. \<not> is_space c) s"

section \<open>Tokens\<close>

text \<open>
  The scanner keeps the characters of the current segment; a delimiter closes it when it is not empty.
\<close>

fun tokenize_loop :: "char list \<Rightarrow> string \<Rightarrow> string \<Rightarrow> string list" where
  "tokenize_loop delims seg [] = (if seg = [] then [] else [rev seg])"
| "tokenize_loop delims seg (c # cs) =
     (if c \<in> set delims
      then (if seg = [] then tokenize_loop delims [] cs else rev seg # tokenize_loop delims [] cs)
      else tokenize_loop delims (c # seg) cs)"

definition Tokenize :: "string \<Rightarrow> string \<Rightarrow> string list" where
  "Tokenize s delims = (if s = [] then [] else if delims = [] then [s] else tokenize_loop delims [] s)"

text \<open>The declarative reading: the maximal non-empty runs without a delimiter.\<close>

lemma tokenize_loop_tokens:
  "list_all (\<lambda>c. c \<notin> set delims) seg \<Longrightarrow>
     list_all (\<lambda>t. t \<noteq> [] \<and> list_all (\<lambda>c. c \<notin> set delims) t) (tokenize_loop delims seg s)"
  by (induction s arbitrary: seg) simp_all

lemma tokenize_loop_concat:
  "concat (tokenize_loop delims seg s) = rev seg @ filter (\<lambda>c. c \<notin> set delims) s"
  by (induction s arbitrary: seg) simp_all

lemma Tokenize_spec:
  assumes "delims \<noteq> []"
  shows "concat (Tokenize s delims) = filter (\<lambda>c. c \<notin> set delims) s"
    and "list_all (\<lambda>t. t \<noteq> [] \<and> list_all (\<lambda>c. c \<notin> set delims) t) (Tokenize s delims)"
  using assms tokenize_loop_concat [of delims "[]" s] tokenize_loop_tokens [of delims "[]" s]
  by (simp_all add: Tokenize_def)

section \<open>Numbers and addresses\<close>

definition is_digit :: "char \<Rightarrow> bool" where
  "is_digit c \<longleftrightarrow> (let n = of_char c :: nat in 48 \<le> n \<and> n \<le> 57)"

definition digit_value :: "char \<Rightarrow> nat" where
  "digit_value c = of_char c - 48"

definition decimal :: "string \<Rightarrow> nat" where
  "decimal ds = foldl (\<lambda>n c. 10 * n + digit_value c) 0 ds"

text \<open>The C library reads a string up to its first zero byte.\<close>

definition c_str :: "string \<Rightarrow> string" where
  "c_str s = takeWhile (\<lambda>c. c \<noteq> CHR 0x00) s"

text \<open>
  \<^verbatim>\<open>strtol(s, &end, 10)\<close> followed by the test that the whole string was read: leading white space, an
  optional sign and at least one digit. Saturation at the limits of \<open>long\<close> cannot be seen behind the
  range tests of the callers.
\<close>

definition strtol_all :: "string \<Rightarrow> int option" where
  "strtol_all s =
     (let s = dropWhile is_space (c_str s);
          (neg, ds) = (case s of
             c # cs \<Rightarrow> if c = CHR ''-'' then (True, cs) else if c = CHR ''+'' then (False, cs) else (False, c # cs)
           | [] \<Rightarrow> (False, []))
      in if ds \<noteq> [] \<and> list_all is_digit ds
         then Some (if neg then - int (decimal ds) else int (decimal ds)) else None)"

fun split_at :: "char \<Rightarrow> string \<Rightarrow> string list" where
  "split_at d [] = [[]]"
| "split_at d (c # cs) =
     (if c = d then [] # split_at d cs
      else case split_at d cs of [] \<Rightarrow> [[c]] | t # ts \<Rightarrow> (c # t) # ts)"

definition octet :: "string \<Rightarrow> nat option" where
  "octet ds =
     (if ds \<noteq> [] \<and> length ds \<le> 3 \<and> list_all is_digit ds \<and> (length ds = 1 \<or> hd ds \<noteq> CHR ''0'') \<and>
         decimal ds \<le> 255 then Some (decimal ds) else None)"

text \<open>
  \<^verbatim>\<open>inet_pton(AF_INET, ...)\<close>: four decimal octets, most significant first. A text that is an IPv6
  address contains a colon, so it is not one of these.
\<close>

definition StringToAddress :: "string \<Rightarrow> u32 option" where
  "StringToAddress s =
     (case map octet (split_at CHR ''.'' (c_str s)) of
        [Some a, Some b, Some c, Some d] \<Rightarrow> Some (rd32 [of_nat a, of_nat b, of_nat c, of_nat d])
      | _ \<Rightarrow> None)"

end
