(* ===== verification/Mux_Negotiation.thy ===== *)
theory Mux_Negotiation
  imports Text
begin

text \<open>
  The capability handshake of a mux session
  (\<^verbatim>\<open>src/ppp/app/mux/MuxRuntimeState.h\<close>, the mode and ordering setters of
  \<^verbatim>\<open>src/ppp/app/mux/vmux_net.cpp\<close>, the MUX frame of
  \<^verbatim>\<open>src/ppp/app/protocol/VirtualEthernetLinklayer.cpp\<close> and the two \<open>OnMux\<close> handlers of the client
  and server exchangers). The client advertises its capabilities in one byte, the server
  intersects them with its own configuration and answers with the authoritative result, which the
  client applies. The theory also holds the authenticated run-time switch of the scheduler mode.

  Strings of the sources are HOL strings; a null configuration pointer is \<open>None\<close>. Byte limits that
  the code stores as \<open>size_t\<close> after testing that an \<open>int\<close> is positive are naturals. Telemetry, the
  lock and the published snapshot of the run-time state are left out.
\<close>

section \<open>Modes\<close>

datatype mux_mode = mux_mode_compat | mux_mode_flow | mux_mode_balance | mux_mode_stripe

datatype receiver_ordering_mode = ordering_compat | ordering_flow_v2

definition mode_value :: "mux_mode \<Rightarrow> nat" where
  "mode_value m = (case m of mux_mode_compat \<Rightarrow> 0 | mux_mode_flow \<Rightarrow> 1 | mux_mode_balance \<Rightarrow> 2
                             | mux_mode_stripe \<Rightarrow> 3)"

definition parse_mode :: "string \<Rightarrow> mux_mode" where
  "parse_mode mode =
     (let v = ToLower (LTrim (RTrim mode)) in
      if v = ''flow'' \<or> v = ''flow-v1'' \<or> v = ''primary'' \<or> v = ''primary-link'' then mux_mode_flow
      else if v = ''balance'' \<or> v = ''balanced'' \<or> v = ''lb'' \<or> v = ''load-balance'' then mux_mode_balance
      else if v = ''stripe'' \<or> v = ''striped'' \<or> v = ''striping'' then mux_mode_stripe
      else mux_mode_compat)"

definition parse_mode_byte :: "u8 \<Rightarrow> mux_mode" where
  "parse_mode_byte b =
     (if b = 1 then mux_mode_flow else if b = 2 then mux_mode_balance
      else if b = 3 then mux_mode_stripe else mux_mode_compat)"

definition mode_name :: "mux_mode \<Rightarrow> string" where
  "mode_name m = (case m of mux_mode_flow \<Rightarrow> ''flow'' | mux_mode_balance \<Rightarrow> ''balance''
                            | mux_mode_stripe \<Rightarrow> ''stripe'' | mux_mode_compat \<Rightarrow> ''compat'')"

definition mode_requires_flow_v2 :: "mux_mode \<Rightarrow> bool \<Rightarrow> bool" where
  "mode_requires_flow_v2 m turbo \<longleftrightarrow>
     m = mux_mode_balance \<or> m = mux_mode_stripe \<or> (m = mux_mode_flow \<and> turbo)"

section \<open>The negotiated state\<close>

record mux_runtime_state =
  requested_mode :: string
  effective_mode :: string
  receiver_ordering :: string
  scheduler :: string
  pool_policy :: string
  rs_turbo :: bool
  rs_reliability :: bool
  rs_fec :: bool
  active_links :: u16
  fallback_reason :: string

definition empty_runtime_state :: mux_runtime_state where
  "empty_runtime_state =
     \<lparr>requested_mode = [], effective_mode = [], receiver_ordering = [], scheduler = [],
      pool_policy = [], rs_turbo = False, rs_reliability = False, rs_fec = False, active_links = 0,
      fallback_reason = []\<rparr>"

definition MuxSchedulerName :: "string \<Rightarrow> string" where
  "MuxSchedulerName mode = (if mode = ''stripe'' then ''round_robin'' else ''competition'')"

definition MuxPoolPolicyName :: "string \<Rightarrow> bool \<Rightarrow> string" where
  "MuxPoolPolicyName mode turbo = (if mode = ''flow'' \<and> turbo then ''adaptive'' else ''fixed'')"

definition FillMuxPresentation :: "mux_runtime_state \<Rightarrow> mux_runtime_state" where
  "FillMuxPresentation st =
     st\<lparr>scheduler := MuxSchedulerName (effective_mode st),
        pool_policy := MuxPoolPolicyName (effective_mode st) (rs_turbo st)\<rparr>"

definition ModeRequiresFlowV2 :: "string \<Rightarrow> bool \<Rightarrow> bool" where
  "ModeRequiresFlowV2 mode turbo \<longleftrightarrow>
     mode = ''balance'' \<or> mode = ''stripe'' \<or> (mode = ''flow'' \<and> turbo)"

definition known_mode :: "string \<Rightarrow> bool" where
  "known_mode mode \<longleftrightarrow> mode = ''compat'' \<or> mode = ''flow'' \<or> mode = ''balance'' \<or> mode = ''stripe''"

definition missing_reason :: "bool \<Rightarrow> string" where
  "missing_reason local_supports =
     (if local_supports then ''peer_missing_flow_v2'' else ''local_missing_flow_v2'')"

definition NegotiateMuxRuntimeState ::
  "string \<Rightarrow> bool \<Rightarrow> bool \<Rightarrow> u16 \<Rightarrow> bool \<Rightarrow> bool \<Rightarrow> bool \<Rightarrow> bool \<Rightarrow> bool \<Rightarrow> bool \<Rightarrow> mux_runtime_state" where
  "NegotiateMuxRuntimeState mode local_v2 peer_v2 links turbo local_rel peer_rel local_fec peer_fec peer_req =
     (let rel = local_rel \<and> peer_rel;
          st = empty_runtime_state\<lparr>requested_mode := mode, effective_mode := mode, active_links := links,
                 rs_turbo := turbo \<and> mode = ''flow'', rs_reliability := rel,
                 rs_fec := rel \<and> local_fec \<and> peer_fec\<rparr>
      in if \<not> known_mode mode then
           FillMuxPresentation (st\<lparr>effective_mode := ''compat'', receiver_ordering := ''compat'',
             rs_turbo := False, fallback_reason := ''unsupported_requested_mode''\<rparr>)
         else if ModeRequiresFlowV2 mode (rs_turbo st) \<and> (\<not> local_v2 \<or> \<not> peer_v2) \<and>
                 (mode = ''balance'' \<or> mode = ''stripe'') then
           FillMuxPresentation (st\<lparr>effective_mode := ''compat'', receiver_ordering := ''compat'',
             rs_turbo := False, fallback_reason := missing_reason local_v2\<rparr>)
         else
           let wants = ModeRequiresFlowV2 (effective_mode st) (rs_turbo st) \<or> peer_req;
               uses = wants \<and> local_v2 \<and> peer_v2;
               st = st\<lparr>receiver_ordering := (if uses then ''flow_v2'' else ''compat'')\<rparr>;
               st = (if mode = ''flow'' \<and> rs_turbo st \<and> \<not> uses \<and> fallback_reason st = [] \<and>
                        (\<not> local_v2 \<or> \<not> peer_v2)
                     then st\<lparr>fallback_reason := missing_reason local_v2\<rparr> else st)
           in FillMuxPresentation st)"

definition ApplyAgreedMuxRuntimeState ::
  "string \<Rightarrow> bool \<Rightarrow> u16 \<Rightarrow> bool \<Rightarrow> bool \<Rightarrow> bool \<Rightarrow> mux_runtime_state" where
  "ApplyAgreedMuxRuntimeState mode agreed_v2 links turbo agreed_rel agreed_fec =
     (if \<not> known_mode mode \<or> \<not> agreed_v2 then
        (NegotiateMuxRuntimeState mode True False links turbo False False False False False)
          \<lparr>rs_reliability := agreed_rel, rs_fec := agreed_rel \<and> agreed_fec\<rparr>
      else
        FillMuxPresentation (empty_runtime_state\<lparr>requested_mode := mode, effective_mode := mode,
          receiver_ordering := ''flow_v2'', active_links := links, rs_turbo := turbo \<and> mode = ''flow'',
          rs_reliability := agreed_rel, rs_fec := agreed_rel \<and> agreed_fec\<rparr>))"

section \<open>Configuration\<close>

text \<open>
  The part of \<open>AppConfiguration\<close> that the session reads. \<open>cfg_override\<close> is the run-time override of
  the scheduler mode, -1 when there is none.
\<close>

record mux_cfg =
  cfg_mode :: string
  cfg_override :: int
  cfg_turbo :: bool
  cfg_debug_key :: bytes
  cfg_tx_queue_max :: int
  cfg_tx_queue_stall :: int
  cfg_reorder_timeout :: int
  cfg_reorder_bytes :: int
  cfg_session_reorder_bytes :: int
  cfg_max_open :: int
  cfg_ctrl_budget :: int
  cfg_reliability :: bool
  cfg_rtx_bytes :: int
  cfg_rtx_flow_bytes :: int
  cfg_rtx_attempts :: int
  cfg_ack_delay :: int
  cfg_gap_timeout :: int
  cfg_rtx_pto :: bool
  cfg_rtx_fast :: bool
  cfg_fec :: bool
  cfg_fec_group :: int
  cfg_fec_flush :: int

definition GetEffectiveMuxMode :: "mux_cfg \<Rightarrow> string" where
  "GetEffectiveMuxMode c =
     (if cfg_override c = 0 then ''compat'' else if cfg_override c = 1 then ''flow''
      else if cfg_override c = 2 then ''balance'' else if cfg_override c = 3 then ''stripe''
      else cfg_mode c)"

definition SetMuxModeRuntimeOverride :: "int \<Rightarrow> mux_cfg \<Rightarrow> mux_cfg" where
  "SetMuxModeRuntimeOverride v c = c\<lparr>cfg_override := (if 0 \<le> v \<and> v \<le> 3 then v else - 1)\<rparr>"

definition NormalizeMuxMode :: "string \<Rightarrow> string \<times> string" where
  "NormalizeMuxMode mode =
     (let v = ToLower (LTrim (RTrim mode)) in
      if v = ''flow'' \<or> v = ''flow-v1'' \<or> v = ''primary'' \<or> v = ''primary-link'' then (''flow'', [])
      else if v = ''compat'' \<or> v = ''legacy'' \<or> v = ''default'' then (''compat'', [])
      else if v = ''balance'' \<or> v = ''balanced'' \<or> v = ''lb'' \<or> v = ''load-balance'' then (''balance'', [])
      else if v = ''stripe'' \<or> v = ''striped'' \<or> v = ''striping'' then (''stripe'', [])
      else if v = [] then (''compat'', [])
      else (''compat'', ''mux.mode '' @ [CHR 0x27] @ v @ [CHR 0x27] @
              '' is not a recognized scheduler; falling back to '' @ [CHR 0x27] @ ''compat'' @ [CHR 0x27]))"

section \<open>The session\<close>

record mux_net =
  mn_vlan :: u16
  mn_max_connections :: u16
  mn_pool_hard_max :: u16
  mn_pool_current :: u16
  mn_server :: bool
  mn_acceleration :: bool
  mn_disposed :: bool
  mn_established :: bool
  mn_mode :: mux_mode
  mn_ordering :: receiver_ordering_mode
  mn_turbo :: bool
  mn_stripe_cursor :: nat
  mn_runtime :: mux_runtime_state
  mn_tx_queue_high_water :: nat
  mn_tx_backlog_stall :: nat
  mn_reorder_timeout :: nat
  mn_session_reorder_cap :: nat
  mn_max_open_flows :: nat
  mn_ctrl_budget :: nat
  mn_reorder_cap :: nat
  mn_context_cap :: nat
  mn_aggregate_cap :: nat
  mn_reliability_on :: bool
  mn_fec_on :: bool
  mn_rtx_cap :: nat
  mn_rtx_flow_window :: nat
  mn_rtx_max_attempts :: nat
  mn_ack_delay :: nat
  mn_gap_timeout :: nat
  mn_pto_on :: bool
  mn_fast_on :: bool
  mn_fec_group_k :: nat
  mn_fec_flush :: nat
  mn_last_accept :: u64
  mn_reject_streak :: int

text \<open>The constructor, with the default member initialisers.\<close>

definition vmux_net_new :: "u16 \<Rightarrow> bool \<Rightarrow> bool \<Rightarrow> mux_mode \<Rightarrow> mux_net" where
  "vmux_net_new max_connections server acceleration mode =
     \<lparr>mn_vlan = 0, mn_max_connections = max_connections, mn_pool_hard_max = max_connections,
      mn_pool_current = max_connections, mn_server = server, mn_acceleration = acceleration,
      mn_disposed = False, mn_established = False, mn_mode = mode, mn_ordering = ordering_compat,
      mn_turbo = False, mn_stripe_cursor = 0,
      mn_runtime = FillMuxPresentation (empty_runtime_state\<lparr>requested_mode := mode_name mode,
        effective_mode := mode_name mode, receiver_ordering := ''compat'', rs_turbo := False\<rparr>),
      mn_tx_queue_high_water = 4096, mn_tx_backlog_stall = 8000, mn_reorder_timeout = 0,
      mn_session_reorder_cap = 0, mn_max_open_flows = 0, mn_ctrl_budget = 32, mn_reorder_cap = 0,
      mn_context_cap = 0, mn_aggregate_cap = 0, mn_reliability_on = False, mn_fec_on = False,
      mn_rtx_cap = 33554432, mn_rtx_flow_window = 8388608, mn_rtx_max_attempts = 8,
      mn_ack_delay = 10, mn_gap_timeout = 3000, mn_pto_on = False, mn_fast_on = False,
      mn_fec_group_k = 8, mn_fec_flush = 20, mn_last_accept = 0, mn_reject_streak = 0\<rparr>"

definition set_pool_hard_max :: "u16 \<Rightarrow> mux_net \<Rightarrow> mux_net" where
  "set_pool_hard_max hard s =
     (if mn_established s then s
      else s\<lparr>mn_pool_hard_max := max hard (mn_max_connections s),
             mn_pool_current := max (mn_pool_current s) (mn_max_connections s)\<rparr>)"

definition set_mode :: "mux_mode \<Rightarrow> mux_net \<Rightarrow> mux_net" where
  "set_mode m s =
     (if mn_mode s = m then s
      else s\<lparr>mn_mode := m,
             mn_runtime := FillMuxPresentation ((mn_runtime s)\<lparr>effective_mode := mode_name m\<rparr>),
             mn_stripe_cursor := 0\<rparr>)"

text \<open>A configured value when it is positive, the built-in default otherwise.\<close>

definition positive_or :: "int \<Rightarrow> nat \<Rightarrow> nat" where
  "positive_or v d = (if 0 < v then nat v else d)"

definition cfg_int :: "mux_cfg option \<Rightarrow> (mux_cfg \<Rightarrow> int) \<Rightarrow> int" where
  "cfg_int cfg f = (case cfg of None \<Rightarrow> 0 | Some c \<Rightarrow> f c)"

definition set_ordering_mode :: "mux_cfg option \<Rightarrow> receiver_ordering_mode \<Rightarrow> mux_net \<Rightarrow> mux_net" where
  "set_ordering_mode cfg m s =
     (if mn_established s then s
      else
        let s = s\<lparr>mn_ordering := m, mn_runtime := (mn_runtime s)\<lparr>receiver_ordering :=
                    (if m = ordering_flow_v2 then ''flow_v2'' else ''compat'')\<rparr>\<rparr>;
            s = (case cfg of None \<Rightarrow> s
                 | Some c \<Rightarrow>
                     let turbo = cfg_turbo c \<and> mn_mode s = mux_mode_flow
                     in s\<lparr>mn_tx_queue_high_water := positive_or (cfg_tx_queue_max c) 4096,
                          mn_tx_backlog_stall := positive_or (cfg_tx_queue_stall c) 8000,
                          mn_turbo := turbo,
                          mn_runtime := FillMuxPresentation ((mn_runtime s)\<lparr>rs_turbo := turbo\<rparr>)\<rparr>);
            s = s\<lparr>mn_reorder_timeout := positive_or (cfg_int cfg cfg_reorder_timeout) 400,
                  mn_session_reorder_cap := positive_or (cfg_int cfg cfg_session_reorder_bytes) 33554432,
                  mn_max_open_flows := positive_or (cfg_int cfg cfg_max_open) 4096,
                  mn_ctrl_budget := positive_or (cfg_int cfg cfg_ctrl_budget) 32\<rparr>
        in if m = ordering_flow_v2 then
             let cap = positive_or (cfg_int cfg cfg_reorder_bytes) 8388608;
                 agg = max 33554432 cap;
                 agg = (if 0 < mn_session_reorder_cap s \<and> mn_session_reorder_cap s < agg
                        then mn_session_reorder_cap s else agg)
             in s\<lparr>mn_reorder_cap := cap, mn_context_cap := 4096, mn_aggregate_cap := agg\<rparr>
           else s)"

definition latch_reliability :: "mux_cfg option \<Rightarrow> bool \<Rightarrow> bool \<Rightarrow> mux_net \<Rightarrow> mux_net" where
  "latch_reliability cfg rel fec s =
     (let s = s\<lparr>mn_reliability_on := rel, mn_fec_on := fec \<and> rel\<rparr>;
          s = (case cfg of None \<Rightarrow> s
               | Some c \<Rightarrow>
                   let cap = positive_or (cfg_rtx_bytes c) 33554432
                   in s\<lparr>mn_rtx_cap := cap,
                        mn_rtx_flow_window := min (positive_or (cfg_rtx_flow_bytes c) 8388608) cap,
                        mn_rtx_max_attempts := positive_or (cfg_rtx_attempts c) 8,
                        mn_ack_delay := positive_or (cfg_ack_delay c) 10,
                        mn_gap_timeout := positive_or (cfg_gap_timeout c) 3000,
                        mn_pto_on := cfg_rtx_pto c, mn_fast_on := cfg_rtx_fast c,
                        mn_fec_group_k := positive_or (cfg_fec_group c) 8,
                        mn_fec_flush := positive_or (cfg_fec_flush c) 20\<rparr>)
      in s\<lparr>mn_runtime := (mn_runtime s)\<lparr>rs_reliability := mn_reliability_on s,
                                        rs_fec := mn_fec_on s\<rparr>\<rparr>)"

text \<open>What both ways of negotiating do with the state they computed.\<close>

definition install_runtime_state :: "mux_cfg option \<Rightarrow> mux_runtime_state \<Rightarrow> mux_net \<Rightarrow> mux_net" where
  "install_runtime_state cfg st s =
     (let s = s\<lparr>mn_runtime := st\<rparr>;
          s = set_mode (parse_mode (effective_mode st)) s;
          s = set_ordering_mode cfg
                (if receiver_ordering st = ''flow_v2'' then ordering_flow_v2 else ordering_compat) s;
          s = latch_reliability cfg (rs_reliability st) (rs_fec st) s
      in s\<lparr>mn_runtime := FillMuxPresentation ((mn_runtime s)\<lparr>rs_turbo := mn_turbo s\<rparr>)\<rparr>)"

definition apply_negotiation ::
  "mux_cfg option \<Rightarrow> bool \<Rightarrow> bool \<Rightarrow> bool \<Rightarrow> bool \<Rightarrow> bool \<Rightarrow> bool \<Rightarrow> bool \<Rightarrow> mux_net \<Rightarrow> mux_net" where
  "apply_negotiation cfg local_v2 peer_v2 local_rel peer_rel local_fec peer_fec peer_req s =
     install_runtime_state cfg
       (NegotiateMuxRuntimeState (requested_mode (mn_runtime s)) local_v2 peer_v2
          (active_links (mn_runtime s)) (mn_turbo s \<or> rs_turbo (mn_runtime s))
          local_rel peer_rel local_fec peer_fec peer_req) s"

definition apply_agreed_ordering :: "mux_cfg option \<Rightarrow> bool \<Rightarrow> bool \<Rightarrow> bool \<Rightarrow> mux_net \<Rightarrow> mux_net" where
  "apply_agreed_ordering cfg agreed_v2 agreed_rel agreed_fec s =
     install_runtime_state cfg
       (ApplyAgreedMuxRuntimeState (requested_mode (mn_runtime s)) agreed_v2
          (active_links (mn_runtime s)) (mn_turbo s \<or> rs_turbo (mn_runtime s)) agreed_rel agreed_fec) s"


section \<open>The MUX frame\<close>

definition ordering_caps_flow_v2 :: u8 where "ordering_caps_flow_v2 = 1"
definition ordering_caps_reliability :: u8 where "ordering_caps_reliability = 2"
definition ordering_caps_fec :: u8 where "ordering_caps_fec = 4"
definition ordering_caps_flow_v2_request :: u8 where "ordering_caps_flow_v2_request = 8"

definition has_cap :: "u8 \<Rightarrow> u8 \<Rightarrow> bool" where
  "has_cap caps c \<longleftrightarrow> caps AND c \<noteq> 0"

definition DoMux :: "u16 \<Rightarrow> u16 \<Rightarrow> bool \<Rightarrow> u8 \<Rightarrow> bytes" where
  "DoMux vlan max_connections acceleration caps =
     [0x35] @ be16 vlan @ be16 max_connections @ [if acceleration then 1 else 0] @ [caps]"

definition rd16 :: "bytes \<Rightarrow> u16" where
  "rd16 p = push_bit 8 (ucast (p ! 0)) OR ucast (p ! 1)"

text \<open>
  The parser works on the bytes after the action byte. The trailing capability byte is optional;
  \<open>None\<close> stands for a frame that does not reach \<open>OnMux\<close>.
\<close>

definition parse_MUX :: "bytes \<Rightarrow> (u16 \<times> u16 \<times> bool \<times> u8) option" where
  "parse_MUX p =
     (if 5 \<le> length p
      then Some (rd16 p, rd16 (drop 2 p), p ! 4 \<noteq> 0, if 6 \<le> length p then p ! 5 else 0)
      else None)"

section \<open>The server\<close>

text \<open>
  The coordinator's session slot and the sessions that the handler has closed. Whether a scheduler
  context, a strand and the session object could be obtained is the argument \<open>resources\<close>, the result
  of starting the session is \<open>update\<close>.
\<close>

record mux_server =
  sv_disposed :: bool
  sv_session :: "mux_net option"
  sv_closed :: "mux_net list"

definition close_exec :: "mux_net \<Rightarrow> mux_net" where
  "close_exec s = s\<lparr>mn_disposed := True\<rparr>"

definition server_mode :: "mux_cfg option \<Rightarrow> mux_mode" where
  "server_mode cfg = (case cfg of None \<Rightarrow> mux_mode_compat | Some c \<Rightarrow> parse_mode (GetEffectiveMuxMode c))"

definition cfg_flag :: "mux_cfg option \<Rightarrow> (mux_cfg \<Rightarrow> bool) \<Rightarrow> bool" where
  "cfg_flag cfg f = (case cfg of None \<Rightarrow> False | Some c \<Rightarrow> f c)"

text \<open>The ordering that the handler computes before the session exists.\<close>

definition provisional_ordering :: "mux_cfg option \<Rightarrow> u8 \<Rightarrow> receiver_ordering_mode" where
  "provisional_ordering cfg caps =
     (let turbo = cfg_flag cfg cfg_turbo \<and> server_mode cfg = mux_mode_flow;
          need = mode_requires_flow_v2 (server_mode cfg) turbo \<or> has_cap caps ordering_caps_flow_v2_request
      in if need \<and> has_cap caps ordering_caps_flow_v2 then ordering_flow_v2 else ordering_compat)"

definition server_new_mux :: "mux_cfg option \<Rightarrow> u16 \<Rightarrow> u16 \<Rightarrow> bool \<Rightarrow> u8 \<Rightarrow> mux_net" where
  "server_new_mux cfg vlan max_connections acceleration caps =
     (let s = (vmux_net_new max_connections True acceleration (server_mode cfg))\<lparr>mn_vlan := vlan\<rparr>;
          s = (if server_mode cfg = mux_mode_flow \<or> has_cap caps ordering_caps_flow_v2_request
               then let hard = ucast max_connections * 3 :: u32
                    in set_pool_hard_max (ucast (if 1024 < hard then 1024 else hard)) s
               else s)
      in apply_negotiation cfg True (has_cap caps ordering_caps_flow_v2)
           (cfg_flag cfg cfg_reliability) (has_cap caps ordering_caps_reliability)
           (cfg_flag cfg cfg_fec) (has_cap caps ordering_caps_fec)
           (has_cap caps ordering_caps_flow_v2_request) s)"

definition agreed_caps :: "mux_net \<Rightarrow> u8" where
  "agreed_caps s =
     (if mn_ordering s = ordering_flow_v2 then ordering_caps_flow_v2 else 0) OR
     (if mn_reliability_on s then ordering_caps_reliability else 0) OR
     (if mn_fec_on s then ordering_caps_fec else 0)"

text \<open>The failure exit: whatever session is left is closed and the reply is all zero.\<close>

definition server_reject :: "mux_server \<Rightarrow> mux_server \<times> bytes" where
  "server_reject sv =
     (case sv_session sv of None \<Rightarrow> (sv, DoMux 0 0 False 0)
      | Some m \<Rightarrow> (sv\<lparr>sv_session := None, sv_closed := sv_closed sv @ [close_exec m]\<rparr>, DoMux 0 0 False 0))"

definition server_open ::
  "mux_cfg option \<Rightarrow> bool \<Rightarrow> (mux_net \<Rightarrow> bool) \<Rightarrow> u16 \<Rightarrow> u16 \<Rightarrow> bool \<Rightarrow> u8 \<Rightarrow> mux_server \<Rightarrow>
     mux_server \<times> bytes" where
  "server_open cfg resources update vlan max_connections acceleration caps sv =
     (if vlan = 0 \<or> max_connections = 0 \<or> \<not> resources then server_reject sv
      else let s = server_new_mux cfg vlan max_connections acceleration caps
           in if update s
              then (sv\<lparr>sv_session := Some s\<rparr>, DoMux vlan max_connections acceleration (agreed_caps s))
              else server_reject (sv\<lparr>sv_closed := sv_closed sv @ [close_exec s]\<rparr>))"

definition server_OnMux ::
  "mux_cfg option \<Rightarrow> bool \<Rightarrow> (mux_net \<Rightarrow> bool) \<Rightarrow> u16 \<Rightarrow> u16 \<Rightarrow> bool \<Rightarrow> u8 \<Rightarrow> mux_server \<Rightarrow>
     mux_server \<times> bytes" where
  "server_OnMux cfg resources update vlan max0 acceleration caps sv =
     (let max_connections = min max0 1024 in
      if sv_disposed sv then server_reject sv
      else case sv_session sv of
        None \<Rightarrow> server_open cfg resources update vlan max_connections acceleration caps sv
      | Some m \<Rightarrow>
          if vlan = 0 \<or> max_connections = 0 \<or> mn_vlan m \<noteq> vlan \<or>
             mn_max_connections m \<noteq> max_connections \<or> mn_disposed m
          then server_open cfg resources update vlan max_connections acceleration caps
                 (sv\<lparr>sv_session := None, sv_closed := sv_closed sv @ [close_exec m]\<rparr>)
          else server_reject sv)"

section \<open>The client\<close>

definition client_new_mux :: "mux_cfg \<Rightarrow> u16 \<Rightarrow> u16 \<Rightarrow> bool \<Rightarrow> mux_net" where
  "client_new_mux cfg vlan max_connections acceleration =
     (let mode = parse_mode (GetEffectiveMuxMode cfg);
          s = vmux_net_new max_connections False acceleration mode;
          s = (if mode = mux_mode_flow \<and> cfg_turbo cfg
               then let hard = ucast max_connections * 3 :: u32
                    in set_pool_hard_max (ucast (if 65535 < hard then 65535 else hard)) s
               else s)
      in s\<lparr>mn_vlan := vlan\<rparr>)"

definition client_caps :: "mux_cfg \<Rightarrow> mux_net \<Rightarrow> u8" where
  "client_caps cfg s =
     ordering_caps_flow_v2 OR
     (if mode_requires_flow_v2 (mn_mode s) (cfg_turbo cfg) then ordering_caps_flow_v2_request else 0) OR
     (if cfg_reliability cfg
      then ordering_caps_reliability OR (if cfg_fec cfg then ordering_caps_fec else 0) else 0)"

text \<open>\<open>connect\<close> is the result of dialling the carriers.\<close>

definition client_OnMux :: "mux_cfg \<Rightarrow> bool \<Rightarrow> u16 \<Rightarrow> u16 \<Rightarrow> u8 \<Rightarrow> mux_net option \<Rightarrow> mux_net option" where
  "client_OnMux cfg connect vlan max_connections caps session =
     (case session of None \<Rightarrow> None
      | Some s \<Rightarrow>
          if vlan \<noteq> 0 \<and> 0 < max_connections \<and> mn_vlan s = vlan \<and>
             max_connections = mn_max_connections s \<and> \<not> mn_disposed s then
            if mn_established s then Some s
            else let s = apply_agreed_ordering (Some cfg) (has_cap caps ordering_caps_flow_v2)
                           (has_cap caps ordering_caps_reliability) (has_cap caps ordering_caps_fec) s
                 in Some (if connect then s else close_exec s)
          else Some (close_exec s))"

text \<open>
  The whole exchange: the request crosses the wire, the server answers, the reply crosses the wire.
\<close>

definition mux_handshake ::
  "mux_cfg \<Rightarrow> mux_cfg option \<Rightarrow> u16 \<Rightarrow> u16 \<Rightarrow> mux_server \<Rightarrow> (mux_net option \<times> mux_server) option" where
  "mux_handshake ccfg scfg vlan max_connections sv =
     (let c = client_new_mux ccfg vlan max_connections False in
      case parse_MUX (tl (DoMux vlan max_connections False (client_caps ccfg c))) of
        None \<Rightarrow> None
      | Some (v, m, a, caps) \<Rightarrow>
          let (sv', reply) = server_OnMux scfg True (\<lambda>_. True) v m a caps sv in
          case parse_MUX (tl reply) of
            None \<Rightarrow> None
          | Some (v', m', a', caps') \<Rightarrow> Some (client_OnMux ccfg True v' m' caps' (Some c), sv'))"

section \<open>Switching the scheduler at run time\<close>

definition mode_set_payload :: "mux_cfg option \<Rightarrow> mux_mode \<Rightarrow> bytes option" where
  "mode_set_payload cfg mode =
     (case cfg of None \<Rightarrow> None
      | Some c \<Rightarrow>
          if cfg_debug_key c = [] then None
          else let n = min (length (cfg_debug_key c)) 255
               in Some ([of_nat (mode_value mode), of_nat n] @ take n (cfg_debug_key c)))"

definition packet_input_mux_mode_set ::
  "u64 \<Rightarrow> bytes \<Rightarrow> mux_cfg option \<times> mux_net \<Rightarrow> mux_cfg option \<times> mux_net" where
  "packet_input_mux_mode_set now p st =
     (case st of
        (None, s) \<Rightarrow> (None, s)
      | (Some c, s) \<Rightarrow>
          let key = cfg_debug_key c; rejected = (Some c, s\<lparr>mn_reject_streak := mn_reject_streak s + 1\<rparr>) in
          if key = [] then rejected
          else if length p < 2 then (Some c, s)
          else
            let n = unat (p ! 1) in
            if n = 0 \<or> length p < 2 + n then (Some c, s)
            else if \<not> (n = length key \<and> take n (drop 2 p) = key) then rejected
            else if mn_last_accept s \<noteq> 0 \<and> now - mn_last_accept s < 1000 then (Some c, s)
            else
              let mode = parse_mode_byte (p ! 0);
                  s = set_mode mode s
              in (Some (SetMuxModeRuntimeOverride (int (mode_value mode)) c),
                  s\<lparr>mn_last_accept := now, mn_reject_streak := 0\<rparr>))"


section \<open>Facts about the setters\<close>

lemma parse_mode_name [simp]: "parse_mode (mode_name m) = m"
  by (cases m)
     (simp_all add: parse_mode_def mode_name_def Let_def ToLower_def LTrim_def RTrim_def is_space_def
        lower_char_def)

lemma mode_name_inject [simp]:
  "known_mode (mode_name m)" "ModeRequiresFlowV2 (mode_name m) t = mode_requires_flow_v2 m t"
  "mode_name m = ''flow'' \<longleftrightarrow> m = mux_mode_flow" "mode_name m = ''balance'' \<longleftrightarrow> m = mux_mode_balance"
  "mode_name m = ''stripe'' \<longleftrightarrow> m = mux_mode_stripe" "mode_name m = ''compat'' \<longleftrightarrow> m = mux_mode_compat"
  by (cases m; simp add: known_mode_def mode_name_def ModeRequiresFlowV2_def mode_requires_flow_v2_def)+

lemma parse_mode_compat [simp]: "parse_mode ''compat'' = mux_mode_compat"
  using parse_mode_name [of mux_mode_compat] by (simp add: mode_name_def)

lemma presentation_frame [simp]:
  "requested_mode (FillMuxPresentation st) = requested_mode st"
  "effective_mode (FillMuxPresentation st) = effective_mode st"
  "receiver_ordering (FillMuxPresentation st) = receiver_ordering st"
  "rs_turbo (FillMuxPresentation st) = rs_turbo st"
  "rs_reliability (FillMuxPresentation st) = rs_reliability st"
  "rs_fec (FillMuxPresentation st) = rs_fec st"
  by (simp_all add: FillMuxPresentation_def)

lemma set_mode_fields [simp]:
  "mn_mode (set_mode m s) = m" "mn_ordering (set_mode m s) = mn_ordering s"
  "mn_established (set_mode m s) = mn_established s" "mn_vlan (set_mode m s) = mn_vlan s"
  "mn_max_connections (set_mode m s) = mn_max_connections s" "mn_disposed (set_mode m s) = mn_disposed s"
  "mn_reliability_on (set_mode m s) = mn_reliability_on s" "mn_fec_on (set_mode m s) = mn_fec_on s"
  "mn_turbo (set_mode m s) = mn_turbo s"
  by (simp_all add: set_mode_def)

lemma set_ordering_fields:
  assumes "\<not> mn_established s"
  shows "mn_mode (set_ordering_mode cfg m s) = mn_mode s \<and> mn_ordering (set_ordering_mode cfg m s) = m \<and>
    mn_vlan (set_ordering_mode cfg m s) = mn_vlan s \<and>
    mn_max_connections (set_ordering_mode cfg m s) = mn_max_connections s \<and>
    mn_disposed (set_ordering_mode cfg m s) = mn_disposed s \<and>
    mn_turbo (set_ordering_mode cfg m s) =
      (case cfg of None \<Rightarrow> mn_turbo s | Some c \<Rightarrow> cfg_turbo c \<and> mn_mode s = mux_mode_flow)"
  using assms by (cases cfg) (simp_all add: set_ordering_mode_def Let_def)

lemma latch_fields [simp]:
  "mn_mode (latch_reliability cfg r f s) = mn_mode s"
  "mn_ordering (latch_reliability cfg r f s) = mn_ordering s"
  "mn_vlan (latch_reliability cfg r f s) = mn_vlan s"
  "mn_max_connections (latch_reliability cfg r f s) = mn_max_connections s"
  "mn_disposed (latch_reliability cfg r f s) = mn_disposed s"
  "mn_turbo (latch_reliability cfg r f s) = mn_turbo s"
  "mn_reliability_on (latch_reliability cfg r f s) = r"
  "mn_fec_on (latch_reliability cfg r f s) = (f \<and> r)"
  by (simp_all add: latch_reliability_def Let_def split: option.splits)

lemma install_fields:
  assumes "\<not> mn_established s"
  shows "mn_mode (install_runtime_state cfg st s) = parse_mode (effective_mode st)"
    and "mn_ordering (install_runtime_state cfg st s) =
      (if receiver_ordering st = ''flow_v2'' then ordering_flow_v2 else ordering_compat)"
    and "mn_vlan (install_runtime_state cfg st s) = mn_vlan s"
    and "mn_max_connections (install_runtime_state cfg st s) = mn_max_connections s"
    and "mn_disposed (install_runtime_state cfg st s) = mn_disposed s"
    and "mn_reliability_on (install_runtime_state cfg st s) = rs_reliability st"
    and "mn_fec_on (install_runtime_state cfg st s) = (rs_fec st \<and> rs_reliability st)"
    and "mn_turbo (install_runtime_state cfg st s) = (case cfg of None \<Rightarrow> mn_turbo s
           | Some c \<Rightarrow> cfg_turbo c \<and> parse_mode (effective_mode st) = mux_mode_flow)"
  using assms by (simp_all add: install_runtime_state_def Let_def set_ordering_fields split: option.splits)

text \<open>The outcome of a negotiation between two ends that both implement per-flow ordering.\<close>

lemma negotiate_outcome:
  "effective_mode (NegotiateMuxRuntimeState (mode_name m) True True l t lr pr lf pf q) = mode_name m"
  "receiver_ordering (NegotiateMuxRuntimeState (mode_name m) True True l t lr pr lf pf q) =
     (if mode_requires_flow_v2 m (t \<and> m = mux_mode_flow) \<or> q then ''flow_v2'' else ''compat'')"
  "rs_reliability (NegotiateMuxRuntimeState (mode_name m) True True l t lr pr lf pf q) = (lr \<and> pr)"
  "rs_fec (NegotiateMuxRuntimeState (mode_name m) True True l t lr pr lf pf q) = (lr \<and> pr \<and> lf \<and> pf)"
  by (auto simp: NegotiateMuxRuntimeState_def Let_def empty_runtime_state_def)

lemma agreed_outcome:
  "agreed \<or> \<not> mode_requires_flow_v2 m False \<Longrightarrow>
     effective_mode (ApplyAgreedMuxRuntimeState (mode_name m) agreed l t r f) = mode_name m"
  "receiver_ordering (ApplyAgreedMuxRuntimeState (mode_name m) agreed l t r f) =
     (if agreed then ''flow_v2'' else ''compat'')"
  "rs_reliability (ApplyAgreedMuxRuntimeState (mode_name m) agreed l t r f) = r"
  "rs_fec (ApplyAgreedMuxRuntimeState (mode_name m) agreed l t r f) = (r \<and> f)"
  by (auto simp: ApplyAgreedMuxRuntimeState_def NegotiateMuxRuntimeState_def Let_def
        empty_runtime_state_def mode_requires_flow_v2_def)

lemma parse_DoMux [simp]: "parse_MUX (tl (DoMux v m a caps)) = Some (v, m, a, caps)"
proof -
  have "rd16 (byte_at 1 x # byte_at 0 x # r) = x" for x r
    using be16_value [of x] by (simp add: rd16_def take_bit_word_eq_self)
  then show ?thesis by (simp add: parse_MUX_def DoMux_def be16_def)
qed

lemma client_caps_bits:
  "has_cap (client_caps c s) ordering_caps_flow_v2"
  "has_cap (client_caps c s) ordering_caps_flow_v2_request = mode_requires_flow_v2 (mn_mode s) (cfg_turbo c)"
  "has_cap (client_caps c s) ordering_caps_reliability = cfg_reliability c"
  "has_cap (client_caps c s) ordering_caps_fec = (cfg_reliability c \<and> cfg_fec c)"
  by (simp_all add: has_cap_def client_caps_def ordering_caps_flow_v2_def ordering_caps_flow_v2_request_def
        ordering_caps_reliability_def ordering_caps_fec_def)

lemma agreed_caps_bits:
  "has_cap (agreed_caps s) ordering_caps_flow_v2 = (mn_ordering s = ordering_flow_v2)"
  "has_cap (agreed_caps s) ordering_caps_reliability = mn_reliability_on s"
  "has_cap (agreed_caps s) ordering_caps_fec = mn_fec_on s"
  by (simp_all add: has_cap_def agreed_caps_def ordering_caps_flow_v2_def
        ordering_caps_reliability_def ordering_caps_fec_def)

lemma pool_fields [simp]:
  "mn_established (set_pool_hard_max h s) = mn_established s" "mn_runtime (set_pool_hard_max h s) = mn_runtime s"
  "mn_turbo (set_pool_hard_max h s) = mn_turbo s" "mn_vlan (set_pool_hard_max h s) = mn_vlan s"
  "mn_mode (set_pool_hard_max h s) = mn_mode s" "mn_disposed (set_pool_hard_max h s) = mn_disposed s"
  "mn_max_connections (set_pool_hard_max h s) = mn_max_connections s"
  by (simp_all add: set_pool_hard_max_def)

lemma new_fields [simp]:
  "mn_established (vmux_net_new n b a m) = False" "mn_turbo (vmux_net_new n b a m) = False"
  "mn_mode (vmux_net_new n b a m) = m" "mn_disposed (vmux_net_new n b a m) = False"
  "mn_max_connections (vmux_net_new n b a m) = n"
  "requested_mode (mn_runtime (vmux_net_new n b a m)) = mode_name m"
  "rs_turbo (mn_runtime (vmux_net_new n b a m)) = False"
  by (simp_all add: vmux_net_new_def)

lemma client_new_fields [simp]:
  "mn_established (client_new_mux c v n a) = False" "mn_turbo (client_new_mux c v n a) = False"
  "mn_mode (client_new_mux c v n a) = parse_mode (GetEffectiveMuxMode c)"
  "mn_disposed (client_new_mux c v n a) = False" "mn_vlan (client_new_mux c v n a) = v"
  "mn_max_connections (client_new_mux c v n a) = n"
  "requested_mode (mn_runtime (client_new_mux c v n a)) = mode_name (parse_mode (GetEffectiveMuxMode c))"
  "rs_turbo (mn_runtime (client_new_mux c v n a)) = False"
  by (simp_all add: client_new_mux_def Let_def)

text \<open>
  The server's session when the client supports per-flow ordering: its own turbo setting plays no
  part, because a new session has not latched it when the negotiation reads it.
\<close>

lemma server_new_fields:
  assumes "has_cap caps ordering_caps_flow_v2"
  shows "mn_mode (server_new_mux cfg v n a caps) = server_mode cfg"
    and "mn_ordering (server_new_mux cfg v n a caps) =
      (if mode_requires_flow_v2 (server_mode cfg) False \<or> has_cap caps ordering_caps_flow_v2_request
       then ordering_flow_v2 else ordering_compat)"
    and "mn_vlan (server_new_mux cfg v n a caps) = v"
    and "mn_max_connections (server_new_mux cfg v n a caps) = n"
    and "mn_disposed (server_new_mux cfg v n a caps) = False"
    and "mn_reliability_on (server_new_mux cfg v n a caps) =
      (cfg_flag cfg cfg_reliability \<and> has_cap caps ordering_caps_reliability)"
    and "mn_fec_on (server_new_mux cfg v n a caps) =
      (cfg_flag cfg cfg_reliability \<and> has_cap caps ordering_caps_reliability \<and>
       cfg_flag cfg cfg_fec \<and> has_cap caps ordering_caps_fec)"
    and "mn_turbo (server_new_mux cfg v n a caps) =
      (cfg_flag cfg cfg_turbo \<and> server_mode cfg = mux_mode_flow)"
  using assms
  by (auto simp: server_new_mux_def Let_def apply_negotiation_def install_fields negotiate_outcome
        cfg_flag_def split: option.splits)


lemma mode_byte_roundtrip [simp]: "parse_mode_byte (of_nat (mode_value m)) = m"
  by (cases m) (simp_all add: parse_mode_byte_def mode_value_def)

lemma override_mode: "GetEffectiveMuxMode (SetMuxModeRuntimeOverride (int (mode_value m)) c) = mode_name m"
  by (cases m) (simp_all add: GetEffectiveMuxMode_def SetMuxModeRuntimeOverride_def mode_value_def mode_name_def)

text \<open>The frames that carry the configured key, in the form the handler tests.\<close>

definition carries_key :: "bytes \<Rightarrow> bytes \<Rightarrow> bool" where
  "carries_key key p \<longleftrightarrow> key \<noteq> [] \<and> length p \<ge> 2 + length key \<and> unat (p ! 1) = length key \<and>
     take (length key) (drop 2 p) = key"

lemma mode_set_cases:
  "packet_input_mux_mode_set now p (Some c, s) =
     (if carries_key (cfg_debug_key c) p \<and> \<not> (mn_last_accept s \<noteq> 0 \<and> now - mn_last_accept s < 1000)
      then (Some (SetMuxModeRuntimeOverride (int (mode_value (parse_mode_byte (p ! 0)))) c),
            (set_mode (parse_mode_byte (p ! 0)) s)\<lparr>mn_last_accept := now, mn_reject_streak := 0\<rparr>)
      else (Some c, s\<lparr>mn_reject_streak := mn_reject_streak s +
              (if cfg_debug_key c = [] \<or> (2 \<le> length p \<and> unat (p ! 1) \<noteq> 0 \<and> 2 + unat (p ! 1) \<le> length p \<and>
                    \<not> carries_key (cfg_debug_key c) p) then 1 else 0)\<rparr>))"
  by (auto simp: packet_input_mux_mode_set_def carries_key_def Let_def)

section \<open>Properties\<close>

definition example_cfg :: "string \<Rightarrow> bool \<Rightarrow> mux_cfg" where
  "example_cfg mode turbo =
     \<lparr>cfg_mode = mode, cfg_override = - 1, cfg_turbo = turbo, cfg_debug_key = [107, 101, 121],
      cfg_tx_queue_max = 0, cfg_tx_queue_stall = 0, cfg_reorder_timeout = 0, cfg_reorder_bytes = 0,
      cfg_session_reorder_bytes = 0, cfg_max_open = 0, cfg_ctrl_budget = 0, cfg_reliability = True,
      cfg_rtx_bytes = 0, cfg_rtx_flow_bytes = 0, cfg_rtx_attempts = 0, cfg_ack_delay = 0,
      cfg_gap_timeout = 0, cfg_rtx_pto = False, cfg_rtx_fast = False, cfg_fec = turbo,
      cfg_fec_group = 0, cfg_fec_flush = 0\<rparr>"

definition example_server :: mux_server where
  "example_server = \<lparr>sv_disposed = False, sv_session = None, sv_closed = []\<rparr>"

lemma example_modes:
  "parse_mode (GetEffectiveMuxMode (example_cfg ''flow'' t)) = mux_mode_flow"
  "parse_mode (GetEffectiveMuxMode (example_cfg ''compat'' t)) = mux_mode_compat"
  using parse_mode_name [of mux_mode_flow]
  by (simp_all add: GetEffectiveMuxMode_def example_cfg_def mode_name_def)

lemma example_flags:
  "cfg_turbo (example_cfg m t) = t" "cfg_reliability (example_cfg m t) = True" "cfg_fec (example_cfg m t) = t"
  by (simp_all add: example_cfg_def)



text \<open>
  The turbo setting of the server is lost in the negotiation. For a flow+turbo server and a client
  that implements per-flow ordering without asking for it, the ordering that the handler computes from
  the configuration is per-flow ordering. The session it then creates uses the global (compat) ordering,
  with turbo switched on: \<open>apply_negotiation\<close> reads the turbo flag of the session before
  \<open>set_ordering_mode\<close> has latched it from the configuration.
\<close>

theorem server_turbo_not_negotiated:
  assumes "server_mode (Some scfg) = mux_mode_flow" "cfg_turbo scfg"
    and "has_cap caps ordering_caps_flow_v2" "\<not> has_cap caps ordering_caps_flow_v2_request"
  shows "provisional_ordering (Some scfg) caps = ordering_flow_v2 \<and>
    mn_ordering (server_new_mux (Some scfg) vlan n a caps) = ordering_compat \<and>
    mn_turbo (server_new_mux (Some scfg) vlan n a caps)"
  using assms by (simp add: server_new_fields provisional_ordering_def cfg_flag_def mode_requires_flow_v2_def)

theorem server_turbo_not_negotiated_witness:
  "provisional_ordering (Some (example_cfg ''flow'' True)) 1 = ordering_flow_v2 \<and>
   mn_ordering (server_new_mux (Some (example_cfg ''flow'' True)) 7 4 False 1) = ordering_compat"
  using server_turbo_not_negotiated [of "example_cfg ''flow'' True" 1 7 4 False]
  by (simp add: server_mode_def example_modes has_cap_def ordering_caps_flow_v2_def
        ordering_caps_flow_v2_request_def example_flags)

text \<open>
  A client that asks for more than 1024 carriers never gets a session. The server clamps the number
  to 1024 and keeps a live session of that size, while the client finds that the echoed number is not
  its own and closes its session.
\<close>

theorem wide_pool_never_connects:
  assumes "vlan \<noteq> 0" "1024 < n" "\<not> sv_disposed sv" "sv_session sv = None"
  shows "\<exists>c s sv'. mux_handshake ccfg scfg vlan n sv = Some (Some c, sv') \<and> mn_disposed c \<and>
    sv_session sv' = Some s \<and> \<not> mn_disposed s \<and> mn_max_connections s = 1024"
proof -
  have n: "min n 1024 = 1024" "n \<noteq> 1024" using assms(2) by (auto simp: min_def)
  then show ?thesis using assms
    by (simp add: mux_handshake_def Let_def server_OnMux_def server_open_def client_OnMux_def close_exec_def
          server_new_fields client_caps_bits)
qed

theorem wide_pool_never_connects_witness:
  "\<exists>c s sv'. mux_handshake (example_cfg ''flow'' True) None 7 2000 example_server = Some (Some c, sv') \<and>
     mn_disposed c \<and> sv_session sv' = Some s \<and> \<not> mn_disposed s"
  using wide_pool_never_connects [of 7 2000 example_server "example_cfg ''flow'' True" None]
  by (auto simp: example_server_def simp del: ex_simps)

text \<open>
  Only the holder of the debug key switches the scheduler. Whatever the frame, the run-time switch
  leaves the receiver ordering, the reliability settings and the life of the session alone, and it
  changes the mode or the configured override only for a frame that carries exactly the non-empty
  configured key. The frame that a peer with the same key builds is accepted unless another one was
  accepted less than a second before: the session and every later session use the requested mode.
  A key of more than 255 bytes cannot be carried, so it disables the switch.
\<close>

theorem mode_set_authenticated:
  "(case packet_input_mux_mode_set now p (Some c, s) of (c', s') \<Rightarrow>
      mn_ordering s' = mn_ordering s \<and> mn_reliability_on s' = mn_reliability_on s \<and>
      mn_fec_on s' = mn_fec_on s \<and> mn_established s' = mn_established s \<and> mn_disposed s' = mn_disposed s \<and>
      (mn_mode s' \<noteq> mn_mode s \<or> c' \<noteq> Some c \<longrightarrow> carries_key (cfg_debug_key c) p)) \<and>
   (mode_set_payload (Some c) m = Some p \<and> length (cfg_debug_key c) \<le> 255 \<and>
    (mn_last_accept s = 0 \<or> 1000 \<le> now - mn_last_accept s) \<longrightarrow>
      (case packet_input_mux_mode_set now p (Some c, s) of (c', s') \<Rightarrow>
         mn_mode s' = m \<and> (\<exists>d. c' = Some d \<and> GetEffectiveMuxMode d = mode_name m))) \<and>
   (255 < length (cfg_debug_key c) \<longrightarrow> fst (packet_input_mux_mode_set now p (Some c, s)) = Some c)"
proof -
  have "carries_key (cfg_debug_key c) p \<and> p ! 0 = of_nat (mode_value m)"
    if "mode_set_payload (Some c) m = Some p" "length (cfg_debug_key c) \<le> 255"
    using that
    by (auto simp: mode_set_payload_def carries_key_def Let_def min_absorb1 unat_of_nat_byte split: if_splits)
  moreover have "\<not> carries_key (cfg_debug_key c) p" if "255 < length (cfg_debug_key c)"
    using that unat_byte_le [of "p ! 1"] by (auto simp: carries_key_def)
  ultimately show ?thesis
    by (auto simp: mode_set_cases override_mode)
qed

theorem mode_set_authenticated_witness:
  "mode_set_payload (Some (example_cfg ''compat'' False)) mux_mode_stripe = Some [3, 3, 107, 101, 121] \<and>
   mn_mode (snd (packet_input_mux_mode_set 5 [3, 3, 107, 101, 121]
     (Some (example_cfg ''compat'' False), vmux_net_new 4 True False mux_mode_compat))) = mux_mode_stripe"
proof -
  have "mode_set_payload (Some (example_cfg ''compat'' False)) mux_mode_stripe = Some [3, 3, 107, 101, 121]"
    by (simp add: mode_set_payload_def example_cfg_def mode_value_def)
  moreover have "length (cfg_debug_key (example_cfg ''compat'' False)) \<le> 255"
    by (simp add: example_cfg_def)
  moreover have "mn_last_accept (vmux_net_new 4 True False mux_mode_compat) = 0"
    by (simp add: vmux_net_new_def)
  ultimately show ?thesis
    using mode_set_authenticated [where now = 5 and p = "[3, 3, 107, 101, 121]" and m = mux_mode_stripe
        and c = "example_cfg ''compat'' False" and s = "vmux_net_new 4 True False mux_mode_compat"]
    by (simp split: prod.splits)
qed


end
