(* ===== verification/Ssea.thy ===== *)
theory Ssea
  imports Prelude "HOL-Library.Multiset" "HOL-Library.Signed_Division"
begin

text \<open>
  The obfuscation primitives of \<^verbatim>\<open>ppp/cryptography/ssea.cpp\<close> and their scalar reference
  \<^verbatim>\<open>ssea_simd/ssea_scalar_ref.h\<close>: Base94 text, Base94 integers, delta coding, the keyed shuffle and
  the XOR masks. A buffer is the list of its bytes; a null pointer or an empty range is \<open>[]\<close> where
  the code treats both alike. \<^verbatim>\<open>int\<close> keys are \<open>int\<close> and enter byte arithmetic by \<open>of_int\<close>; 32-bit
  words of the masks are in little-endian memory order. The SIMD implementation chosen at run time
  is a parameter \<open>simd\<close>.
\<close>

section \<open>Base94 text\<close>

definition BASE94_SYMBOL_COUNT :: nat where
  "BASE94_SYMBOL_COUNT = 94"

definition BASE93_RADIX :: nat where
  "BASE93_RADIX = BASE94_SYMBOL_COUNT - 1"

definition encode_symbol :: "u8 \<Rightarrow> bytes" where
  "encode_symbol b =
     (if unat b \<ge> BASE93_RADIX
      then [of_nat (0x20 + (((unat b div BASE93_RADIX) - 1) + BASE93_RADIX)), of_nat (0x20 + unat b mod BASE93_RADIX)]
      else [of_nat (0x20 + unat b)])"

definition base94_encode_scalar :: "bytes \<Rightarrow> int \<Rightarrow> bytes option" where
  "base94_encode_scalar data kf =
     (if data = [] then None else Some (concat (map (\<lambda>x. encode_symbol (x - of_int kf)) data)))"

text \<open>The validating pass of the decoder with the error codes of \<^verbatim>\<open>ssea.cpp\<close>.\<close>

datatype base94_error =
  InvalidInput | CharBelowPrintable | CharOutOfAlphabet | EscapeCharBelowPrintable
  | EscapeCharOutOfRange | TruncatedEscape | ValueOverflow

fun base94_validate :: "bytes \<Rightarrow> base94_error option" where
  "base94_validate [] = None"
| "base94_validate (c # r) =
     (if c < 0x20 then Some CharBelowPrintable
      else let b = c - 0x20 in
        if unat b > BASE94_SYMBOL_COUNT then Some CharOutOfAlphabet
        else if unat b \<ge> BASE93_RADIX
        then (case r of
                [] \<Rightarrow> Some TruncatedEscape
              | d # r' \<Rightarrow>
                  if d < 0x20 then Some EscapeCharBelowPrintable
                  else if unat (d - 0x20) > BASE93_RADIX then Some EscapeCharOutOfRange
                  else base94_validate r')
        else base94_validate r)"

fun base94_decode_loop :: "int \<Rightarrow> bytes \<Rightarrow> bytes option" where
  "base94_decode_loop kf [] = Some []"
| "base94_decode_loop kf (c # r) =
     (let b = unat (c - 0x20) in
      if b \<ge> BASE93_RADIX
      then (case r of
              [] \<Rightarrow> None
            | d # r' \<Rightarrow>
                let v = ((b - BASE93_RADIX) + 1) * BASE93_RADIX + (unat d - 0x20) in
                if v > 0xff then None
                else map_option ((#) (of_int (int v + kf))) (base94_decode_loop kf r'))
      else map_option ((#) (of_int (int b + kf))) (base94_decode_loop kf r))"

definition base94_decode_scalar :: "bytes \<Rightarrow> int \<Rightarrow> bytes option" where
  "base94_decode_scalar data kf =
     (if data = [] then None
      else if base94_validate data \<noteq> None then None
      else base94_decode_loop kf data)"

definition base94_decode_fallback :: "bytes \<Rightarrow> int \<Rightarrow> base94_error + bytes" where
  "base94_decode_fallback data kf =
     (case base94_validate data of
        Some e \<Rightarrow> Inl e
      | None \<Rightarrow> (case base94_decode_loop kf data of None \<Rightarrow> Inl ValueOverflow | Some out \<Rightarrow> Inr out))"

text \<open>
  \<^verbatim>\<open>ssea::base94_encode\<close> and \<^verbatim>\<open>base94_decode\<close>: the SIMD result when it is non-empty, else the
  scalar code.
\<close>

definition base94_encode :: "(bytes \<Rightarrow> int \<Rightarrow> bytes option) \<Rightarrow> bytes \<Rightarrow> int \<Rightarrow> base94_error + bytes" where
  "base94_encode simd data kf =
     (if data = [] then Inl InvalidInput
      else case simd data kf of
          Some (x # xs) \<Rightarrow> Inr (x # xs)
        | _ \<Rightarrow> Inr (concat (map (\<lambda>x. encode_symbol (x - of_int kf)) data)))"

definition base94_decode :: "(bytes \<Rightarrow> int \<Rightarrow> bytes option) \<Rightarrow> bytes \<Rightarrow> int \<Rightarrow> base94_error + bytes" where
  "base94_decode simd data kf =
     (if data = [] then Inl InvalidInput
      else case simd data kf of
          Some (x # xs) \<Rightarrow> Inr (x # xs)
        | _ \<Rightarrow> base94_decode_fallback data kf)"

section \<open>Base94 integers\<close>

fun decimal_loop :: "bytes \<Rightarrow> u64 \<Rightarrow> base94_error + u64" where
  "decimal_loop [] n = Inr n"
| "decimal_loop (c # r) n =
     (if c < 0x20 then Inl CharBelowPrintable
      else let b = c - 0x20 in
        if unat b \<ge> BASE94_SYMBOL_COUNT then Inl CharOutOfAlphabet
        else decimal_loop r (n * of_nat BASE94_SYMBOL_COUNT + ucast b))"

text \<open>The value returned: 0 with an error code set when the input is invalid.\<close>

definition base94_decimal_parse :: "bytes \<Rightarrow> u64" where
  "base94_decimal_parse data =
     (if data = [] then 0 else case decimal_loop data 0 of Inl _ \<Rightarrow> 0 | Inr n \<Rightarrow> n)"

text \<open>The two \<^verbatim>\<open>do\<close> loops of the printer: count the digits, then fill them from the end.\<close>

fun digit_count :: "nat \<Rightarrow> nat" where
  "digit_count n = Suc (if n div 94 > 0 then digit_count (n div 94) else 0)"

fun fill_digits :: "nat \<Rightarrow> nat \<Rightarrow> nat \<Rightarrow> bytes \<Rightarrow> bytes" where
  "fill_digits base94_size n k base94 =
     (let base94 = base94[base94_size - Suc k := of_nat (n mod 94 + 0x20)]
      in if n div 94 > 0 then fill_digits base94_size (n div 94) (Suc k) base94 else base94)"

definition base94_decimal :: "u64 \<Rightarrow> bytes" where
  "base94_decimal v =
     (let base94_size = digit_count (unat v)
      in take base94_size (fill_digits base94_size (unat v) 0 (replicate 11 0)))"

section \<open>Delta coding\<close>

fun diffs :: "u8 \<Rightarrow> bytes \<Rightarrow> bytes" where
  "diffs prev [] = []"
| "diffs prev (x # xs) = (x - prev) # diffs x xs"

definition delta_encode_scalar :: "bytes \<Rightarrow> int \<Rightarrow> bytes option" where
  "delta_encode_scalar data kf = (case data of [] \<Rightarrow> None | x # xs \<Rightarrow> Some ((x - of_int kf) # diffs x xs))"

fun sums :: "u8 \<Rightarrow> bytes \<Rightarrow> bytes" where
  "sums prev [] = []"
| "sums prev (x # xs) = (prev + x) # sums (prev + x) xs"

definition delta_decode_scalar :: "bytes \<Rightarrow> int \<Rightarrow> bytes option" where
  "delta_decode_scalar data kf =
     (case data of [] \<Rightarrow> None | x # xs \<Rightarrow> Some ((x + of_int kf) # sums (x + of_int kf) xs))"

text \<open>\<^verbatim>\<open>ssea::delta_encode\<close> and \<^verbatim>\<open>delta_decode\<close>: the SIMD result when non-empty, else the same loops.\<close>

definition delta_encode :: "(bytes \<Rightarrow> int \<Rightarrow> bytes option) \<Rightarrow> bytes \<Rightarrow> int \<Rightarrow> bytes option" where
  "delta_encode simd data kf =
     (case data of
        [] \<Rightarrow> None
      | x # xs \<Rightarrow>
          (case simd data kf of
             Some (y # ys) \<Rightarrow> Some (y # ys)
           | _ \<Rightarrow> Some ((x - of_int kf) # diffs x xs)))"

definition delta_decode :: "(bytes \<Rightarrow> int \<Rightarrow> bytes option) \<Rightarrow> bytes \<Rightarrow> int \<Rightarrow> bytes option" where
  "delta_decode simd data kf =
     (case data of
        [] \<Rightarrow> None
      | x # xs \<Rightarrow>
          (case simd data kf of
             Some (y # ys) \<Rightarrow> Some (y # ys)
           | _ \<Rightarrow> Some ((x + of_int kf) # sums (x + of_int kf) xs)))"

section \<open>Shuffle\<close>

definition swap_at :: "'a list \<Rightarrow> nat \<Rightarrow> nat \<Rightarrow> 'a list" where
  "swap_at xs i j = xs[i := xs ! j, j := xs ! i]"

definition shuffle_index :: "u32 \<Rightarrow> nat \<Rightarrow> nat \<Rightarrow> nat" where
  "shuffle_index key data_size i = unat ((of_nat i XOR key) mod of_nat data_size)"

definition shuffle_data :: "bytes \<Rightarrow> u32 \<Rightarrow> bytes" where
  "shuffle_data xs key =
     fold (\<lambda>i xs. swap_at xs i (shuffle_index key (length xs) i)) [0..<length xs] xs"

definition unshuffle_data :: "bytes \<Rightarrow> u32 \<Rightarrow> bytes" where
  "unshuffle_data xs key =
     fold (\<lambda>i xs. swap_at xs i (shuffle_index key (length xs) i)) (rev [0..<length xs]) xs"

section \<open>Pseudo-random keys and XOR masks\<close>

definition lcg_step :: "u32 \<Rightarrow> u32" where
  "lcg_step next = next * 1103515245 + 12345"

definition random_next :: "u32 \<Rightarrow> u32 \<times> u32" where
  "random_next seed =
     (let n1 = lcg_step seed; r = (n1 div 65536) mod 2048;
          n2 = lcg_step n1; r = push_bit 10 r XOR ((n2 div 65536) mod 1024);
          n3 = lcg_step n2; r = push_bit 10 r XOR ((n3 div 65536) mod 1024)
      in (r, n3))"

definition random_next_from_key :: "u32 \<Rightarrow> u32" where
  "random_next_from_key key = fst (random_next key)"

text \<open>The remainder is the truncating one of C++; \<^verbatim>\<open>max - min + 1\<close> is taken without overflow.\<close>

definition random_next_range :: "u32 \<Rightarrow> int \<Rightarrow> int \<Rightarrow> int \<times> u32" where
  "random_next_range seed mn mx =
     (let (v, seed') = random_next seed in (sint v smod (mx - mn + 1) + mn, seed'))"

definition lcgmod :: "u32 \<Rightarrow> int \<Rightarrow> int \<Rightarrow> int" where
  "lcgmod kf mn mx = fst (random_next_range kf mn mx)"

fun masked_xor :: "bytes \<Rightarrow> u32 \<Rightarrow> bytes" where
  "masked_xor (a # b # c # d # r) kf =
     (a XOR byte_at 0 kf) # (b XOR byte_at 1 kf) # (c XOR byte_at 2 kf) # (d XOR byte_at 3 kf) # masked_xor r kf"
| "masked_xor [a, b, c] kf = [a XOR byte_at 0 kf, b XOR byte_at 1 kf, c XOR byte_at 0 kf]"
| "masked_xor [a, b] kf = [a XOR byte_at 0 kf, b XOR byte_at 1 kf]"
| "masked_xor [a] kf = [a XOR byte_at 0 kf]"
| "masked_xor [] kf = []"

fun xor_random_tail :: "bytes \<Rightarrow> u32 \<Rightarrow> bytes" where
  "xor_random_tail (a # b # c # d # r) kf =
     (a XOR byte_at 0 kf) # (b XOR byte_at 1 kf) # (c XOR byte_at 2 kf) # (d XOR byte_at 3 kf) #
       xor_random_tail r (random_next_from_key kf)"
| "xor_random_tail [a, b, c] kf = [a XOR byte_at 0 kf, b XOR byte_at 1 kf, c XOR byte_at 0 kf]"
| "xor_random_tail [a, b] kf = [a XOR byte_at 0 kf, b XOR byte_at 1 kf]"
| "xor_random_tail [a] kf = [a XOR byte_at 0 kf]"
| "xor_random_tail [] kf = []"

definition masked_xor_random_next :: "bytes \<Rightarrow> u32 \<Rightarrow> bytes" where
  "masked_xor_random_next data kf = xor_random_tail data (random_next_from_key kf)"

text \<open>\<^verbatim>\<open>masked_xor_implement<true>\<close> of \<^verbatim>\<open>ssea.cpp\<close>, which also renews the key after the 16-bit chunk.\<close>

fun xor_implement_tail :: "bytes \<Rightarrow> u32 \<Rightarrow> bytes" where
  "xor_implement_tail (a # b # c # d # r) kf =
     (a XOR byte_at 0 kf) # (b XOR byte_at 1 kf) # (c XOR byte_at 2 kf) # (d XOR byte_at 3 kf) #
       xor_implement_tail r (random_next_from_key kf)"
| "xor_implement_tail [a, b, c] kf =
     [a XOR byte_at 0 kf, b XOR byte_at 1 kf, c XOR byte_at 0 (random_next_from_key kf)]"
| "xor_implement_tail [a, b] kf = [a XOR byte_at 0 kf, b XOR byte_at 1 kf]"
| "xor_implement_tail [a] kf = [a XOR byte_at 0 kf]"
| "xor_implement_tail [] kf = []"

definition masked_xor_implement :: "bytes \<Rightarrow> u32 \<Rightarrow> bytes" where
  "masked_xor_implement data kf = xor_implement_tail data (random_next_from_key kf)"

section \<open>Base94 text round trip\<close>

lemma base94_consts [simp]: "BASE94_SYMBOL_COUNT = 94" "BASE93_RADIX = 93"
  by (simp_all add: BASE94_SYMBOL_COUNT_def BASE93_RADIX_def)

lemma unat_small: "n < 256 \<Longrightarrow> unat (of_nat n :: u8) = n"
  by (rule unat_of_nat_byte) simp

lemma symbol_shift: "n < 224 \<Longrightarrow> unat (of_nat (0x20 + n) - 0x20 :: u8) = n"
  "n < 224 \<Longrightarrow> \<not> (of_nat (0x20 + n) :: u8) < 0x20"
proof -
  assume n: "n < 224"
  have u: "unat (of_nat (0x20 + n) :: u8) = 0x20 + n" using n by (intro unat_small) simp
  have "(of_nat (0x20 + n) - 0x20 :: u8) = of_nat n" by simp
  then show "unat (of_nat (0x20 + n) - 0x20 :: u8) = n" using n unat_small [of n] by simp
  show "\<not> (of_nat (0x20 + n) :: u8) < 0x20" unfolding word_less_nat_alt u by simp
qed

lemma decode_encode_symbol:
  "base94_validate (encode_symbol b @ r) = base94_validate r \<and>
   base94_decode_loop kf (encode_symbol b @ r) =
     map_option ((#) (of_int (int (unat b) + kf))) (base94_decode_loop kf r)"
proof (cases "unat b \<ge> 93")
  case True
  define q where "q = unat b div 93 - 1 + 93"
  define m where "m = unat b mod 93"
  have q: "93 \<le> q" "q \<le> 94" "q < 224" and m: "m < 93" "m < 224"
    using unat_byte_le [of b] by (auto simp: q_def m_def)
  have v: "((q - 93) + 1) * 93 + m = unat b"
    using True div_mult_mod_eq [of "unat b" 93] by (simp add: q_def m_def)
  have d: "unat (of_nat (0x20 + m) :: u8) - 0x20 = m" using m by (subst unat_small) simp_all
  have e: "encode_symbol b = [of_nat (0x20 + q), of_nat (0x20 + m)]"
    using True by (simp add: encode_symbol_def q_def m_def)
  show ?thesis
    using q m v unat_byte_le [of b] unfolding e
    by (simp add: Let_def symbol_shift d del: of_nat_add) 
next
  case False
  then have "unat b < 224" "encode_symbol b = [of_nat (0x20 + unat b)]" by (simp_all add: encode_symbol_def)
  then show ?thesis using False by (simp add: Let_def symbol_shift del: of_nat_add)
qed

lemma of_int_shift: "of_int (int (unat (x - of_int kf :: u8)) + kf) = x"
  by simp

lemma decode_encode_list:
  "base94_validate (concat (map (\<lambda>x. encode_symbol (x - of_int kf)) xs)) = None \<and>
   base94_decode_loop kf (concat (map (\<lambda>x. encode_symbol (x - of_int kf)) xs)) = Some xs"
  by (induction xs) (simp_all add: decode_encode_symbol)

lemma encode_symbol_nonempty [simp]: "encode_symbol b \<noteq> []"
  by (simp add: encode_symbol_def)

lemma encode_list_nonempty: "xs \<noteq> [] \<Longrightarrow> concat (map (\<lambda>x. encode_symbol (x - k)) xs) \<noteq> []"
  by (cases xs) simp_all

lemma encode_symbol_printable: "c \<in> set (encode_symbol b) \<Longrightarrow> 0x20 \<le> unat c \<and> unat c \<le> 0x7e"
proof -
  assume c: "c \<in> set (encode_symbol b)"
  have "\<exists>n \<le> 94. c = of_nat (0x20 + n)"
  proof (cases "unat b \<ge> 93")
    case True
    have "unat b div 93 - 1 + 93 \<le> 94" "unat b mod 93 \<le> 94" using unat_byte_le [of b] by auto
    moreover from True c have "c = of_nat (0x20 + (unat b div 93 - 1 + 93)) \<or> c = of_nat (0x20 + unat b mod 93)"
      by (simp add: encode_symbol_def del: of_nat_add)
    ultimately show ?thesis by blast
  next
    case False
    with c have "c = of_nat (0x20 + unat b)" "unat b \<le> 94" by (simp_all add: encode_symbol_def del: of_nat_add)
    then show ?thesis by blast
  qed
  then obtain n where "n \<le> 94" "c = of_nat (0x20 + n)" by blast
  then show ?thesis using unat_small [of "0x20 + n"] by simp
qed

text \<open>
  Base94 text: whatever implementation is dispatched, as long as it gives up or returns what
  the scalar reference returns, encoding a non-empty buffer succeeds, gives only characters of
  0x20 to 0x7E, at most two per byte, and decoding with the same key gives the buffer back.
\<close>
theorem base94_roundtrip:
  assumes enc: "\<forall>d k. simd_enc d k = None \<or> simd_enc d k = base94_encode_scalar d k"
    and dec: "\<forall>d k. simd_dec d k = None \<or> simd_dec d k = base94_decode_scalar d k"
    and "data \<noteq> []"
  shows "\<exists>text. base94_encode simd_enc data kf = Inr text \<and> length text \<le> 2 * length data \<and>
           (\<forall>c \<in> set text. 0x20 \<le> unat c \<and> unat c \<le> 0x7e) \<and>
           base94_decode simd_dec text kf = Inr data"
proof (intro exI conjI)
  let ?text = "concat (map (\<lambda>x. encode_symbol (x - of_int kf)) data)"
  show "base94_encode simd_enc data kf = Inr ?text"
    using enc [rule_format, of data kf] assms(3)
    by (auto simp: base94_encode_def base94_encode_scalar_def split: option.split list.split)
  show "length ?text \<le> 2 * length data"
    by (induction data) (auto simp: encode_symbol_def)
  show "\<forall>c \<in> set ?text. 0x20 \<le> unat c \<and> unat c \<le> 0x7e"
    by (auto dest: encode_symbol_printable)
  show "base94_decode simd_dec ?text kf = Inr data"
    using dec [rule_format, of ?text kf] encode_list_nonempty [OF assms(3), of "of_int kf"] decode_encode_list [of kf data]
    by (auto simp: base94_decode_def base94_decode_scalar_def base94_decode_fallback_def split: option.split list.split)
qed

theorem base94_roundtrip_witness:
  "\<exists>text. base94_encode base94_encode_scalar [0, 92, 93, 255] 7 = Inr text \<and> length text \<le> 2 * length [0, 92, 93, 255 :: u8] \<and>
     (\<forall>c \<in> set text. 0x20 \<le> unat c \<and> unat c \<le> 0x7e) \<and>
     base94_decode base94_decode_scalar text 7 = Inr [0, 92, 93, 255]"
  by (rule base94_roundtrip) simp_all

section \<open>Base94 integers round trip\<close>

text \<open>The mathematical digits, most significant first.\<close>

fun digits94 :: "nat \<Rightarrow> bytes" where
  "digits94 n = (if n div 94 > 0 then digits94 (n div 94) else []) @ [of_nat (n mod 94 + 0x20)]"

declare digits94.simps [simp del] digit_count.simps [simp del] fill_digits.simps [simp del]

lemma length_digits94: "length (digits94 n) = digit_count n"
  by (induction n rule: digits94.induct) (subst digits94.simps, subst digit_count.simps, simp)

lemma digit_count_le: "n < 94 ^ Suc k \<Longrightarrow> digit_count n \<le> Suc k"
proof (induction k arbitrary: n)
  case 0
  then show ?case by (subst digit_count.simps) simp
next
  case (Suc k)
  then have "n div 94 < 94 ^ Suc k" by (simp add: less_mult_imp_div_less mult.commute)
  then show ?case by (subst digit_count.simps) (simp add: Suc.IH)
qed

lemma fill_digits_eq:
  "digit_count n + k \<le> s \<Longrightarrow> s \<le> length xs \<Longrightarrow>
   fill_digits s n k xs = take (s - k - digit_count n) xs @ digits94 n @ drop (s - k) xs"
proof (induction n arbitrary: k xs rule: digits94.induct)
  case (1 n)
  define ys where "ys = xs[s - Suc k := of_nat (n mod 94 + 0x20)]"
  have c: "digit_count n = Suc (if n div 94 > 0 then digit_count (n div 94) else 0)"
    by (rule digit_count.simps)
  have lt: "s - Suc k < length xs" using 1(2,3) c by simp
  have dr: "drop (s - Suc k) ys = of_nat (n mod 94 + 0x20) # drop (s - k) xs"
    using lt 1(2) c by (simp add: ys_def drop_update_swap Cons_nth_drop_Suc [symmetric] Suc_diff_Suc)
  have tk: "take m ys = take m xs" if "m \<le> s - Suc k" for m
    using that by (simp add: ys_def)
  show ?case
  proof (cases "n div 94 > 0")
    case True
    have "fill_digits s (n div 94) (Suc k) ys =
        take (s - Suc k - digit_count (n div 94)) ys @ digits94 (n div 94) @ drop (s - Suc k) ys"
      using 1(1) [OF True, of "Suc k" ys] 1(2,3) c True by (simp add: ys_def)
    with True show ?thesis
      by (subst fill_digits.simps, subst digits94.simps, subst c) (simp add: ys_def [symmetric] dr tk del: of_nat_add)
  next
    case False
    have "ys = take (s - Suc k) xs @ of_nat (n mod 94 + 0x20) # drop (s - k) xs"
      using append_take_drop_id [of "s - Suc k" ys] tk [of "s - Suc k"] dr by simp
    moreover have "fill_digits s n k xs = ys" using False by (subst fill_digits.simps) (simp add: ys_def)
    moreover have "digits94 n = [of_nat (n mod 94 + 0x20)]" using False by (subst digits94.simps) simp
    ultimately show ?thesis using False c by simp
  qed
qed

lemma decimal_loop_append:
  "decimal_loop (xs @ ys) n = (case decimal_loop xs n of Inl e \<Rightarrow> Inl e | Inr m \<Rightarrow> decimal_loop ys m)"
  by (induction xs arbitrary: n) (auto simp: Let_def)

lemma decimal_loop_digits: "decimal_loop (digits94 n) 0 = Inr (of_nat n)"
proof (induction n rule: digits94.induct)
  case (1 n)
  have m: "n mod 94 < 224" "n mod 94 < 94" by (simp_all add: less_trans [of _ 94])
  have u: "ucast (of_nat (0x20 + n mod 94) - 0x20 :: u8) = (of_nat (n mod 94) :: u64)"
    using symbol_shift(1) [OF m(1)] by (metis of_nat_unat)
  have step: "decimal_loop [of_nat (n mod 94 + 0x20)] a = Inr (a * 94 + of_nat (n mod 94))" for a
    using m symbol_shift [OF m(1)] u by (simp add: Let_def add.commute [of "n mod 94"] del: of_nat_add)
  have n: "of_nat (n div 94) * 94 + of_nat (n mod 94) = (of_nat n :: u64)"
    by (metis div_mult_mod_eq of_nat_add of_nat_mult of_nat_numeral)
  show ?case
  proof (cases "n div 94 > 0")
    case True
    with 1 n show ?thesis by (subst digits94.simps) (simp add: decimal_loop_append step del: decimal_loop.simps of_nat_add)
  next
    case False
    then have "digits94 n = [of_nat (n mod 94 + 0x20)]" by (subst digits94.simps) simp
    moreover have "n mod 94 = n" using False by simp
    ultimately show ?thesis using step [of 0] by simp
  qed
qed

lemma base94_decimal_eq: "base94_decimal v = digits94 (unat v) \<and> digit_count (unat v) \<le> 10"
proof -
  have "unat v < 94 ^ Suc 9"
    using unsigned_less [of v, where 'a = nat] by (rule less_le_trans) simp
  then have "digit_count (unat v) \<le> 10" using digit_count_le [of "unat v" 9] by simp
  then show ?thesis
    using fill_digits_eq [of "unat v" 0 "digit_count (unat v)" "replicate 11 0"]
    by (simp add: base94_decimal_def Let_def length_digits94)
qed

text \<open>
  Base94 integers: every 64-bit value prints to between one and ten characters, so the eleven
  byte stack buffer of the printer is never overrun, and parses back to itself.
\<close>
theorem base94_decimal_roundtrip:
  "base94_decimal_parse (base94_decimal v) = v \<and>
   1 \<le> length (base94_decimal v) \<and> length (base94_decimal v) \<le> 10"
proof -
  have "length (base94_decimal v) = digit_count (unat v)"
    using base94_decimal_eq [of v] by (simp add: length_digits94)
  then have "1 \<le> length (base94_decimal v)" by (simp add: digit_count.simps [of "unat v"])
  moreover from this have "base94_decimal v \<noteq> []" by auto
  ultimately show ?thesis
    using base94_decimal_eq [of v] by (simp add: base94_decimal_parse_def decimal_loop_digits length_digits94)
qed

section \<open>Delta coding is a bijection\<close>

lemma sums_diffs: "sums p (diffs p xs) = xs" "diffs p (sums p xs) = xs"
  by (induction xs arbitrary: p) simp_all

lemma delta_dispatch:
  assumes "simd data kf = None \<or> simd data kf = delta_encode_scalar data kf"
  shows "delta_encode simd data kf = delta_encode_scalar data kf"
  using assms by (cases data) (auto simp: delta_encode_def delta_encode_scalar_def)

lemma delta_dispatch_decode:
  assumes "simd data kf = None \<or> simd data kf = delta_decode_scalar data kf"
  shows "delta_decode simd data kf = delta_decode_scalar data kf"
  using assms by (cases data) (auto simp: delta_decode_def delta_decode_scalar_def)

text \<open>
  Delta coding: whatever implementation is dispatched, as long as it gives up or returns what
  the scalar reference returns, the decoder undoes the encoder and the encoder undoes the decoder
  for every buffer and key; only the empty buffer is refused, by both.
\<close>
theorem delta_roundtrip:
  assumes "\<forall>d k. simd_enc d k = None \<or> simd_enc d k = delta_encode_scalar d k"
    and "\<forall>d k. simd_dec d k = None \<or> simd_dec d k = delta_decode_scalar d k"
  shows "Option.bind (delta_encode simd_enc data kf) (\<lambda>d. delta_decode simd_dec d kf) =
           (if data = [] then None else Some data) \<and>
         Option.bind (delta_decode simd_dec data kf) (\<lambda>d. delta_encode simd_enc d kf) =
           (if data = [] then None else Some data)"
  using assms by (simp add: delta_dispatch delta_dispatch_decode)
    (cases data; simp add: delta_encode_scalar_def delta_decode_scalar_def sums_diffs)

theorem delta_roundtrip_witness:
  "Option.bind (delta_encode delta_encode_scalar [9, 7, 250] 5) (\<lambda>d. delta_decode (\<lambda>_ _. None) d 5) =
     (if [9, 7, 250 :: u8] = [] then None else Some [9, 7, 250]) \<and>
   Option.bind (delta_decode (\<lambda>_ _. None) [9, 7, 250] 5) (\<lambda>d. delta_encode delta_encode_scalar d 5) =
     (if [9, 7, 250 :: u8] = [] then None else Some [9, 7, 250])"
  by (rule delta_roundtrip) simp_all

section \<open>The shuffle is a keyed permutation\<close>

lemma length_swap_at [simp]: "length (swap_at xs i j) = length xs"
  by (simp add: swap_at_def)

lemma swap_at_swap_at: "i < length xs \<Longrightarrow> j < length xs \<Longrightarrow> swap_at (swap_at xs i j) i j = xs"
  by (rule nth_equalityI) (auto simp: swap_at_def nth_list_update)

lemma mset_swap_at: "i < length xs \<Longrightarrow> j < length xs \<Longrightarrow> mset (swap_at xs i j) = mset xs"
  by (simp add: swap_at_def mset_swap)

lemma shuffle_index_less: "0 < n \<Longrightarrow> n < 2 ^ 32 \<Longrightarrow> shuffle_index key n i < n"
proof -
  assume n: "0 < n" "n < 2 ^ 32"
  then have u: "unat (of_nat n :: u32) = n" by (simp add: unat_of_nat take_bit_nat_eq_self)
  show ?thesis using n unfolding shuffle_index_def unat_mod u by simp
qed

text \<open>A pass of swaps, and that the reversed pass undoes it.\<close>

abbreviation swap_pass :: "u32 \<Rightarrow> nat list \<Rightarrow> bytes \<Rightarrow> bytes" where
  "swap_pass key \<equiv> fold (\<lambda>i xs. swap_at xs i (shuffle_index key (length xs) i))"

lemma length_swap_pass [simp]: "length (swap_pass key is xs) = length xs"
  by (induction "is" arbitrary: xs) simp_all

lemma swap_pass_undo:
  "length xs < 2 ^ 32 \<Longrightarrow> \<forall>i \<in> set is. i < length xs \<Longrightarrow>
     swap_pass key (rev is) (swap_pass key is xs) = xs"
proof (induction "is" arbitrary: xs)
  case (Cons i "is")
  have i: "i < length xs" using Cons.prems(2) by simp
  moreover have j: "shuffle_index key (length xs) i < length xs"
    using i Cons.prems(1) by (intro shuffle_index_less) linarith+
  ultimately show ?case using Cons by (simp add: swap_at_swap_at)
qed simp

lemma swap_pass_mset:
  "length xs < 2 ^ 32 \<Longrightarrow> \<forall>i \<in> set is. i < length xs \<Longrightarrow> mset (swap_pass key is xs) = mset xs"
proof (induction "is" arbitrary: xs)
  case (Cons i "is")
  have i: "i < length xs" using Cons.prems(2) by simp
  moreover have j: "shuffle_index key (length xs) i < length xs"
    using i Cons.prems(1) by (intro shuffle_index_less) linarith+
  ultimately show ?case using Cons by (simp add: mset_swap_at)
qed simp

text \<open>
  Shuffle: on every buffer whose size is an \<^verbatim>\<open>int\<close>, shuffling only permutes the bytes, and
  unshuffling with the same key restores the buffer, in either order of the two calls.
\<close>
theorem shuffle_inverse:
  assumes "length xs < 2 ^ 31"
  shows "unshuffle_data (shuffle_data xs key) key = xs \<and>
         shuffle_data (unshuffle_data xs key) key = xs \<and> mset (shuffle_data xs key) = mset xs"
proof -
  have l: "length xs < 2 ^ 32" using assms by simp
  show ?thesis
    using swap_pass_undo [OF l, of "[0..<length xs]" key] swap_pass_undo [OF l, of "rev [0..<length xs]" key]
      swap_pass_mset [OF l, of "[0..<length xs]" key]
    by (simp add: shuffle_data_def unshuffle_data_def)
qed

theorem shuffle_inverse_witness:
  "unshuffle_data (shuffle_data [1, 2, 3, 4, 5] 0xDEADBEEF) 0xDEADBEEF = [1, 2, 3, 4, 5] \<and>
   shuffle_data (unshuffle_data [1, 2, 3, 4, 5] 0xDEADBEEF) 0xDEADBEEF = [1, 2, 3, 4, 5] \<and>
   mset (shuffle_data [1, 2, 3, 4, 5] 0xDEADBEEF) = mset [1, 2, 3, 4, 5]"
  by (rule shuffle_inverse) simp

section \<open>The XOR masks\<close>

lemma xor_xor_byte: "(a XOR k) XOR k = (a :: u8)"
  by (simp add: xor.assoc)

lemma masked_xor_involution: "masked_xor (masked_xor data kf) kf = data"
  by (induction data kf rule: masked_xor.induct) (simp_all add: xor_xor_byte)

lemma xor_random_tail_involution: "xor_random_tail (xor_random_tail data kf) kf = data"
  by (induction data kf rule: xor_random_tail.induct) (simp_all add: xor_xor_byte)

lemma implement_agrees: "length data mod 4 \<noteq> 3 \<Longrightarrow> xor_implement_tail data kf = xor_random_tail data kf"
  by (induction data kf rule: xor_random_tail.induct) simp_all

text \<open>
  XOR masks: applying either mask twice with the same key gives the buffer back, so one routine
  serves both directions, and the keystream of the dispatched random mask is the one of
  \<^verbatim>\<open>masked_xor_implement<true>\<close> on every buffer whose length is not 3 modulo 4.
\<close>
theorem masked_xor_self_inverse:
  "masked_xor (masked_xor data kf) kf = data \<and>
   masked_xor_random_next (masked_xor_random_next data kf) kf = data \<and>
   (length data mod 4 \<noteq> 3 \<longrightarrow> masked_xor_implement data kf = masked_xor_random_next data kf)"
  by (simp add: masked_xor_involution masked_xor_random_next_def masked_xor_implement_def
      xor_random_tail_involution implement_agrees)

theorem masked_xor_self_inverse_witness:
  "masked_xor_implement [1, 2, 3, 4, 5] 77 = masked_xor_random_next [1, 2, 3, 4, 5] 77"
  using masked_xor_self_inverse [of "[1, 2, 3, 4, 5]" 77] by simp

text \<open>On a length of 3 modulo 4 the two differ in the last byte: the key is not renewed after the 16-bit chunk.\<close>

lemma masked_xor_implement_differs:
  "masked_xor_implement [0, 0, 0] 1 \<noteq> masked_xor_random_next [0, 0, 0] 1"
  by code_simp

section \<open>Ranges of the generator\<close>

lemma nat_xor_less: "x < 2 ^ k \<Longrightarrow> y < 2 ^ k \<Longrightarrow> x XOR y < (2 :: nat) ^ k"
  by (simp flip: take_bit_nat_eq_self_iff)

lemma lcg_digit_less: "0 < d \<Longrightarrow> unat ((x div 65536) mod d) < unat (d :: u32)"
  by (simp add: unat_mod word_less_nat_alt)

lemma xor_digit_less:
  assumes "unat a < 2 ^ m" "unat b < 2 ^ 10" "m \<le> 21"
  shows "unat (push_bit 10 a XOR b :: u32) < 2 ^ (m + 10)"
proof -
  have k: "unat a * 2 ^ 10 < 2 ^ (m + 10)" using assms(1) by (simp add: power_add)
  also have "(2 :: nat) ^ (m + 10) \<le> 2 ^ 31" using assms(3) by (intro power_increasing) simp_all
  finally have "unat (push_bit 10 a) = unat a * 2 ^ 10"
    by (simp add: push_bit_eq_mult unat_word_ariths)
  with k assms(2) show ?thesis
    by (simp add: unsigned_xor_eq) (intro nat_xor_less; simp add: power_add)
qed

lemma random_next_less: "unat (fst (random_next seed)) < 2 ^ 31"
proof -
  define r1 where "r1 x = ((x :: u32) div 65536) mod 2048" for x
  define r2 where "r2 x = ((x :: u32) div 65536) mod 1024" for x
  have "unat (r1 x) < 2 ^ 11" "unat (r2 x) < 2 ^ 10" for x
    using lcg_digit_less [of 2048 x] lcg_digit_less [of 1024 x] by (simp_all add: r1_def r2_def)
  then have "unat (push_bit 10 (push_bit 10 (r1 x) XOR r2 y) XOR r2 z) < 2 ^ (11 + 10 + 10)" for x y z
    by (intro xor_digit_less) simp_all
  then show ?thesis by (simp add: random_next_def Let_def r1_def r2_def)
qed

lemma sint_nonneg: "unat v < 2 ^ 31 \<Longrightarrow> 0 \<le> sint (v :: u32)"
  using sint_negative [of v] by linarith

lemma sint_random_next: "0 \<le> sint (fst (random_next seed))"
  by (rule sint_nonneg [OF random_next_less])

text \<open>The bounded draw stays within its bounds.\<close>

lemma smod_nonneg: "0 \<le> a \<Longrightarrow> 0 < b \<Longrightarrow> a smod b = a mod (b :: int)"
  by (cases "a = 0") (simp_all add: signed_modulo_int_def signed_divide_int_def sgn_if minus_mult_div_eq_mod mult.commute)

lemma lcgmod_bounds:
  assumes "mn \<le> mx"
  shows "mn \<le> lcgmod kf mn mx \<and> lcgmod kf mn mx \<le> mx"
proof -
  have "lcgmod kf mn mx = sint (fst (random_next kf)) mod (mx - mn + 1) + mn"
    using smod_nonneg [OF sint_random_next [of kf], of "mx - mn + 1"] assms
    by (simp add: lcgmod_def random_next_range_def split_beta)
  with assms show ?thesis
    using pos_mod_bound [of "mx - mn + 1" "sint (fst (random_next kf))"]
      pos_mod_sign [of "mx - mn + 1" "sint (fst (random_next kf))"] by simp
qed

end
