(* ===== verification/Lease_Pool.thy ===== *)
theory Lease_Pool
  imports Prelude
begin

text \<open>
  The server's pool of virtual IPv4 addresses (\<^verbatim>\<open>src/ppp/app/server/IPv4LeasePool.h\<close> and
  \<^verbatim>\<open>IPv4LeasePool.cpp\<close>). Addresses are 32-bit words in host byte order, session identifiers are
  128-bit words, the two hash tables are maps. The mutex makes every public method atomic, so a
  history of the pool is a sequence of calls.
\<close>

section \<open>State and results\<close>

type_synonym session_id = "128 word"

record lease_pool =
  Configured :: bool
  Network :: u32
  Mask :: u32
  Gateway :: u32
  Broadcast :: u32
  IpBySession :: "session_id \<rightharpoonup> u32"
  SessionByIp :: "u32 \<rightharpoonup> session_id"

record lease_result =
  lr_ok :: bool
  lr_accepted :: bool
  lr_conflict :: bool
  lr_reason :: string
  lr_address :: u32
  lr_gateway :: u32
  lr_mask :: u32
  lr_requested :: u32

definition lease_pool_new :: lease_pool where
  "lease_pool_new = \<lparr>Configured = False, Network = 0, Mask = 0, Gateway = 0, Broadcast = 0,
     IpBySession = Map.empty, SessionByIp = Map.empty\<rparr>"

section \<open>Operations\<close>

definition lease_Configure :: "u32 \<Rightarrow> u32 \<Rightarrow> lease_pool \<Rightarrow> bool \<times> lease_pool" where
  "lease_Configure net msk p =
     (let gw = net + 1; bcast = net OR NOT msk in
      if bcast \<le> net then
        (False, p\<lparr>Configured := False, Network := 0, Mask := 0, Gateway := 0, Broadcast := 0,
                  IpBySession := Map.empty, SessionByIp := Map.empty\<rparr>)
      else
        (True, p\<lparr>Configured := True, Network := net, Mask := msk, Gateway := gw, Broadcast := bcast,
                 IpBySession := Map.empty, SessionByIp := Map.empty\<rparr>))"

definition IsBroadcast :: "u32 \<Rightarrow> lease_pool \<Rightarrow> bool" where
  "IsBroadcast ip p \<longleftrightarrow> ip = Broadcast p"

definition IsLeasedByOtherSession :: "session_id \<Rightarrow> u32 \<Rightarrow> lease_pool \<Rightarrow> bool" where
  "IsLeasedByOtherSession sid ip p \<longleftrightarrow>
     (case SessionByIp p ip of None \<Rightarrow> False | Some other \<Rightarrow> other \<noteq> sid)"

definition TryLease :: "session_id \<Rightarrow> u32 \<Rightarrow> lease_pool \<Rightarrow> bool \<times> lease_pool" where
  "TryLease sid ip p =
     (case SessionByIp p ip of
        Some other \<Rightarrow> (other = sid, p)
      | None \<Rightarrow> (True, p\<lparr>IpBySession := (IpBySession p)(sid \<mapsto> ip),
                         SessionByIp := (SessionByIp p)(ip \<mapsto> sid)\<rparr>))"

definition ReleaseInternal :: "session_id \<Rightarrow> lease_pool \<Rightarrow> lease_pool" where
  "ReleaseInternal sid p =
     (case IpBySession p sid of
        None \<Rightarrow> p
      | Some ip \<Rightarrow> p\<lparr>SessionByIp := (SessionByIp p)(ip := None),
                      IpBySession := (IpBySession p)(sid := None)\<rparr>)"

definition empty_result :: lease_result where
  "empty_result = \<lparr>lr_ok = False, lr_accepted = False, lr_conflict = False, lr_reason = [], lr_address = 0,
     lr_gateway = 0, lr_mask = 0, lr_requested = 0\<rparr>"

definition MakeAutoSuccess :: "u32 \<Rightarrow> lease_pool \<Rightarrow> lease_result" where
  "MakeAutoSuccess ip p =
     empty_result\<lparr>lr_ok := True, lr_accepted := True, lr_conflict := False, lr_address := ip,
                  lr_gateway := Gateway p, lr_mask := Mask p\<rparr>"

definition MakeManualSuccess :: "u32 \<Rightarrow> lease_pool \<Rightarrow> lease_result" where
  "MakeManualSuccess ip p =
     empty_result\<lparr>lr_ok := True, lr_accepted := True, lr_conflict := False, lr_address := ip,
                  lr_gateway := Gateway p, lr_mask := Mask p, lr_requested := ip\<rparr>"

definition MakeFailure :: "string \<Rightarrow> lease_pool \<Rightarrow> lease_result" where
  "MakeFailure reason p =
     empty_result\<lparr>lr_ok := False, lr_accepted := False, lr_conflict := False, lr_reason := reason,
                  lr_gateway := Gateway p, lr_mask := Mask p\<rparr>"

text \<open>
  The scan \<^verbatim>\<open>for (uint32_t ip = Gateway_; ip < Broadcast_; ++ip)\<close>. The counter cannot wrap: it is
  below the broadcast address when it is incremented.
\<close>

function lease_scan :: "session_id \<Rightarrow> u32 \<Rightarrow> lease_pool \<Rightarrow> u32 option \<times> lease_pool" where
  "lease_scan sid ip p =
     (if ip < Broadcast p then
        if ip = Gateway p then lease_scan sid (ip + 1) p
        else if ip = Broadcast p then lease_scan sid (ip + 1) p
        else if IsLeasedByOtherSession sid ip p then lease_scan sid (ip + 1) p
        else if fst (TryLease sid ip p) then (Some ip, snd (TryLease sid ip p))
        else lease_scan sid (ip + 1) p
      else (None, p))"
  by pat_completeness auto

termination
proof (relation "measure (\<lambda>(sid, ip, p). unat (Broadcast p) - unat ip)")
qed (auto simp: unat_Suc_below word_less_nat_alt)

declare lease_scan.simps [simp del]

definition AcquireAutoInternal :: "session_id \<Rightarrow> lease_pool \<Rightarrow> lease_result \<times> lease_pool" where
  "AcquireAutoInternal sid p =
     (case lease_scan sid (Gateway p) p of
        (Some ip, p') \<Rightarrow> (MakeAutoSuccess ip p', p')
      | (None, p') \<Rightarrow> (MakeFailure ''pool-exhausted'' p', p'))"

definition AcquireAuto :: "session_id \<Rightarrow> lease_pool \<Rightarrow> lease_result \<times> lease_pool" where
  "AcquireAuto sid p =
     (if \<not> Configured p then (MakeFailure ''pool-exhausted'' p, p)
      else let p = ReleaseInternal sid p in
           case lease_scan sid (Gateway p) p of
             (Some ip, p') \<Rightarrow> (MakeAutoSuccess ip p', p')
           | (None, p') \<Rightarrow> (MakeFailure ''pool-exhausted'' p', p'))"

definition reassign :: "string \<Rightarrow> u32 \<Rightarrow> lease_result \<times> lease_pool \<Rightarrow> lease_result \<times> lease_pool" where
  "reassign reason requested rp =
     (case rp of (r, p) \<Rightarrow>
        (if lr_ok r
         then r\<lparr>lr_accepted := False, lr_conflict := True, lr_reason := reason, lr_requested := requested\<rparr>
         else r\<lparr>lr_reason := ''pool-exhausted''\<rparr>, p))"

definition AcquireManual :: "session_id \<Rightarrow> u32 \<Rightarrow> lease_pool \<Rightarrow> lease_result \<times> lease_pool" where
  "AcquireManual sid requested p =
     (if \<not> Configured p then (MakeFailure ''pool-exhausted'' p, p)
      else let p = ReleaseInternal sid p in
           if IsBroadcast requested p then reassign ''broadcast'' requested (AcquireAutoInternal sid p)
           else if IsLeasedByOtherSession sid requested p
           then reassign ''conflict'' requested (AcquireAutoInternal sid p)
           else case TryLease sid requested p of
             (True, p') \<Rightarrow> (MakeManualSuccess requested p', p')
           | (False, p') \<Rightarrow> reassign ''conflict'' requested (AcquireAutoInternal sid p'))"

definition lease_Release :: "session_id \<Rightarrow> lease_pool \<Rightarrow> lease_pool" where
  "lease_Release sid p = ReleaseInternal sid p"

text \<open>The calls of the server, and the state after one of them.\<close>

datatype lease_call =
  Call_Configure u32 u32
| Call_Auto session_id
| Call_Manual session_id u32
| Call_Release session_id

fun lease_step :: "lease_call \<Rightarrow> lease_pool \<Rightarrow> lease_pool" where
  "lease_step (Call_Configure net msk) p = snd (lease_Configure net msk p)"
| "lease_step (Call_Auto sid) p = snd (AcquireAuto sid p)"
| "lease_step (Call_Manual sid ip) p = snd (AcquireManual sid ip p)"
| "lease_step (Call_Release sid) p = lease_Release sid p"

section \<open>The invariant\<close>

text \<open>
  The two tables are inverse to each other, only a configured pool has leases, and the broadcast
  address is never leased.
\<close>

definition lease_inv :: "lease_pool \<Rightarrow> bool" where
  "lease_inv p \<longleftrightarrow>
     (\<forall>sid ip. IpBySession p sid = Some ip \<longleftrightarrow> SessionByIp p ip = Some sid) \<and>
     (Configured p \<longrightarrow> Gateway p = Network p + 1 \<and> Network p < Broadcast p) \<and>
     (\<forall>ip sid. SessionByIp p ip = Some sid \<longrightarrow> Configured p \<and> ip \<noteq> Broadcast p)"

definition same_subnet :: "lease_pool \<Rightarrow> lease_pool \<Rightarrow> bool" where
  "same_subnet p q \<longleftrightarrow> Configured q = Configured p \<and> Network q = Network p \<and> Mask q = Mask p \<and>
     Gateway q = Gateway p \<and> Broadcast q = Broadcast p"

lemma lease_inv_new: "lease_inv lease_pool_new"
  by (simp add: lease_inv_def lease_pool_new_def)

lemma lease_inv_Configure: "lease_inv (snd (lease_Configure net msk p))"
  by (auto simp: lease_inv_def lease_Configure_def Let_def)

lemma lease_inv_Release:
  assumes "lease_inv p"
  shows "lease_inv (ReleaseInternal sid p)"
    and "IpBySession (ReleaseInternal sid p) = (IpBySession p)(sid := None)"
    and "same_subnet p (ReleaseInternal sid p)"
    and "SessionByIp (ReleaseInternal sid p) ip = None \<longleftrightarrow> \<not> IsLeasedByOtherSession sid ip p"
    and "IsLeasedByOtherSession sid ip (ReleaseInternal sid p) = IsLeasedByOtherSession sid ip p"
  using assms
  by (auto simp: lease_inv_def ReleaseInternal_def same_subnet_def IsLeasedByOtherSession_def
        split: option.splits)
     (metis option.inject option.distinct(1))+

lemma TryLease_free:
  assumes "lease_inv p" "SessionByIp p ip = None" "IpBySession p sid = None" "Configured p" "ip \<noteq> Broadcast p"
  shows "fst (TryLease sid ip p)" and "lease_inv (snd (TryLease sid ip p))"
    and "IpBySession (snd (TryLease sid ip p)) = (IpBySession p)(sid \<mapsto> ip)"
    and "same_subnet p (snd (TryLease sid ip p))"
  using assms
  by (auto simp: lease_inv_def TryLease_def same_subnet_def split: if_splits) (metis option.distinct(1))

lemma unleased_iff:
  assumes "lease_inv p" "IpBySession p sid = None"
  shows "\<not> IsLeasedByOtherSession sid ip p \<longleftrightarrow> SessionByIp p ip = None"
  using assms
  by (auto simp: lease_inv_def IsLeasedByOtherSession_def split: option.splits) (metis option.distinct(1))

text \<open>The scan finds the lowest candidate that is not leased, or nothing.\<close>

definition candidate :: "session_id \<Rightarrow> lease_pool \<Rightarrow> u32 \<Rightarrow> bool" where
  "candidate sid p a \<longleftrightarrow> Gateway p < a \<and> a < Broadcast p \<and> \<not> IsLeasedByOtherSession sid a p"

definition scan_result :: "session_id \<Rightarrow> lease_pool \<Rightarrow> u32 \<Rightarrow> u32 option \<times> lease_pool \<Rightarrow> bool" where
  "scan_result sid p ip res \<longleftrightarrow>
     (case res of
        (Some a, p') \<Rightarrow> candidate sid p a \<and> ip \<le> a \<and> (\<forall>b. ip \<le> b \<and> b < a \<longrightarrow> \<not> candidate sid p b) \<and>
           p' = snd (TryLease sid a p)
      | (None, p') \<Rightarrow> p' = p \<and> (\<forall>b. ip \<le> b \<longrightarrow> \<not> candidate sid p b))"

lemma scan_result_next:
  assumes "scan_result sid p (ip + 1) res" "ip < Broadcast p" "\<not> candidate sid p ip"
  shows "scan_result sid p ip res"
proof -
  have "ip < ip + 1" using unat_Suc_below [OF assms(2)] by (simp add: word_less_nat_alt)
  moreover have "b = ip \<or> ip + 1 \<le> b" if "ip \<le> b" for b
    using that Suc_le_below by (auto simp: order.order_iff_strict)
  ultimately show ?thesis using assms(1,3) unfolding scan_result_def
    by (auto split: prod.splits option.splits dest: order.strict_trans2)
qed

lemma lease_scan_spec:
  assumes "lease_inv p" "IpBySession p sid = None" "Configured p" "Gateway p \<le> ip"
  shows "scan_result sid p ip (lease_scan sid ip p)"
  using assms(4)
proof (induction "unat (Broadcast p) - unat ip" arbitrary: ip rule: less_induct)
  case less
  have next_ip: "Gateway p \<le> ip + 1" "unat (Broadcast p) - unat (ip + 1) < unat (Broadcast p) - unat ip"
    if "ip < Broadcast p"
    using that less.prems unat_Suc_below [OF that] by (simp_all add: word_le_nat_alt word_less_nat_alt)
  consider "\<not> ip < Broadcast p" | "ip < Broadcast p" "ip = Gateway p \<or> IsLeasedByOtherSession sid ip p"
    | "ip < Broadcast p" "ip \<noteq> Gateway p" "\<not> IsLeasedByOtherSession sid ip p" by blast
  then show ?case
  proof cases
    case 1
    then show ?thesis by (subst lease_scan.simps) (auto simp: candidate_def scan_result_def)
  next
    case 2
    have eq: "lease_scan sid ip p = lease_scan sid (ip + 1) p"
      using 2 by (subst lease_scan.simps) auto
    have "\<not> candidate sid p ip" using 2 by (auto simp: candidate_def)
    with scan_result_next [OF less.hyps [OF next_ip(2) [OF 2(1)] next_ip(1) [OF 2(1)]] 2(1)]
    show ?thesis unfolding eq by blast
  next
    case 3
    have "fst (TryLease sid ip p)"
      using 3 unleased_iff [OF assms(1,2), of ip] by (intro TryLease_free(1) [OF assms(1) _ assms(2,3)]) simp_all
    then have "lease_scan sid ip p = (Some ip, snd (TryLease sid ip p))"
      using 3 by (subst lease_scan.simps) (simp add: less_imp_neq)
    then show ?thesis using 3 less.prems by (auto simp: scan_result_def candidate_def)
  qed
qed

lemma AcquireAutoInternal_cases [consumes 3, case_names found full]:
  assumes "lease_inv p" "IpBySession p sid = None" "Configured p"
  obtains (found) a p' where "AcquireAutoInternal sid p = (MakeAutoSuccess a p', p')" "candidate sid p a"
      "\<forall>b < a. \<not> candidate sid p b" "lease_inv p'" "IpBySession p' = (IpBySession p)(sid \<mapsto> a)" "same_subnet p p'"
    | (full) "AcquireAutoInternal sid p = (MakeFailure ''pool-exhausted'' p, p)" "\<forall>b. \<not> candidate sid p b"
proof -
  have low: "\<not> candidate sid p b" if "\<not> Gateway p \<le> b" for b using that by (auto simp: candidate_def)
  have spec: "scan_result sid p (Gateway p) (lease_scan sid (Gateway p) p)"
    using lease_scan_spec [OF assms] by simp
  show thesis
  proof (cases "lease_scan sid (Gateway p) p")
    case (Pair r p')
    show thesis
    proof (cases r)
      case None
      then show thesis using spec Pair full low by (auto simp: scan_result_def AcquireAutoInternal_def)
    next
      case (Some a)
      then have a: "candidate sid p a" "\<forall>b < a. \<not> candidate sid p b" "p' = snd (TryLease sid a p)"
        using spec Pair low by (auto simp: scan_result_def)
      have "SessionByIp p a = None" "a \<noteq> Broadcast p"
        using a(1) unleased_iff [OF assms(1,2)] by (auto simp: candidate_def)
      from TryLease_free(2-4) [OF assms(1) this(1) assms(2,3) this(2)] show thesis
        using found [OF _ a(1,2)] Some Pair a(3) by (simp add: AcquireAutoInternal_def)
    qed
  qed
qed

lemma AcquireAuto_eq:
  "AcquireAuto sid p =
     (if Configured p then AcquireAutoInternal sid (ReleaseInternal sid p)
      else (MakeFailure ''pool-exhausted'' p, p))"
  by (simp add: AcquireAuto_def AcquireAutoInternal_def Let_def)

lemma candidate_Release:
  "lease_inv p \<Longrightarrow> candidate sid (ReleaseInternal sid p) a = candidate sid p a"
  using lease_inv_Release(3) [of p sid] lease_inv_Release(5) [of p sid a] by (simp add: candidate_def same_subnet_def)

text \<open>What an acquisition of either kind does, in terms of the state before the call.\<close>

lemma AcquireAuto_cases [consumes 2, case_names found full]:
  assumes "lease_inv p" "Configured p"
  obtains (found) a p' where "AcquireAuto sid p = (MakeAutoSuccess a p', p')" "candidate sid p a"
      "\<forall>b < a. \<not> candidate sid p b" "lease_inv p'" "IpBySession p' = (IpBySession p)(sid \<mapsto> a)" "same_subnet p p'"
    | (full) p' where "AcquireAuto sid p = (MakeFailure ''pool-exhausted'' p', p')" "\<forall>b. \<not> candidate sid p b"
      "lease_inv p'" "IpBySession p' = (IpBySession p)(sid := None)" "same_subnet p p'"
proof -
  note rel = lease_inv_Release [OF assms(1), of sid]
  have "Configured (ReleaseInternal sid p)" "IpBySession (ReleaseInternal sid p) sid = None"
    using rel(2,3) assms(2) by (simp_all add: same_subnet_def)
  from rel(1) this(2,1) show thesis
    by (cases rule: AcquireAutoInternal_cases)
       (use assms rel found full in \<open>auto simp: AcquireAuto_eq candidate_Release same_subnet_def\<close>)
qed

lemma AcquireManual_accepts:
  assumes "lease_inv p" "Configured p" "ip \<noteq> Broadcast p" "\<not> IsLeasedByOtherSession sid ip p"
  obtains p' where "AcquireManual sid ip p = (MakeManualSuccess ip p', p')" "lease_inv p'"
    "IpBySession p' = (IpBySession p)(sid \<mapsto> ip)" "same_subnet p p'"
proof -
  define q where "q = ReleaseInternal sid p"
  note rel = lease_inv_Release [OF assms(1), of sid, folded q_def]
  have q: "Configured q" "IpBySession q sid = None" "ip \<noteq> Broadcast q" "SessionByIp q ip = None"
    using rel assms by (simp_all add: same_subnet_def)
  note free = TryLease_free [OF rel(1) q(4,2,1,3)]
  show thesis
  proof (rule that [of "snd (TryLease sid ip q)"])
    show "AcquireManual sid ip p = (MakeManualSuccess ip (snd (TryLease sid ip q)), snd (TryLease sid ip q))"
      using assms q free(1) rel(5) [of ip]
      by (simp add: AcquireManual_def Let_def q_def [symmetric] IsBroadcast_def case_prod_beta)
  qed (use free rel in \<open>auto simp: same_subnet_def\<close>)
qed

lemma AcquireManual_reassigns:
  assumes "lease_inv p" "Configured p" "ip = Broadcast p \<or> IsLeasedByOtherSession sid ip p"
  shows "AcquireManual sid ip p =
    reassign (if ip = Broadcast p then ''broadcast'' else ''conflict'') ip (AcquireAuto sid p)"
  using assms lease_inv_Release(3) [of p sid] lease_inv_Release(5) [of p sid ip]
  by (auto simp: AcquireManual_def AcquireAuto_eq Let_def IsBroadcast_def same_subnet_def)

lemma lease_inv_Auto: "lease_inv p \<Longrightarrow> lease_inv (snd (AcquireAuto sid p))"
  by (cases "Configured p") (auto simp: AcquireAuto_def elim: AcquireAuto_cases [of p sid])

lemma lease_inv_step: "lease_inv p \<Longrightarrow> lease_inv (lease_step c p)"
proof (cases c)
  case (Call_Configure net msk)
  then show ?thesis by (simp add: lease_inv_Configure)
next
  case (Call_Auto sid)
  assume "lease_inv p"
  then show ?thesis by (simp add: Call_Auto lease_inv_Auto)
next
  case (Call_Manual sid ip)
  assume inv: "lease_inv p"
  consider "\<not> Configured p" | "Configured p" "ip \<noteq> Broadcast p" "\<not> IsLeasedByOtherSession sid ip p"
    | "Configured p" "ip = Broadcast p \<or> IsLeasedByOtherSession sid ip p" by blast
  then show ?thesis
  proof cases
    case 1
    then show ?thesis using inv by (simp add: Call_Manual AcquireManual_def)
  next
    case 2
    with inv show ?thesis unfolding Call_Manual by (rule AcquireManual_accepts [of p ip sid]) simp
  next
    case 3
    then show ?thesis using lease_inv_Auto [OF inv, of sid]
      by (simp add: Call_Manual AcquireManual_reassigns [OF inv] reassign_def case_prod_beta)
  qed
next
  case (Call_Release sid)
  assume "lease_inv p"
  then show ?thesis by (simp add: Call_Release lease_Release_def lease_inv_Release(1))
qed

section \<open>The contract of an exclusive pool\<close>

text \<open>
  What the sessions rely on: after any sequence of calls no resource is held by two of them.
\<close>

locale exclusive_pool = guarded_machine init step inv
  for init :: 's and step :: "'op \<Rightarrow> 's \<Rightarrow> 's" and inv :: "'s \<Rightarrow> bool" +
  fixes holds :: "'s \<Rightarrow> 'k \<Rightarrow> 'a option"
  assumes exclusive: "inv s \<Longrightarrow> holds s j = Some a \<Longrightarrow> holds s k = Some a \<Longrightarrow> j = k"
begin

lemma run_exclusive:
  "holds (fold step ops init) j = Some a \<Longrightarrow> holds (fold step ops init) k = Some a \<Longrightarrow> j = k"
  by (rule exclusive [OF run_inv])

end

interpretation leases: exclusive_pool lease_pool_new lease_step lease_inv IpBySession
proof
  show "j = k" if "lease_inv s" "IpBySession s j = Some a" "IpBySession s k = Some a" for s j k a
    using that unfolding lease_inv_def by (metis option.inject)
qed (simp_all add: lease_inv_new lease_inv_step)


section \<open>Properties\<close>

definition lease_run :: "lease_call list \<Rightarrow> lease_pool" where
  "lease_run calls = fold lease_step calls lease_pool_new"

lemma lease_run_inv: "lease_inv (lease_run calls)"
  unfolding lease_run_def by (rule leases.run_inv)

text \<open>A history on the network 10.0.0.0/30: one address besides the gateway.\<close>

definition lease_example :: "lease_call list" where
  "lease_example = [Call_Configure 0x0A000000 0xFFFFFFFC, Call_Manual 1 0x0A000002]"

lemma lease_example_run:
  "lease_run lease_example =
     \<lparr>Configured = True, Network = 0x0A000000, Mask = 0xFFFFFFFC, Gateway = 0x0A000001, Broadcast = 0x0A000003,
      IpBySession = [1 \<mapsto> 0x0A000002], SessionByIp = [0x0A000002 \<mapsto> 1]\<rparr>"
  by (simp add: lease_run_def lease_example_def lease_pool_new_def lease_Configure_def AcquireManual_def
        ReleaseInternal_def IsBroadcast_def IsLeasedByOtherSession_def TryLease_def)

text \<open>
  C16. No address is leased twice. After any sequence of configurations, automatic and manual
  acquisitions and releases, two sessions never hold the same address, a session holds at most one,
  the table from addresses to sessions is exactly the inverse of the table from sessions to addresses,
  and nobody holds the broadcast address.
\<close>

theorem lease_exclusive:
  "(\<forall>j k ip. IpBySession (lease_run calls) j = Some ip \<and> IpBySession (lease_run calls) k = Some ip \<longrightarrow> j = k) \<and>
   (\<forall>sid ip. SessionByIp (lease_run calls) ip = Some sid \<longleftrightarrow> IpBySession (lease_run calls) sid = Some ip) \<and>
   Broadcast (lease_run calls) \<notin> ran (IpBySession (lease_run calls))"
  using lease_run_inv [of calls] leases.run_exclusive [of calls]
  by (auto simp: lease_inv_def lease_run_def ran_def)

theorem lease_exclusive_witness:
  "IpBySession (lease_run lease_example) 1 = Some 0x0A000002 \<and>
   SessionByIp (lease_run lease_example) 0x0A000002 = Some 1 \<and>
   0x0A000003 \<notin> ran (IpBySession (lease_run lease_example))"
  using lease_exclusive [of lease_example] by (simp add: lease_example_run)

text \<open>
  Automatic allocation succeeds whenever it can. In every reachable configured pool it gives the
  session the lowest address above the gateway and below the broadcast address that no other session
  holds, replacing its former lease and touching no other; it reports exhaustion exactly when there is
  no such address. In an unconfigured pool it fails without effect.
\<close>

theorem AcquireAuto_lowest_free:
  "(case AcquireAuto sid (lease_run calls) of (r, p') \<Rightarrow>
     if Configured (lease_run calls) \<and> (\<exists>a. candidate sid (lease_run calls) a)
     then lr_ok r \<and> lr_accepted r \<and> candidate sid (lease_run calls) (lr_address r) \<and>
          (\<forall>b. candidate sid (lease_run calls) b \<longrightarrow> lr_address r \<le> b) \<and>
          IpBySession p' = (IpBySession (lease_run calls))(sid \<mapsto> lr_address r)
     else \<not> lr_ok r \<and> lr_reason r = ''pool-exhausted'' \<and>
          IpBySession p' = (if Configured (lease_run calls)
            then (IpBySession (lease_run calls))(sid := None) else IpBySession (lease_run calls)))"
proof (cases "Configured (lease_run calls)")
  case True
  from lease_run_inv [of calls] this show ?thesis
  proof (cases rule: AcquireAuto_cases [where sid = sid])
    case (found a p')
    then show ?thesis using True by (auto simp: MakeAutoSuccess_def intro: leI)
  next
    case (full p')
    then show ?thesis using True by (auto simp: MakeFailure_def empty_result_def)
  qed
next
  case False
  then show ?thesis by (simp add: AcquireAuto_def MakeFailure_def)
qed

theorem AcquireAuto_lowest_free_witness:
  "candidate 1 (lease_run lease_example) 0x0A000002 \<and>
   lr_ok (fst (AcquireAuto 1 (lease_run lease_example)))"
proof -
  have "candidate 1 (lease_run lease_example) 0x0A000002"
    by (simp add: lease_example_run candidate_def IsLeasedByOtherSession_def)
  moreover have "Configured (lease_run lease_example)" by (simp add: lease_example_run)
  ultimately show ?thesis
    using AcquireAuto_lowest_free [where sid = 1 and calls = lease_example]
    by (auto simp: case_prod_beta split: if_splits)
qed

text \<open>
  Manual allocation. In every reachable configured pool a request for an address that is neither
  the broadcast address nor held by another session is granted as it stands, even when it is the
  gateway's own address or lies outside the subnet. Every other request ends in exactly the state and with
  exactly the address of an automatic allocation, marked as a conflict and not as accepted.
\<close>

theorem AcquireManual_grants_or_reassigns:
  assumes "Configured (lease_run calls)"
  shows "(case AcquireManual sid ip (lease_run calls) of (r, p') \<Rightarrow>
     if ip \<noteq> Broadcast (lease_run calls) \<and> \<not> IsLeasedByOtherSession sid ip (lease_run calls)
     then lr_ok r \<and> lr_accepted r \<and> \<not> lr_conflict r \<and> lr_address r = ip \<and>
          IpBySession p' = (IpBySession (lease_run calls))(sid \<mapsto> ip)
     else p' = snd (AcquireAuto sid (lease_run calls)) \<and> \<not> lr_accepted r \<and>
          lr_ok r = lr_ok (fst (AcquireAuto sid (lease_run calls))) \<and> lr_conflict r = lr_ok r \<and>
          lr_address r = lr_address (fst (AcquireAuto sid (lease_run calls))))"
proof (cases "ip \<noteq> Broadcast (lease_run calls) \<and> \<not> IsLeasedByOtherSession sid ip (lease_run calls)")
  case True
  then have t: "ip \<noteq> Broadcast (lease_run calls)" "\<not> IsLeasedByOtherSession sid ip (lease_run calls)" by simp_all
  obtain p' where "AcquireManual sid ip (lease_run calls) = (MakeManualSuccess ip p', p')"
    "IpBySession p' = (IpBySession (lease_run calls))(sid \<mapsto> ip)"
    by (rule AcquireManual_accepts [OF lease_run_inv assms t])
  then show ?thesis using t by (simp add: MakeManualSuccess_def)
next
  case False
  from lease_run_inv [of calls] assms
  have "\<not> lr_ok (fst (AcquireAuto sid (lease_run calls))) \<longrightarrow>
      \<not> lr_accepted (fst (AcquireAuto sid (lease_run calls))) \<and> \<not> lr_conflict (fst (AcquireAuto sid (lease_run calls)))"
    by (cases rule: AcquireAuto_cases [where sid = sid])
       (auto simp: MakeAutoSuccess_def MakeFailure_def empty_result_def)
  then show ?thesis
    using False AcquireManual_reassigns [OF lease_run_inv [of calls] assms, of ip sid]
    by (auto simp: reassign_def case_prod_beta)
qed

theorem AcquireManual_grants_or_reassigns_witness:
  "lr_accepted (fst (AcquireManual 2 0x0A000001 (lease_run lease_example))) \<and>
   \<not> lr_accepted (fst (AcquireManual 2 0x0A000002 (lease_run lease_example)))"
proof -
  have c: "Configured (lease_run lease_example)" by (simp add: lease_example_run)
  show ?thesis
    using AcquireManual_grants_or_reassigns [OF c, where sid = 2 and ip = "0x0A000001"]
      AcquireManual_grants_or_reassigns [OF c, where sid = 2 and ip = "0x0A000002"]
    by (simp add: case_prod_beta lease_example_run IsLeasedByOtherSession_def)
qed


end
