(* ===== verification/Session_Resume.thy ===== *)
theory Session_Resume
  imports Prelude
begin

text \<open>
  Resuming a session on a new carrier (\<^verbatim>\<open>src/ppp/app/server/SessionRecoveryState.h\<close>,
  \<^verbatim>\<open>SessionResumeEstablishTransaction.cpp\<close>, \<^verbatim>\<open>SessionResumeFallbackDecision.h\<close> and the recovery
  methods of \<^verbatim>\<open>src/ppp/app/server/VirtualEthernetExchanger.cpp\<close>). When the carrier of a session
  breaks, the session is suspended for a grace period; a candidate carrier reserves it, confirms and
  is published. Several candidates may try at the same time: every method runs under the carrier
  mutex, so a history is a sequence of calls.

  Carriers are numbers. The cryptographic functions (verification and computation of proofs, nonces)
  and the decoding of a control message are arguments of the handlers, collected in the record
  \<open>resume_env\<close>; so are the eligibility test of a carrier and the creation of the echo helper.
\<close>

section \<open>The recovery state machine\<close>

datatype recovery_phase = Active | Suspended | Expired

record recovery_state =
  rec_phase :: recovery_phase
  rec_generation :: u64
  rec_deadline :: u64
  rec_token :: u64

definition recovery_new :: recovery_state where
  "recovery_new = \<lparr>rec_phase = Active, rec_generation = 1, rec_deadline = 0, rec_token = 0\<rparr>"

definition u64_max :: u64 where
  "u64_max = - 1"

definition saturating_deadline :: "u64 \<Rightarrow> u64 \<Rightarrow> u64" where
  "saturating_deadline now grace = (if u64_max - now < grace then u64_max else now + grace)"

definition rec_Suspend :: "u64 \<Rightarrow> u64 \<Rightarrow> u64 \<Rightarrow> recovery_state \<Rightarrow> bool \<times> recovery_state" where
  "rec_Suspend expected now grace s =
     (if rec_phase s \<noteq> Active \<or> rec_generation s \<noteq> expected \<or> rec_token s \<noteq> 0 then (False, s)
      else (True, s\<lparr>rec_deadline := saturating_deadline now grace, rec_phase := Suspended\<rparr>))"

definition CanResume :: "u64 \<Rightarrow> u64 \<Rightarrow> recovery_state \<Rightarrow> bool" where
  "CanResume expected now s \<longleftrightarrow>
     rec_phase s = Suspended \<and> rec_token s = 0 \<and> rec_generation s = expected \<and> now < rec_deadline s"

definition ReserveResume :: "u64 \<Rightarrow> u64 \<Rightarrow> u64 \<Rightarrow> recovery_state \<Rightarrow> bool \<times> recovery_state" where
  "ReserveResume expected now token s =
     (if token = 0 \<or> \<not> CanResume expected now s then (False, s) else (True, s\<lparr>rec_token := token\<rparr>))"

definition CanCommitResume :: "u64 \<Rightarrow> u64 \<Rightarrow> u64 \<Rightarrow> recovery_state \<Rightarrow> bool" where
  "CanCommitResume expected now token s \<longleftrightarrow>
     rec_phase s = Suspended \<and> token \<noteq> 0 \<and> rec_token s = token \<and> rec_generation s = expected \<and>
     now < rec_deadline s"

definition rec_CommitResume :: "u64 \<Rightarrow> u64 \<Rightarrow> u64 \<Rightarrow> recovery_state \<Rightarrow> bool \<times> recovery_state" where
  "rec_CommitResume expected now token s =
     (if \<not> CanCommitResume expected now token s \<or> rec_generation s = u64_max then (False, s)
      else (True, s\<lparr>rec_generation := rec_generation s + 1, rec_deadline := 0, rec_token := 0,
                    rec_phase := Active\<rparr>))"

definition MarkResumeCommitted :: "u64 \<Rightarrow> u64 \<Rightarrow> u64 \<Rightarrow> recovery_state \<Rightarrow> bool \<times> recovery_state" where
  "MarkResumeCommitted token now grace s =
     (if token = 0 \<or> rec_token s \<noteq> token \<or> rec_phase s \<noteq> Suspended then (False, s)
      else let extended = saturating_deadline now grace
           in (True, if rec_deadline s < extended then s\<lparr>rec_deadline := extended\<rparr> else s))"

definition rec_CancelResume :: "u64 \<Rightarrow> recovery_state \<Rightarrow> bool \<times> recovery_state" where
  "rec_CancelResume token s =
     (if token = 0 \<or> rec_token s \<noteq> token \<or> rec_phase s \<noteq> Suspended then (False, s)
      else (True, s\<lparr>rec_token := 0\<rparr>))"

definition IsExpired :: "u64 \<Rightarrow> recovery_state \<Rightarrow> bool \<times> recovery_state" where
  "IsExpired now s =
     (let s = (if rec_phase s = Suspended \<and> rec_deadline s \<le> now
               then s\<lparr>rec_token := 0, rec_phase := Expired\<rparr> else s)
      in (rec_phase s = Expired, s))"

definition IsSuspended :: "u64 \<Rightarrow> recovery_state \<Rightarrow> bool \<times> recovery_state" where
  "IsSuspended now s =
     (case IsExpired now s of (expired, s) \<Rightarrow> (\<not> expired \<and> rec_phase s = Suspended, s))"

section \<open>The exchanger\<close>

type_synonym carrier = nat

record transcript =
  tr_generation :: u64
  tr_client_nonce :: bytes
  tr_server_nonce :: bytes
  tr_binding :: bytes

text \<open>
  \<open>decoded\<close> is the outcome of \<open>DecodeResumeControl\<close> on the received message, \<open>verify\<close> and \<open>proof_ok\<close>
  the proof functions over the retained root, \<open>nonce\<close> the generated server nonce.
\<close>

record resume_env =
  eligible :: bool
  decoded :: "transcript option"
  candidate_binding :: bytes
  verify :: "transcript \<Rightarrow> bool"
  nonce :: "bytes option"
  proof_ok :: "transcript \<Rightarrow> bool"
  echo_ok :: bool
  control_valid :: bool

record resume_host =
  rh_disposed :: bool
  rh_armed :: bool
  rh_root :: bool
  rh_state :: recovery_state
  rh_carrier :: "carrier option"
  rh_attempt :: "transcript option"
  rh_candidate :: "carrier option"
  rh_echo :: bool
  rh_next_token :: u64

definition is_zero :: "bytes \<Rightarrow> bool" where
  "is_zero b \<longleftrightarrow> list_all (\<lambda>x. x = 0) b"

definition zero_nonce :: bytes where
  "zero_nonce = replicate 32 0"

datatype begin_status = Reserved u64 | GenerationSync | Rejected

definition next_token :: "u64 \<Rightarrow> u64" where
  "next_token t = (if t + 1 = 0 then 1 else t + 1)"

definition BeginResume :: "carrier \<Rightarrow> resume_env \<Rightarrow> u64 \<Rightarrow> resume_host \<Rightarrow> begin_status \<times> resume_host" where
  "BeginResume t env now h =
     (case decoded env of
        None \<Rightarrow> (Rejected, h)
      | Some req \<Rightarrow>
          if rh_disposed h \<or> \<not> eligible env \<or> tr_binding req \<noteq> candidate_binding env \<or>
             \<not> is_zero (tr_server_nonce req) then (Rejected, h)
          else if \<not> rh_armed h \<or> \<not> rh_root h \<or> rh_carrier h \<noteq> None \<or> rh_attempt h \<noteq> None then (Rejected, h)
          else
            let (susp, st) = IsSuspended now (rh_state h);
                h = h\<lparr>rh_state := st\<rparr>
            in if \<not> susp \<or> \<not> verify env req then (Rejected, h)
               else
                 let g = rec_generation st; accept = (tr_generation req = g) in
                 if accept \<and> nonce env = None then (Rejected, h)
                 else
                   let resp = \<lparr>tr_generation = g, tr_client_nonce = tr_client_nonce req,
                               tr_server_nonce = (if accept then the (nonce env) else zero_nonce),
                               tr_binding = tr_binding req\<rparr>
                   in if \<not> proof_ok env resp then (Rejected, h)
                      else if \<not> accept then (GenerationSync, h)
                      else
                        let tok = next_token (rh_next_token h);
                            (ok, st) = ReserveResume g now tok (rh_state h);
                            h = h\<lparr>rh_next_token := tok, rh_state := st\<rparr>
                        in if \<not> ok then (Rejected, h)
                           else (Reserved tok, h\<lparr>rh_attempt := Some resp, rh_candidate := Some t\<rparr>))"

definition kResumePublishGraceMs :: u64 where
  "kResumePublishGraceMs = 10000"

definition confirm_matches :: "carrier \<Rightarrow> resume_env \<Rightarrow> u64 \<Rightarrow> u64 \<Rightarrow> transcript \<Rightarrow> resume_host \<Rightarrow> bool" where
  "confirm_matches t env token now conf h \<longleftrightarrow>
     (case rh_attempt h of None \<Rightarrow> False
      | Some acc \<Rightarrow>
          \<not> rh_disposed h \<and> rh_candidate h = Some t \<and> rh_carrier h = None \<and> \<not> rh_echo h \<and>
          CanCommitResume (tr_generation acc) now token (rh_state h) \<and>
          tr_generation conf = tr_generation acc \<and> tr_client_nonce conf = tr_client_nonce acc \<and>
          tr_server_nonce conf = tr_server_nonce acc \<and> tr_binding conf = tr_binding acc \<and>
          verify env conf)"

text \<open>
  The method locks twice: a read-only check, then, once the echo helper exists, the same check again
  with the preparation of the publication. Only the second section changes the state.
\<close>

definition PrepareCommit ::
  "carrier \<Rightarrow> resume_env \<Rightarrow> u64 \<Rightarrow> u64 \<Rightarrow> transcript \<Rightarrow> resume_host \<Rightarrow> bool \<times> resume_host" where
  "PrepareCommit t env token prepare conf h =
     (case rh_attempt h of
        None \<Rightarrow> (False, h)
      | Some acc \<Rightarrow>
          if confirm_matches t env token prepare conf h \<and> tr_generation acc \<noteq> u64_max \<and>
             proof_ok env (acc\<lparr>tr_generation := tr_generation acc + 1\<rparr>) \<and> control_valid env
          then case MarkResumeCommitted token prepare kResumePublishGraceMs (rh_state h) of
                 (True, st) \<Rightarrow> (True, h\<lparr>rh_state := st, rh_echo := True\<rparr>)
               | (False, st) \<Rightarrow> (False, h\<lparr>rh_state := st\<rparr>)
          else (False, h))"

definition CommitResume ::
  "carrier \<Rightarrow> resume_env \<Rightarrow> u64 \<Rightarrow> u64 \<Rightarrow> u64 \<Rightarrow> resume_host \<Rightarrow> bool \<times> resume_host" where
  "CommitResume t env token now tick h =
     (case decoded env of
        None \<Rightarrow> (False, h)
      | Some conf \<Rightarrow>
          if token = 0 \<or> rh_disposed h \<or> \<not> eligible env \<or> tr_binding conf \<noteq> candidate_binding env \<or>
             \<not> confirm_matches t env token now conf h \<or> \<not> echo_ok env then (False, h)
          else PrepareCommit t env token (max now tick) conf h)"

definition PublishCommittedResume :: "carrier \<Rightarrow> u64 \<Rightarrow> u64 \<Rightarrow> resume_host \<Rightarrow> bool \<times> resume_host" where
  "PublishCommittedResume t token now h =
     (if token = 0 \<or> rh_disposed h then (False, h)
      else case rh_attempt h of
        None \<Rightarrow> (False, h)
      | Some acc \<Rightarrow>
          if rh_candidate h = Some t \<and> rh_carrier h = None \<and> rh_echo h \<and>
             CanCommitResume (tr_generation acc) now token (rh_state h)
          then case rec_CommitResume (tr_generation acc) now token (rh_state h) of
                 (True, st) \<Rightarrow> (True, h\<lparr>rh_state := st, rh_echo := False, rh_carrier := Some t,
                                       rh_attempt := None, rh_candidate := None\<rparr>)
               | (False, st) \<Rightarrow> (False, h\<lparr>rh_state := st\<rparr>)
          else (False, h))"

definition CancelResume :: "carrier \<Rightarrow> u64 \<Rightarrow> resume_host \<Rightarrow> resume_host" where
  "CancelResume t token h =
     (if token = 0 \<or> rh_candidate h \<noteq> Some t then h
      else case rec_CancelResume token (rh_state h) of
             (True, st) \<Rightarrow> h\<lparr>rh_state := st, rh_attempt := None, rh_candidate := None, rh_echo := False\<rparr>
           | (False, st) \<Rightarrow> h\<lparr>rh_state := st\<rparr>)"

datatype stop_result = Stop_Stale | Stop_Terminal | Stop_Suspended

text \<open>\<open>recoverable\<close> classifies the error code, \<open>elig\<close> the carrier; \<open>grace\<close> is the configured period.\<close>

definition OnCarrierStopped ::
  "carrier \<Rightarrow> u64 \<Rightarrow> bool \<Rightarrow> bool \<Rightarrow> u64 \<Rightarrow> u64 \<Rightarrow> resume_host \<Rightarrow> stop_result \<times> resume_host" where
  "OnCarrierStopped t generation recoverable elig grace now h =
     (if rec_generation (rh_state h) \<noteq> generation \<or> rh_carrier h \<noteq> Some t then (Stop_Stale, h)
      else
        let (ok, st) = (if rh_disposed h \<or> \<not> elig \<or> \<not> rh_armed h \<or> \<not> rh_root h \<or> rh_attempt h \<noteq> None \<or>
                           \<not> recoverable then (False, rh_state h)
                        else rec_Suspend generation now (if elig then grace else 0) (rh_state h))
        in if \<not> ok
           then (Stop_Terminal, h\<lparr>rh_state := st, rh_root := False, rh_armed := False, rh_attempt := None,
                                  rh_candidate := None\<rparr>)
           else (Stop_Suspended, h\<lparr>rh_state := st, rh_carrier := None\<rparr>))"

definition IsRecoveryExpired :: "u64 \<Rightarrow> resume_host \<Rightarrow> bool \<times> resume_host" where
  "IsRecoveryExpired now h = (case IsExpired now (rh_state h) of (e, st) \<Rightarrow> (e, h\<lparr>rh_state := st\<rparr>))"

text \<open>Disposing the exchanger moves the carrier out and forgets all recovery material.\<close>

definition resume_Finalize :: "resume_host \<Rightarrow> resume_host" where
  "resume_Finalize h =
     h\<lparr>rh_disposed := True, rh_echo := False, rh_carrier := None, rh_root := False, rh_armed := False,
       rh_attempt := None, rh_candidate := None\<rparr>"

section \<open>The establish transaction\<close>

datatype resume_fallback_reason =
  ResumeDisabled | IneligibleCarrier | LookupMiss | BeginRejected | OtherResumeFailure

datatype fallback_decision = Fresh | Reject

definition DecideSessionResumeFallback :: "resume_fallback_reason \<Rightarrow> fallback_decision" where
  "DecideSessionResumeFallback r = (if r = ResumeDisabled then Fresh else Reject)"

datatype transaction_outcome = Resumed | Tx_Rejected | PreserveSuspended | Fatal

text \<open>
  The abstract class of operations, over a state that holds the exchanger and everything the
  operations read from outside. The content of the messages sent does not influence the transaction.
\<close>

record ('h, 'c) resume_ops =
  ReadControl :: "'h \<Rightarrow> 'c option \<times> 'h"
  SendControl :: "'h \<Rightarrow> bool \<times> 'h"
  BeginOp :: "'c \<Rightarrow> 'h \<Rightarrow> begin_status \<times> 'h"
  CommitOp :: "'c \<Rightarrow> u64 \<Rightarrow> 'h \<Rightarrow> bool \<times> 'h"
  PublishOp :: "u64 \<Rightarrow> 'h \<Rightarrow> bool \<times> 'h"
  CancelOp :: "u64 \<Rightarrow> 'h \<Rightarrow> 'h"

text \<open>One pass of the loop after a reservation was made.\<close>

definition finish_attempt ::
  "('h, 'c) resume_ops \<Rightarrow> u64 \<Rightarrow> 'h \<Rightarrow> transaction_outcome \<times> 'h" where
  "finish_attempt ops token h =
     (case SendControl ops h of
        (False, h) \<Rightarrow> (Tx_Rejected, CancelOp ops token h)
      | (True, h) \<Rightarrow>
          (case ReadControl ops h of
             (None, h) \<Rightarrow> (Tx_Rejected, CancelOp ops token h)
           | (Some confirm, h) \<Rightarrow>
               (case CommitOp ops confirm token h of
                  (False, h) \<Rightarrow> (Tx_Rejected, CancelOp ops token h)
                | (True, h) \<Rightarrow>
                    (case SendControl ops h of
                       (False, h) \<Rightarrow> (PreserveSuspended, CancelOp ops token h)
                     | (True, h) \<Rightarrow>
                         (case PublishOp ops token h of
                            (False, h) \<Rightarrow> (Fatal, CancelOp ops token h)
                          | (True, h) \<Rightarrow> (Resumed, h))))))"

text \<open>The loop; the counter is the number of passes left.\<close>

fun resume_loop ::
  "('h, 'c) resume_ops \<Rightarrow> nat \<Rightarrow> 'h \<Rightarrow> (transaction_outcome \<times> resume_fallback_reason) \<times> 'h" where
  "resume_loop ops 0 h = ((Tx_Rejected, OtherResumeFailure), h)"
| "resume_loop ops (Suc n) h =
     (case ReadControl ops h of
        (None, h) \<Rightarrow> ((Tx_Rejected, LookupMiss), h)
      | (Some request, h) \<Rightarrow>
          (case BeginOp ops request h of
             (Rejected, h) \<Rightarrow> ((Tx_Rejected, BeginRejected), h)
           | (GenerationSync, h) \<Rightarrow>
               (case SendControl ops h of
                  (ok, h) \<Rightarrow> if \<not> ok \<or> n = 0 then ((Tx_Rejected, OtherResumeFailure), h)
                             else resume_loop ops n h)
           | (Reserved token, h) \<Rightarrow>
               (case finish_attempt ops token h of (r, h) \<Rightarrow> ((r, OtherResumeFailure), h))))"

definition RunSessionResumeEstablishTransaction ::
  "('h, 'c) resume_ops \<Rightarrow> 'h \<Rightarrow> (transaction_outcome \<times> resume_fallback_reason) \<times> 'h" where
  "RunSessionResumeEstablishTransaction ops h = resume_loop ops 2 h"

text \<open>
  The adapter that the switcher passes: the exchanger, the messages that will be read, the results of
  the writes and the clock readings, all consumed in order.
\<close>

record resume_world =
  w_host :: resume_host
  w_reads :: "resume_env list"
  w_sends :: "bool list"
  w_clock :: "u64 list"

definition tick :: "resume_world \<Rightarrow> u64 \<times> resume_world" where
  "tick w = (case w_clock w of [] \<Rightarrow> (0, w) | c # cs \<Rightarrow> (c, w\<lparr>w_clock := cs\<rparr>))"

definition establish_ops :: "carrier \<Rightarrow> (resume_world, resume_env) resume_ops" where
  "establish_ops t =
     \<lparr>ReadControl = (\<lambda>w. case w_reads w of [] \<Rightarrow> (None, w) | r # rs \<Rightarrow> (Some r, w\<lparr>w_reads := rs\<rparr>)),
      SendControl = (\<lambda>w. case w_sends w of [] \<Rightarrow> (False, w) | b # bs \<Rightarrow> (b, w\<lparr>w_sends := bs\<rparr>)),
      BeginOp = (\<lambda>env w. let (now, w) = tick w; (r, h) = BeginResume t env now (w_host w)
                         in (r, w\<lparr>w_host := h\<rparr>)),
      CommitOp = (\<lambda>env token w. let (now, w) = tick w; (later, w) = tick w;
                                    (r, h) = CommitResume t env token now later (w_host w)
                                in (r, w\<lparr>w_host := h\<rparr>)),
      PublishOp = (\<lambda>token w. let (now, w) = tick w; (r, h) = PublishCommittedResume t token now (w_host w)
                             in (r, w\<lparr>w_host := h\<rparr>)),
      CancelOp = (\<lambda>token w. w\<lparr>w_host := CancelResume t token (w_host w)\<rparr>)\<rparr>"

section \<open>Histories\<close>

datatype resume_call =
  Call_Begin carrier resume_env u64
| Call_Prepare carrier resume_env u64 u64 transcript
| Call_Publish carrier u64 u64
| Call_Cancel carrier u64
| Call_Stop carrier u64 bool bool u64 u64
| Call_Expire u64
| Call_Finalize

text \<open>What a history shows: suspensions, and resumptions with the generation and the carrier.\<close>

datatype resume_event = Ev_Suspended u64 | Ev_Resumed u64 carrier

fun resume_step :: "resume_call \<Rightarrow> resume_host \<times> resume_event list \<Rightarrow> resume_host \<times> resume_event list" where
  "resume_step (Call_Begin t env now) (h, l) = (snd (BeginResume t env now h), l)"
| "resume_step (Call_Prepare t env token now conf) (h, l) = (snd (PrepareCommit t env token now conf h), l)"
| "resume_step (Call_Publish t token now) (h, l) =
     (case PublishCommittedResume t token now h of
        (ok, h') \<Rightarrow> (h', if ok then Ev_Resumed (rec_generation (rh_state h')) t # l else l))"
| "resume_step (Call_Cancel t token) (h, l) = (CancelResume t token h, l)"
| "resume_step (Call_Stop t generation recoverable elig grace now) (h, l) =
     (case OnCarrierStopped t generation recoverable elig grace now h of
        (r, h') \<Rightarrow> (h', if r = Stop_Suspended then Ev_Suspended generation # l else l))"
| "resume_step (Call_Expire now) (h, l) = (snd (IsRecoveryExpired now h), l)"
| "resume_step Call_Finalize (h, l) = (resume_Finalize h, l)"

text \<open>A session whose first carrier has proved itself.\<close>

definition armed_host :: "carrier \<Rightarrow> resume_host" where
  "armed_host t =
     \<lparr>rh_disposed = False, rh_armed = True, rh_root = True, rh_state = recovery_new, rh_carrier = Some t,
      rh_attempt = None, rh_candidate = None, rh_echo = False, rh_next_token = 0\<rparr>"

section \<open>The invariant of the exchanger\<close>

text \<open>
  The trace of a session, newest event first, is an alternation of suspensions and resumptions with
  consecutive generations; the result is the current generation and whether the session is active.
\<close>

fun resume_trace :: "resume_event list \<Rightarrow> (u64 \<times> bool) option" where
  "resume_trace [] = Some (1, True)"
| "resume_trace (Ev_Suspended g # l) =
     (case resume_trace l of Some (g', active) \<Rightarrow> if active \<and> g = g' then Some (g, False) else None
      | None \<Rightarrow> None)"
| "resume_trace (Ev_Resumed g t # l) =
     (case resume_trace l of
        Some (g', active) \<Rightarrow> if \<not> active \<and> g' \<noteq> u64_max \<and> g = g' + 1 then Some (g, True) else None
      | None \<Rightarrow> None)"

text \<open>The carrier that the last resumption installed, or the first one.\<close>

fun last_carrier :: "carrier \<Rightarrow> resume_event list \<Rightarrow> carrier" where
  "last_carrier t0 [] = t0"
| "last_carrier t0 (Ev_Resumed g t # l) = t"
| "last_carrier t0 (Ev_Suspended g # l) = last_carrier t0 l"

definition host_inv :: "resume_host \<Rightarrow> bool" where
  "host_inv h \<longleftrightarrow>
     (rec_phase (rh_state h) \<noteq> Suspended \<longrightarrow> rec_token (rh_state h) = 0) \<and>
     (\<not> rh_disposed h \<longrightarrow>
        (rh_carrier h \<noteq> None \<longleftrightarrow> rec_phase (rh_state h) = Active) \<and>
        (rec_phase (rh_state h) = Active \<longrightarrow> rh_attempt h = None \<and> rh_candidate h = None) \<and>
        (rec_phase (rh_state h) = Suspended \<longrightarrow>
           (rec_token (rh_state h) \<noteq> 0 \<longleftrightarrow> rh_attempt h \<noteq> None) \<and>
           (rh_attempt h \<noteq> None \<longleftrightarrow> rh_candidate h \<noteq> None))) \<and>
     (rh_disposed h \<longrightarrow> rh_carrier h = None \<and> rh_attempt h = None \<and> rh_candidate h = None)"

definition resume_inv :: "carrier \<Rightarrow> resume_host \<times> resume_event list \<Rightarrow> bool" where
  "resume_inv t0 hl \<longleftrightarrow>
     (case hl of (h, l) \<Rightarrow>
        host_inv h \<and>
        resume_trace l = Some (rec_generation (rh_state h), rec_phase (rh_state h) = Active) \<and>
        (rh_carrier h = None \<or> rh_carrier h = Some (last_carrier t0 l)))"

text \<open>
  A call that leaves the generation, the carrier and the activity of the session alone keeps the whole
  invariant as soon as it keeps the local one.
\<close>

lemma resume_inv_quiet:
  assumes "resume_inv t0 (h, l)" "host_inv h'"
    and "rec_generation (rh_state h') = rec_generation (rh_state h)"
    and "(rec_phase (rh_state h') = Active) = (rec_phase (rh_state h) = Active)"
    and "rh_carrier h' = rh_carrier h \<or> rh_carrier h' = None"
  shows "resume_inv t0 (h', l)"
  using assms by (auto simp: resume_inv_def)

lemmas recovery_defs = rec_Suspend_def CanResume_def ReserveResume_def CanCommitResume_def
  rec_CommitResume_def MarkResumeCommitted_def rec_CancelResume_def IsExpired_def IsSuspended_def Let_def

lemma IsSuspended_result:
  "IsSuspended now s = (b, s') \<Longrightarrow>
     rec_generation s' = rec_generation s \<and> (rec_phase s' = Active) = (rec_phase s = Active) \<and>
     (b \<longrightarrow> s' = s \<and> rec_phase s = Suspended) \<and>
     (s' = s \<or> rec_phase s = Suspended \<and> rec_phase s' = Expired \<and> rec_token s' = 0)"
  by (auto simp: recovery_defs split: if_splits)

text \<open>
  The two things a call to \<open>BeginResume\<close> can do: at most let the suspension expire, or reserve.
\<close>

definition begin_quiet :: "resume_host \<Rightarrow> resume_host \<Rightarrow> bool" where
  "begin_quiet h h' \<longleftrightarrow>
     (\<exists>st tok. h' = h\<lparr>rh_state := st, rh_next_token := tok\<rparr> \<and>
        (st = rh_state h \<or>
         (rec_phase (rh_state h) = Suspended \<and> rec_phase st = Expired \<and> rec_token st = 0 \<and>
          rec_generation st = rec_generation (rh_state h) \<and> rh_carrier h = None \<and> rh_attempt h = None)))"

definition begin_reserve :: "carrier \<Rightarrow> u64 \<Rightarrow> resume_host \<Rightarrow> resume_host \<Rightarrow> bool" where
  "begin_reserve t tok h h' \<longleftrightarrow>
     tok \<noteq> 0 \<and> rec_phase (rh_state h) = Suspended \<and> \<not> rh_disposed h \<and> rh_carrier h = None \<and>
     rh_attempt h = None \<and> rec_token (rh_state h) = 0 \<and>
     (\<exists>resp. tr_generation resp = rec_generation (rh_state h) \<and>
        h' = h\<lparr>rh_next_token := tok, rh_state := (rh_state h)\<lparr>rec_token := tok\<rparr>, rh_attempt := Some resp,
               rh_candidate := Some t\<rparr>)"

lemma begin_quiet_refl: "begin_quiet h h" "begin_quiet h (h\<lparr>rh_next_token := tok\<rparr>)"
proof -
  have "h\<lparr>rh_next_token := tok\<rparr> = h\<lparr>rh_state := rh_state h, rh_next_token := tok\<rparr>" for tok by simp
  then show "begin_quiet h (h\<lparr>rh_next_token := tok\<rparr>)" for tok unfolding begin_quiet_def by blast
  from this [of "rh_next_token h"] show "begin_quiet h h" by simp
qed

lemma BeginResume_effect:
  "case BeginResume t env now h of
     (Reserved tok, h') \<Rightarrow> begin_reserve t tok h h'
   | (_, h') \<Rightarrow> begin_quiet h h'"
proof (cases "decoded env")
  case None
  then show ?thesis by (simp add: BeginResume_def begin_quiet_refl)
next
  case (Some req)
  obtain b st where s: "IsSuspended now (rh_state h) = (b, st)" by fastforce
  note r = IsSuspended_result [OF s]
  have q: "begin_quiet h (h\<lparr>rh_state := st\<rparr>)" if "rh_carrier h = None" "rh_attempt h = None"
  proof -
    have "h\<lparr>rh_state := st\<rparr> = h\<lparr>rh_state := st, rh_next_token := rh_next_token h\<rparr>" by simp
    then show ?thesis unfolding begin_quiet_def using r that by blast
  qed
  define P where "P x \<longleftrightarrow> (case x of (Reserved tok, h') \<Rightarrow> begin_reserve t tok h h' | (_, h') \<Rightarrow> begin_quiet h h')" for x
  have P: "P (Rejected, k) = begin_quiet h k" "P (GenerationSync, k) = begin_quiet h k"
    "P (Reserved tok, k) = begin_reserve t tok h k" for k tok by (simp_all add: P_def)
  have tok: "next_token x \<noteq> 0" for x by (simp add: next_token_def)
  have st: "st = rh_state h" "rec_phase (rh_state h) = Suspended" if b using r that by auto
  have q': "begin_quiet h (h\<lparr>rh_next_token := tok, rh_state := rh_state h\<rparr>)" for tok
    using begin_quiet_refl(2) [of h tok] by simp
  have "P (BeginResume t env now h)"
    using q st
    by (simp add: BeginResume_def Some s Let_def P begin_quiet_refl ReserveResume_def CanResume_def tok
          begin_reserve_def q')
       (intro impI, rule exI, rule conjI [rotated], rule refl, simp)
  then show ?thesis by (simp add: P_def)
qed

lemma begin_quiet_inv:
  assumes "begin_quiet h h'" "host_inv h"
  shows "host_inv h' \<and> rec_generation (rh_state h') = rec_generation (rh_state h) \<and>
    (rec_phase (rh_state h') = Active) = (rec_phase (rh_state h) = Active) \<and> rh_carrier h' = rh_carrier h \<and>
    rh_attempt h' = rh_attempt h \<and> rh_candidate h' = rh_candidate h \<and> rh_disposed h' = rh_disposed h \<and>
    (rec_token (rh_state h) = 0 \<longrightarrow> rec_token (rh_state h') = 0)"
proof -
  from assms(1) obtain st tok where h': "h' = h\<lparr>rh_state := st, rh_next_token := tok\<rparr>"
    and st: "st = rh_state h \<or>
      (rec_phase (rh_state h) = Suspended \<and> rec_phase st = Expired \<and> rec_token st = 0 \<and>
       rec_generation st = rec_generation (rh_state h) \<and> rh_carrier h = None \<and> rh_attempt h = None)"
    by (auto simp only: begin_quiet_def)
  from st show ?thesis
    by (elim disjE conjE) (use assms(2) in \<open>simp_all add: h' host_inv_def\<close>)
qed

lemma begin_reserve_inv:
  assumes "begin_reserve t tok h h'" "host_inv h"
  shows "host_inv h' \<and> rec_generation (rh_state h') = rec_generation (rh_state h) \<and>
    rec_phase (rh_state h') = Suspended \<and> rec_phase (rh_state h) = Suspended \<and> rh_carrier h' = None \<and>
    rh_candidate h' = Some t \<and> rec_token (rh_state h') = tok \<and> \<not> rh_disposed h'"
  using assms unfolding begin_reserve_def by (elim exE conjE) (simp add: host_inv_def)

lemma PrepareCommit_cases:
  "snd (PrepareCommit t env token now conf h) = h \<or>
   (\<exists>d. snd (PrepareCommit t env token now conf h) =
      h\<lparr>rh_state := (rh_state h)\<lparr>rec_deadline := d\<rparr>, rh_echo := True\<rparr>)"
proof -
  define Q where "Q k \<longleftrightarrow> k = h \<or> (\<exists>d. k = h\<lparr>rh_state := (rh_state h)\<lparr>rec_deadline := d\<rparr>, rh_echo := True\<rparr>)" for k
  have "h\<lparr>rh_echo := True\<rparr> =
      h\<lparr>rh_state := (rh_state h)\<lparr>rec_deadline := rec_deadline (rh_state h)\<rparr>, rh_echo := True\<rparr>" by simp
  then have Q: "Q h" "Q (h\<lparr>rh_echo := True\<rparr>)"
    "Q (h\<lparr>rh_state := (rh_state h)\<lparr>rec_deadline := d\<rparr>, rh_echo := True\<rparr>)" for d
    unfolding Q_def by blast+
  have "Q (snd (PrepareCommit t env token now conf h))"
    by (simp add: PrepareCommit_def MarkResumeCommitted_def Let_def Q split: option.split)
  then show ?thesis by (simp add: Q_def)
qed

lemma PrepareCommit_inv:
  assumes "host_inv h" "k = snd (PrepareCommit t env token now conf h)"
  shows "host_inv k \<and> rec_generation (rh_state k) = rec_generation (rh_state h) \<and>
    rec_phase (rh_state k) = rec_phase (rh_state h) \<and> rec_token (rh_state k) = rec_token (rh_state h) \<and>
    rh_carrier k = rh_carrier h \<and> rh_candidate k = rh_candidate h \<and> rh_disposed k = rh_disposed h"
  using PrepareCommit_cases [of t env token now conf h, folded assms(2)]
  by (elim disjE exE) (use assms(1) in \<open>simp_all add: host_inv_def\<close>)

lemma Publish_cases:
  assumes "PublishCommittedResume t token now h = (ok, h')"
  shows "(\<not> ok \<and> h' = h) \<or>
    (ok \<and> \<not> rh_disposed h \<and> rec_phase (rh_state h) = Suspended \<and> rec_token (rh_state h) = token \<and> token \<noteq> 0 \<and>
     rh_candidate h = Some t \<and> rh_carrier h = None \<and> rec_generation (rh_state h) \<noteq> u64_max \<and>
     now < rec_deadline (rh_state h) \<and>
     h' = h\<lparr>rh_state := \<lparr>rec_phase = Active, rec_generation = rec_generation (rh_state h) + 1, rec_deadline = 0,
                         rec_token = 0\<rparr>,
            rh_echo := False, rh_carrier := Some t, rh_attempt := None, rh_candidate := None\<rparr>)"
  using assms
  by (auto simp: PublishCommittedResume_def rec_CommitResume_def CanCommitResume_def split: option.splits if_splits)

lemma Cancel_cases:
  "CancelResume t token h = h \<or>
   (rec_phase (rh_state h) = Suspended \<and> rec_token (rh_state h) = token \<and> rh_candidate h = Some t \<and>
    CancelResume t token h =
      h\<lparr>rh_state := (rh_state h)\<lparr>rec_token := 0\<rparr>, rh_attempt := None, rh_candidate := None, rh_echo := False\<rparr>)"
  by (auto simp: CancelResume_def rec_CancelResume_def)

lemma Stop_cases:
  assumes "OnCarrierStopped t g recoverable elig grace now h = (r, h')"
  shows "(r = Stop_Stale \<and> h' = h) \<or>
    (r = Stop_Terminal \<and> rh_carrier h = Some t \<and>
     h' = h\<lparr>rh_root := False, rh_armed := False, rh_attempt := None, rh_candidate := None\<rparr>) \<or>
    (r = Stop_Suspended \<and> rec_generation (rh_state h) = g \<and> rh_carrier h = Some t \<and> \<not> rh_disposed h \<and>
     rec_phase (rh_state h) = Active \<and> rec_token (rh_state h) = 0 \<and> rh_attempt h = None \<and>
     h' = h\<lparr>rh_state := (rh_state h)\<lparr>rec_deadline := saturating_deadline now grace, rec_phase := Suspended\<rparr>,
            rh_carrier := None\<rparr>)"
  using assms
  by (auto simp: OnCarrierStopped_def rec_Suspend_def split: if_splits)

lemma resume_Begin_inv:
  assumes inv: "resume_inv t0 (h, l)"
  shows "resume_inv t0 (snd (BeginResume t env now h), l)"
proof -
  have h: "host_inv h" using inv by (simp add: resume_inv_def)
  obtain r h' where b: "BeginResume t env now h = (r, h')" by fastforce
  consider (res) tok where "begin_reserve t tok h h'" | (quiet) "begin_quiet h h'"
    using BeginResume_effect [where t = t and env = env and now = now and h = h] b
    by (cases r) auto
  then have "resume_inv t0 (h', l)"
  proof cases
    case (res tok)
    from begin_reserve_inv [OF res h] show ?thesis by (intro resume_inv_quiet [OF inv]) simp_all
  next
    case quiet
    from begin_quiet_inv [OF quiet h] show ?thesis by (intro resume_inv_quiet [OF inv]) simp_all
  qed
  then show ?thesis by (simp add: b)
qed

lemma resume_Publish_inv:
  assumes inv: "resume_inv t0 (h, l)" and p: "PublishCommittedResume t token now h = (ok, h')"
  shows "resume_inv t0 (h', if ok then Ev_Resumed (rec_generation (rh_state h')) t # l else l)"
  using Publish_cases [OF p]
proof (elim disjE conjE)
  assume "\<not> ok" "h' = h" then show ?thesis using inv by simp
next
  assume "rec_phase (rh_state h) = Suspended" "rec_generation (rh_state h) \<noteq> u64_max" "\<not> rh_disposed h" ok
    "h' = h\<lparr>rh_state := \<lparr>rec_phase = Active, rec_generation = rec_generation (rh_state h) + 1, rec_deadline = 0,
                         rec_token = 0\<rparr>,
            rh_echo := False, rh_carrier := Some t, rh_attempt := None, rh_candidate := None\<rparr>"
  then show ?thesis using inv by (simp add: resume_inv_def host_inv_def)
qed

lemma resume_Cancel_inv:
  assumes inv: "resume_inv t0 (h, l)"
  shows "resume_inv t0 (CancelResume t token h, l)"
  using Cancel_cases [of t token h]
proof (elim disjE conjE)
  assume "CancelResume t token h = h" then show ?thesis using inv by simp
next
  assume s: "rec_phase (rh_state h) = Suspended"
    and eq: "CancelResume t token h =
      h\<lparr>rh_state := (rh_state h)\<lparr>rec_token := 0\<rparr>, rh_attempt := None, rh_candidate := None, rh_echo := False\<rparr>"
  show ?thesis unfolding eq
    by (rule resume_inv_quiet [OF inv]) (use inv s in \<open>simp_all add: resume_inv_def host_inv_def\<close>)
qed

lemma resume_Stop_inv:
  assumes inv: "resume_inv t0 (h, l)" and s: "OnCarrierStopped t g recoverable elig grace now h = (r, h')"
  shows "resume_inv t0 (h', if r = Stop_Suspended then Ev_Suspended g # l else l)"
  using Stop_cases [OF s]
proof (elim disjE conjE)
  assume "r = Stop_Stale" "h' = h" then show ?thesis using inv by simp
next
  assume r: "r = Stop_Terminal" and c: "rh_carrier h = Some t"
    and h': "h' = h\<lparr>rh_root := False, rh_armed := False, rh_attempt := None, rh_candidate := None\<rparr>"
  have "host_inv h'" using inv c by (simp add: h' resume_inv_def host_inv_def)
  then have "resume_inv t0 (h', l)" by (rule resume_inv_quiet [OF inv]) (simp_all add: h')
  then show ?thesis by (simp add: r)
next
  assume "r = Stop_Suspended" "rec_generation (rh_state h) = g" "\<not> rh_disposed h" "rh_attempt h = None"
    "rec_phase (rh_state h) = Active" "rec_token (rh_state h) = 0"
    "h' = h\<lparr>rh_state := (rh_state h)\<lparr>rec_deadline := saturating_deadline now grace, rec_phase := Suspended\<rparr>,
            rh_carrier := None\<rparr>"
  then show ?thesis using inv by (simp add: resume_inv_def host_inv_def)
qed

lemma resume_Expire_inv:
  assumes inv: "resume_inv t0 (h, l)"
  shows "resume_inv t0 (snd (IsRecoveryExpired now h), l)"
  by (rule resume_inv_quiet [OF inv])
     (use inv in \<open>simp_all add: IsRecoveryExpired_def IsExpired_def Let_def resume_inv_def host_inv_def\<close>)

lemma resume_Finalize_inv:
  assumes inv: "resume_inv t0 (h, l)"
  shows "resume_inv t0 (resume_Finalize h, l)"
  by (rule resume_inv_quiet [OF inv])
     (use inv in \<open>simp_all add: resume_Finalize_def resume_inv_def host_inv_def\<close>)

lemma resume_step_inv: "resume_inv t0 hl \<Longrightarrow> resume_inv t0 (resume_step c hl)"
proof -
  assume inv: "resume_inv t0 hl"
  obtain h l where hl: "hl = (h, l)" by fastforce
  note inv = inv [unfolded hl]
  have h: "host_inv h" using inv by (simp add: resume_inv_def)
  show ?thesis unfolding hl
  proof (cases c)
    case (Call_Prepare t env token now conf)
    from PrepareCommit_inv [OF h refl, of t env token now conf]
    show "resume_inv t0 (resume_step c (h, l))"
      unfolding Call_Prepare resume_step.simps by (intro resume_inv_quiet [OF inv]) simp_all
  next
    case (Call_Publish t token now)
    show "resume_inv t0 (resume_step c (h, l))"
      using resume_Publish_inv [OF inv] by (cases "PublishCommittedResume t token now h") (simp add: Call_Publish)
  next
    case (Call_Stop t g recoverable elig grace now)
    show "resume_inv t0 (resume_step c (h, l))"
      using resume_Stop_inv [OF inv]
      by (cases "OnCarrierStopped t g recoverable elig grace now h") (simp add: Call_Stop)
  qed (simp_all add: inv resume_Begin_inv resume_Cancel_inv resume_Expire_inv resume_Finalize_inv)
qed

interpretation resume: guarded_machine "(armed_host t0, [])" resume_step "resume_inv t0" for t0
  by unfold_locales
     (simp_all add: resume_step_inv, simp add: resume_inv_def host_inv_def armed_host_def recovery_new_def)

section \<open>The contract of the transaction\<close>

definition settled :: "('h \<Rightarrow> bool) \<Rightarrow> ('h \<Rightarrow> bool) \<Rightarrow> transaction_outcome \<times> 'h \<Rightarrow> bool" where
  "settled idle live r \<longleftrightarrow> (if fst r = Resumed then live (snd r) else idle (snd r))"

lemma settled_simps [simp]:
  "settled idle live (Resumed, h) = live h" "settled idle live (Tx_Rejected, h) = idle h"
  "settled idle live (PreserveSuspended, h) = idle h" "settled idle live (Fatal, h) = idle h"
  by (simp_all add: settled_def)

text \<open>
  What the transaction relies on, over an arbitrary implementation of the operations. \<open>idle\<close> states
  have no reservation of this candidate, \<open>owns\<close> names the token of its reservation, \<open>live\<close> states
  run on the candidate. Reading and writing control messages changes none of them.
\<close>

locale resume_service =
  fixes ops :: "('h, 'c) resume_ops"
    and idle :: "'h \<Rightarrow> bool" and owns :: "u64 \<Rightarrow> 'h \<Rightarrow> bool" and live :: "'h \<Rightarrow> bool"
  assumes read_idle: "idle h \<Longrightarrow> idle (snd (ReadControl ops h))"
    and read_owns: "owns tok h \<Longrightarrow> owns tok (snd (ReadControl ops h))"
    and send_idle: "idle h \<Longrightarrow> idle (snd (SendControl ops h))"
    and send_owns: "owns tok h \<Longrightarrow> owns tok (snd (SendControl ops h))"
    and begin_reserves: "idle h \<Longrightarrow> BeginOp ops c h = (Reserved tok, h') \<Longrightarrow> owns tok h'"
    and begin_idle: "idle h \<Longrightarrow> BeginOp ops c h = (r, h') \<Longrightarrow> r = GenerationSync \<or> r = Rejected \<Longrightarrow> idle h'"
    and commit_owns: "owns tok h \<Longrightarrow> owns tok (snd (CommitOp ops c tok h))"
    and publish_live: "owns tok h \<Longrightarrow> PublishOp ops tok h = (True, h') \<Longrightarrow> live h'"
    and publish_owns: "owns tok h \<Longrightarrow> PublishOp ops tok h = (False, h') \<Longrightarrow> owns tok h'"
    and cancel_idle: "owns tok h \<Longrightarrow> idle (CancelOp ops tok h)"
begin

lemma finish_settles:
  assumes "owns tok h"
  shows "settled idle live (finish_attempt ops tok h)"
proof -
  obtain b1 h1 where 1: "SendControl ops h = (b1, h1)" by fastforce
  with send_owns assms have o1: "owns tok h1" by fastforce
  obtain c h2 where 2: "ReadControl ops h1 = (c, h2)" by fastforce
  with read_owns o1 have o2: "owns tok h2" by fastforce
  show ?thesis
  proof (cases c)
    case None
    then show ?thesis using 1 2 o1 o2 cancel_idle by (cases b1) (simp_all add: finish_attempt_def)
  next
    case (Some confirm)
    obtain b3 h3 where 3: "CommitOp ops confirm tok h2 = (b3, h3)" by fastforce
    with commit_owns [OF o2, of confirm] have o3: "owns tok h3" by simp
    obtain b4 h4 where 4: "SendControl ops h3 = (b4, h4)" by fastforce
    with send_owns o3 have o4: "owns tok h4" by fastforce
    obtain b5 h5 where 5: "PublishOp ops tok h4 = (b5, h5)" by fastforce
    show ?thesis
      using 1 2 3 4 5 Some o1 o3 o4 cancel_idle publish_live [OF o4, of h5] publish_owns [OF o4, of h5]
      by (cases b1; cases b3; cases b4; cases b5) (simp_all add: finish_attempt_def)
  qed
qed

lemma loop_settles:
  "idle h \<Longrightarrow> resume_loop ops n h = ((r, reason), h') \<Longrightarrow> settled idle live (r, h')"
proof (induction n arbitrary: h)
  case 0
  then show ?case by (auto simp: settled_def)
next
  case (Suc n)
  obtain c h1 where 1: "ReadControl ops h = (c, h1)" by fastforce
  with read_idle Suc.prems(1) have i1: "idle h1" by fastforce
  show ?case
  proof (cases c)
    case None
    then show ?thesis using 1 i1 Suc.prems(2) by auto
  next
    case (Some request)
    obtain st h2 where 2: "BeginOp ops request h1 = (st, h2)" by fastforce
    show ?thesis
    proof (cases st)
      case (Reserved tok)
      then have "settled idle live (finish_attempt ops tok h2)" using begin_reserves [OF i1] 2 finish_settles by blast
      then show ?thesis using Suc.prems(2) 1 2 Some Reserved by (auto split: prod.splits)
    next
      case GenerationSync
      then have i2: "idle h2" using begin_idle [OF i1 2] by simp
      obtain ok h3 where 3: "SendControl ops h2 = (ok, h3)" by fastforce
      with send_idle i2 have "idle h3" by fastforce
      then show ?thesis using Suc 1 2 3 Some GenerationSync by (auto split: if_splits)
    next
      case Rejected
      then have "idle h2" using begin_idle [OF i1 2] by simp
      then show ?thesis using Suc.prems(2) 1 2 Some Rejected by auto
    qed
  qed
qed

end

text \<open>The exchanger provides these operations.\<close>

definition world_idle :: "u64 \<Rightarrow> resume_world \<Rightarrow> bool" where
  "world_idle g w \<longleftrightarrow> host_inv (w_host w) \<and> rec_token (rh_state (w_host w)) = 0 \<and>
     rh_carrier (w_host w) = None \<and> rec_generation (rh_state (w_host w)) = g"

definition world_owns :: "u64 \<Rightarrow> carrier \<Rightarrow> u64 \<Rightarrow> resume_world \<Rightarrow> bool" where
  "world_owns g t tok w \<longleftrightarrow> host_inv (w_host w) \<and> \<not> rh_disposed (w_host w) \<and> tok \<noteq> 0 \<and>
     rec_phase (rh_state (w_host w)) = Suspended \<and> rec_token (rh_state (w_host w)) = tok \<and>
     rh_candidate (w_host w) = Some t \<and> rh_carrier (w_host w) = None \<and>
     rec_generation (rh_state (w_host w)) = g"

definition world_live :: "u64 \<Rightarrow> carrier \<Rightarrow> resume_world \<Rightarrow> bool" where
  "world_live g t w \<longleftrightarrow> host_inv (w_host w) \<and> rec_token (rh_state (w_host w)) = 0 \<and>
     rec_phase (rh_state (w_host w)) = Active \<and> rh_carrier (w_host w) = Some t \<and>
     rec_generation (rh_state (w_host w)) = g + 1"

lemma tick_host [simp]: "w_host (snd (tick w)) = w_host w"
  by (simp add: tick_def split: list.split)

lemma world_tick [simp]:
  "world_idle g (snd (tick w)) = world_idle g w" "world_owns g t tok (snd (tick w)) = world_owns g t tok w"
  by (simp_all add: world_idle_def world_owns_def)

text \<open>The operations of the adapter in terms of the exchanger.\<close>

lemma establish_op_simps:
  "BeginOp (establish_ops t) env w =
     (case BeginResume t env (fst (tick w)) (w_host (snd (tick w))) of (r, h) \<Rightarrow> (r, (snd (tick w))\<lparr>w_host := h\<rparr>))"
  "snd (CommitOp (establish_ops t) env tok w) = (snd (tick (snd (tick w))))\<lparr>w_host := snd (CommitResume t env tok
     (fst (tick w)) (fst (tick (snd (tick w)))) (w_host (snd (tick (snd (tick w))))))\<rparr>"
  "PublishOp (establish_ops t) tok w =
     (case PublishCommittedResume t tok (fst (tick w)) (w_host (snd (tick w))) of
        (r, h) \<Rightarrow> (r, (snd (tick w))\<lparr>w_host := h\<rparr>))"
  "CancelOp (establish_ops t) tok w = w\<lparr>w_host := CancelResume t tok (w_host w)\<rparr>"
  by (simp_all add: establish_ops_def Let_def case_prod_beta)

lemma establish_io:
  "w_host (snd (ReadControl (establish_ops t) w)) = w_host w"
  "w_host (snd (SendControl (establish_ops t) w)) = w_host w"
  by (simp_all add: establish_ops_def split: list.split)

lemma establish_io_keeps:
  "world_idle g (snd (ReadControl (establish_ops t) w)) = world_idle g w"
  "world_owns g u tok (snd (ReadControl (establish_ops t) w)) = world_owns g u tok w"
  "world_idle g (snd (SendControl (establish_ops t) w)) = world_idle g w"
  "world_owns g u tok (snd (SendControl (establish_ops t) w)) = world_owns g u tok w"
  by (simp_all add: world_idle_def world_owns_def establish_io)

lemma Begin_idle_reserves:
  assumes "world_idle g w" "BeginResume t env now (w_host w) = (Reserved tok, h')"
  shows "world_owns g t tok (w\<lparr>w_host := h'\<rparr>)"
proof -
  have "begin_reserve t tok (w_host w) h'"
    using BeginResume_effect [where t = t and env = env and now = now and h = "w_host w"] assms(2) by simp
  moreover have "tok \<noteq> 0" using \<open>begin_reserve t tok (w_host w) h'\<close> by (simp add: begin_reserve_def)
  ultimately show ?thesis
    using begin_reserve_inv [of t tok "w_host w" h'] assms(1) by (simp add: world_idle_def world_owns_def)
qed

lemma Begin_idle_quiet:
  assumes "world_idle g w" "BeginResume t env now (w_host w) = (r, h')" "r = GenerationSync \<or> r = Rejected"
  shows "world_idle g (w\<lparr>w_host := h'\<rparr>)"
proof -
  have "begin_quiet (w_host w) h'"
    using BeginResume_effect [where t = t and env = env and now = now and h = "w_host w"] assms(2,3) by auto
  then show ?thesis
    using begin_quiet_inv [of "w_host w" h'] assms(1) by (simp add: world_idle_def)
qed

lemma Commit_keeps:
  assumes "world_owns g t tok w"
  shows "world_owns g t tok (w\<lparr>w_host := snd (CommitResume t env tok' now later (w_host w))\<rparr>)"
proof -
  have h: "host_inv (w_host w)" using assms by (simp add: world_owns_def)
  have "world_owns g t tok (w\<lparr>w_host := snd (PrepareCommit t env tok' n conf (w_host w))\<rparr>)" for n conf
    using PrepareCommit_inv [OF h refl, of t env tok' n conf] assms by (simp add: world_owns_def)
  moreover have "world_owns g t tok (w\<lparr>w_host := w_host w\<rparr>)" using assms by (simp add: world_owns_def)
  ultimately show ?thesis by (simp add: CommitResume_def Let_def split: option.split)
qed

lemma Publish_settles:
  assumes "world_owns g t tok w" "PublishCommittedResume t tok now (w_host w) = (ok, h')"
  shows "if ok then world_live g t (w\<lparr>w_host := h'\<rparr>) else world_owns g t tok (w\<lparr>w_host := h'\<rparr>)"
  using Publish_cases [OF assms(2)]
proof (elim disjE conjE)
  assume "\<not> ok" "h' = w_host w" then show ?thesis using assms(1) by simp
next
  assume ok "\<not> rh_disposed (w_host w)" and h': "h' = (w_host w)\<lparr>rh_state := \<lparr>rec_phase = Active,
      rec_generation = rec_generation (rh_state (w_host w)) + 1, rec_deadline = 0, rec_token = 0\<rparr>,
      rh_echo := False, rh_carrier := Some t, rh_attempt := None, rh_candidate := None\<rparr>"
  then show ?thesis using assms(1) by (simp add: world_live_def world_owns_def host_inv_def)
qed

lemma Cancel_idles:
  assumes "world_owns g t tok w"
  shows "world_idle g (w\<lparr>w_host := CancelResume t tok (w_host w)\<rparr>)"
proof -
  have "CancelResume t tok (w_host w) = (w_host w)\<lparr>rh_state := (rh_state (w_host w))\<lparr>rec_token := 0\<rparr>,
      rh_attempt := None, rh_candidate := None, rh_echo := False\<rparr>"
    using assms by (simp add: world_owns_def CancelResume_def rec_CancelResume_def)
  then show ?thesis using assms by (simp add: world_owns_def world_idle_def host_inv_def)
qed

interpretation establish: resume_service "establish_ops t" "world_idle g" "world_owns g t" "world_live g t" for g t
proof
  fix w w' :: resume_world and tok :: u64 and env :: resume_env and r
  show "world_owns g t tok w'" if i: "world_idle g w" and b: "BeginOp (establish_ops t) env w = (Reserved tok, w')"
    using b Begin_idle_reserves [of g "snd (tick w)" t env "fst (tick w)" tok] i
    unfolding establish_op_simps by (simp only: world_tick split: prod.splits) simp
  show "world_idle g w'" if i: "world_idle g w" and b: "BeginOp (establish_ops t) env w = (r, w')"
    and r: "r = GenerationSync \<or> r = Rejected"
    using b Begin_idle_quiet [of g "snd (tick w)" t env "fst (tick w)" r] i r
    unfolding establish_op_simps by (simp only: world_tick split: prod.splits) simp
  show "world_owns g t tok (snd (CommitOp (establish_ops t) env tok w))" if "world_owns g t tok w"
    unfolding establish_op_simps by (rule Commit_keeps) (use that in simp)
  show "world_live g t w'" if o: "world_owns g t tok w" and p: "PublishOp (establish_ops t) tok w = (True, w')"
    using p Publish_settles [of g t tok "snd (tick w)" "fst (tick w)" True] o
    unfolding establish_op_simps by (simp only: world_tick split: prod.splits) simp
  show "world_owns g t tok w'" if o: "world_owns g t tok w" and p: "PublishOp (establish_ops t) tok w = (False, w')"
    using p Publish_settles [of g t tok "snd (tick w)" "fst (tick w)" False] o
    unfolding establish_op_simps by (simp only: world_tick split: prod.splits) simp
  show "world_idle g (CancelOp (establish_ops t) tok w)" if "world_owns g t tok w"
    unfolding establish_op_simps by (rule Cancel_idles [OF that])
qed (simp_all only: establish_io_keeps)

section \<open>Properties\<close>

definition resume_run :: "carrier \<Rightarrow> resume_call list \<Rightarrow> resume_host \<times> resume_event list" where
  "resume_run t0 calls = fold resume_step calls (armed_host t0, [])"

lemma resume_run_inv: "resume_inv t0 (resume_run t0 calls)"
  unfolding resume_run_def by (rule resume.run_inv)

text \<open>A network on which every check passes, for a message with the given fields.\<close>

definition good_env :: "transcript \<Rightarrow> resume_env" where
  "good_env f = \<lparr>eligible = True, decoded = Some f, candidate_binding = tr_binding f, verify = (\<lambda>_. True),
     nonce = Some [7], proof_ok = (\<lambda>_. True), echo_ok = True, control_valid = True\<rparr>"

definition example_request :: transcript where
  "example_request = \<lparr>tr_generation = 1, tr_client_nonce = [1], tr_server_nonce = [], tr_binding = [2]\<rparr>"

definition example_confirm :: transcript where
  "example_confirm = \<lparr>tr_generation = 1, tr_client_nonce = [1], tr_server_nonce = [7], tr_binding = [2]\<rparr>"

definition example_stop :: "resume_call list" where
  "example_stop = [Call_Stop 5 1 True True 1000 10]"

definition example_calls :: "resume_call list" where
  "example_calls =
     example_stop @ [Call_Begin 6 (good_env example_request) 20,
      Call_Prepare 6 (good_env example_confirm) 1 30 example_confirm, Call_Publish 6 1 40]"

lemmas resume_eval = armed_host_def recovery_new_def OnCarrierStopped_def rec_Suspend_def
  saturating_deadline_def u64_max_def BeginResume_def IsSuspended_def IsExpired_def ReserveResume_def
  CanResume_def next_token_def is_zero_def PrepareCommit_def confirm_matches_def CanCommitResume_def
  MarkResumeCommitted_def kResumePublishGraceMs_def PublishCommittedResume_def rec_CommitResume_def
  good_env_def example_request_def example_confirm_def Let_def

lemma example_run:
  "resume_run 5 example_stop =
     (\<lparr>rh_disposed = False, rh_armed = True, rh_root = True,
       rh_state = \<lparr>rec_phase = Suspended, rec_generation = 1, rec_deadline = 1010, rec_token = 0\<rparr>,
       rh_carrier = None, rh_attempt = None, rh_candidate = None, rh_echo = False, rh_next_token = 0\<rparr>,
      [Ev_Suspended 1])"
  "snd (resume_run 5 example_calls) = [Ev_Resumed 2 6, Ev_Suspended 1]"
  "rh_carrier (fst (resume_run 5 example_calls)) = Some 6"
  by (simp_all add: resume_run_def example_calls_def example_stop_def resume_eval)

text \<open>
  C17. A session has one carrier, and each suspension is resumed at most once. Whatever the sequence of
  stops, begins, commits, publications, cancellations and expiries, of any carriers and with any tokens
  and clock values: suspensions and resumptions alternate, every resumption raises the generation by
  exactly one, and the generation is that of the last resumption. A live exchanger has a carrier exactly
  when it is active, and it is the carrier that was published last.
\<close>

theorem resume_alternates:
  "case resume_run t0 calls of (h, l) \<Rightarrow>
     resume_trace l = Some (rec_generation (rh_state h), rec_phase (rh_state h) = Active) \<and>
     (rh_carrier h = None \<or> rh_carrier h = Some (last_carrier t0 l)) \<and>
     (\<not> rh_disposed h \<longrightarrow> (rh_carrier h \<noteq> None \<longleftrightarrow> rec_phase (rh_state h) = Active))"
  using resume_run_inv [of t0 calls] by (simp add: resume_inv_def host_inv_def case_prod_beta)

theorem resume_alternates_witness:
  "case resume_run 5 example_calls of (h, l) \<Rightarrow>
     l = [Ev_Resumed 2 6, Ev_Suspended 1] \<and> rh_carrier h = Some 6 \<and> rec_generation (rh_state h) = 2"
  using resume_alternates [of 5 example_calls] example_run(2,3) by (simp add: case_prod_beta u64_max_def)

text \<open>
  C18. The establish transaction leaves no reservation behind. Start it for a candidate carrier in any
  reachable state without a carrier and without a reservation, with any messages from the peer, any
  failures of the writes and any clock: it returns, and no reservation is left. When it reports
  \<open>Resumed\<close> the session runs on the candidate with the next generation; with every other outcome
  the session still has no carrier and keeps its generation, so another candidate may try.
\<close>

theorem establish_settles:
  assumes "w_host w = fst (resume_run t0 calls)" "rec_token (rh_state (w_host w)) = 0" "rh_carrier (w_host w) = None"
  shows "case RunSessionResumeEstablishTransaction (establish_ops t) w of ((r, reason), w') \<Rightarrow>
     rec_token (rh_state (w_host w')) = 0 \<and>
     (if r = Resumed
      then rh_carrier (w_host w') = Some t \<and> rec_phase (rh_state (w_host w')) = Active \<and>
           rec_generation (rh_state (w_host w')) = rec_generation (rh_state (w_host w)) + 1
      else rh_carrier (w_host w') = None \<and>
           rec_generation (rh_state (w_host w')) = rec_generation (rh_state (w_host w)))"
proof -
  define g where "g = rec_generation (rh_state (w_host w))"
  have "host_inv (w_host w)"
    using resume_run_inv [of t0 calls] assms(1) by (simp add: resume_inv_def case_prod_beta)
  then have idle: "world_idle g w" using assms by (simp add: world_idle_def g_def)
  obtain r reason w' where run: "resume_loop (establish_ops t) 2 w = ((r, reason), w')" by (metis prod.exhaust)
  have "settled (world_idle g) (world_live g t) (r, w')" by (rule establish.loop_settles [OF idle run])
  then show ?thesis
    by (simp add: RunSessionResumeEstablishTransaction_def run g_def [symmetric] settled_def world_live_def
          world_idle_def split: if_splits)
qed

definition example_world :: resume_world where
  "example_world = \<lparr>w_host = fst (resume_run 5 example_stop),
     w_reads = [good_env example_request, good_env example_confirm], w_sends = [True, True],
     w_clock = [20, 30, 30, 40]\<rparr>"

theorem establish_settles_witness:
  "fst (fst (RunSessionResumeEstablishTransaction (establish_ops 6) example_world)) = Resumed \<and>
   rh_carrier (w_host (snd (RunSessionResumeEstablishTransaction (establish_ops 6) example_world))) = Some 6"
proof -
  have w: "w_host example_world = fst (resume_run 5 example_stop)"
    "rec_token (rh_state (w_host example_world)) = 0" "rh_carrier (w_host example_world) = None"
    by (simp_all add: example_world_def example_run)
  have "fst (fst (RunSessionResumeEstablishTransaction (establish_ops 6) example_world)) = Resumed"
    unfolding RunSessionResumeEstablishTransaction_def numeral_2_eq_2
    by (simp add: example_world_def example_run establish_ops_def tick_def finish_attempt_def CommitResume_def resume_eval)
  then show ?thesis using establish_settles [OF w, of 6] by (simp add: case_prod_beta)
qed


end
