(* ===== verification/Routing.thy ===== *)
theory Routing
  imports Text
begin

text \<open>
  The routing tables of \<^verbatim>\<open>src/ppp/net/native/rib.h\<close> and \<^verbatim>\<open>rib.cpp\<close>: the route information base (RIB)
  with its calls, the forwarding base (FIB) that is filled from it, and the next-hop lookup. Addresses
  are in network byte order on a little-endian host, as the code stores them.

  The abstract table is a partial map from a network and a prefix length to a next hop; its lookup takes
  the longest prefix that matches. Every call on the buckets of the RIB is shown to implement the call
  on the abstract table, and the lookup on the filled FIB to be the longest-prefix lookup.
\<close>

section \<open>Addresses and masks\<close>

unbundle bit_operations_syntax

text \<open>\<^verbatim>\<open>htonl\<close> on a little-endian host: the big-endian bytes, read in the other order.\<close>

definition htonl :: "u32 \<Rightarrow> u32" where
  "htonl x = rd32 (rev (be32 x))"

definition AnyAddress :: u32 where
  "AnyAddress = 0"

definition NoneAddress :: u32 where
  "NoneAddress = 0xFFFFFFFF"

definition PrefixToNetmask :: "int \<Rightarrow> u32" where
  "PrefixToNetmask prefix = htonl (if prefix \<noteq> 0 then push_bit (nat (32 - prefix)) (- 1) else 0)"

section \<open>The route information base\<close>

record RouteEntry =
  Destination :: u32
  Prefix :: int
  NextHop :: u32

type_synonym RouteEntriesTable = "u32 \<rightharpoonup> RouteEntry list"

definition MIN_PREFIX_VALUE :: int where
  "MIN_PREFIX_VALUE = 0"

definition MAX_PREFIX_VALUE :: int where
  "MAX_PREFIX_VALUE = 32"

text \<open>\<^verbatim>\<open>find_if\<close> with the update of the entry it finds, or the new entry at the end.\<close>

fun upsert_entry :: "u32 \<Rightarrow> int \<Rightarrow> u32 \<Rightarrow> RouteEntry list \<Rightarrow> RouteEntry list" where
  "upsert_entry ip prefix gw [] = [\<lparr>Destination = ip, Prefix = prefix, NextHop = gw\<rparr>]"
| "upsert_entry ip prefix gw (e # es) =
     (if Prefix e = prefix then e\<lparr>NextHop := gw\<rparr> # es else e # upsert_entry ip prefix gw es)"

definition bucket :: "RouteEntriesTable \<Rightarrow> u32 \<Rightarrow> RouteEntry list" where
  "bucket routes ip = (case routes ip of None \<Rightarrow> [] | Some es \<Rightarrow> es)"

definition route_valid :: "u32 \<Rightarrow> int \<Rightarrow> u32 \<Rightarrow> bool" where
  "route_valid ip prefix gw \<longleftrightarrow>
     \<not> (prefix < MIN_PREFIX_VALUE \<or> prefix > MAX_PREFIX_VALUE) \<and> NoneAddress \<noteq> ip \<and>
     \<not> (AnyAddress = gw \<or> NoneAddress = gw) \<and> (ip AND PrefixToNetmask prefix) = ip"

definition AddRoute :: "u32 \<Rightarrow> int \<Rightarrow> u32 \<Rightarrow> RouteEntriesTable \<Rightarrow> bool \<times> RouteEntriesTable" where
  "AddRoute ip prefix gw routes =
     (if route_valid ip prefix gw then (True, routes(ip \<mapsto> upsert_entry ip prefix gw (bucket routes ip)))
      else (False, routes))"

definition DeleteRoute_ip :: "u32 \<Rightarrow> RouteEntriesTable \<Rightarrow> bool \<times> RouteEntriesTable" where
  "DeleteRoute_ip ip routes =
     (case routes ip of None \<Rightarrow> (False, routes) | Some _ \<Rightarrow> (True, routes(ip := None)))"

text \<open>\<^verbatim>\<open>find_if\<close> with the erasure of the entry it finds.\<close>

fun erase_entry :: "int \<Rightarrow> u32 \<Rightarrow> RouteEntry list \<Rightarrow> RouteEntry list option" where
  "erase_entry prefix gw [] = None"
| "erase_entry prefix gw (e # es) =
     (if Prefix e = prefix \<and> NextHop e = gw then Some es
      else map_option ((#) e) (erase_entry prefix gw es))"

definition DeleteRoute_entry :: "u32 \<Rightarrow> int \<Rightarrow> u32 \<Rightarrow> RouteEntriesTable \<Rightarrow> bool \<times> RouteEntriesTable" where
  "DeleteRoute_entry ip prefix gw routes =
     (case routes ip of
        None \<Rightarrow> (False, routes)
      | Some entries \<Rightarrow>
          (case erase_entry prefix gw entries of
             None \<Rightarrow> (False, routes)
           | Some es \<Rightarrow> (True, if es = [] then routes(ip := None) else routes(ip \<mapsto> es))))"

definition DeleteRoute_gw :: "u32 \<Rightarrow> u32 \<Rightarrow> RouteEntriesTable \<Rightarrow> bool \<times> RouteEntriesTable" where
  "DeleteRoute_gw ip gw routes =
     (case routes ip of
        None \<Rightarrow> (False, routes)
      | Some entries \<Rightarrow>
          (let prefixes = map Prefix (filter (\<lambda>e. NextHop e = gw) entries)
           in (prefixes \<noteq> [], fold (\<lambda>prefix r. snd (DeleteRoute_entry ip prefix gw r)) prefixes routes)))"

definition Clear :: "RouteEntriesTable \<Rightarrow> RouteEntriesTable" where
  "Clear routes = Map.empty"

definition IsAvailable :: "RouteEntriesTable \<Rightarrow> bool" where
  "IsAvailable routes \<longleftrightarrow> routes \<noteq> Map.empty"

section \<open>Routes from text\<close>

definition cidr_of :: "string \<Rightarrow> (u32 \<times> int) option" where
  "cidr_of cidr =
     (if cidr = [] then None
      else let host = takeWhile (\<lambda>c. c \<noteq> CHR ''/'') cidr
           in if CHR ''/'' \<notin> set cidr then map_option (\<lambda>a. (htonl a, 32)) (StringToAddress host)
              else if host = [] then None
              else case strtol_all (drop (length host + 1) cidr) of
                     None \<Rightarrow> None
                   | Some prefix \<Rightarrow>
                       if prefix < 0 \<or> prefix > 128 then None
                       else case StringToAddress host of
                              None \<Rightarrow> None
                            | Some a \<Rightarrow> if prefix > 32 then None else Some (htonl a, prefix))"

definition AddRoute_cidr :: "string \<Rightarrow> u32 \<Rightarrow> RouteEntriesTable \<Rightarrow> bool \<times> RouteEntriesTable" where
  "AddRoute_cidr cidr gw routes =
     (case cidr_of cidr of None \<Rightarrow> (False, routes) | Some (ip, prefix) \<Rightarrow> AddRoute ip prefix gw routes)"

text \<open>The separators: the line breaks of the text, and those within a line.\<close>

definition line_delims :: string where
  "line_delims = [CHR 0x0D, CHR 0x0A]"

definition route_delims :: string where
  "route_delims = [CHR '','', CHR '';'', CHR '' '', CHR 0x09]"

definition line_routes :: "string \<Rightarrow> string list" where
  "line_routes line =
     (let line = ATrim (takeWhile (\<lambda>c. c \<noteq> CHR ''#'') line)
      in if line = [] then []
         else filter (\<lambda>r. r \<noteq> []) (map ATrim (Tokenize line route_delims)))"

definition AddAllRoutes :: "string \<Rightarrow> u32 \<Rightarrow> RouteEntriesTable \<Rightarrow> bool \<times> RouteEntriesTable" where
  "AddAllRoutes cidrs gw routes =
     (if cidrs = [] \<or> Tokenize cidrs line_delims = [] then (False, routes)
      else fold (\<lambda>line st.
             fold (\<lambda>route (any, r). let (ok, r') = AddRoute_cidr route gw r in (any \<or> ok, r'))
               (line_routes line) st)
             (Tokenize cidrs line_delims) (False, routes))"

text \<open>
  \<open>AddAllRoutesByIPList\<close>: \<open>file\<close> is what the file system has at the path, nothing when it does not exist.
\<close>

definition AddAllRoutesByIPList ::
    "string \<Rightarrow> string option \<Rightarrow> u32 \<Rightarrow> RouteEntriesTable \<Rightarrow> bool \<times> RouteEntriesTable" where
  "AddAllRoutesByIPList path file gw routes =
     (if path = [] then (False, routes)
      else case file of
             None \<Rightarrow> (False, routes)
           | Some cidrs \<Rightarrow> if cidrs = [] then (True, routes) else AddAllRoutes cidrs gw routes)"

section \<open>The forwarding base and the lookup\<close>

definition Fill :: "RouteEntriesTable \<Rightarrow> RouteEntriesTable" where
  "Fill rib = (\<lambda>ip. map_option (sort_key (\<lambda>e. - Prefix e)) (rib ip))"

fun next_hop_loop :: "u32 \<Rightarrow> int list \<Rightarrow> RouteEntriesTable \<Rightarrow> u32" where
  "next_hop_loop ip [] routes = NoneAddress"
| "next_hop_loop ip (prefix # ps) routes =
     (case routes (ip AND PrefixToNetmask prefix) of
        None \<Rightarrow> next_hop_loop ip ps routes
      | Some entries \<Rightarrow>
          (case find (\<lambda>e. prefix \<ge> Prefix e) entries of
             None \<Rightarrow> next_hop_loop ip ps routes
           | Some e \<Rightarrow> NextHop e))"

definition GetNextHop_range :: "u32 \<Rightarrow> int \<Rightarrow> int \<Rightarrow> RouteEntriesTable \<Rightarrow> u32" where
  "GetNextHop_range ip mn mx routes = next_hop_loop ip (rev [mn..mx]) routes"

definition GetNextHop :: "u32 \<Rightarrow> RouteEntriesTable \<Rightarrow> u32" where
  "GetNextHop ip routes = GetNextHop_range ip MIN_PREFIX_VALUE MAX_PREFIX_VALUE routes"

section \<open>Calls\<close>

datatype rib_call =
    Call_AddRoute u32 int u32
  | Call_AddRoute_cidr string u32
  | Call_AddAllRoutes string u32
  | Call_AddAllRoutesByIPList string "string option" u32
  | Call_DeleteRoute_ip u32
  | Call_DeleteRoute_gw u32 u32
  | Call_DeleteRoute_entry u32 int u32
  | Call_Clear

fun rib_step :: "rib_call \<Rightarrow> RouteEntriesTable \<Rightarrow> bool \<times> RouteEntriesTable" where
  "rib_step (Call_AddRoute ip prefix gw) r = AddRoute ip prefix gw r"
| "rib_step (Call_AddRoute_cidr cidr gw) r = AddRoute_cidr cidr gw r"
| "rib_step (Call_AddAllRoutes cidrs gw) r = AddAllRoutes cidrs gw r"
| "rib_step (Call_AddAllRoutesByIPList path file gw) r = AddAllRoutesByIPList path file gw r"
| "rib_step (Call_DeleteRoute_ip ip) r = DeleteRoute_ip ip r"
| "rib_step (Call_DeleteRoute_gw ip gw) r = DeleteRoute_gw ip gw r"
| "rib_step (Call_DeleteRoute_entry ip prefix gw) r = DeleteRoute_entry ip prefix gw r"
| "rib_step Call_Clear r = (True, Clear r)"

definition rib_init :: RouteEntriesTable where
  "rib_init = Map.empty"

section \<open>The abstract table\<close>

type_synonym route_map = "u32 \<times> int \<rightharpoonup> u32"

definition route_add :: "u32 \<Rightarrow> int \<Rightarrow> u32 \<Rightarrow> route_map \<Rightarrow> bool \<times> route_map" where
  "route_add ip prefix gw m =
     (if route_valid ip prefix gw then (True, m((ip, prefix) \<mapsto> gw)) else (False, m))"

text \<open>Removing the routes of a network that a predicate on prefix length and next hop selects.\<close>

definition route_remove :: "u32 \<Rightarrow> (int \<Rightarrow> u32 \<Rightarrow> bool) \<Rightarrow> route_map \<Rightarrow> bool \<times> route_map" where
  "route_remove ip sel m =
     (let hit = (\<lambda>p. case m (ip, p) of None \<Rightarrow> False | Some gw \<Rightarrow> sel p gw)
      in (list_ex hit [0..32], \<lambda>(d, p). if d = ip \<and> hit p then None else m (d, p)))"

definition route_add_text :: "u32 \<Rightarrow> string \<Rightarrow> bool \<times> route_map \<Rightarrow> bool \<times> route_map" where
  "route_add_text gw cidr st =
     (case cidr_of cidr of
        None \<Rightarrow> st
      | Some (ip, prefix) \<Rightarrow> (let (ok, m) = route_add ip prefix gw (snd st) in (fst st \<or> ok, m)))"

definition text_routes :: "string \<Rightarrow> string list" where
  "text_routes cidrs = concat (map line_routes (Tokenize cidrs line_delims))"

fun route_step :: "rib_call \<Rightarrow> route_map \<Rightarrow> bool \<times> route_map" where
  "route_step (Call_AddRoute ip prefix gw) m = route_add ip prefix gw m"
| "route_step (Call_AddRoute_cidr cidr gw) m = route_add_text gw cidr (False, m)"
| "route_step (Call_AddAllRoutes cidrs gw) m = fold (route_add_text gw) (text_routes cidrs) (False, m)"
| "route_step (Call_AddAllRoutesByIPList path file gw) m =
     (if path = [] \<or> file = None then (False, m)
      else fold (route_add_text gw) (text_routes (the file)) (file = Some [], m))"
| "route_step (Call_DeleteRoute_ip ip) m = route_remove ip (\<lambda>p g. True) m"
| "route_step (Call_DeleteRoute_gw ip gw) m = route_remove ip (\<lambda>p g. g = gw) m"
| "route_step (Call_DeleteRoute_entry ip prefix gw) m = route_remove ip (\<lambda>p g. p = prefix \<and> g = gw) m"
| "route_step Call_Clear m = (True, Map.empty)"

text \<open>The longest prefix whose network of the address is in the table decides.\<close>

definition longest_match :: "route_map \<Rightarrow> u32 \<Rightarrow> u32" where
  "longest_match m ip =
     (case find (\<lambda>p. m (ip AND PrefixToNetmask p, p) \<noteq> None) (rev [0..32]) of
        None \<Rightarrow> NoneAddress
      | Some p \<Rightarrow> the (m (ip AND PrefixToNetmask p, p)))"

section \<open>Masks\<close>

lemma htonl_and: "htonl (x AND y) = htonl x AND htonl y"
proof (rule bit_word_eqI)
  fix n assume "n < LENGTH(32)"
  then consider "n < 8" | "8 \<le> n" "n < 16" | "16 \<le> n" "n < 24" | "24 \<le> n" "n < 32" by fastforce
  then show "bit (htonl (x AND y)) n \<longleftrightarrow> bit (htonl x AND htonl y) n"
    by cases (simp_all add: htonl_def rd32_def be32_def bit_byte_at bit_simps not_bit_byte less_diff_conv2)
qed

lemma netmask_and:
  assumes "0 \<le> p" "p \<le> q" "q \<le> 32"
  shows "PrefixToNetmask p AND PrefixToNetmask q = PrefixToNetmask p"
proof -
  have host: "(if r \<noteq> 0 then push_bit (nat (32 - r)) (- 1) else 0) = (push_bit (nat (32 - r)) (- 1) :: u32)"
    if "0 \<le> r" "r \<le> 32" for r :: int
    by (rule bit_word_eqI) (use that in \<open>simp add: bit_simps\<close>)
  have "push_bit (nat (32 - p)) (- 1) AND push_bit (nat (32 - q)) (- 1) = (push_bit (nat (32 - p)) (- 1) :: u32)"
    by (rule bit_word_eqI) (use assms in \<open>auto simp: bit_simps\<close>)
  then show ?thesis
    using host [of p] host [of q] assms by (simp add: PrefixToNetmask_def flip: htonl_and)
qed

lemma netmask_between:
  assumes "0 \<le> q" "q \<le> r" "r \<le> p" "p \<le> 32"
    and "(ip AND PrefixToNetmask p) AND PrefixToNetmask q = ip AND PrefixToNetmask p"
  shows "ip AND PrefixToNetmask r = ip AND PrefixToNetmask p"
proof -
  have "PrefixToNetmask r AND PrefixToNetmask p = PrefixToNetmask r"
       "PrefixToNetmask q AND PrefixToNetmask r = PrefixToNetmask q"
    using assms netmask_and [of r p] netmask_and [of q r] by simp_all
  then show ?thesis
    by (metis (no_types, lifting) assms(5) and.assoc and.commute)
qed

section \<open>Buckets\<close>

definition hops :: "RouteEntry list \<Rightarrow> int \<rightharpoonup> u32" where
  "hops es = map_of (map (\<lambda>e. (Prefix e, NextHop e)) es)"

lemma hops_simps [simp]:
  "hops [] = Map.empty"
  "hops (e # es) = (hops es)(Prefix e \<mapsto> NextHop e)"
  by (simp_all add: hops_def)

lemma hops_None: "hops es p = None \<longleftrightarrow> p \<notin> Prefix ` set es"
  by (induction es) auto

lemma hops_Some: "distinct (map Prefix es) \<Longrightarrow> hops es p = Some gw \<longleftrightarrow> (\<exists>e \<in> set es. Prefix e = p \<and> NextHop e = gw)"
  by (induction es) (auto simp: hops_None image_iff)

definition bucket_ok :: "u32 \<Rightarrow> RouteEntry list \<Rightarrow> bool" where
  "bucket_ok ip es \<longleftrightarrow> distinct (map Prefix es) \<and>
     (\<forall>e \<in> set es. Destination e = ip \<and> route_valid ip (Prefix e) (NextHop e))"

lemma bucket_ok_simps [simp]:
  "bucket_ok ip []"
  "bucket_ok ip (e # es) \<longleftrightarrow> Prefix e \<notin> Prefix ` set es \<and> Destination e = ip \<and>
     route_valid ip (Prefix e) (NextHop e) \<and> bucket_ok ip es"
  by (auto simp: bucket_ok_def)

lemma upsert_entry_hops [simp]:
  "upsert_entry ip p gw es \<noteq> []"
  "Prefix ` set (upsert_entry ip p gw es) = insert p (Prefix ` set es)"
  "hops (upsert_entry ip p gw es) = (hops es)(p \<mapsto> gw)"
  by (induction es) (auto simp: fun_eq_iff)

lemma upsert_entry_ok:
  "bucket_ok ip es \<Longrightarrow> route_valid ip p gw \<Longrightarrow> bucket_ok ip (upsert_entry ip p gw es)"
  by (induction es) auto

lemma erase_entry_eq:
  "distinct (map Prefix es) \<Longrightarrow>
     erase_entry p gw es = (if hops es p = Some gw then Some (filter (\<lambda>e. Prefix e \<noteq> p) es) else None)"
proof (induction es)
  case (Cons e es)
  have "filter (\<lambda>e. Prefix e \<noteq> p) es = es" if "Prefix e = p"
    using Cons.prems that by (intro filter_True ballI) (metis distinct.simps(2) image_eqI list.map(2) list.set_map)
  moreover have "hops es p = None" if "Prefix e = p"
    using Cons.prems that unfolding hops_None by simp
  ultimately show ?case
    using Cons by auto
qed simp

lemma hops_filter: "hops (filter (\<lambda>e. Prefix e \<noteq> p) es) = (hops es)(p := None)"
  by (induction es) auto

lemma bucket_ok_filter: "bucket_ok ip es \<Longrightarrow> bucket_ok ip (filter P es)"
  by (auto simp: bucket_ok_def distinct_map_filter)

lemma bucket_ok_range: "bucket_ok ip es \<Longrightarrow> hops es p = Some gw \<Longrightarrow> 0 \<le> p \<and> p \<le> 32"
  by (auto simp: bucket_ok_def hops_Some route_valid_def MIN_PREFIX_VALUE_def MAX_PREFIX_VALUE_def)

section \<open>The calls implement the abstract table\<close>

definition rib_inv :: "RouteEntriesTable \<Rightarrow> bool" where
  "rib_inv r \<longleftrightarrow> (\<forall>ip es. r ip = Some es \<longrightarrow> es \<noteq> [] \<and> bucket_ok ip es)"

definition rib_abs :: "RouteEntriesTable \<Rightarrow> route_map" where
  "rib_abs r = (\<lambda>(ip, p). hops (bucket r ip) p)"

lemma bucket_inv: "rib_inv r \<Longrightarrow> bucket_ok ip (bucket r ip)"
  by (auto simp: rib_inv_def bucket_def bucket_ok_def split: option.splits)

lemma rib_abs_apply: "rib_abs r (ip, p) = hops (bucket r ip) p"
  by (simp add: rib_abs_def)

lemma bucket_upd: "bucket (r(ip := b)) d = (if d = ip then (case b of None \<Rightarrow> [] | Some es \<Rightarrow> es) else bucket r d)"
  by (simp add: bucket_def)

lemma rib_inv_upd:
  "rib_inv r \<Longrightarrow> (\<And>es. b = Some es \<Longrightarrow> es \<noteq> [] \<and> bucket_ok ip es) \<Longrightarrow> rib_inv (r(ip := b))"
  by (simp add: rib_inv_def)

lemma AddRoute_implements:
  assumes "rib_inv r"
  shows "rib_inv (snd (AddRoute ip p gw r))"
    and "map_prod id rib_abs (AddRoute ip p gw r) = route_add ip p gw (rib_abs r)"
proof -
  show "rib_inv (snd (AddRoute ip p gw r))"
    using upsert_entry_ok [OF bucket_inv [OF assms, of ip], of p gw] assms
    by (auto simp: AddRoute_def intro: rib_inv_upd)
  have "rib_abs (r(ip \<mapsto> upsert_entry ip p gw (bucket r ip))) = (rib_abs r)((ip, p) \<mapsto> gw)"
    by (simp add: fun_eq_iff rib_abs_apply bucket_upd)
  then show "map_prod id rib_abs (AddRoute ip p gw r) = route_add ip p gw (rib_abs r)"
    by (simp add: AddRoute_def route_add_def)
qed

lemma DeleteRoute_entry_eq:
  assumes "rib_inv r"
  shows "rib_inv (snd (DeleteRoute_entry ip p gw r))"
    and "fst (DeleteRoute_entry ip p gw r) \<longleftrightarrow> rib_abs r (ip, p) = Some gw"
    and "rib_abs (snd (DeleteRoute_entry ip p gw r)) =
           (if rib_abs r (ip, p) = Some gw then (rib_abs r)((ip, p) := None) else rib_abs r)"
proof -
  have ok: "bucket_ok ip es" if "r ip = Some es" for es
    using assms that by (simp add: rib_inv_def)
  have erase: "erase_entry p gw es = (if hops es p = Some gw then Some (filter (\<lambda>e. Prefix e \<noteq> p) es) else None)"
    if "r ip = Some es" for es
    using ok [OF that] erase_entry_eq by (simp add: bucket_ok_def)
  define b where "b = (let es = filter (\<lambda>e. Prefix e \<noteq> p) (bucket r ip) in if es = [] then None else Some es)"
  have eq: "DeleteRoute_entry ip p gw r =
      (if hops (bucket r ip) p = Some gw then (True, r(ip := b)) else (False, r))"
    by (cases "r ip") (simp_all add: DeleteRoute_entry_def bucket_def erase b_def Let_def)
  have b: "es \<noteq> [] \<and> bucket_ok ip es" if "b = Some es" for es
    using that bucket_ok_filter [OF bucket_inv [OF assms]] by (auto simp: b_def Let_def split: if_splits)
  have "(case b of None \<Rightarrow> [] | Some es \<Rightarrow> es) = filter (\<lambda>e. Prefix e \<noteq> p) (bucket r ip)"
    by (simp add: b_def Let_def)
  then have "rib_abs (r(ip := b)) = (rib_abs r)((ip, p) := None)"
    by (simp add: fun_eq_iff rib_abs_apply bucket_upd hops_filter)
  then show "rib_abs (snd (DeleteRoute_entry ip p gw r)) =
           (if rib_abs r (ip, p) = Some gw then (rib_abs r)((ip, p) := None) else rib_abs r)"
    and "fst (DeleteRoute_entry ip p gw r) \<longleftrightarrow> rib_abs r (ip, p) = Some gw"
    by (simp_all add: eq rib_abs_apply)
  show "rib_inv (snd (DeleteRoute_entry ip p gw r))"
    using rib_inv_upd [OF assms b] assms by (simp add: eq)
qed

lemma delete_prefixes:
  "rib_inv r \<Longrightarrow>
     rib_inv (fold (\<lambda>p r. snd (DeleteRoute_entry ip p gw r)) ps r) \<and>
     rib_abs (fold (\<lambda>p r. snd (DeleteRoute_entry ip p gw r)) ps r) =
       (\<lambda>(d, p). if d = ip \<and> p \<in> set ps \<and> rib_abs r (d, p) = Some gw then None else rib_abs r (d, p))"
  by (induction ps arbitrary: r) (auto simp: DeleteRoute_entry_eq fun_eq_iff)

text \<open>All prefix lengths of the table are between 0 and 32, so the search of the removal finds every route.\<close>

lemma route_remove_eq:
  assumes "rib_inv r"
  shows "route_remove ip sel (rib_abs r) =
    (\<exists>p g. rib_abs r (ip, p) = Some g \<and> sel p g,
     \<lambda>(d, p). if d = ip \<and> (\<exists>g. rib_abs r (ip, p) = Some g \<and> sel p g) then None else rib_abs r (d, p))"
proof -
  define hit where "hit = (\<lambda>p. case rib_abs r (ip, p) of None \<Rightarrow> False | Some g \<Rightarrow> sel p g)"
  have hit: "hit p \<longleftrightarrow> (\<exists>g. rib_abs r (ip, p) = Some g \<and> sel p g)" for p
    by (simp add: hit_def split: option.splits)
  have "p \<in> {0..32}" if "hit p" for p
    using that bucket_ok_range [OF bucket_inv [OF assms, of ip]] by (auto simp: hit rib_abs_apply)
  then have "list_ex hit [0..32] \<longleftrightarrow> (\<exists>p. hit p)"
    by (auto simp: list_ex_iff)
  then show ?thesis
    unfolding route_remove_def Let_def hit_def [symmetric] by (simp add: hit)
qed

lemma DeleteRoute_entry_implements:
  assumes "rib_inv r"
  shows "map_prod id rib_abs (DeleteRoute_entry ip p gw r) = route_remove ip (\<lambda>q g. q = p \<and> g = gw) (rib_abs r)"
  by (auto simp: prod_eq_iff DeleteRoute_entry_eq [OF assms] route_remove_eq [OF assms] fun_eq_iff)

lemma DeleteRoute_gw_implements:
  assumes "rib_inv r"
  shows "rib_inv (snd (DeleteRoute_gw ip gw r))"
    and "map_prod id rib_abs (DeleteRoute_gw ip gw r) = route_remove ip (\<lambda>q g. g = gw) (rib_abs r)"
proof -
  define ps where "ps = map Prefix (filter (\<lambda>e. NextHop e = gw) (bucket r ip))"
  have ps: "p \<in> set ps \<longleftrightarrow> rib_abs r (ip, p) = Some gw" for p
    using bucket_inv [OF assms, of ip] hops_Some [of "bucket r ip" p gw]
    by (auto simp: ps_def rib_abs_apply bucket_ok_def)
  have eq: "DeleteRoute_gw ip gw r = (ps \<noteq> [], fold (\<lambda>p r. snd (DeleteRoute_entry ip p gw r)) ps r)"
    by (simp add: DeleteRoute_gw_def bucket_def ps_def Let_def split: option.splits)
  have some: "ps \<noteq> [] \<longleftrightarrow> (\<exists>p. rib_abs r (ip, p) = Some gw)"
    using ps by (metis list.set_intros(1) empty_iff list.set(1) neq_Nil_conv)
  show "rib_inv (snd (DeleteRoute_gw ip gw r))"
    using delete_prefixes [OF assms] by (simp add: eq)
  show "map_prod id rib_abs (DeleteRoute_gw ip gw r) = route_remove ip (\<lambda>q g. g = gw) (rib_abs r)"
    using delete_prefixes [OF assms, of ip gw ps]
    by (auto simp: eq prod_eq_iff route_remove_eq [OF assms] some ps fun_eq_iff)
qed

lemma DeleteRoute_ip_implements:
  assumes "rib_inv r"
  shows "rib_inv (snd (DeleteRoute_ip ip r))"
    and "map_prod id rib_abs (DeleteRoute_ip ip r) = route_remove ip (\<lambda>q g. True) (rib_abs r)"
proof -
  have eq: "DeleteRoute_ip ip r = (r ip \<noteq> None, r(ip := None))"
    by (auto simp: DeleteRoute_ip_def fun_upd_idem split: option.splits)
  show "rib_inv (snd (DeleteRoute_ip ip r))"
    using rib_inv_upd [OF assms, of None ip] by (simp add: eq)
  have "\<exists>p g. rib_abs r (ip, p) = Some g" if "r ip = Some es" for es
    using assms that by (cases es) (auto simp: rib_inv_def rib_abs_apply bucket_def)
  moreover have "rib_abs r (ip, p) = None" if "r ip = None" for p
    using that by (simp add: rib_abs_apply bucket_def)
  ultimately have some: "r ip \<noteq> None \<longleftrightarrow> (\<exists>p g. rib_abs r (ip, p) = Some g)"
    by (cases "r ip") simp_all
  have "rib_abs (r(ip := None)) (d, p) = (if d = ip then None else rib_abs r (d, p))" for d p
    by (simp add: rib_abs_apply bucket_upd)
  then show "map_prod id rib_abs (DeleteRoute_ip ip r) = route_remove ip (\<lambda>q g. True) (rib_abs r)"
    unfolding eq some by (auto simp: prod_eq_iff route_remove_eq [OF assms] fun_eq_iff)
qed

lemma Clear_implements: "rib_inv (Clear r)" "rib_abs (Clear r) = Map.empty"
  by (simp_all add: Clear_def rib_inv_def rib_abs_def bucket_def fun_eq_iff)

section \<open>Texts\<close>

definition add_text :: "u32 \<Rightarrow> string \<Rightarrow> bool \<times> RouteEntriesTable \<Rightarrow> bool \<times> RouteEntriesTable" where
  "add_text gw route st = (let (ok, r) = AddRoute_cidr route gw (snd st) in (fst st \<or> ok, r))"

lemma AddAllRoutes_eq: "AddAllRoutes cidrs gw r = fold (add_text gw) (text_routes cidrs) (False, r)"
proof -
  have "(\<lambda>route (any, r). let (ok, r') = AddRoute_cidr route gw r in (any \<or> ok, r')) = add_text gw"
    by (simp add: fun_eq_iff add_text_def)
  then have "AddAllRoutes cidrs gw r = fold (\<lambda>line. fold (add_text gw) (line_routes line)) (Tokenize cidrs line_delims) (False, r)"
    by (auto simp: AddAllRoutes_def Tokenize_def)
  also have "\<dots> = fold (add_text gw) (text_routes cidrs) (False, r)"
  proof -
    have "fold (\<lambda>line. fold (add_text gw) (line_routes line)) ls st = fold (add_text gw) (concat (map line_routes ls)) st"
      for ls st by (induction ls arbitrary: st) simp_all
    then show ?thesis by (simp add: text_routes_def)
  qed
  finally show ?thesis .
qed

lemma add_text_implements:
  assumes "rib_inv (snd st)"
  shows "rib_inv (snd (add_text gw route st)) \<and>
         map_prod id rib_abs (add_text gw route st) = route_add_text gw route (map_prod id rib_abs st)"
  using AddRoute_implements [OF assms] assms
  by (auto simp: add_text_def AddRoute_cidr_def route_add_text_def prod_eq_iff split: option.splits prod.splits)

lemma add_texts_implement:
  "rib_inv (snd st) \<Longrightarrow> rib_inv (snd (fold (add_text gw) routes st)) \<and>
     map_prod id rib_abs (fold (add_text gw) routes st) = fold (route_add_text gw) routes (map_prod id rib_abs st)"
  by (induction routes arbitrary: st) (simp_all add: add_text_implements)

lemma rib_step_implements:
  assumes "rib_inv r"
  shows "rib_inv (snd (rib_step c r)) \<and> map_prod id rib_abs (rib_step c r) = route_step c (rib_abs r)"
proof (cases c)
  case (Call_AddRoute_cidr cidr gw)
  then show ?thesis
    using add_text_implements [of "(False, r)" gw cidr] assms by (simp add: add_text_def split: prod.splits)
next
  case (Call_AddAllRoutes cidrs gw)
  then show ?thesis
    using add_texts_implement [of "(False, r)" gw] assms by (simp add: AddAllRoutes_eq)
next
  case (Call_AddAllRoutesByIPList path content gw)
  have "text_routes [] = []"
    by (simp add: text_routes_def Tokenize_def)
  then show ?thesis
    using add_texts_implement [of "(False, r)" gw] assms Call_AddAllRoutesByIPList
    by (cases content) (simp_all add: AddAllRoutesByIPList_def AddAllRoutes_eq)
qed (simp_all add: assms AddRoute_implements DeleteRoute_ip_implements DeleteRoute_gw_implements
      DeleteRoute_entry_implements DeleteRoute_entry_eq(1) Clear_implements)

interpretation rib: implementation rib_init rib_step Map.empty route_step rib_inv rib_abs
proof unfold_locales
  show "rib_inv rib_init" "rib_abs rib_init = Map.empty"
    by (simp_all add: rib_init_def rib_inv_def rib_abs_def bucket_def fun_eq_iff)
qed (simp_all add: rib_step_implements)

section \<open>The lookup on the filled table\<close>

lemma find_descending:
  "P q \<Longrightarrow> 0 \<le> q \<Longrightarrow> q \<le> int k \<Longrightarrow> (\<And>r. q < r \<Longrightarrow> r \<le> int k \<Longrightarrow> \<not> P r) \<Longrightarrow>
     find P (rev [0..int k]) = Some q"
proof (induction k)
  case (Suc k)
  have "[0..int (Suc k)] = [0..int k] @ [int (Suc k)]"
    using upto_rec2 [of 0 "int (Suc k)"] by simp
  then show ?case
    using Suc by (cases "q = int (Suc k)") auto
qed auto

text \<open>
  In a bucket sorted by descending prefix length, the first entry whose prefix is at most \<open>p\<close> has the
  largest one.
\<close>

lemma find_sorted:
  fixes es :: "RouteEntry list"
  assumes "find (\<lambda>e. p \<ge> Prefix e) (sort_key (\<lambda>e. - Prefix e) es) = Some e"
  shows "e \<in> set es" and "Prefix e \<le> p" and "\<And>f. f \<in> set es \<Longrightarrow> Prefix f \<le> p \<Longrightarrow> Prefix f \<le> Prefix e"
proof -
  have *: "e \<in> set xs \<and> Prefix e \<le> p \<and> (\<forall>f \<in> set xs. Prefix f \<le> p \<longrightarrow> Prefix f \<le> Prefix e)"
    if "find (\<lambda>e. p \<ge> Prefix e) xs = Some e" "sorted (map (\<lambda>e. - Prefix e) xs)" for xs :: "RouteEntry list"
    using that by (induction xs) (auto split: if_splits)
  show "e \<in> set es" and "Prefix e \<le> p" and "\<And>f. f \<in> set es \<Longrightarrow> Prefix f \<le> p \<Longrightarrow> Prefix f \<le> Prefix e"
    using * [OF assms] by simp_all
qed

abbreviation longest_from :: "route_map \<Rightarrow> u32 \<Rightarrow> int \<Rightarrow> u32" where
  "longest_from m ip k \<equiv>
     (case find (\<lambda>p. m (ip AND PrefixToNetmask p, p) \<noteq> None) (rev [0..k]) of
        None \<Rightarrow> NoneAddress
      | Some p \<Rightarrow> the (m (ip AND PrefixToNetmask p, p)))"

lemma first_hop_is_longest:
  assumes inv: "rib_inv r" and k: "k \<le> 32"
    and found: "find (\<lambda>e. int k \<ge> Prefix e) (sort_key (\<lambda>e. - Prefix e) (bucket r (ip AND PrefixToNetmask (int k)))) = Some e"
  shows "longest_from (rib_abs r) ip (int k) = NextHop e"
proof -
  define d where "d = ip AND PrefixToNetmask (int k)"
  have e: "e \<in> set (bucket r d)" "Prefix e \<le> int k" "\<And>f. f \<in> set (bucket r d) \<Longrightarrow> Prefix f \<le> int k \<Longrightarrow> Prefix f \<le> Prefix e"
    using find_sorted [OF found] by (simp_all add: d_def)
  have ok: "bucket_ok d (bucket r d)"
    by (rule bucket_inv [OF inv])
  then have e_range: "0 \<le> Prefix e" "d AND PrefixToNetmask (Prefix e) = d"
    using e(1) by (auto simp: bucket_ok_def route_valid_def MIN_PREFIX_VALUE_def)
  have same: "ip AND PrefixToNetmask q = d" if "Prefix e \<le> q" "q \<le> int k" for q
    using netmask_between [of "Prefix e" q "int k" ip] that e(2) e_range k by (simp add: d_def)
  have "hops (bucket r d) (Prefix e) = Some (NextHop e)"
    using ok e(1) by (auto simp: hops_Some bucket_ok_def)
  then have at: "rib_abs r (ip AND PrefixToNetmask (Prefix e), Prefix e) = Some (NextHop e)"
    using same [of "Prefix e"] e(2) by (simp add: rib_abs_apply)
  have "rib_abs r (ip AND PrefixToNetmask q, q) = None" if "Prefix e < q" "q \<le> int k" for q
    using same [of q] that e(3) by (force simp: rib_abs_apply hops_None)
  then have "find (\<lambda>p. rib_abs r (ip AND PrefixToNetmask p, p) \<noteq> None) (rev [0..int k]) = Some (Prefix e)"
    using at e(2) e_range by (intro find_descending) auto
  then show ?thesis
    by (simp add: at)
qed

lemma upto_descending: "rev [0..int k] = int k # rev [0..int k - 1]"
  using upto_rec2 [of 0 "int k"] by simp

lemma next_hop_loop_longest:
  "rib_inv r \<Longrightarrow> k \<le> 33 \<Longrightarrow>
     next_hop_loop ip (rev [0..int k - 1]) (Fill r) = longest_from (rib_abs r) ip (int k - 1)"
proof (induction k)
  case (Suc k)
  define es where "es = bucket r (ip AND PrefixToNetmask (int k))"
  have step: "next_hop_loop ip (rev [0..int k]) (Fill r) =
      (case find (\<lambda>e. int k \<ge> Prefix e) (sort_key (\<lambda>e. - Prefix e) es) of
         None \<Rightarrow> next_hop_loop ip (rev [0..int k - 1]) (Fill r) | Some e \<Rightarrow> NextHop e)"
    by (simp add: upto_descending Fill_def es_def bucket_def split: option.splits)
  show ?case
  proof (cases "find (\<lambda>e. int k \<ge> Prefix e) (sort_key (\<lambda>e. - Prefix e) es)")
    case None
    then have "rib_abs r (ip AND PrefixToNetmask (int k), int k) = None"
      by (auto simp: find_None_iff rib_abs_apply hops_None es_def)
    then show ?thesis
      using Suc step None by (simp add: upto_descending)
  next
    case (Some e)
    then show ?thesis
      using first_hop_is_longest [of r k ip e] Suc.prems step by (simp add: es_def)
  qed
qed simp

lemma GetNextHop_Fill: "rib_inv r \<Longrightarrow> GetNextHop ip (Fill r) = longest_match (rib_abs r) ip"
  using next_hop_loop_longest [of r 33 ip]
  by (simp add: GetNextHop_def GetNextHop_range_def longest_match_def MIN_PREFIX_VALUE_def MAX_PREFIX_VALUE_def)

section \<open>Properties\<close>


end
