(* ===== verification/Peer_Routing.thy ===== *)
theory Peer_Routing
  imports Routing
begin

text \<open>
  Site-to-site routing of the server: the owners of virtual addresses and the announced prefixes of
  \<^verbatim>\<open>src/ppp/app/server/VirtualEthernetSwitcher.cpp\<close>, the fail-closed announcement policy of
  \<^verbatim>\<open>PeerRouteAnnouncePolicy.h\<close>, the route entries of \<^verbatim>\<open>src/ppp/app/protocol/PeerPrefixRoute.h\<close> and the
  choice of the receiving session in \<^verbatim>\<open>VirtualEthernetExchanger.cpp\<close>.

  Parameters: \<open>mk\<close> is Asio's \<^verbatim>\<open>make_address\<close> restricted to IPv4 results, in host order; \<open>guid\<close> is the
  text of a session identifier. The iteration order of a hash table is an argument of the operations
  that iterate over one. An exchanger is an identity with its session.
\<close>

unbundle bit_operations_syntax

type_synonym Int128 = "128 word"

section \<open>Route entries\<close>

record PeerPrefixRouteEntry =
  network :: string
  prefix :: int
  via :: string

definition HasAny :: "PeerPrefixRouteEntry \<Rightarrow> bool" where
  "HasAny e \<longleftrightarrow> network e \<noteq> [] \<and> prefix e > 0"

definition NetworkHost :: "PeerPrefixRouteEntry \<Rightarrow> u32" where
  "NetworkHost e =
     (if network e = [] then 0
      else case StringToAddress (network e) of
             None \<Rightarrow> 0
           | Some a \<Rightarrow> htonl a AND PrefixToNetmask (prefix e))"

definition ViaHost :: "PeerPrefixRouteEntry \<Rightarrow> u32" where
  "ViaHost e =
     (if via e = [] then 0 else case StringToAddress (via e) of None \<Rightarrow> 0 | Some a \<Rightarrow> htonl a)"

definition MatchesDestination :: "PeerPrefixRouteEntry \<Rightarrow> u32 \<Rightarrow> bool" where
  "MatchesDestination e destination =
     (if \<not> HasAny e then False
      else if NetworkHost e = 0 \<or> prefix e \<le> 0 \<or> prefix e > 32 then False
      else destination AND PrefixToNetmask (prefix e) = NetworkHost e AND PrefixToNetmask (prefix e))"

text \<open>\<^verbatim>\<open>inet_ntop\<close> on the four bytes of an address in memory, that is in network order.\<close>

definition octet_text :: "nat \<Rightarrow> string" where
  "octet_text n =
     (let d = (\<lambda>k. char_of (48 + k :: nat))
      in if n < 10 then [d n]
         else if n < 100 then [d (n div 10), d (n mod 10)]
         else [d (n div 100), d (n div 10 mod 10), d (n mod 10)])"

definition ToAddressString :: "u32 \<Rightarrow> string" where
  "ToAddressString address =
     (case map (octet_text \<circ> unat) (rev (be32 address)) of
        [a, b, c, d] \<Rightarrow> a @ ''.'' @ b @ ''.'' @ c @ ''.'' @ d)"

definition BindPeerRouteGateway :: "PeerPrefixRouteEntry \<Rightarrow> u32 \<Rightarrow> PeerPrefixRouteEntry" where
  "BindPeerRouteGateway route virtual_ip = route\<lparr>via := ToAddressString virtual_ip\<rparr>"

section \<open>The announcement policy\<close>

record PeerRouteAllowEntry =
  allow_network :: string
  allow_prefix :: int
  allow_guid :: string

definition ParsePeerPrefixNetwork :: "(string \<Rightarrow> u32 option) \<Rightarrow> string \<Rightarrow> int \<Rightarrow> u32 option" where
  "ParsePeerPrefixNetwork mk network_text plen =
     (if network_text = [] \<or> plen \<le> 0 \<or> plen > 32 then None
      else case mk (c_str network_text) of
             None \<Rightarrow> None
           | Some raw \<Rightarrow> Some (raw AND htonl (PrefixToNetmask plen)))"

definition prefix_in_range :: "u32 \<Rightarrow> int \<Rightarrow> u32 \<Rightarrow> int \<Rightarrow> bool" where
  "prefix_in_range net plen base base_prefix \<longleftrightarrow>
     (let base_mask = htonl (PrefixToNetmask base_prefix)
      in plen \<ge> base_prefix \<and> net AND base_mask = base AND base_mask)"

definition IsDangerousPeerPrefix :: "u32 \<Rightarrow> int \<Rightarrow> bool" where
  "IsDangerousPeerPrefix net plen =
     (if plen \<le> 0 \<or> plen > 32 then True
      else if net AND htonl (PrefixToNetmask plen) = 0 then True
      else prefix_in_range net plen 0x00000000 8 \<or> prefix_in_range net plen 0x7f000000 8 \<or>
           prefix_in_range net plen 0xa9fe0000 16 \<or> prefix_in_range net plen 0xe0000000 4 \<or>
           prefix_in_range net plen 0xf0000000 4)"

definition NormalizePeerRouteGuid :: "string \<Rightarrow> string" where
  "NormalizePeerRouteGuid g =
     LTrim (RTrim (map lower_char (filter (\<lambda>c. c \<noteq> CHR ''{'' \<and> c \<noteq> CHR ''}'') g)))"

text \<open>One row of the allowlist against the session key and the requested network.\<close>

definition allow_row ::
    "(string \<Rightarrow> u32 option) \<Rightarrow> string \<Rightarrow> u32 \<Rightarrow> int \<Rightarrow> PeerRouteAllowEntry \<Rightarrow> bool" where
  "allow_row mk session_key requested plen allowed =
     (let allowed_guid = NormalizePeerRouteGuid (allow_guid allowed)
      in if allowed_guid = [] \<or> allowed_guid \<noteq> session_key then False
         else if allow_prefix allowed \<noteq> plen then False
         else ParsePeerPrefixNetwork mk (allow_network allowed) (allow_prefix allowed) = Some requested)"

definition IsPeerRouteAnnouncementAllowed ::
    "(string \<Rightarrow> u32 option) \<Rightarrow> PeerRouteAllowEntry list \<Rightarrow> string \<Rightarrow> PeerPrefixRouteEntry \<Rightarrow> bool" where
  "IsPeerRouteAnnouncementAllowed mk allowed_routes session_guid e =
     (let session_key = NormalizePeerRouteGuid session_guid
      in if session_key = [] \<or> \<not> HasAny e then False
         else case ParsePeerPrefixNetwork mk (network e) (prefix e) of
                None \<Rightarrow> False
              | Some requested \<Rightarrow>
                  if IsDangerousPeerPrefix requested (prefix e) then False
                  else list_ex (allow_row mk session_key requested (prefix e)) allowed_routes)"

section \<open>State of the switcher\<close>

record NatInformation =
  IPAddress :: u32
  SubmaskAddress :: u32
  Exchanger :: nat

record PeerPrefixGatewayRecord =
  SessionId :: Int128
  VirtualIP :: u32
  Prefixes :: "PeerPrefixRouteEntry list"
  GatewayExchanger :: nat

record peer_switcher =
  peer_routing_enabled :: bool
  subnet :: bool
  distribute :: bool
  allowed_routes :: "PeerRouteAllowEntry list"
  switcher_disposed :: bool
  nats :: "u32 \<rightharpoonup> NatInformation"
  peer_prefix_gateways :: "Int128 \<rightharpoonup> PeerPrefixGatewayRecord"
  peer_prefix_rib :: RouteEntriesTable

definition IsPeerRoutingEnabled :: "peer_switcher \<Rightarrow> bool" where
  "IsPeerRoutingEnabled s \<longleftrightarrow> peer_routing_enabled s \<and> subnet s"

section \<open>Owners of virtual addresses\<close>

text \<open>\<^verbatim>\<open>IPEndPoint::IsInvalid\<close> of an IPv4 address: none, any or of class D.\<close>

definition IsInvalid :: "u32 \<Rightarrow> bool" where
  "IsInvalid ip \<longleftrightarrow> ip = NoneAddress \<or> ip = AnyAddress \<or> htonl ip AND 0xF0000000 = 0xE0000000"

definition FindNatInformation :: "u32 \<Rightarrow> peer_switcher \<Rightarrow> NatInformation option" where
  "FindNatInformation ip s = (if IsInvalid ip then None else nats s ip)"

definition AddNatInformation ::
    "(nat \<Rightarrow> bool) \<Rightarrow> nat \<Rightarrow> u32 \<Rightarrow> u32 \<Rightarrow> peer_switcher \<Rightarrow> NatInformation option \<times> peer_switcher" where
  "AddNatInformation disposed exchanger ip submask s =
     (if IsInvalid submask \<or> IsInvalid ip \<or> disposed exchanger \<or> switcher_disposed s then (None, s)
      else let info = \<lparr>IPAddress = ip, SubmaskAddress = submask, Exchanger = exchanger\<rparr>;
               owned = (Some info, s\<lparr>nats := (nats s)(ip \<mapsto> info)\<rparr>)
           in case nats s ip of
                None \<Rightarrow> owned
              | Some raw \<Rightarrow> if disposed (Exchanger raw) then owned else (None, s))"

definition DeleteNatInformation :: "nat \<Rightarrow> u32 \<Rightarrow> peer_switcher \<Rightarrow> bool \<times> peer_switcher" where
  "DeleteNatInformation key ip s =
     (if IsInvalid ip \<or> switcher_disposed s then (False, s)
      else case nats s ip of
             None \<Rightarrow> (False, s)
           | Some info \<Rightarrow>
               if key \<noteq> Exchanger info then (False, s) else (True, s\<lparr>nats := (nats s)(ip := None)\<rparr>))"

section \<open>Announced prefixes\<close>

text \<open>The routes of one gateway record, and the rebuilding over the records in iteration order.\<close>

definition record_routes :: "PeerPrefixGatewayRecord \<Rightarrow> RouteEntriesTable \<Rightarrow> RouteEntriesTable" where
  "record_routes rec rib =
     (if VirtualIP rec = 0 then rib
      else fold (\<lambda>p rib.
             if prefix p \<le> 0 \<or> prefix p > 32 then rib
             else if NetworkHost p = 0 then rib
             else snd (AddRoute (NetworkHost p) (prefix p) (VirtualIP rec) rib))
           (Prefixes rec) rib)"

definition RebuildPeerPrefixRibLocked :: "Int128 list \<Rightarrow> peer_switcher \<Rightarrow> peer_switcher" where
  "RebuildPeerPrefixRibLocked order s =
     s\<lparr>peer_prefix_rib :=
        fold (\<lambda>k rib. case peer_prefix_gateways s k of None \<Rightarrow> rib | Some rec \<Rightarrow> record_routes rec rib)
          order (Clear (peer_prefix_rib s))\<rparr>"

record PeerRouteTableMessage =
  table_enabled :: bool
  table_action :: string
  table_routes :: "PeerPrefixRouteEntry list"

definition BuildPeerRouteTableSnapshot ::
    "Int128 list \<Rightarrow> Int128 option \<Rightarrow> peer_switcher \<Rightarrow> PeerRouteTableMessage" where
  "BuildPeerRouteTableSnapshot order exclude s =
     (if \<not> IsPeerRoutingEnabled s then \<lparr>table_enabled = False, table_action = [], table_routes = []\<rparr>
      else \<lparr>table_enabled = True, table_action = ''snapshot'',
            table_routes = concat (map (\<lambda>k.
              if exclude = Some k then []
              else case peer_prefix_gateways s k of
                     None \<Rightarrow> []
                   | Some rec \<Rightarrow> map (\<lambda>p. BindPeerRouteGateway p (VirtualIP rec)) (Prefixes rec)) order)\<rparr>)"

text \<open>\<open>targets\<close> are the sessions whose exchanger is alive and has a transmission, in the order of the table.\<close>

definition BroadcastPeerRouteTable ::
    "Int128 list \<Rightarrow> Int128 list \<Rightarrow> peer_switcher \<Rightarrow> (Int128 \<times> PeerRouteTableMessage) list" where
  "BroadcastPeerRouteTable order targets s =
     (if \<not> IsPeerRoutingEnabled s \<or> \<not> distribute s then []
      else map (\<lambda>t. (t, BuildPeerRouteTableSnapshot order (Some t) s)) targets)"

definition FindGatewayVirtualIPForDestination :: "u32 \<Rightarrow> peer_switcher \<Rightarrow> u32" where
  "FindGatewayVirtualIPForDestination destination s =
     (if \<not> IsPeerRoutingEnabled s then 0
      else if \<not> IsAvailable (peer_prefix_rib s) then 0
      else GetNextHop destination (peer_prefix_rib s))"

definition DeletePeerPrefixGateway ::
    "Int128 list \<Rightarrow> Int128 list \<Rightarrow> Int128 \<Rightarrow> peer_switcher \<Rightarrow>
     bool \<times> (Int128 \<times> PeerRouteTableMessage) list \<times> peer_switcher" where
  "DeletePeerPrefixGateway order targets session_id s =
     (if peer_prefix_gateways s session_id = None then (False, [], s)
      else let s = RebuildPeerPrefixRibLocked order
                     (s\<lparr>peer_prefix_gateways := (peer_prefix_gateways s)(session_id := None)\<rparr>)
           in (True, if distribute s then BroadcastPeerRouteTable order targets s else [], s))"

record PeerRouteAnnounceMessage =
  announce_enabled :: bool
  announce_action :: string
  announce_prefixes :: "PeerPrefixRouteEntry list"

record exchanger_ref =
  exchanger_ptr :: nat
  GetId :: Int128

text \<open>The first address of the table, in iteration order, that the exchanger owns; zero when none is.\<close>

fun owned_address :: "nat \<Rightarrow> u32 list \<Rightarrow> peer_switcher \<Rightarrow> u32" where
  "owned_address exchanger [] s = 0"
| "owned_address exchanger (ip # ips) s =
     (case nats s ip of
        None \<Rightarrow> owned_address exchanger ips s
      | Some info \<Rightarrow> if Exchanger info = exchanger then ip else owned_address exchanger ips s)"

text \<open>What an announcement returns: the verdict, the echoed announcement, the table for the client and the broadcast.\<close>

record announce_result =
  announce_ok :: bool
  announce_response :: PeerRouteAnnounceMessage
  announce_table :: "PeerRouteTableMessage option"
  announce_broadcast :: "(Int128 \<times> PeerRouteTableMessage) list"

definition announce_failed :: "PeerRouteAnnounceMessage \<Rightarrow> announce_result" where
  "announce_failed response =
     \<lparr>announce_ok = False, announce_response = response, announce_table = None, announce_broadcast = []\<rparr>"

text \<open>\<open>exchanger\<close> is missing when the caller has none or a disposed one.\<close>

definition UpdatePeerRouteAnnounce ::
    "(string \<Rightarrow> u32 option) \<Rightarrow> (Int128 \<Rightarrow> string) \<Rightarrow> u32 list \<Rightarrow> Int128 list \<Rightarrow> Int128 list \<Rightarrow>
     exchanger_ref option \<Rightarrow> PeerRouteAnnounceMessage \<Rightarrow> peer_switcher \<Rightarrow> announce_result \<times> peer_switcher" where
  "UpdatePeerRouteAnnounce mk guid nat_order order targets exchanger request s =
     (if \<not> IsPeerRoutingEnabled s
      then (announce_failed (request\<lparr>announce_action := ''reject'', announce_enabled := False\<rparr>), s)
      else if \<not> announce_enabled request \<or> announce_action request \<noteq> ''register'' then (announce_failed request, s)
      else case exchanger of
        None \<Rightarrow> (announce_failed request, s)
      | Some ex \<Rightarrow>
          let session_id = GetId ex;
              virtual_ip = owned_address (exchanger_ptr ex) nat_order s
          in if virtual_ip = 0 \<or> IsInvalid virtual_ip
             then (announce_failed (request\<lparr>announce_action := ''reject''\<rparr>), s)
             else
               let accepted = filter (\<lambda>p. HasAny p \<and>
                     IsPeerRouteAnnouncementAllowed mk (allowed_routes s) (guid session_id) p) (announce_prefixes request)
               in if accepted = []
                  then (announce_failed (request\<lparr>announce_action := ''reject'', announce_prefixes := []\<rparr>), s)
                  else
                    let rec = \<lparr>SessionId = session_id, VirtualIP = virtual_ip, Prefixes = accepted,
                               GatewayExchanger = exchanger_ptr ex\<rparr>;
                        s = RebuildPeerPrefixRibLocked order
                              (s\<lparr>peer_prefix_gateways := (peer_prefix_gateways s)(session_id \<mapsto> rec)\<rparr>)
                    in (\<lparr>announce_ok = True,
                         announce_response = request\<lparr>announce_prefixes := accepted, announce_action := ''registered''\<rparr>,
                         announce_table = Some (BuildPeerRouteTableSnapshot order (Some session_id) s),
                         announce_broadcast = (if distribute s then BroadcastPeerRouteTable order targets s else [])\<rparr>, s))"

section \<open>Choosing the receiver\<close>

definition forward_target :: "u32 \<Rightarrow> peer_switcher \<Rightarrow> NatInformation option" where
  "forward_target destination s =
     (case FindNatInformation destination s of
        Some info \<Rightarrow>
          if destination AND SubmaskAddress info \<noteq> IPAddress info AND SubmaskAddress info then None else Some info
      | None \<Rightarrow>
          if IsPeerRoutingEnabled s then
            (let gw = FindGatewayVirtualIPForDestination destination s
             in if gw \<noteq> 0 then FindNatInformation gw s else None)
          else None)"

text \<open>
  \<open>forward\<close>: \<open>connected\<close> tells whether an exchanger has a transmission, \<open>sends\<close> whether writing to it
  succeeds. The result is the status and the exchanger that received the packet.
\<close>

definition forward :: "(nat \<Rightarrow> bool) \<Rightarrow> (nat \<Rightarrow> bool) \<Rightarrow> u32 \<Rightarrow> peer_switcher \<Rightarrow> int \<times> nat list" where
  "forward connected sends destination s =
     (case forward_target destination s of
        None \<Rightarrow> (0, [])
      | Some info \<Rightarrow>
          if connected (Exchanger info) \<and> sends (Exchanger info) then (1, [Exchanger info]) else (- 1, []))"

definition kMaxBroadcastHosts :: u32 where
  "kMaxBroadcastHosts = 256"

definition BroadcastAddress :: u32 where
  "BroadcastAddress = 0xFFFFFFFF"

function broadcast_walk ::
    "(u32 \<Rightarrow> int \<times> nat list) \<Rightarrow> u32 \<Rightarrow> u32 \<Rightarrow> u32 \<Rightarrow> u32 \<Rightarrow> bool \<times> u32 list \<times> nat list" where
  "broadcast_walk fwd current broadcast address walked =
     (if address < broadcast \<and> walked < kMaxBroadcastHosts then
        (if current = address then broadcast_walk fwd current broadcast (address + 1) walked
         else let (status, receivers) = fwd (htonl address)
              in if status < 0 then (False, [address], receivers)
                 else let (any, asked, rest) = broadcast_walk fwd current broadcast (address + 1) (walked + 1)
                      in (status > 0 \<or> any, address # asked, receivers @ rest))
      else (False, [], []))"
  by pat_completeness auto
termination
  by (relation "measure (\<lambda>(_, _, b, a, _). unat b - unat a)")
    (auto simp: unat_Suc_below word_less_nat_alt intro: diff_less_mono2)

declare broadcast_walk.simps [simp del]

record icmp_path_mtu_error =
  OuterSource :: u32
  OuterDestination :: u32
  QuotedSource :: u32
  QuotedDestination :: u32

text \<open>
  The whole handler for a parsed packet: source, destination and protocol of the header and, when the
  packet is an ICMP path-MTU error, its addresses. The result is the verdict and the receivers.
\<close>

definition ForwardNatPacketToDestination ::
    "(nat \<Rightarrow> bool) \<Rightarrow> (nat \<Rightarrow> bool) \<Rightarrow> u32 \<Rightarrow> u32 \<Rightarrow> u8 \<Rightarrow> icmp_path_mtu_error option \<Rightarrow> peer_switcher \<Rightarrow>
     bool \<times> nat list" where
  "ForwardNatPacketToDestination connected sends src dest proto control s =
     (if proto = 1 \<and> control = None \<and> FindNatInformation dest s = None then (False, [])
      else if (case control of
                 None \<Rightarrow> False
               | Some e \<Rightarrow> \<not> (QuotedDestination e = OuterSource e \<and> QuotedSource e = OuterDestination e))
      then (False, [])
      else case FindNatInformation src s of
        None \<Rightarrow> (False, [])
      | Some source \<Rightarrow>
          if dest \<noteq> BroadcastAddress
          then let (status, receivers) = forward connected sends dest s in (status > 0, receivers)
          else let current = htonl src;
                   submask = htonl (SubmaskAddress source);
                   first = current AND submask;
                   broadcast = first OR NOT submask;
                   (any, asked, receivers) =
                     broadcast_walk (\<lambda>a. forward connected sends a s) current broadcast first 0
               in (any, receivers))"

section \<open>Runs of the switcher\<close>

datatype peer_op =
    Op_AddNat "nat \<Rightarrow> bool" nat u32 u32
  | Op_DeleteNat nat u32
  | Op_Announce "u32 list" "Int128 list" "Int128 list" "exchanger_ref option" PeerRouteAnnounceMessage
  | Op_DeleteGateway "Int128 list" "Int128 list" Int128

fun peer_step ::
    "(string \<Rightarrow> u32 option) \<Rightarrow> (Int128 \<Rightarrow> string) \<Rightarrow> peer_op \<Rightarrow> peer_switcher \<Rightarrow> peer_switcher" where
  "peer_step mk guid (Op_AddNat disposed exchanger ip submask) s =
     snd (AddNatInformation disposed exchanger ip submask s)"
| "peer_step mk guid (Op_DeleteNat key ip) s = snd (DeleteNatInformation key ip s)"
| "peer_step mk guid (Op_Announce nat_order order targets exchanger request) s =
     snd (UpdatePeerRouteAnnounce mk guid nat_order order targets exchanger request s)"
| "peer_step mk guid (Op_DeleteGateway order targets session_id) s =
     snd (snd (DeletePeerPrefixGateway order targets session_id s))"

text \<open>A switcher without gateways, under any configuration.\<close>

definition peer_init :: "bool \<Rightarrow> bool \<Rightarrow> bool \<Rightarrow> PeerRouteAllowEntry list \<Rightarrow> peer_switcher" where
  "peer_init enabled sub dist allowed =
     \<lparr>peer_routing_enabled = enabled, subnet = sub, distribute = dist, allowed_routes = allowed,
      switcher_disposed = False, nats = Map.empty, peer_prefix_gateways = Map.empty,
      peer_prefix_rib = Map.empty\<rparr>"

section \<open>The lookup on a table that is not sorted\<close>

text \<open>
  On buckets in insertion order the lookup still returns a route that contains the address whenever
  there is one, but not the longest.
\<close>

lemma next_hop_loop_matches:
  assumes "rib_inv r" "k \<le> 33"
  shows "case next_hop_loop ip (rev [0..int k - 1]) r of hop \<Rightarrow>
           (\<exists>p \<in> {0..int k - 1}. rib_abs r (ip AND PrefixToNetmask p, p) = Some hop) \<or>
           (hop = NoneAddress \<and> (\<forall>p \<in> {0..int k - 1}. rib_abs r (ip AND PrefixToNetmask p, p) = None))"
  using assms
proof (induction k)
  case (Suc k)
  define d where "d = ip AND PrefixToNetmask (int k)"
  have ok: "bucket_ok d (bucket r d)"
    by (rule bucket_inv [OF Suc.prems(1)])
  have step: "next_hop_loop ip (rev [0..int k]) r =
      (case find (\<lambda>e. int k \<ge> Prefix e) (bucket r d) of
         None \<Rightarrow> next_hop_loop ip (rev [0..int k - 1]) r | Some e \<Rightarrow> NextHop e)"
    by (simp add: upto_descending d_def bucket_def split: option.splits)
  show ?case
  proof (cases "find (\<lambda>e. int k \<ge> Prefix e) (bucket r d)")
    case None
    then have "rib_abs r (d, int k) = None"
      by (auto simp: find_None_iff rib_abs_apply hops_None)
    moreover have "{0..int (Suc k) - 1} = insert (int k) {0..int k - 1}"
      by auto
    ultimately show ?thesis
      using Suc step None by (simp add: d_def)
  next
    case (Some e)
    then have e: "e \<in> set (bucket r d)" "Prefix e \<le> int k"
      by (auto simp: find_Some_iff)
    then have valid: "0 \<le> Prefix e" "d AND PrefixToNetmask (Prefix e) = d"
      using ok by (auto simp: bucket_ok_def route_valid_def MIN_PREFIX_VALUE_def)
    have "ip AND PrefixToNetmask (Prefix e) = d"
      using netmask_between [of "Prefix e" "Prefix e" "int k" ip] valid e(2) Suc.prems(2) by (simp add: d_def)
    moreover have "hops (bucket r d) (Prefix e) = Some (NextHop e)"
      using ok e(1) by (auto simp: hops_Some bucket_ok_def)
    ultimately have "rib_abs r (ip AND PrefixToNetmask (Prefix e), Prefix e) = Some (NextHop e)"
      by (simp add: rib_abs_apply)
    moreover have "Prefix e \<in> {0..int (Suc k) - 1}"
      using valid(1) e(2) by simp
    ultimately show ?thesis
      using step Some by auto
  qed
qed simp

lemma GetNextHop_matches:
  assumes "rib_inv r"
  shows "(\<exists>p \<in> {0..32}. rib_abs r (ip AND PrefixToNetmask p, p) = Some (GetNextHop ip r)) \<or>
         (GetNextHop ip r = NoneAddress \<and> (\<forall>p \<in> {0..32}. rib_abs r (ip AND PrefixToNetmask p, p) = None))"
  using next_hop_loop_matches [OF assms, of 33 ip]
  by (simp add: GetNextHop_def GetNextHop_range_def MIN_PREFIX_VALUE_def MAX_PREFIX_VALUE_def)

section \<open>Every route is an accepted announcement\<close>

definition routes_from :: "(u32 \<Rightarrow> int \<Rightarrow> u32 \<Rightarrow> bool) \<Rightarrow> RouteEntriesTable \<Rightarrow> bool" where
  "routes_from P r \<longleftrightarrow> rib_inv r \<and> (\<forall>net plen gw. rib_abs r (net, plen) = Some gw \<longrightarrow> P net plen gw)"

lemma routes_from_Clear [simp]: "routes_from P (Clear r)"
  by (simp add: routes_from_def Clear_implements)

lemma routes_from_AddRoute:
  assumes "routes_from P r" "P net plen gw"
  shows "routes_from P (snd (AddRoute net plen gw r))"
proof -
  have inv: "rib_inv r" using assms(1) by (simp add: routes_from_def)
  have "rib_abs (snd (AddRoute net plen gw r)) = snd (route_add net plen gw (rib_abs r))"
    using AddRoute_implements(2) [OF inv, of net plen gw] by (simp add: prod_eq_iff)
  then show ?thesis
    using AddRoute_implements(1) [OF inv] assms by (auto simp: routes_from_def route_add_def)
qed

text \<open>A route for \<open>net\<close> and \<open>plen\<close> through \<open>gw\<close> that one of the gateway records announces.\<close>

definition announced :: "(Int128 \<rightharpoonup> PeerPrefixGatewayRecord) \<Rightarrow> u32 \<Rightarrow> int \<Rightarrow> u32 \<Rightarrow> bool" where
  "announced gws net plen gw \<longleftrightarrow>
     (\<exists>k rec p. gws k = Some rec \<and> p \<in> set (Prefixes rec) \<and> VirtualIP rec = gw \<and> gw \<noteq> 0 \<and>
        NetworkHost p = net \<and> prefix p = plen \<and> net \<noteq> 0 \<and> 0 < plen \<and> plen \<le> 32)"

lemma routes_from_record:
  assumes "routes_from (announced gws) r" "gws k = Some rec"
  shows "routes_from (announced gws) (record_routes rec r)"
proof (cases "VirtualIP rec = 0")
  case False
  define add where "add = (\<lambda>p rib.
     if prefix p \<le> 0 \<or> prefix p > 32 then rib
     else if NetworkHost p = 0 then rib else snd (AddRoute (NetworkHost p) (prefix p) (VirtualIP rec) rib))"
  have "routes_from (announced gws) (fold add ps r)" if "set ps \<subseteq> set (Prefixes rec)" for ps
    using that assms(1)
  proof (induction ps arbitrary: r)
    case (Cons p ps)
    have "announced gws (NetworkHost p) (prefix p) (VirtualIP rec)"
      if "0 < prefix p" "prefix p \<le> 32" "NetworkHost p \<noteq> 0"
      unfolding announced_def using that Cons.prems(1) assms(2) False by auto
    then have "routes_from (announced gws) (add p r)"
      using Cons.prems(2) by (simp add: add_def routes_from_AddRoute not_le)
    then show ?case
      using Cons by simp
  qed simp
  then show ?thesis
    using False by (simp add: record_routes_def add_def)
qed (use assms in \<open>simp add: record_routes_def\<close>)

lemma routes_from_rebuild:
  "routes_from (announced (peer_prefix_gateways s)) (peer_prefix_rib (RebuildPeerPrefixRibLocked order s))"
proof -
  define visit where "visit = (\<lambda>k rib. case peer_prefix_gateways s k of None \<Rightarrow> rib | Some rec \<Rightarrow> record_routes rec rib)"
  have "routes_from (announced (peer_prefix_gateways s)) r \<Longrightarrow>
        routes_from (announced (peer_prefix_gateways s)) (fold visit ks r)" for ks r
    by (induction ks arbitrary: r) (auto simp: visit_def routes_from_record split: option.splits)
  then show ?thesis
    by (simp add: RebuildPeerPrefixRibLocked_def visit_def)
qed

lemma rebuild_fields [simp]:
  "peer_prefix_gateways (RebuildPeerPrefixRibLocked order s) = peer_prefix_gateways s"
  "allowed_routes (RebuildPeerPrefixRibLocked order s) = allowed_routes s"
  "nats (RebuildPeerPrefixRibLocked order s) = nats s"
  by (simp_all add: RebuildPeerPrefixRibLocked_def)

definition record_ok ::
    "(string \<Rightarrow> u32 option) \<Rightarrow> (Int128 \<Rightarrow> string) \<Rightarrow> PeerRouteAllowEntry list \<Rightarrow> Int128 \<Rightarrow> PeerPrefixGatewayRecord \<Rightarrow> bool" where
  "record_ok mk guid allowed k rec \<longleftrightarrow> SessionId rec = k \<and> \<not> IsInvalid (VirtualIP rec) \<and>
     (\<forall>p \<in> set (Prefixes rec). HasAny p \<and> IsPeerRouteAnnouncementAllowed mk allowed (guid k) p)"

definition peer_inv ::
    "(string \<Rightarrow> u32 option) \<Rightarrow> (Int128 \<Rightarrow> string) \<Rightarrow> PeerRouteAllowEntry list \<Rightarrow> peer_switcher \<Rightarrow> bool" where
  "peer_inv mk guid allowed s \<longleftrightarrow> allowed_routes s = allowed \<and>
     (\<forall>k rec. peer_prefix_gateways s k = Some rec \<longrightarrow> record_ok mk guid allowed k rec) \<and>
     routes_from (announced (peer_prefix_gateways s)) (peer_prefix_rib s)"

lemma peer_inv_gateways:
  assumes "peer_inv mk guid allowed s" "\<And>rec. b = Some rec \<Longrightarrow> record_ok mk guid allowed k rec"
  shows "peer_inv mk guid allowed
           (RebuildPeerPrefixRibLocked order (s\<lparr>peer_prefix_gateways := (peer_prefix_gateways s)(k := b)\<rparr>))"
  using assms routes_from_rebuild [of "s\<lparr>peer_prefix_gateways := (peer_prefix_gateways s)(k := b)\<rparr>" order]
  by (simp add: peer_inv_def)

lemma peer_inv_announce:
  assumes inv: "peer_inv mk guid allowed s"
  shows "peer_inv mk guid allowed (snd (UpdatePeerRouteAnnounce mk guid nat_order order targets exchanger request s))"
proof -
  have "record_ok mk guid allowed k
      \<lparr>SessionId = k, VirtualIP = ip,
       Prefixes = filter (\<lambda>p. HasAny p \<and> IsPeerRouteAnnouncementAllowed mk (allowed_routes s) (guid k) p) ps,
       GatewayExchanger = x\<rparr>" if "\<not> IsInvalid ip" for k ip ps x
    using that inv by (auto simp: record_ok_def peer_inv_def)
  then have "peer_inv mk guid allowed (RebuildPeerPrefixRibLocked order
      (s\<lparr>peer_prefix_gateways := (peer_prefix_gateways s)(k \<mapsto>
        \<lparr>SessionId = k, VirtualIP = ip,
         Prefixes = filter (\<lambda>p. HasAny p \<and> IsPeerRouteAnnouncementAllowed mk (allowed_routes s) (guid k) p) ps,
         GatewayExchanger = x\<rparr>)\<rparr>))" if "\<not> IsInvalid ip" for k ip ps x
    using that by (intro peer_inv_gateways [OF inv]) auto
  then show ?thesis
    using inv by (simp add: UpdatePeerRouteAnnounce_def Let_def split: option.splits)
qed

lemma peer_inv_delete:
  "peer_inv mk guid allowed s \<Longrightarrow>
     peer_inv mk guid allowed (snd (snd (DeletePeerPrefixGateway order targets k s)))"
  using peer_inv_gateways [of mk guid allowed s None k order]
  by (simp add: DeletePeerPrefixGateway_def Let_def)

lemma peer_inv_nats:
  assumes "peer_inv mk guid allowed s"
  shows "peer_inv mk guid allowed (snd (AddNatInformation disposed x ip submask s))"
    and "peer_inv mk guid allowed (snd (DeleteNatInformation x ip s))"
  using assms
  by (simp_all add: AddNatInformation_def DeleteNatInformation_def peer_inv_def Let_def split: option.splits)

interpretation peer: guarded_machine "peer_init enabled sub dist allowed" "peer_step mk guid" "peer_inv mk guid allowed"
proof unfold_locales
  show "peer_inv mk guid allowed (peer_init enabled sub dist allowed)"
    by (simp add: peer_inv_def peer_init_def routes_from_def rib_inv_def rib_abs_def bucket_def)
  show "peer_inv mk guid allowed (peer_step mk guid op s)" if "peer_inv mk guid allowed s" for op s
    using that by (cases op) (simp_all add: peer_inv_announce peer_inv_delete peer_inv_nats)
qed

lemma htonl_htonl [simp]: "htonl (htonl x) = x"
proof -
  have "be32 (htonl x) = rev (be32 x)"
    unfolding htonl_def by (subst (2 3) be32_def) (simp add: be32_rd32_bytes)
  then show ?thesis
    using rd32_be32 [of x "[]"] by (simp add: htonl_def [of "htonl x"])
qed

text \<open>What the policy admits: a row of the allowlist for this session with the same network and length.\<close>

lemma allowed_row:
  assumes "IsPeerRouteAnnouncementAllowed mk allowed g p"
  obtains row requested where "row \<in> set allowed"
    "NormalizePeerRouteGuid (allow_guid row) = NormalizePeerRouteGuid g" "NormalizePeerRouteGuid g \<noteq> []"
    "allow_prefix row = prefix p" "ParsePeerPrefixNetwork mk (allow_network row) (prefix p) = Some requested"
    "ParsePeerPrefixNetwork mk (network p) (prefix p) = Some requested"
    "\<not> IsDangerousPeerPrefix requested (prefix p)"
  using assms that
  by (auto simp: IsPeerRouteAnnouncementAllowed_def Let_def list_ex_iff allow_row_def split: option.splits if_splits)

lemma NetworkHost_requested:
  assumes "\<And>t a. mk (c_str t) = Some a \<Longrightarrow> StringToAddress t = Some a"
    and "ParsePeerPrefixNetwork mk (network p) (prefix p) = Some requested"
  shows "NetworkHost p = htonl requested"
  using assms by (auto simp: ParsePeerPrefixNetwork_def NetworkHost_def htonl_and split: if_splits option.splits)

lemma found_gateway:
  assumes inv: "peer_inv mk guid allowed s"
    and gw: "FindGatewayVirtualIPForDestination dest s = gw" "gw \<noteq> 0" "gw \<noteq> NoneAddress"
  obtains session rec p where "peer_prefix_gateways s session = Some rec" "VirtualIP rec = gw"
    "p \<in> set (Prefixes rec)" "dest AND PrefixToNetmask (prefix p) = NetworkHost p" "MatchesDestination p dest"
    "IsPeerRouteAnnouncementAllowed mk allowed (guid session) p"
proof -
  have "GetNextHop dest (peer_prefix_rib s) = gw"
    using gw by (simp add: FindGatewayVirtualIPForDestination_def split: if_splits)
  moreover have "rib_inv (peer_prefix_rib s)"
    using inv by (simp add: peer_inv_def routes_from_def)
  ultimately obtain plen where "rib_abs (peer_prefix_rib s) (dest AND PrefixToNetmask plen, plen) = Some gw"
    using GetNextHop_matches [of "peer_prefix_rib s" dest] gw(3) by auto
  then have "announced (peer_prefix_gateways s) (dest AND PrefixToNetmask plen) plen gw"
    using inv by (simp add: peer_inv_def routes_from_def)
  then obtain session rec p where p: "peer_prefix_gateways s session = Some rec" "VirtualIP rec = gw"
      "p \<in> set (Prefixes rec)" "dest AND PrefixToNetmask (prefix p) = NetworkHost p"
      "NetworkHost p \<noteq> 0" "0 < prefix p" "prefix p \<le> 32"
    unfolding announced_def by metis
  then have "HasAny p" "IsPeerRouteAnnouncementAllowed mk allowed (guid session) p"
    using inv unfolding peer_inv_def record_ok_def by blast+
  moreover have "MatchesDestination p dest"
    using p \<open>HasAny p\<close> by (simp add: MatchesDestination_def flip: p(4))
  ultimately show ?thesis
    using that p by blast
qed

text \<open>The gateway address that a snapshot carries as text is the virtual address of the record.\<close>

lemma digit_text:
  assumes "k < 10"
  shows "is_digit (char_of (48 + k))" and "digit_value (char_of (48 + k)) = k"
  using assms by (simp_all add: is_digit_def digit_value_def take_bit_nat_eq_self)

lemma octet_digits:
  "a < 10 \<Longrightarrow> octet [char_of (48 + a)] = Some a"
  "0 < a \<Longrightarrow> a < 10 \<Longrightarrow> b < 10 \<Longrightarrow> octet [char_of (48 + a), char_of (48 + b)] = Some (10 * a + b)"
  "0 < a \<Longrightarrow> a < 10 \<Longrightarrow> b < 10 \<Longrightarrow> c < 10 \<Longrightarrow> 10 * (10 * a + b) + c \<le> 255 \<Longrightarrow>
     octet [char_of (48 + a), char_of (48 + b), char_of (48 + c)] = Some (10 * (10 * a + b) + c)"
proof -
  have "char_of (48 + k) \<noteq> CHR ''0''" if "0 < k" "k < 10" for k :: nat
    using digit_text(2) [of k] that by (auto simp: digit_value_def of_char_def)
  then show "a < 10 \<Longrightarrow> octet [char_of (48 + a)] = Some a"
    and "0 < a \<Longrightarrow> a < 10 \<Longrightarrow> b < 10 \<Longrightarrow> octet [char_of (48 + a), char_of (48 + b)] = Some (10 * a + b)"
    and "0 < a \<Longrightarrow> a < 10 \<Longrightarrow> b < 10 \<Longrightarrow> c < 10 \<Longrightarrow> 10 * (10 * a + b) + c \<le> 255 \<Longrightarrow>
     octet [char_of (48 + a), char_of (48 + b), char_of (48 + c)] = Some (10 * (10 * a + b) + c)"
    by (simp_all add: octet_def decimal_def digit_text)
qed

lemma octet_octet_text:
  assumes "n < 256"
  shows "octet (octet_text n) = Some n"
proof -
  consider "n < 10" | "10 \<le> n" "n < 100" | "100 \<le> n" by linarith
  then show ?thesis
  proof cases
    case 1
    then show ?thesis using octet_digits(1) [of n] by (simp add: octet_text_def)
  next
    case 2
    then show ?thesis using octet_digits(2) [of "n div 10" "n mod 10"] by (simp add: octet_text_def)
  next
    case 3
    have n: "10 * (10 * (n div 100) + n div 10 mod 10) + n mod 10 = n"
    proof -
      have "10 * (n div 100) + n div 10 mod 10 = n div 10"
        using mult_div_mod_eq [of 10 "n div 10"] div_mult2_eq [of n 10 10] by simp
      then show ?thesis by simp
    qed
    have "octet_text n = [char_of (48 + n div 100), char_of (48 + n div 10 mod 10), char_of (48 + n mod 10)]"
      using 3 by (simp add: octet_text_def)
    moreover have "n div 100 < 10" "0 < n div 100" "10 * (10 * (n div 100) + n div 10 mod 10) + n mod 10 \<le> 255"
      using 3 assms unfolding n by auto
    ultimately show ?thesis
      using octet_digits(3) [of "n div 100" "n div 10 mod 10" "n mod 10"] unfolding n by simp
  qed
qed

lemma octet_text_chars: "n < 256 \<Longrightarrow> c \<in> set (octet_text n) \<Longrightarrow> is_digit c"
  by (auto simp: octet_text_def Let_def digit_text(1) split: if_splits)

lemma split_at_append: "d \<notin> set x \<Longrightarrow> split_at d (x @ d # y) = x # split_at d y" and
  split_at_single: "d \<notin> set x \<Longrightarrow> split_at d x = [x]"
  by (induction x) auto

lemma StringToAddress_ToAddressString: "StringToAddress (ToAddressString ip) = Some (htonl ip)"
proof -
  obtain a b c d where abcd: "rev (be32 ip) = [a, b, c, d]"
    by (simp add: be32_def)
  let ?t = "\<lambda>x :: u8. octet_text (unat x)"
  have small: "unat (x :: u8) < 256" for x
    using unsigned_less [of x, where 'a = nat] by simp
  have digits: "is_digit ch" if "ch \<in> set (?t x)" for x ch
    using octet_text_chars [OF small that] .
  have chars: "CHR ''.'' \<notin> set (?t x)" "CHR 0x00 \<notin> set (?t x)" for x
    using digits [of "CHR ''.''" x] digits [of "CHR 0x00" x] by (auto simp: is_digit_def of_char_def)
  have shown: "ToAddressString ip = ?t a @ CHR ''.'' # ?t b @ CHR ''.'' # ?t c @ CHR ''.'' # ?t d"
    by (simp add: ToAddressString_def abcd)
  have "c_str (ToAddressString ip) = ToAddressString ip"
    unfolding c_str_def shown by (subst takeWhile_eq_all_conv) (use chars in auto)
  then have "split_at CHR ''.'' (c_str (ToAddressString ip)) = [?t a, ?t b, ?t c, ?t d]"
    by (simp add: shown split_at_append split_at_single chars)
  then show ?thesis
    by (simp add: StringToAddress_def octet_octet_text [OF small] htonl_def abcd)
qed

lemma octet_text_nonempty [simp]: "octet_text n \<noteq> []"
  by (simp add: octet_text_def Let_def)

lemma ViaHost_BindPeerRouteGateway: "ViaHost (BindPeerRouteGateway p ip) = ip"
proof -
  have "ToAddressString ip \<noteq> []"
    by (simp add: ToAddressString_def be32_def)
  then show ?thesis
    by (simp add: ViaHost_def BindPeerRouteGateway_def StringToAddress_ToAddressString)
qed

section \<open>An example\<close>

text \<open>Two sites: the first may announce 10.0.0.0/8, the second 10.0.0.0/16.\<close>

definition example_allowed :: "PeerRouteAllowEntry list" where
  "example_allowed =
     [\<lparr>allow_network = ''10.0.0.0'', allow_prefix = 8, allow_guid = ''{A}''\<rparr>,
      \<lparr>allow_network = ''10.0.0.0'', allow_prefix = 16, allow_guid = ''b''\<rparr>]"

definition example_guid :: "Int128 \<Rightarrow> string" where
  "example_guid k = (if k = 1 then ''a'' else ''b'')"

definition example_register :: "int \<Rightarrow> PeerRouteAnnounceMessage" where
  "example_register plen =
     \<lparr>announce_enabled = True, announce_action = ''register'',
      announce_prefixes = [\<lparr>network = ''10.0.0.0'', prefix = plen, via = []\<rparr>]\<rparr>"

definition example_site :: "u32 \<Rightarrow> u32" where
  "example_site n = htonl (0xC0A80000 + n)"

definition example_ops :: "peer_op list" where
  "example_ops =
     [Op_AddNat (\<lambda>_. False) 10 (example_site 1) (htonl 0xFFFFFF00),
      Op_AddNat (\<lambda>_. False) 20 (example_site 2) (htonl 0xFFFFFF00),
      Op_Announce [example_site 1, example_site 2] [1] [] (Some \<lparr>exchanger_ptr = 10, GetId = 1\<rparr>) (example_register 8),
      Op_Announce [example_site 1, example_site 2] [1, 2] [] (Some \<lparr>exchanger_ptr = 20, GetId = 2\<rparr>) (example_register 16)]"

definition example_peers :: peer_switcher where
  "example_peers = fold (peer_step StringToAddress example_guid) example_ops (peer_init True True False example_allowed)"

lemma example_addresses:
  "StringToAddress ''10.0.0.0'' = Some 0x0A000000" "c_str ''10.0.0.0'' = ''10.0.0.0''"
  "PrefixToNetmask 4 = 0xF0" "PrefixToNetmask 8 = 0xFF" "PrefixToNetmask 16 = 0xFFFF"
  "PrefixToNetmask 31 = 0xFEFFFFFF" "PrefixToNetmask 32 = 0xFFFFFFFF"
  by code_simp+

lemma example_guids:
  "NormalizePeerRouteGuid ''{A}'' = ''a''" "NormalizePeerRouteGuid ''a'' = ''a''"
  "NormalizePeerRouteGuid ''b'' = ''b''"
  by code_simp+

lemma example_htonl:
  "htonl 0x0A000001 = 0x0100000A" "htonl 0x0A000000 = 0x0A" "htonl 0xFF = 0xFF000000"
  "htonl 0xFFFF = 0xFFFF0000" "htonl 0xF0 = 0xF0000000" "htonl 0xFFFFFF00 = 0x00FFFFFF"
  "example_site 1 = 0x0100A8C0" "example_site 2 = 0x0200A8C0"
  "htonl 0x00FFFFFF = 0xFFFFFF00" "htonl 0x0100A8C0 = 0xC0A80001" "htonl 0x0200A8C0 = 0xC0A80002"
  "htonl 0x0100000A = 0x0A000001"
  by (simp_all add: htonl_def rd32_def be32_def byte_at_def example_site_def)

lemmas example_eval = example_addresses example_guids example_htonl

lemma example_networks:
  "NetworkHost \<lparr>network = ''10.0.0.0'', prefix = 8, via = []\<rparr> = 0x0A"
  "NetworkHost \<lparr>network = ''10.0.0.0'', prefix = 16, via = []\<rparr> = 0x0A"
  "HasAny \<lparr>network = ''10.0.0.0'', prefix = 8, via = []\<rparr>"
  "HasAny \<lparr>network = ''10.0.0.0'', prefix = 16, via = []\<rparr>"
  by (simp_all add: NetworkHost_def HasAny_def example_eval)

lemma example_policy:
  "IsPeerRouteAnnouncementAllowed StringToAddress example_allowed ''a'' \<lparr>network = ''10.0.0.0'', prefix = 8, via = []\<rparr>"
  "IsPeerRouteAnnouncementAllowed StringToAddress example_allowed ''b'' \<lparr>network = ''10.0.0.0'', prefix = 16, via = []\<rparr>"
  by (simp_all add: IsPeerRouteAnnouncementAllowed_def allow_row_def ParsePeerPrefixNetwork_def IsDangerousPeerPrefix_def
      prefix_in_range_def example_allowed_def example_networks example_eval Let_def)

lemma example_valid:
  "route_valid 0x0A 8 0x0100A8C0" "route_valid 0x0A 16 0x0200A8C0" "\<not> IsInvalid 0x0100A8C0" "\<not> IsInvalid 0x0200A8C0"
  "\<not> IsInvalid 0x00FFFFFF" "\<not> IsInvalid 0x0100000A"
  by (simp_all add: route_valid_def IsInvalid_def NoneAddress_def AnyAddress_def MIN_PREFIX_VALUE_def
      MAX_PREFIX_VALUE_def example_eval)

lemma example_state:
  "nats example_peers = [0x0100A8C0 \<mapsto> \<lparr>IPAddress = 0x0100A8C0, SubmaskAddress = 0x00FFFFFF, Exchanger = 10\<rparr>,
                         0x0200A8C0 \<mapsto> \<lparr>IPAddress = 0x0200A8C0, SubmaskAddress = 0x00FFFFFF, Exchanger = 20\<rparr>]"
  "peer_prefix_rib example_peers = [0x0A \<mapsto> [\<lparr>Destination = 0x0A, Prefix = 8, NextHop = 0x0100A8C0\<rparr>,
                                             \<lparr>Destination = 0x0A, Prefix = 16, NextHop = 0x0200A8C0\<rparr>]]"
  "IsPeerRoutingEnabled example_peers"
  by (simp_all add: example_peers_def example_ops_def peer_init_def AddNatInformation_def UpdatePeerRouteAnnounce_def
      IsPeerRoutingEnabled_def example_register_def example_guid_def example_networks example_policy example_valid
      example_eval RebuildPeerPrefixRibLocked_def record_routes_def AddRoute_def bucket_def Clear_def Let_def)

lemma example_descending: "rev [0..32::int] = 32 # 31 # rev [0..30]"
  using upto_rec2 [of 0 "32::int"] upto_rec2 [of 0 "31::int"] by simp

lemma example_lookup:
  "GetNextHop (htonl 0x0A000001) (peer_prefix_rib example_peers) = example_site 1"
  "GetNextHop (htonl 0x0A000001) (Fill (peer_prefix_rib example_peers)) = example_site 2"
  by (simp_all add: GetNextHop_def GetNextHop_range_def MIN_PREFIX_VALUE_def MAX_PREFIX_VALUE_def example_descending
      example_state example_eval Fill_def)

lemma example_nats:
  "FindNatInformation (htonl 0x0A000001) example_peers = None"
  "FindNatInformation (example_site 1) example_peers =
     Some \<lparr>IPAddress = 0x0100A8C0, SubmaskAddress = 0x00FFFFFF, Exchanger = 10\<rparr>"
  by (simp_all add: FindNatInformation_def example_state example_valid example_eval)

lemma lookup_available: "GetNextHop ip r \<noteq> NoneAddress \<Longrightarrow> IsAvailable r"
proof -
  have "next_hop_loop ip ps Map.empty = NoneAddress" for ps
    by (induction ps) simp_all
  then show "GetNextHop ip r \<noteq> NoneAddress \<Longrightarrow> IsAvailable r"
    by (auto simp: IsAvailable_def GetNextHop_def GetNextHop_range_def)
qed

lemma example_gateway: "FindGatewayVirtualIPForDestination (htonl 0x0A000001) example_peers = example_site 1"
  using lookup_available [of "htonl 0x0A000001" "peer_prefix_rib example_peers"] example_lookup(1) example_state(3)
  by (simp add: FindGatewayVirtualIPForDestination_def example_eval NoneAddress_def)

section \<open>The broadcast walk\<close>

text \<open>The hosts of a subnet but the sender, in order, and the part of a list up to the first failure.\<close>

definition walk_hosts :: "u32 \<Rightarrow> u32 \<Rightarrow> u32 \<Rightarrow> u32 list" where
  "walk_hosts current broadcast address =
     filter (\<lambda>a. a \<noteq> current) (map of_nat [unat address..<unat broadcast])"

fun until_failure :: "(u32 \<Rightarrow> int \<times> nat list) \<Rightarrow> u32 list \<Rightarrow> u32 list" where
  "until_failure fwd [] = []"
| "until_failure fwd (a # as) = a # (if fst (fwd (htonl a)) < 0 then [] else until_failure fwd as)"

lemma walk_hosts_step:
  assumes "address < broadcast"
  shows "walk_hosts current broadcast address =
           (if current = address then [] else [address]) @ walk_hosts current broadcast (address + 1)"
proof -
  have "[unat address..<unat broadcast] = unat address # [unat (address + 1)..<unat broadcast]"
    using assms unat_Suc_below [OF assms] by (simp add: upt_conv_Cons word_less_nat_alt)
  then show ?thesis
    by (simp add: walk_hosts_def)
qed

lemma broadcast_walk_eq:
  assumes "walked \<le> kMaxBroadcastHosts"
  shows "broadcast_walk fwd current broadcast address walked =
    (let asked = until_failure fwd (take (256 - unat walked) (walk_hosts current broadcast address))
     in (list_ex (\<lambda>a. fst (fwd (htonl a)) > 0) asked, asked, concat (map (\<lambda>a. snd (fwd (htonl a))) asked)))"
  using assms
proof (induction fwd current broadcast address walked rule: broadcast_walk.induct)
  case (1 fwd current broadcast address walked)
  show ?case
  proof (cases "address < broadcast \<and> walked < kMaxBroadcastHosts")
    case False
    then have "walk_hosts current broadcast address = [] \<or> 256 - unat walked = 0"
      by (auto simp: walk_hosts_def kMaxBroadcastHosts_def word_less_nat_alt)
    then show ?thesis
      using False by (subst broadcast_walk.simps) (auto simp: Let_def)
  next
    case True
    then have "unat walked < 256" "unat (walked + 1) = Suc (unat walked)"
      using unat_Suc_below [of walked kMaxBroadcastHosts] by (simp_all add: kMaxBroadcastHosts_def word_less_nat_alt)
    then have walked: "walked + 1 \<le> kMaxBroadcastHosts" "256 - unat walked = Suc (256 - unat (walked + 1))"
      using Suc_le_below True by auto
    show ?thesis
    proof (cases "current = address")
      case same: True
      then show ?thesis
        using True 1 by (subst broadcast_walk.simps) (simp add: walk_hosts_step)
    next
      case other: False
      obtain status receivers where fwd: "fwd (htonl address) = (status, receivers)"
        by (cases "fwd (htonl address)")
      show ?thesis
        using True other walked fwd 1(2) [OF True other fwd [symmetric] refl]
        by (subst broadcast_walk.simps) (simp add: walk_hosts_step Let_def)
    qed
  qed
qed

lemma length_until_failure: "length (until_failure fwd as) \<le> length as"
  by (induction as) simp_all

section \<open>Properties\<close>

text \<open>
  C20. Site-to-site forwarding is fail-closed. Take any run of the switcher: virtual addresses taken and
  released, prefixes announced and withdrawn, in any order and with any iteration order of the tables.
  A packet is handed to a session only if the session owns the destination address itself, or it owns
  the virtual address of a registered gateway with a prefix that contains the destination, where the
  allowlist has a row for the gateway's session with the same network and prefix length, and the
  network is not one of the dangerous ones. The two address parsers of the code (Asio in the policy,
  \<open>StringToAddress\<close> in the table) are taken to agree on texts that Asio accepts.
\<close>

theorem peer_forwarding_allowlisted:
  assumes mk: "\<And>t a. mk (c_str t) = Some a \<Longrightarrow> StringToAddress t = Some a"
    and s: "s = fold (peer_step mk guid) ops (peer_init enabled sub dist allowed)"
    and target: "forward_target dest s = Some info"
  shows "nats s dest = Some info \<or>
    (\<exists>session rec p row requested.
       peer_prefix_gateways s session = Some rec \<and> nats s (VirtualIP rec) = Some info \<and>
       p \<in> set (Prefixes rec) \<and> MatchesDestination p dest \<and>
       dest AND PrefixToNetmask (prefix p) = htonl requested \<and>
       row \<in> set allowed \<and> allow_prefix row = prefix p \<and>
       ParsePeerPrefixNetwork mk (allow_network row) (prefix p) = Some requested \<and>
       NormalizePeerRouteGuid (allow_guid row) = NormalizePeerRouteGuid (guid session) \<and>
       NormalizePeerRouteGuid (guid session) \<noteq> [] \<and> \<not> IsDangerousPeerPrefix requested (prefix p))"
proof (cases "FindNatInformation dest s")
  case None
  define gw where "gw = FindGatewayVirtualIPForDestination dest s"
  have gw: "gw \<noteq> 0" "FindNatInformation gw s = Some info"
    using target None by (simp_all add: forward_target_def gw_def Let_def split: if_splits)
  then have "gw \<noteq> NoneAddress" and owner: "nats s gw = Some info"
    by (auto simp: FindNatInformation_def IsInvalid_def split: if_splits)
  moreover have "peer_inv mk guid allowed s"
    unfolding s by (rule peer.run_inv)
  ultimately obtain session rec p where rec: "peer_prefix_gateways s session = Some rec" "VirtualIP rec = gw"
      "p \<in> set (Prefixes rec)" "dest AND PrefixToNetmask (prefix p) = NetworkHost p"
      "IsPeerRouteAnnouncementAllowed mk allowed (guid session) p" "MatchesDestination p dest"
    using found_gateway [OF _ gw_def [symmetric] gw(1)] by metis
  from rec(5) obtain row requested where row: "row \<in> set allowed" "allow_prefix row = prefix p"
      "NormalizePeerRouteGuid (allow_guid row) = NormalizePeerRouteGuid (guid session)"
      "NormalizePeerRouteGuid (guid session) \<noteq> []"
      "ParsePeerPrefixNetwork mk (allow_network row) (prefix p) = Some requested"
      "ParsePeerPrefixNetwork mk (network p) (prefix p) = Some requested"
      "\<not> IsDangerousPeerPrefix requested (prefix p)"
    by (rule allowed_row)
  have "NetworkHost p = htonl requested"
    using NetworkHost_requested [OF mk row(6)] .
  then show ?thesis
    using rec row owner by metis
next
  case (Some own)
  then show ?thesis
    using target by (auto simp: forward_target_def FindNatInformation_def split: if_splits)
qed

theorem peer_forwarding_allowlisted_witness:
  "forward_target (htonl 0x0A000001) example_peers =
     Some \<lparr>IPAddress = 0x0100A8C0, SubmaskAddress = 0x00FFFFFF, Exchanger = 10\<rparr> \<and>
   (\<exists>session rec p row requested.
       peer_prefix_gateways example_peers session = Some rec \<and> p \<in> set (Prefixes rec) \<and>
       htonl 0x0A000001 AND PrefixToNetmask (prefix p) = htonl requested \<and>
       row \<in> set example_allowed \<and> allow_prefix row = prefix p)"
proof -
  have target: "forward_target (htonl 0x0A000001) example_peers =
     Some \<lparr>IPAddress = 0x0100A8C0, SubmaskAddress = 0x00FFFFFF, Exchanger = 10\<rparr>"
    using example_gateway example_nats
    by (simp add: forward_target_def example_state(3)) (simp add: example_eval)
  have "nats example_peers (htonl 0x0A000001) = None"
    by (simp add: example_state example_eval)
  then show ?thesis
    using target peer_forwarding_allowlisted [where mk = StringToAddress and s = example_peers,
        OF _ example_peers_def target] by (auto simp: StringToAddress_def c_str_def)
qed

text \<open>
  The lookup of the peer routing table is not a longest-prefix match. In a run in which one site
  announces 10.0.0.0/8 and then another 10.0.0.0/16, both allowed, the server sends packets for 10.0.0.1
  to the gateway of the /8, although the forwarding table filled from the same routes gives the gateway
  of the /16.
\<close>

theorem peer_lookup_not_longest:
  "FindGatewayVirtualIPForDestination (htonl 0x0A000001) example_peers = example_site 1 \<and>
   GetNextHop (htonl 0x0A000001) (Fill (peer_prefix_rib example_peers)) = example_site 2 \<and>
   longest_match (rib_abs (peer_prefix_rib example_peers)) (htonl 0x0A000001) = example_site 2 \<and>
   example_site 1 \<noteq> example_site 2"
proof -
  have "peer_inv StringToAddress example_guid example_allowed example_peers"
    unfolding example_peers_def by (rule peer.run_inv)
  then have "rib_inv (peer_prefix_rib example_peers)"
    by (simp add: peer_inv_def routes_from_def)
  then have "longest_match (rib_abs (peer_prefix_rib example_peers)) (htonl 0x0A000001) = example_site 2"
    using GetNextHop_Fill [of "peer_prefix_rib example_peers" "htonl 0x0A000001"] example_lookup(2) by simp
  then show ?thesis
    using example_gateway example_lookup by (simp add: example_eval)
qed

text \<open>
  C21. The broadcast walk ends and asks at most 256 hosts: it forwards to the hosts of the sender's subnet
  in order, the sender left out, at most 256 of them, and stops after the first failure; it reports
  success exactly when one of these forwards succeeded, and the receivers are those of the forwards.
\<close>

theorem broadcast_walk_bounded:
  "\<exists>asked. asked = until_failure fwd (take 256 (walk_hosts current broadcast first)) \<and>
     length asked \<le> 256 \<and>
     broadcast_walk fwd current broadcast first 0 =
       (list_ex (\<lambda>a. fst (fwd (htonl a)) > 0) asked, asked, concat (map (\<lambda>a. snd (fwd (htonl a))) asked))"
proof -
  let ?asked = "until_failure fwd (take 256 (walk_hosts current broadcast first))"
  have "length ?asked \<le> 256"
    using length_until_failure [of fwd "take 256 (walk_hosts current broadcast first)"] by simp
  moreover have "broadcast_walk fwd current broadcast first 0 =
      (list_ex (\<lambda>a. fst (fwd (htonl a)) > 0) ?asked, ?asked, concat (map (\<lambda>a. snd (fwd (htonl a))) ?asked))"
    using broadcast_walk_eq [of 0 fwd current broadcast first] by (simp add: kMaxBroadcastHosts_def Let_def)
  ultimately show ?thesis
    by blast
qed

end
