(* ===== verification/Checksum.thy ===== *)
theory Checksum
  imports Prelude
begin

text \<open>
  The Internet checksum of \<^verbatim>\<open>src/ppp/net/native/checksum.h\<close> and \<^verbatim>\<open>checksum.cpp\<close>: the scalar routine, the SSE2
  routine with its 16-bit lanes, and the checksum with the pseudo header of TCP and UDP. A 16-bit value
  is stored in the little-endian memory of the host low byte first, so \<open>htons\<close> swaps.
\<close>

unbundle bit_operations_syntax

section \<open>Byte order\<close>

definition htons :: "u16 \<Rightarrow> u16" where
  "htons x = push_bit 8 x OR drop_bit 8 x"

definition le16 :: "u16 \<Rightarrow> bytes" where
  "le16 x = [byte_at 0 x, byte_at 1 x]"

lemma length_le16 [simp, wire]: "length (le16 x) = 2"
  by (simp add: le16_def)

section \<open>The scalar routine\<close>

definition word_of :: "u8 \<Rightarrow> u8 \<Rightarrow> u16" where
  "word_of a b = push_bit 8 (ucast a) OR ucast b"

fun chksum_loop :: "u32 \<Rightarrow> bytes \<Rightarrow> u32" where
  "chksum_loop acc (a # b # data) = chksum_loop (acc + ucast (word_of a b)) data"
| "chksum_loop acc [a] = acc + ucast (word_of a 0)"
| "chksum_loop acc [] = acc"

definition FOLD_U32T :: "u32 \<Rightarrow> u32" where
  "FOLD_U32T u = drop_bit 16 u + (u AND 0x0000FFFF)"

definition ip_standard_chksum :: "bytes \<Rightarrow> u16" where
  "ip_standard_chksum data =
     (let acc = FOLD_U32T (chksum_loop 0 data);
          acc = (if acc AND 0xFFFF0000 \<noteq> 0 then FOLD_U32T acc else acc)
      in htons (ucast acc))"

section \<open>The SSE2 routine\<close>

text \<open>
  A vector register is the list of its 16-bit lanes, lane 0 first; a load puts two consecutive bytes
  into a lane, the first one low.
\<close>

fun loadu_si128 :: "bytes \<Rightarrow> u16 list" where
  "loadu_si128 (a # b # data) = (ucast a OR push_bit 8 (ucast b)) # loadu_si128 data"
| "loadu_si128 data = []"

definition slli_epi16 :: "nat \<Rightarrow> u16 list \<Rightarrow> u16 list" where
  "slli_epi16 n v = map (push_bit n) v"

definition srli_epi16 :: "nat \<Rightarrow> u16 list \<Rightarrow> u16 list" where
  "srli_epi16 n v = map (drop_bit n) v"

fun slli_epi32 :: "nat \<Rightarrow> u16 list \<Rightarrow> u16 list" where
  "slli_epi32 n (lo # hi # v) =
     (let w = push_bit n (ucast lo OR push_bit 16 (ucast hi) :: u32)
      in ucast w # ucast (drop_bit 16 w) # slli_epi32 n v)"
| "slli_epi32 n v = []"

definition and_si128 :: "u16 list \<Rightarrow> u16 list \<Rightarrow> u16 list" where
  "and_si128 v w = map2 (AND) v w"

definition or_si128 :: "u16 list \<Rightarrow> u16 list \<Rightarrow> u16 list" where
  "or_si128 v w = map2 (OR) v w"

text \<open>Unpacking with a zero register widens the low or the high four lanes to 32 bits.\<close>

definition unpacklo_zero :: "u16 list \<Rightarrow> u32 list" where
  "unpacklo_zero v = map ucast (take 4 v)"

definition unpackhi_zero :: "u16 list \<Rightarrow> u32 list" where
  "unpackhi_zero v = map ucast (drop 4 v)"

definition add_epi32 :: "u32 list \<Rightarrow> u32 list \<Rightarrow> u32 list" where
  "add_epi32 v w = map2 (+) v w"

definition simd_block :: "u32 list \<Rightarrow> bytes \<Rightarrow> u32 list" where
  "simd_block accumulator block =
     (let chunk = loadu_si128 block;
          high_bytes = slli_epi16 8 chunk;
          low_bytes = srli_epi16 8 chunk;
          m = replicate 8 0x00FF;
          word1 = and_si128 high_bytes (slli_epi32 8 m);
          word2 = and_si128 low_bytes m;
          ws = or_si128 word1 word2
      in add_epi32 (add_epi32 accumulator (unpacklo_zero ws)) (unpackhi_zero ws))"

fun simd_loop :: "nat \<Rightarrow> u32 list \<Rightarrow> bytes \<Rightarrow> u32 list" where
  "simd_loop 0 accumulator data = accumulator"
| "simd_loop (Suc n) accumulator data = simd_loop n (simd_block accumulator (take 16 data)) (drop 16 data)"

definition ip_standard_chksum_simd :: "bytes \<Rightarrow> u16" where
  "ip_standard_chksum_simd data =
     (if data = [] then 0
      else let blocks = length data div 16;
               acc = (if length data \<ge> 16 then sum_list (simd_loop blocks [0, 0, 0, 0] data) else 0);
               acc = chksum_loop acc (drop (16 * blocks) data);
               acc = FOLD_U32T acc;
               acc = (if acc > 0xFFFF then FOLD_U32T acc else acc)
           in htons (ucast acc))"

section \<open>Checksums of packets\<close>

definition inet_chksum :: "bytes \<Rightarrow> u16" where
  "inet_chksum data = NOT (ip_standard_chksum data)"

definition SWAP_BYTES_IN_WORD :: "u32 \<Rightarrow> u32" where
  "SWAP_BYTES_IN_WORD w = push_bit 8 (w AND 0xFF) OR drop_bit 8 (w AND 0xFF00)"

definition inet_cksum_pseudo_base :: "bytes \<Rightarrow> u32 \<Rightarrow> u32 \<Rightarrow> u16" where
  "inet_cksum_pseudo_base payload proto acc =
     (let acc = FOLD_U32T (acc + ucast (ip_standard_chksum payload));
          swapped = odd (length payload);
          acc = (if swapped then SWAP_BYTES_IN_WORD acc else acc);
          acc = (if swapped then SWAP_BYTES_IN_WORD acc else acc);
          acc = acc + ucast (htons (ucast proto));
          acc = acc + ucast (htons (of_nat (length payload)));
          acc = FOLD_U32T (FOLD_U32T acc)
      in NOT (ucast (acc AND 0xFFFF)))"

definition inet_chksum_pseudo :: "bytes \<Rightarrow> u32 \<Rightarrow> u32 \<Rightarrow> u32 \<Rightarrow> u16" where
  "inet_chksum_pseudo payload proto src dest =
     (let acc = (src AND 0xFFFF) + (drop_bit 16 src AND 0xFFFF);
          acc = acc + (dest AND 0xFFFF);
          acc = acc + (drop_bit 16 dest AND 0xFFFF);
          acc = FOLD_U32T (FOLD_U32T acc)
      in inet_cksum_pseudo_base payload proto acc)"

section \<open>The two routines agree\<close>

lemma simd_lane:
  "(push_bit 8 (ucast a OR push_bit 8 (ucast b)) AND 0xFF00) OR
   (drop_bit 8 (ucast a OR push_bit 8 (ucast b)) AND 0x00FF) = word_of a b"
proof (rule bit_word_eqI)
  fix n assume n: "n < LENGTH(16)"
  have masks: "(0xFF00 :: u16) = push_bit 8 (mask 8)" "(0x00FF :: u16) = mask 8"
    by (simp_all add: mask_eq_exp_minus_1)
  show "bit ((push_bit 8 (ucast a OR push_bit 8 (ucast b)) AND 0xFF00) OR
       (drop_bit 8 (ucast a OR push_bit 8 (ucast b)) AND (0x00FF :: u16))) n \<longleftrightarrow> bit (word_of a b) n"
    unfolding masks word_of_def using n
    by (cases "n < 8") (auto simp: bit_simps not_bit_byte)
qed

lemma replicate_8: "replicate 8 x = [x, x, x, x, x, x, x, x]"
  by (simp add: eval_nat_numeral)

lemma chksum_loop_append: "even (length xs) \<Longrightarrow> chksum_loop acc (xs @ ys) = chksum_loop (chksum_loop acc xs) ys"
  by (induction acc xs rule: chksum_loop.induct) auto

text \<open>The words of a block, paired up.\<close>

fun words_of :: "bytes \<Rightarrow> u16 list" where
  "words_of (a # b # data) = word_of a b # words_of data"
| "words_of data = []"

lemma simd_words:
  "length block = 2 * n \<Longrightarrow>
     or_si128 (and_si128 (slli_epi16 8 (loadu_si128 block)) (replicate n 0xFF00))
              (and_si128 (srli_epi16 8 (loadu_si128 block)) (replicate n 0x00FF)) = words_of block"
proof (induction block arbitrary: n rule: words_of.induct)
  case (1 a b data)
  then obtain m where "n = Suc m" by (cases n) auto
  then show ?case
    using 1 simd_lane [of a b] by (simp add: slli_epi16_def srli_epi16_def and_si128_def or_si128_def)
qed (auto simp: slli_epi16_def srli_epi16_def and_si128_def or_si128_def)

lemma length_words_of: "length (words_of data) = length data div 2"
  by (induction data rule: words_of.induct) auto

lemma chksum_loop_words:
  "even (length data) \<Longrightarrow> chksum_loop acc data = acc + sum_list (map ucast (words_of data))"
  by (induction acc data rule: chksum_loop.induct) (auto simp: add.assoc)

lemma sum_list_map2: "length v = length w \<Longrightarrow> sum_list (map2 (+) v w) = sum_list v + sum_list (w :: u32 list)"
  by (induction v w rule: list_induct2) (auto simp: algebra_simps)

lemma simd_block_sum:
  assumes "length block = 16" "length accumulator = 4"
  shows "length (simd_block accumulator block) = 4 \<and>
         sum_list (simd_block accumulator block) = chksum_loop (sum_list accumulator) block"
proof -
  define ws where "ws = words_of block"
  have "slli_epi32 8 (replicate 8 0x00FF) = replicate 8 (0xFF00 :: u16)"
    by (simp add: replicate_8)
  then have eq: "simd_block accumulator block =
      add_epi32 (add_epi32 accumulator (unpacklo_zero ws)) (unpackhi_zero ws)"
    using simd_words [of block 8] assms(1) by (simp add: simd_block_def Let_def ws_def)
  have ws: "length (unpacklo_zero ws) = 4" "length (unpackhi_zero ws) = 4"
    using assms(1) by (simp_all add: unpacklo_zero_def unpackhi_zero_def ws_def length_words_of)
  have "sum_list (unpacklo_zero ws) + sum_list (unpackhi_zero ws) = sum_list (map ucast ws)"
    unfolding unpacklo_zero_def unpackhi_zero_def
    by (metis append_take_drop_id map_append sum_list_append)
  then show ?thesis
    using assms ws chksum_loop_words [of block "sum_list accumulator"]
    by (simp add: eq add_epi32_def sum_list_map2 ws_def add.assoc)
qed

lemma simd_loop_sum:
  "16 * n \<le> length data \<Longrightarrow> length accumulator = 4 \<Longrightarrow>
     chksum_loop (sum_list (simd_loop n accumulator data)) (drop (16 * n) data) =
     chksum_loop (sum_list accumulator) data"
proof (induction n arbitrary: accumulator data)
  case (Suc n)
  have block: "length (take 16 data) = 16" "even (length (take 16 data))"
    using Suc.prems(1) by auto
  have "chksum_loop (sum_list accumulator) data =
      chksum_loop (chksum_loop (sum_list accumulator) (take 16 data)) (drop 16 data)"
    using chksum_loop_append [OF block(2), of "sum_list accumulator" "drop 16 data"] by simp
  also have "\<dots> = chksum_loop (sum_list (simd_block accumulator (take 16 data))) (drop 16 data)"
    using simd_block_sum [OF block(1) Suc.prems(2)] by simp
  also have "\<dots> = chksum_loop (sum_list (simd_loop (Suc n) accumulator data)) (drop (16 * n) (drop 16 data))"
    using Suc.IH [of "drop 16 data" "simd_block accumulator (take 16 data)"] Suc.prems(1)
      simd_block_sum [OF block(1) Suc.prems(2)] by simp
  also have "drop (16 * n) (drop 16 data) = drop (16 * Suc n) data"
    by (simp add: add.commute)
  finally show ?case ..
qed simp

lemma unat_drop16: "unat (drop_bit 16 (u :: u32)) = unat u div 65536"
  by (simp add: drop_bit_eq_div unat_div)

lemma unat_and16: "unat ((u :: u32) AND 0x0000FFFF) = unat u mod 65536"
proof -
  have "u AND 0x0000FFFF = take_bit 16 u"
    using take_bit_eq_mask [of 16 u] by (simp add: mask_eq_exp_minus_1)
  then show ?thesis
    using unsigned_take_bit_eq [of 16 u, where 'a = nat] by (simp add: take_bit_eq_mod [where 'a = nat])
qed

lemma high_bits: "(acc AND 0xFFFF0000 \<noteq> 0) \<longleftrightarrow> (acc :: u32) > 0xFFFF"
proof -
  have m: "(0xFFFF0000 :: u32) = push_bit 16 (mask 16)"
    by (simp add: mask_eq_exp_minus_1)
  have "acc AND 0xFFFF0000 = push_bit 16 (drop_bit 16 acc)"
    unfolding m by (rule bit_word_eqI) (auto simp: bit_simps)
  moreover have "push_bit 16 (drop_bit 16 acc) = 0 \<longleftrightarrow> drop_bit 16 acc = 0"
  proof
    assume "push_bit 16 (drop_bit 16 acc) = 0"
    then have "drop_bit 16 (push_bit 16 (drop_bit 16 acc)) = 0" by simp
    moreover have "drop_bit 16 (push_bit 16 (drop_bit 16 acc)) = drop_bit 16 acc"
      by (rule bit_word_eqI) (auto simp: bit_simps dest: bit_imp_le_length)
    ultimately show "drop_bit 16 acc = 0" by simp
  qed simp
  moreover have "drop_bit 16 acc = 0 \<longleftrightarrow> unat acc div 65536 = 0"
    using unat_drop16 [of acc] unat_eq_zero [of "drop_bit 16 acc"] by simp
  ultimately show ?thesis
    by (auto simp: word_less_nat_alt div_eq_0_iff not_less)
qed

section \<open>What the checksum computes\<close>

text \<open>The sum of the big-endian words as a number, an odd last byte padded with zero.\<close>

fun words_sum :: "bytes \<Rightarrow> nat" where
  "words_sum (a # b # data) = 256 * unat a + unat b + words_sum data"
| "words_sum [a] = 256 * unat a"
| "words_sum [] = 0"

definition fold16 :: "nat \<Rightarrow> nat" where
  "fold16 n = n div 65536 + n mod 65536"

text \<open>Folding a 32-bit sum to 16 bits keeps it modulo 65535 and only maps zero to zero.\<close>

definition fold32 :: "nat \<Rightarrow> nat" where
  "fold32 n = (let m = fold16 n in if m > 65535 then fold16 m else m)"

lemma fold16_mod: "fold16 n mod 65535 = n mod 65535"
proof -
  have "n = 65536 * (n div 65536) + n mod 65536"
    by simp
  then have "n = fold16 n + 65535 * (n div 65536)"
    unfolding fold16_def by linarith
  then show ?thesis
    by (metis mod_mult_self2)
qed

lemma fold16_zero: "fold16 n = 0 \<longleftrightarrow> n = 0"
  by (auto simp: fold16_def)

lemma fold16_le: "n < 65536 * k \<Longrightarrow> 0 < k \<Longrightarrow> fold16 n \<le> k - 1 + 65535"
  unfolding fold16_def by (intro add_mono) (auto simp: less_mult_imp_div_less mult.commute less_Suc_eq_le [symmetric])

lemma fold16_twice_max:
  assumes "m \<le> 131070"
  shows "fold16 m \<le> 65535"
proof (cases "m < 65536")
  case False
  then have "m div 65536 = 1" "m mod 65536 = m - 65536"
    using assms by (simp_all add: div_nat_eqI mod_if)
  then show ?thesis
    using assms by (simp add: fold16_def)
qed (simp add: fold16_def)

lemma fold32_spec:
  assumes "n < 65536 * 65536"
  shows "fold32 n \<le> 65535" and "fold32 n mod 65535 = n mod 65535" and "fold32 n = 0 \<longleftrightarrow> n = 0"
proof -
  have "fold16 n \<le> 131070"
    using fold16_le [of n 65536] assms by simp
  then have "fold16 (fold16 n) \<le> 65535"
    by (rule fold16_twice_max)
  then show "fold32 n \<le> 65535"
    by (simp add: fold32_def Let_def)
  show "fold32 n mod 65535 = n mod 65535" and "fold32 n = 0 \<longleftrightarrow> n = 0"
    by (auto simp: fold32_def Let_def fold16_mod fold16_zero)
qed

lemma unat_FOLD: "unat (FOLD_U32T u) = fold16 (unat u)"
proof -
  have "unat u div 65536 < 65536"
    using unsigned_less [of u, where 'a = nat] by (simp add: less_mult_imp_div_less)
  moreover have "unat u mod 65536 < 65536"
    by simp
  ultimately have "unat u div 65536 + unat u mod 65536 < 2 ^ 32"
    by simp
  then show ?thesis
    by (simp add: FOLD_U32T_def unat_word_ariths unat_drop16 unat_and16 fold16_def)
qed

lemma unat_byte_less: "unat (a :: u8) < 256"
  using unsigned_less [of a, where 'a = nat] by simp

lemma unat_word_of: "unat (word_of a b) = 256 * unat a + unat b"
proof -
  have "push_bit 8 (ucast a) AND ucast b = (0 :: u16)"
    by (rule bit_word_eqI) (auto simp: bit_simps not_bit_byte)
  then have "word_of a b = push_bit 8 (ucast a) + ucast b"
    by (simp add: word_of_def disjunctive_add_eq_or)
  also have "\<dots> = 256 * ucast a + ucast b"
    by (simp add: push_bit_eq_mult)
  finally show ?thesis
    using unat_byte_less [of a] unat_byte_less [of b]
    by (simp add: unat_word_ariths unsigned_ucast_eq take_bit_nat_eq_self)
qed

lemma unat_chksum_loop:
  "unat acc + words_sum data < 2 ^ 32 \<Longrightarrow> unat (chksum_loop acc data) = unat acc + words_sum data"
proof (induction acc data rule: chksum_loop.induct)
  case (1 acc a b data)
  have "unat (acc + ucast (word_of a b)) = unat acc + (256 * unat a + unat b)"
    using "1.prems" unat_word_of [of a b] unsigned_less [of "word_of a b", where 'a = nat]
    by (simp add: unat_word_ariths unsigned_ucast_eq take_bit_nat_eq_self)
  then show ?case
    using 1 by simp
next
  case (2 acc a)
  then show ?case
    using unat_word_of [of a 0] unsigned_less [of "word_of a 0", where 'a = nat]
    by (simp add: unat_word_ariths unsigned_ucast_eq take_bit_nat_eq_self)
qed simp

lemma words_sum_le: "words_sum data \<le> 32768 * length data + 32768"
proof (induction data rule: words_sum.induct)
  case (1 a b data)
  then show ?case using unat_byte_less [of a] unat_byte_less [of b] by simp
next
  case (2 a)
  then show ?case using unat_byte_less [of a] by simp
qed simp

lemma words_sum_append: "even (length pre) \<Longrightarrow> words_sum (pre @ data) = words_sum pre + words_sum data"
  by (induction pre rule: words_sum.induct) auto

lemma words_sum_be16: "words_sum (be16 v @ data) = unat (v :: u16) + words_sum data"
proof -
  have "word_of (byte_at 1 v) (byte_at 0 v) = v"
    using be16_value [of v] by (simp add: word_of_def take_bit_word_eq_self)
  then have "256 * unat (byte_at 1 v) + unat (byte_at 0 v) = unat v"
    using unat_word_of [of "byte_at 1 v" "byte_at 0 v"] by simp
  then show ?thesis
    by (simp add: be16_def)
qed

lemma words_sum_small: "length data \<le> 65536 \<Longrightarrow> words_sum data < 65536 * 65535"
  using words_sum_le [of data] by linarith

lemma ip_standard_chksum_eq:
  assumes "words_sum data < 65536 * 65536"
  shows "ip_standard_chksum data = htons (of_nat (fold32 (words_sum data)))"
proof -
  have "unat (chksum_loop 0 data) = words_sum data"
    using unat_chksum_loop [of 0 data] assms by simp
  then have fold: "unat (FOLD_U32T (chksum_loop 0 data)) = fold16 (words_sum data)"
    by (simp add: unat_FOLD)
  have cast: "ucast acc = (of_nat (unat acc) :: u16)" for acc :: u32
    by simp
  have "acc AND 0xFFFF0000 \<noteq> 0 \<longleftrightarrow> unat acc > 65535" for acc :: u32
    by (simp add: high_bits word_less_nat_alt)
  then have "ip_standard_chksum data = htons (ucast (if fold16 (words_sum data) > 65535
      then FOLD_U32T (FOLD_U32T (chksum_loop 0 data)) else FOLD_U32T (chksum_loop 0 data)))"
    by (simp add: ip_standard_chksum_def fold Let_def)
  also have "\<dots> = htons (of_nat (fold32 (words_sum data)))"
    unfolding cast by (simp only: fold32_def Let_def unat_FOLD fold split: if_splits) (simp add: fold [unfolded unat_FOLD])
  finally show ?thesis .
qed

lemma not_bit_u16: "16 \<le> n \<Longrightarrow> \<not> bit (x :: u16) n"
  using bit_imp_le_length [of x n] by auto

lemma htons_htons [simp]: "htons (htons x) = x"
  and htons_not: "NOT (htons x) = htons (NOT x)"
  and le16_htons [wire]: "le16 (htons x) = be16 x"
  by (auto intro!: bit_word_eqI simp: htons_def le16_def be16_def bit_byte_at bit_simps not_bit_u16)

lemma htons_zero: "htons 0 = 0" and htons_ones: "htons 0xFFFF = 0xFFFF"
  by (simp_all add: htons_def)

lemma htons_eq_0 [simp]: "htons x = 0 \<longleftrightarrow> x = 0"
  using htons_htons [of x] htons_zero by metis

lemma unat_not16: "unat (NOT (x :: u16)) = 65535 - unat x"
proof -
  have "NOT x = 0xFFFF - x" by (simp add: not_eq_complement)
  then show ?thesis
    using unsigned_less [of x, where 'a = nat] by (simp add: unat_sub_if_size word_size)
qed

text \<open>A stored checksum that brings the sum to a multiple of 65535 verifies.\<close>

lemma chksum_zero:
  fixes v :: u16
  assumes "even (length pre)" "length pre + length post \<le> 65534"
    and "(words_sum (pre @ [0, 0] @ post) + unat v) mod 65535 = 0" "0 < unat v \<or> 0 < words_sum (pre @ [0, 0] @ post)"
  shows "inet_chksum (pre @ be16 v @ post) = 0"
proof -
  define n where "n = words_sum (pre @ be16 v @ post)"
  have n: "n = words_sum (pre @ [0, 0] @ post) + unat v"
    using assms(1) words_sum_be16 [of v "[]"] by (simp add: n_def words_sum_append)
  have small: "n < 65536 * 65536"
    unfolding n_def using assms(2) words_sum_small [of "pre @ be16 v @ post"] by simp
  have "fold32 n mod 65535 = 0" "fold32 n \<noteq> 0" "fold32 n \<le> 65535"
    using fold32_spec [OF small] assms(3,4) by (auto simp: n)
  then have "fold32 n = 65535"
    by (auto elim!: dvdE simp: mod_eq_0_iff_dvd)
  then show ?thesis
    using ip_standard_chksum_eq [of "pre @ be16 v @ post"] small by (simp add: n_def inet_chksum_def htons_ones)
qed

text \<open>The checksum as the senders store it: all ones instead of zero.\<close>

definition chksum_field :: "u16 \<Rightarrow> u16" where
  "chksum_field c = (if c = 0 then 0xFFFF else c)"

lemma inet_chksum_verifies:
  assumes "even (length pre)" "length pre + length post \<le> 65534"
  shows "inet_chksum (pre @ le16 (chksum_field (inet_chksum (pre @ [0, 0] @ post))) @ post) = 0"
proof -
  define n where "n = words_sum (pre @ [0, 0] @ post)"
  have small: "n < 65536 * 65536"
    unfolding n_def using assms(2) words_sum_small [of "pre @ [0, 0] @ post"] by simp
  define v where "v = (if fold32 n = 65535 then 0xFFFF else NOT (of_nat (fold32 n)) :: u16)"
  have r: "fold32 n \<le> 65535" "fold32 n mod 65535 = n mod 65535" "fold32 n = 0 \<longleftrightarrow> n = 0"
    by (rule fold32_spec [OF small])+
  have unat_r: "unat (of_nat (fold32 n) :: u16) = fold32 n"
    using r(1) by (simp add: unat_of_nat take_bit_nat_eq_self)
  have c: "inet_chksum (pre @ [0, 0] @ post) = htons (NOT (of_nat (fold32 n)))"
    using ip_standard_chksum_eq [of "pre @ [0, 0] @ post"] small by (simp add: n_def inet_chksum_def htons_not)
  have "NOT (of_nat (fold32 n) :: u16) = 0 \<longleftrightarrow> fold32 n = 65535"
  proof -
    have "NOT (of_nat (fold32 n) :: u16) = 0 \<longleftrightarrow> unat (NOT (of_nat (fold32 n) :: u16)) = 0"
      by (simp only: unat_eq_zero)
    also have "\<dots> \<longleftrightarrow> fold32 n = 65535"
      unfolding unat_not16 unat_r using r(1) by auto
    finally show ?thesis .
  qed
  then have "chksum_field (inet_chksum (pre @ [0, 0] @ post)) = htons v"
    unfolding c chksum_field_def v_def by (simp only: htons_eq_0 htons_ones split: if_split) simp
  then have stored: "le16 (chksum_field (inet_chksum (pre @ [0, 0] @ post))) = be16 v"
    by (simp add: le16_htons)
  have v: "(fold32 n + unat v) mod 65535 = 0"
    using r(1) by (simp add: v_def unat_not16 unat_r)
  have "(n + unat v) mod 65535 = (fold32 n + unat v) mod 65535"
    by (rule mod_add_cong) (simp_all add: r(2))
  then have "(n + unat v) mod 65535 = 0"
    by (simp add: v)
  moreover have "0 < unat v \<or> 0 < n"
    using r by (auto simp: v_def unat_not16 unat_r)
  ultimately
  show ?thesis
    unfolding stored using chksum_zero [OF assms, of v] by (simp add: n_def)
qed

section \<open>The checksum with the pseudo header\<close>

lemma unat_htons: "unat (htons x) = 256 * (unat x mod 256) + unat x div 256"
proof -
  have "htons x = word_of (byte_at 0 x) (byte_at 1 x)"
    by (rule bit_word_eqI) (auto simp: htons_def word_of_def bit_byte_at bit_simps not_bit_u16)
  moreover have x: "unat x = 256 * unat (byte_at 1 x) + unat (byte_at 0 x)"
    using words_sum_be16 [of x "[]"] by (simp add: be16_def)
  have "unat x mod 256 = unat (byte_at 0 x)" "unat x div 256 = unat (byte_at 1 x)"
    unfolding x using unat_byte_less [of "byte_at 0 x"] by simp_all
  ultimately show ?thesis
    by (simp add: unat_word_of)
qed

lemma htons_mod: "unat (htons x) mod 65535 = 256 * unat x mod 65535"
proof -
  define q r where "q = unat x div 256" and "r = unat x mod 256"
  have "unat x = 256 * q + r"
    by (simp add: q_def r_def)
  then have "256 * unat x = unat (htons x) + 65535 * q"
    unfolding unat_htons q_def [symmetric] r_def [symmetric] by simp
  then show ?thesis
    by (metis mod_mult_self2)
qed

lemma SWAP_SWAP:
  assumes "w \<le> 0xFFFF"
  shows "SWAP_BYTES_IN_WORD (SWAP_BYTES_IN_WORD w) = w"
proof -
  have masks: "(0xFF00 :: u32) = push_bit 8 (mask 8)" "(0xFF :: u32) = mask 8"
    by (simp_all add: mask_eq_exp_minus_1)
  have "drop_bit 16 w = 0"
    using assms unat_drop16 [of w] by (simp add: word_le_nat_alt unat_eq_zero [symmetric] del: unat_eq_zero)
  then have "\<not> bit (drop_bit 16 w) n" for n
    by simp
  then have high: "\<not> bit w n" if "16 \<le> n" for n
    using that by (simp only: bit_drop_bit_eq comp_apply) (metis le_add_diff_inverse)
  show ?thesis
    unfolding SWAP_BYTES_IN_WORD_def masks
  proof (rule bit_word_eqI)
    fix n assume "n < LENGTH(32)"
    then consider "n < 8" | "8 \<le> n" "n < 16" | "16 \<le> n" by fastforce
    then show "bit (push_bit 8 ((push_bit 8 (w AND mask 8) OR drop_bit 8 (w AND push_bit 8 (mask 8))) AND mask 8) OR
        drop_bit 8 ((push_bit 8 (w AND mask 8) OR drop_bit 8 (w AND push_bit 8 (mask 8))) AND push_bit 8 (mask 8))) n
        \<longleftrightarrow> bit w n"
      by cases (simp_all add: bit_simps high less_diff_conv2)
  qed
qed

lemma fold16_small: "n < 65536 \<Longrightarrow> fold16 n = n"
  by (simp add: fold16_def)

lemma fold16_twice: "n < 65536 * 65536 \<Longrightarrow> fold16 (fold16 n) = fold32 n"
  by (simp add: fold32_def Let_def fold16_small)

lemma unat_ucast_u16: "unat (ucast (x :: u16) :: u32) = unat x"
  using unsigned_less [of x, where 'a = nat] by (simp add: unsigned_ucast_eq take_bit_nat_eq_self)

lemma unat_u16_less: "unat (x :: u16) < 65536"
  using unsigned_less [of x, where 'a = nat] by simp

lemma unat_plus_small: "unat a + unat b < 2 ^ 32 \<Longrightarrow> unat (a + b) = unat a + unat (b :: u32)"
  by (simp add: unat_word_ariths)

text \<open>The sum of the pseudo header, and the folded total whose complement is returned.\<close>

definition addr_sum :: "u32 \<Rightarrow> u32 \<Rightarrow> nat" where
  "addr_sum src dest = unat src mod 65536 + unat src div 65536 + unat dest mod 65536 + unat dest div 65536"

definition pseudo_sum :: "u32 \<Rightarrow> u32 \<Rightarrow> u32 \<Rightarrow> nat \<Rightarrow> nat" where
  "pseudo_sum proto src dest len =
     addr_sum src dest + unat (htons (ucast proto)) + unat (htons (of_nat len))"

lemma unat_halves: "unat x div 65536 < 65536" "unat (drop_bit 16 x AND 0xFFFF) = unat x div 65536" for x :: u32
  using unsigned_less [of x, where 'a = nat] by (simp_all add: unat_and16 unat_drop16 less_mult_imp_div_less)

lemma addr_fold:
  "unat (FOLD_U32T (FOLD_U32T ((src AND 0xFFFF) + (drop_bit 16 src AND 0xFFFF) + (dest AND 0xFFFF) +
     (drop_bit 16 dest AND 0xFFFF)))) = fold32 (addr_sum src dest)"
  and addr_sum_less: "addr_sum src dest < 262144"
proof -
  have parts: "unat src mod 65536 < 65536" "unat dest mod 65536 < 65536"
    by simp_all
  show less: "addr_sum src dest < 262144"
    using parts unat_halves(1) [of src] unat_halves(1) [of dest] unfolding addr_sum_def by linarith
  have "unat ((src AND 0xFFFF) + (drop_bit 16 src AND 0xFFFF) + (dest AND 0xFFFF) + (drop_bit 16 dest AND 0xFFFF)) =
      addr_sum src dest"
    using less unfolding addr_sum_def
    by (simp only: unat_word_ariths unat_halves(2)) (simp add: unat_and16)
  then show "unat (FOLD_U32T (FOLD_U32T ((src AND 0xFFFF) + (drop_bit 16 src AND 0xFFFF) + (dest AND 0xFFFF) +
     (drop_bit 16 dest AND 0xFFFF)))) = fold32 (addr_sum src dest)"
    using less by (simp add: unat_FOLD fold16_twice)
qed

lemma pseudo_base_eq:
  fixes acc proto :: u32 and payload :: bytes
  assumes "unat acc \<le> 65535"
  defines "n \<equiv> fold16 (unat acc + unat (ip_standard_chksum payload)) + unat (htons (ucast proto)) +
                unat (htons (of_nat (length payload)))"
  shows "inet_cksum_pseudo_base payload proto acc = NOT (of_nat (fold32 n))" and "n < 262144"
proof -
  define s where "s = ip_standard_chksum payload"
  define b where "b = FOLD_U32T (acc + ucast s)"
  have "unat (acc + ucast s) = unat acc + unat s"
    using assms(1) unat_u16_less [of s] by (simp add: unat_plus_small unat_ucast_u16)
  then have b: "unat b = fold16 (unat acc + unat s)" "unat b \<le> 65535"
    using assms(1) unat_u16_less [of s] fold16_twice_max [of "unat acc + unat s"] by (simp_all add: b_def unat_FOLD)
  have swap: "SWAP_BYTES_IN_WORD (SWAP_BYTES_IN_WORD b) = b"
    using b(2) by (intro SWAP_SWAP) (simp add: word_le_nat_alt)
  define t where "t = b + ucast (htons (ucast proto)) + ucast (htons (of_nat (length payload)))"
  show n: "n < 262144"
    using b unat_u16_less [of "htons (ucast proto)"] unat_u16_less [of "htons (of_nat (length payload))"]
    by (simp add: n_def s_def)
  then have "unat t = n"
    using b(1) by (simp add: t_def n_def s_def unat_word_ariths unat_ucast_u16)
  then have t: "unat (FOLD_U32T (FOLD_U32T t)) = fold32 n" "fold32 n \<le> 65535"
    using n fold32_spec(1) [of n] by (simp_all add: unat_FOLD fold16_twice)
  then have "FOLD_U32T (FOLD_U32T t) AND 0xFFFF = FOLD_U32T (FOLD_U32T t)"
    by (simp add: word_unat_eq_iff unat_and16)
  moreover have "ucast (FOLD_U32T (FOLD_U32T t)) = (of_nat (unat (FOLD_U32T (FOLD_U32T t))) :: u16)"
    by simp
  ultimately have "ucast (FOLD_U32T (FOLD_U32T t) AND 0xFFFF) = (of_nat (fold32 n) :: u16)"
    unfolding t(1) by (rule ssubst)
  then show "inet_cksum_pseudo_base payload proto acc = NOT (of_nat (fold32 n))"
    using swap by (simp add: inet_cksum_pseudo_base_def Let_def t_def b_def s_def)
qed

lemma inet_chksum_pseudo_eq:
  obtains r where "inet_chksum_pseudo payload proto src dest = NOT (of_nat r)" "r \<le> 65535"
    "r mod 65535 = (pseudo_sum proto src dest (length payload) + unat (ip_standard_chksum payload)) mod 65535"
    "0 < unat (htons (of_nat (length payload))) \<Longrightarrow> 0 < r"
proof -
  let ?A = "addr_sum src dest" and ?s = "unat (ip_standard_chksum payload)"
    and ?p = "unat (htons (ucast proto))" and ?l = "unat (htons (of_nat (length payload)))"
  let ?n = "fold16 (fold32 ?A + ?s) + ?p + ?l"
  have A: "fold32 ?A \<le> 65535" "fold32 ?A mod 65535 = ?A mod 65535"
    using fold32_spec [of ?A] addr_sum_less [of src dest] by simp_all
  have eq: "inet_chksum_pseudo payload proto src dest = NOT (of_nat (fold32 ?n))" and n: "?n < 262144"
    using pseudo_base_eq [of "FOLD_U32T (FOLD_U32T ((src AND 0xFFFF) + (drop_bit 16 src AND 0xFFFF) + (dest AND 0xFFFF) +
       (drop_bit 16 dest AND 0xFFFF)))" payload proto] A(1)
    unfolding addr_fold by (simp_all add: inet_chksum_pseudo_def Let_def)
  have r: "fold32 ?n \<le> 65535" "fold32 ?n mod 65535 = ?n mod 65535" "fold32 ?n = 0 \<longleftrightarrow> ?n = 0"
    using fold32_spec [of ?n] n by simp_all
  have "?n mod 65535 = (fold32 ?A + ?s + ?p + ?l) mod 65535"
    by (intro mod_add_cong) (simp_all add: fold16_mod)
  also have "\<dots> = (?A + ?s + ?p + ?l) mod 65535"
    by (intro mod_add_cong) (simp_all add: A(2))
  finally have cong: "fold32 ?n mod 65535 = (pseudo_sum proto src dest (length payload) + ?s) mod 65535"
    using r(2) by (simp add: pseudo_sum_def ac_simps)
  have pos: "0 < ?l \<Longrightarrow> 0 < fold32 ?n"
    using r(3) by (metis add_is_0 gr0I less_irrefl)
  show thesis
    by (rule that [OF eq r(1) cong pos])
qed

lemma chksum_field_mod:
  assumes "r \<le> 65535"
  shows "(r + unat (chksum_field (NOT (of_nat r)))) mod 65535 = 0"
proof -
  have "unat (NOT (of_nat r :: u16)) = 65535 - r"
    using assms by (simp add: unat_not16 unat_of_nat take_bit_nat_eq_self)
  then show ?thesis
    using assms by (auto simp: chksum_field_def)
qed

lemma ip_standard_mod:
  assumes "words_sum data < 65536 * 65536"
  shows "unat (ip_standard_chksum data) mod 65535 = 256 * words_sum data mod 65535"
proof -
  have "unat (of_nat (fold32 (words_sum data)) :: u16) = fold32 (words_sum data)"
    using fold32_spec(1) [OF assms] by (simp add: unat_of_nat take_bit_nat_eq_self)
  then have "unat (ip_standard_chksum data) mod 65535 = 256 * fold32 (words_sum data) mod 65535"
    using htons_mod [of "of_nat (fold32 (words_sum data))"] ip_standard_chksum_eq [OF assms] by simp
  also have "\<dots> = 256 * words_sum data mod 65535"
    by (rule mod_mult_cong) (simp_all add: fold32_spec(2) [OF assms])
  finally show ?thesis .
qed

lemma stored_mod:
  assumes "even (length pre)" "length pre + length post \<le> 65533"
  shows "unat (ip_standard_chksum (pre @ le16 c @ post)) mod 65535 =
         (unat (ip_standard_chksum (pre @ [0, 0] @ post)) + unat c) mod 65535"
proof -
  have le: "le16 c = be16 (htons c)"
    using le16_htons [of "htons c"] by simp
  have sum: "words_sum (pre @ le16 c @ post) = words_sum (pre @ [0, 0] @ post) + unat (htons c)"
    using assms(1) words_sum_be16 [of "htons c" "[]"] by (simp add: le words_sum_append)
  have small: "words_sum (pre @ x @ post) < 65536 * 65536" if "length x = 2" for x
    using assms(2) that words_sum_small [of "pre @ x @ post"] by simp
  have "unat (ip_standard_chksum (pre @ le16 c @ post)) mod 65535 =
      (256 * words_sum (pre @ [0, 0] @ post) + 256 * unat (htons c)) mod 65535"
    using ip_standard_mod [OF small [of "le16 c"]] unfolding sum by (simp add: add_mult_distrib2)
  also have "\<dots> = (unat (ip_standard_chksum (pre @ [0, 0] @ post)) + unat c) mod 65535"
    using ip_standard_mod [OF small [of "[0, 0]"]] htons_mod [of "htons c"] by (intro mod_add_cong) simp_all
  finally show ?thesis .
qed

lemma pseudo_field_verifies:
  fixes proto src dest :: u32
  assumes pre: "even (length pre)" and len: "length pre + length post \<le> 65533"
  defines "payload \<equiv> pre @ [0, 0] @ post"
  defines "c \<equiv> chksum_field (inet_chksum_pseudo payload proto src dest)"
  shows "inet_chksum_pseudo (pre @ le16 c @ post) proto src dest = 0"
proof -
  define stored where "stored = pre @ le16 c @ post"
  have lengths: "length stored = length payload"
    by (simp add: stored_def payload_def le16_def)
  have payload: "0 < length payload" "length payload \<le> 65535"
    using len by (simp_all add: payload_def)
  then have "unat (of_nat (length payload) :: u16) = length payload"
    by (simp add: unat_of_nat take_bit_nat_eq_self)
  then have "htons (of_nat (length payload)) \<noteq> 0"
    using payload(1) by (metis htons_eq_0 unat_0 less_irrefl)
  then have pos: "0 < unat (htons (of_nat (length payload)))"
    by (simp add: unat_gt_0)
  let ?P = "pseudo_sum proto src dest (length payload)"
  obtain r where r: "inet_chksum_pseudo payload proto src dest = NOT (of_nat r)" "r \<le> 65535"
      "r mod 65535 = (?P + unat (ip_standard_chksum payload)) mod 65535"
    using inet_chksum_pseudo_eq [of payload proto src dest] by metis
  obtain r' where r': "inet_chksum_pseudo stored proto src dest = NOT (of_nat r')" "r' \<le> 65535"
      "r' mod 65535 = (?P + unat (ip_standard_chksum stored)) mod 65535" "0 < r'"
    using inet_chksum_pseudo_eq [of stored proto src dest] pos lengths by metis
  have "r' mod 65535 = (?P + (unat (ip_standard_chksum payload) + unat c)) mod 65535"
    unfolding r'(3) stored_def payload_def using stored_mod [OF pre len, of c] by (intro mod_add_cong) simp_all
  also have "\<dots> = (r + unat c) mod 65535"
    unfolding add.assoc [symmetric] using r(3) by (intro mod_add_cong) simp_all
  also have "\<dots> = 0"
    unfolding c_def r(1) by (rule chksum_field_mod [OF r(2)])
  finally have "r' = 65535"
    using r'(2,4) by (auto elim!: dvdE simp: mod_eq_0_iff_dvd)
  then show ?thesis
    using r'(1) by (simp add: stored_def)
qed

section \<open>Properties\<close>

text \<open>
  C22. The SSE2 checksum routine equals the scalar one on every buffer, of any length and alignment of
  the last block, wrap-around of the 32-bit accumulators included.
\<close>

theorem chksum_simd_scalar: "ip_standard_chksum_simd data = ip_standard_chksum data"
proof -
  have "chksum_loop (if length data \<ge> 16 then sum_list (simd_loop (length data div 16) [0, 0, 0, 0] data) else 0)
          (drop (16 * (length data div 16)) data) = chksum_loop 0 data"
    using simd_loop_sum [of "length data div 16" data "[0, 0, 0, 0]"] by (cases "16 \<le> length data") simp_all
  then show ?thesis
    by (simp add: ip_standard_chksum_simd_def ip_standard_chksum_def high_bits Let_def FOLD_U32T_def htons_def)
qed

end
