(* ===== verification/Ip_Packet.thy ===== *)
theory Ip_Packet
  imports Checksum
begin

text \<open>
  IPv4 packets: the header checks of \<^verbatim>\<open>src/ppp/net/native/checksum.cpp\<close> (\<^verbatim>\<open>ip_hdr::Parse\<close>, \<^verbatim>\<open>tcp_hdr::Parse\<close>,
  \<^verbatim>\<open>udp_hdr::Parse\<close>, \<^verbatim>\<open>icmp_hdr::Parse\<close>) and the frames of \<^verbatim>\<open>src/ppp/net/packet/\<close>: serialization and parsing of
  \<^verbatim>\<open>IPFrame\<close>, \<^verbatim>\<open>UdpFrame\<close> and \<^verbatim>\<open>IcmpFrame\<close>, and the one-buffer fast path of UDP.

  A packet is the list of its bytes, so a pointer with a length is a list. Two build or process
  settings are arguments: \<open>verify\<close> is the macro \<^verbatim>\<open>PACKET_CHECKSUM\<close>, \<open>flash\<close> is
  \<^verbatim>\<open>Socket::IsDefaultFlashTypeOfService()\<close>. Allocation succeeds.
\<close>

unbundle bit_operations_syntax

section \<open>Fields in memory\<close>

text \<open>Loads and stores of the little-endian host; \<open>ntohs\<close> of a loaded field is the big-endian value.\<close>

definition ld16 :: "nat \<Rightarrow> bytes \<Rightarrow> u16" where
  "ld16 k p = word_of (p ! (k + 1)) (p ! k)"

definition ld32 :: "nat \<Rightarrow> bytes \<Rightarrow> u32" where
  "ld32 k p = rd32 [p ! (k + 3), p ! (k + 2), p ! (k + 1), p ! k]"

definition le32 :: "u32 \<Rightarrow> bytes" where
  "le32 x = rev (be32 x)"

definition put16 :: "nat \<Rightarrow> u16 \<Rightarrow> bytes \<Rightarrow> bytes" where
  "put16 k v p = p[k := byte_at 0 v, k + 1 := byte_at 1 v]"

section \<open>Header checks\<close>

definition IPH_V :: "bytes \<Rightarrow> u8" where
  "IPH_V p = drop_bit 4 (p ! 0)"

definition IPH_HL :: "bytes \<Rightarrow> nat" where
  "IPH_HL p = unat (p ! 0 AND 0x0F)"

definition IP_HLEN :: nat where
  "IP_HLEN = 20"

definition IP_PROTO_ICMP :: u8 where
  "IP_PROTO_ICMP = 1"

definition IP_PROTO_TCP :: u8 where
  "IP_PROTO_TCP = 6"

definition IP_PROTO_UDP :: u8 where
  "IP_PROTO_UDP = 17"

text \<open>
  \<open>ip_hdr::Parse\<close>: the packet with its length, cut to the length of the header when that is smaller; a
  header that claims more than there is has its length field rewritten. A packet without any byte has
  no version to read and is rejected here.
\<close>

definition ip_hdr_Parse :: "bool \<Rightarrow> bytes \<Rightarrow> bytes option" where
  "ip_hdr_Parse verify p =
     (let hlen = 4 * IPH_HL p
      in if p = [] then None
         else if IPH_V p \<noteq> 4 then None
         else if hlen > length p then None
         else if hlen < IP_HLEN then None
         else if p ! 8 = 0 then None
         else let reft = unat (htons (ld16 2 p));
                  q = (if length p \<noteq> reft \<and> reft > length p then put16 2 (htons (of_nat (length p))) p else p);
                  len = (if reft < length p then reft else length p)
              in if ld32 16 q = 0 then None
                 else if ld32 12 q = 0 \<or> ld32 12 q = 0xFFFFFFFF then None
                 else if verify \<and> ld16 10 q \<noteq> 0 \<and> inet_chksum (take hlen q) \<noteq> 0 then None
                 else if q ! 9 = IP_PROTO_UDP \<or> q ! 9 = IP_PROTO_TCP \<or> q ! 9 = IP_PROTO_ICMP
                 then Some (take len q)
                 else None)"

text \<open>The transport headers, on the segment and the addresses of its packet.\<close>

definition TCPH_HDRLEN_BYTES :: "bytes \<Rightarrow> nat" where
  "TCPH_HDRLEN_BYTES seg = 4 * unat (drop_bit 12 (htons (ld16 12 seg)))"

definition tcp_hdr_Parse :: "bool \<Rightarrow> u32 \<Rightarrow> u32 \<Rightarrow> bytes \<Rightarrow> bytes option" where
  "tcp_hdr_Parse verify src dest seg =
     (if length seg < 1 then None
      else if TCPH_HDRLEN_BYTES seg < 20 \<or> TCPH_HDRLEN_BYTES seg > length seg then None
      else if verify \<and> ld16 16 seg \<noteq> 0 \<and> inet_chksum_pseudo seg 6 src dest \<noteq> 0 then None
      else Some seg)"

definition udp_hdr_Parse :: "bool \<Rightarrow> u32 \<Rightarrow> u32 \<Rightarrow> bytes \<Rightarrow> bytes option" where
  "udp_hdr_Parse verify src dest seg =
     (if length seg < 1 then None
      else if unat (htons (ld16 4 seg)) < 8 then None
      else if length seg \<noteq> unat (htons (ld16 4 seg)) then None
      else if verify \<and> ld16 6 seg \<noteq> 0 \<and> inet_chksum_pseudo seg 17 src dest \<noteq> 0 then None
      else Some seg)"

definition icmp_hdr_Parse :: "bool \<Rightarrow> bytes \<Rightarrow> bytes option" where
  "icmp_hdr_Parse verify seg =
     (if length seg < 1 then None
      else if verify \<and> ld16 2 seg \<noteq> 0 \<and> inet_chksum seg \<noteq> 0 then None
      else if length seg < 8 then None
      else Some seg)"

section \<open>IPFrame\<close>

text \<open>
  \<open>Flags\<close> holds an \<^verbatim>\<open>int\<close>-sized enumeration in host order. A missing segment is \<open>None\<close>.
\<close>

record IPFrame =
  Destination :: u32
  Source :: u32
  Ttl :: u8
  Id :: u16
  Tos :: u8
  ProtocolType :: u8
  Flags :: u32
  Payload :: "bytes option"
  Options :: "bytes option"

definition IP_DF :: u32 where
  "IP_DF = 0x4000"

definition IP_MF :: u32 where
  "IP_MF = 0x2000"

definition IP_OFFMASK :: u32 where
  "IP_OFFMASK = 0x1FFF"

definition DefaultFlashTypeOfService :: u8 where
  "DefaultFlashTypeOfService = 0x68"

definition segment :: "bytes option \<Rightarrow> bytes" where
  "segment s = (case s of None \<Rightarrow> [] | Some b \<Rightarrow> b)"

definition SizeOf :: "IPFrame \<Rightarrow> nat" where
  "SizeOf f = IP_HLEN + length (segment (Options f)) + length (segment (Payload f))"

text \<open>The header up to its checksum field, and what follows the field.\<close>

definition header_front :: "IPFrame \<Rightarrow> bytes" where
  "header_front f =
     (let payload_offset = IP_HLEN + length (segment (Options f))
      in [0x40 OR of_nat (payload_offset div 4), Tos f] @ le16 (htons (of_nat (SizeOf f))) @ le16 (htons (Id f)) @
         le16 (htons (ucast (if Flags f = 0 then IP_DF else Flags f))) @ [Ttl f, ProtocolType f])"

definition header_back :: "IPFrame \<Rightarrow> bytes" where
  "header_back f = le32 (Source f) @ le32 (Destination f) @ segment (Options f)"

definition ToArray :: "IPFrame \<Rightarrow> bytes" where
  "ToArray f =
     (let chksum = inet_chksum (header_front f @ [0, 0] @ header_back f);
          chksum = (if chksum = 0 then 0xFFFF else chksum)
      in header_front f @ le16 chksum @ header_back f @ segment (Payload f))"

definition nonempty :: "bytes \<Rightarrow> bytes option" where
  "nonempty b = (if b = [] then None else Some b)"

definition IPFrame_Parse :: "bool \<Rightarrow> bool \<Rightarrow> bytes \<Rightarrow> IPFrame option" where
  "IPFrame_Parse verify flash packet =
     (case ip_hdr_Parse verify packet of
        None \<Rightarrow> None
      | Some p \<Rightarrow>
          let hlen = 4 * IPH_HL packet;
              tos = packet ! 1
          in Some \<lparr>Destination = ld32 16 packet, Source = ld32 12 packet, Ttl = packet ! 8,
                   Id = htons (ld16 4 packet),
                   Tos = (if flash then max tos DefaultFlashTypeOfService else tos),
                   ProtocolType = packet ! 9, Flags = ucast (htons (ld16 6 packet)),
                   Payload = nonempty (drop hlen p),
                   Options = nonempty (drop IP_HLEN (take hlen packet))\<rparr>)"

section \<open>UdpFrame\<close>

record IPEndPoint =
  Address :: u32
  Port :: u16

record UdpFrame =
  udp_Source :: IPEndPoint
  udp_Destination :: IPEndPoint
  udp_Ttl :: u8
  udp_Payload :: "bytes option"

definition udp_tos :: "bool \<Rightarrow> u8" where
  "udp_tos flash = (if flash then DefaultFlashTypeOfService else 0x04)"

text \<open>The UDP header in front of the payload, the checksum over the pseudo header included.\<close>

definition udp_front :: "IPEndPoint \<Rightarrow> IPEndPoint \<Rightarrow> nat \<Rightarrow> bytes" where
  "udp_front source destination len =
     le16 (htons (Port source)) @ le16 (htons (Port destination)) @ le16 (htons (of_nat len))"

definition udp_message :: "IPEndPoint \<Rightarrow> IPEndPoint \<Rightarrow> bytes \<Rightarrow> bytes" where
  "udp_message source destination payload =
     (let front = udp_front source destination (8 + length payload);
          pseudo_checksum = inet_chksum_pseudo (front @ [0, 0] @ payload) 17 (Address source) (Address destination);
          pseudo_checksum = (if pseudo_checksum = 0 then 0xFFFF else pseudo_checksum)
      in front @ le16 pseudo_checksum @ payload)"

definition UdpFrame_ToIp :: "bool \<Rightarrow> UdpFrame \<Rightarrow> IPFrame option" where
  "UdpFrame_ToIp flash u =
     (case udp_Payload u of
        None \<Rightarrow> None
      | Some payload \<Rightarrow>
          if payload = [] then None
          else Some \<lparr>Destination = Address (udp_Destination u), Source = Address (udp_Source u),
                     Ttl = udp_Ttl u, Id = 0, Tos = udp_tos flash, ProtocolType = IP_PROTO_UDP, Flags = 0,
                     Payload = Some (udp_message (udp_Source u) (udp_Destination u) payload), Options = None\<rparr>)"

definition ITap_Mtu :: nat where
  "ITap_Mtu = 1500"

definition ToIPv4Packet :: "bool \<Rightarrow> IPEndPoint \<Rightarrow> IPEndPoint \<Rightarrow> u8 \<Rightarrow> bytes \<Rightarrow> bytes option" where
  "ToIPv4Packet flash source destination ttl payload =
     (if payload = [] then None
      else if 8 + length payload > (ITap_Mtu - IP_HLEN) div 8 * 8 then None
      else let total = IP_HLEN + (8 + length payload);
               front = [0x40 OR of_nat (IP_HLEN div 4), udp_tos flash] @ le16 (htons (of_nat total)) @ le16 0 @
                       le16 (htons (ucast IP_DF)) @ [ttl, IP_PROTO_UDP];
               back = le32 (Address source) @ le32 (Address destination);
               chksum = inet_chksum (front @ [0, 0] @ back);
               chksum = (if chksum = 0 then 0xFFFF else chksum)
           in Some (front @ le16 chksum @ back @ udp_message source destination payload))"

definition UdpFrame_Parse :: "bool \<Rightarrow> IPFrame \<Rightarrow> UdpFrame option" where
  "UdpFrame_Parse verify f =
     (case Payload f of
        None \<Rightarrow> None
      | Some seg \<Rightarrow>
          if length seg < 8 then None
          else if length seg \<noteq> unat (htons (ld16 4 seg)) then None
          else if length seg - 8 = 0 then None
          else if verify \<and> ld16 6 seg \<noteq> 0 \<and> inet_chksum_pseudo seg 17 (Source f) (Destination f) \<noteq> 0 then None
          else Some \<lparr>udp_Source = \<lparr>Address = Source f, Port = htons (ld16 0 seg)\<rparr>,
                     udp_Destination = \<lparr>Address = Destination f, Port = htons (ld16 2 seg)\<rparr>,
                     udp_Ttl = Ttl f, udp_Payload = Some (drop 8 seg)\<rparr>)"

section \<open>IcmpFrame\<close>

record IcmpFrame =
  icmp_Type :: u8
  icmp_Code :: u8
  Identification :: u16
  Sequence :: u16
  icmp_Source :: u32
  icmp_Destination :: u32
  icmp_Ttl :: u8
  icmp_Payload :: "bytes option"

definition icmp_message :: "IcmpFrame \<Rightarrow> bytes" where
  "icmp_message i =
     (let front = [icmp_Type i, icmp_Code i];
          back = le16 (htons (Identification i)) @ le16 (htons (Sequence i)) @ segment (icmp_Payload i);
          chksum = inet_chksum (front @ [0, 0] @ back);
          chksum = (if chksum = 0 then 0xFFFF else chksum)
      in front @ le16 chksum @ back)"

definition IcmpFrame_ToIp :: "bool \<Rightarrow> IcmpFrame \<Rightarrow> IPFrame" where
  "IcmpFrame_ToIp flash i =
     \<lparr>Destination = icmp_Destination i, Source = icmp_Source i, Ttl = icmp_Ttl i, Id = 0,
      Tos = (if flash then DefaultFlashTypeOfService else 0), ProtocolType = IP_PROTO_ICMP, Flags = IP_DF,
      Payload = Some (icmp_message i), Options = None\<rparr>"

definition IcmpFrame_Parse :: "bool \<Rightarrow> IPFrame \<Rightarrow> IcmpFrame option" where
  "IcmpFrame_Parse verify f =
     (if ProtocolType f \<noteq> IP_PROTO_ICMP then None
      else case Payload f of
        None \<Rightarrow> None
      | Some seg \<Rightarrow>
          if length seg < 8 then None
          else if verify \<and> ld16 2 seg \<noteq> 0 \<and> inet_chksum seg \<noteq> 0 then None
          else Some \<lparr>icmp_Type = seg ! 0, icmp_Code = seg ! 1, Identification = htons (ld16 4 seg),
                     Sequence = htons (ld16 6 seg), icmp_Source = Source f, icmp_Destination = Destination f,
                     icmp_Ttl = Ttl f, icmp_Payload = Some (drop 8 seg)\<rparr>)"

section \<open>Loads and stores\<close>

lemma htons_ld16 [wire]: "ld16 k (p @ le16 v @ q) = v" if "length p = k"
proof -
  have "word_of (byte_at 1 v) (byte_at 0 v) = v"
    using be16_value [of v] by (simp add: word_of_def take_bit_word_eq_self)
  then show ?thesis
    using that by (simp add: ld16_def le16_def nth_append)
qed

lemma ld32_le32 [wire]: "ld32 k (p @ le32 v @ q) = v" if "length p = k"
  using that rd32_be32 [of v "[]"] by (simp add: ld32_def le32_def be32_def nth_append)

lemma length_le32 [simp, wire]: "length (le32 x) = 4"
  by (simp add: le32_def)

lemma length_header_front [simp]: "length (header_front f) = 10"
  by (simp add: header_front_def Let_def)

section \<open>Frames that can be sent\<close>

text \<open>
  What the receiver needs of a frame: routable addresses, a live TTL, one of the three protocols,
  options in whole words that fit the header, flags of 16 bits and a total length of 16 bits.
\<close>

definition frame_ok :: "IPFrame \<Rightarrow> bool" where
  "frame_ok f \<longleftrightarrow> Destination f \<noteq> 0 \<and> Source f \<noteq> 0 \<and> Source f \<noteq> 0xFFFFFFFF \<and> Ttl f \<noteq> 0 \<and>
     ProtocolType f \<in> {IP_PROTO_UDP, IP_PROTO_TCP, IP_PROTO_ICMP} \<and>
     length (segment (Options f)) mod 4 = 0 \<and> length (segment (Options f)) \<le> 40 \<and>
     Options f \<noteq> Some [] \<and> Payload f \<noteq> Some [] \<and> Flags f < 0x10000 \<and> SizeOf f \<le> 65535"

text \<open>What the receiver sees: the default flag instead of none, and the precedence raised.\<close>

definition received :: "bool \<Rightarrow> IPFrame \<Rightarrow> IPFrame" where
  "received flash f =
     f\<lparr>Flags := (if Flags f = 0 then IP_DF else Flags f),
       Tos := (if flash then max (Tos f) DefaultFlashTypeOfService else Tos f)\<rparr>"

lemma ToArray_eq:
  "ToArray f = header_front f @ le16 (chksum_field (inet_chksum (header_front f @ [0, 0] @ header_back f))) @
     header_back f @ segment (Payload f)"
  by (simp add: ToArray_def chksum_field_def Let_def)

lemma length_ToArray: "length (ToArray f) = SizeOf f"
  by (simp add: ToArray_eq header_back_def SizeOf_def IP_HLEN_def)

lemma ToArray_bytes:
  "ToArray f ! 0 = 0x40 OR of_nat ((IP_HLEN + length (segment (Options f))) div 4)" "ToArray f ! Suc 0 = Tos f"
  "ToArray f ! 8 = Ttl f" "ToArray f ! 9 = ProtocolType f"
  by (simp_all add: ToArray_eq header_front_def nth_append le16_def Let_def)

lemma ToArray_words:
  "ld16 2 (ToArray f) = htons (of_nat (SizeOf f))" "ld16 4 (ToArray f) = htons (Id f)"
  "ld16 6 (ToArray f) = htons (ucast (if Flags f = 0 then IP_DF else Flags f))"
  "ld32 12 (ToArray f) = Source f" "ld32 16 (ToArray f) = Destination f"
proof -
  let ?vh = "[0x40 OR of_nat ((IP_HLEN + length (segment (Options f))) div 4), Tos f]"
  let ?c = "le16 (chksum_field (inet_chksum (header_front f @ [0, 0] @ header_back f)))"
  let ?flags = "ucast (if Flags f = 0 then IP_DF else Flags f) :: u16"
  show "ld16 2 (ToArray f) = htons (of_nat (SizeOf f))"
    using htons_ld16 [of ?vh 2 "htons (of_nat (SizeOf f))"] by (simp add: ToArray_eq header_front_def Let_def)
  show "ld16 4 (ToArray f) = htons (Id f)"
    using htons_ld16 [of "?vh @ le16 (htons (of_nat (SizeOf f)))" 4 "htons (Id f)"]
    by (simp add: ToArray_eq header_front_def Let_def)
  show "ld16 6 (ToArray f) = htons ?flags"
    using htons_ld16 [of "?vh @ le16 (htons (of_nat (SizeOf f))) @ le16 (htons (Id f))" 6 "htons ?flags"]
    by (simp add: ToArray_eq header_front_def Let_def)
  show "ld32 12 (ToArray f) = Source f"
    using ld32_le32 [of "header_front f @ ?c" 12 "Source f"] by (simp add: ToArray_eq header_back_def)
  show "ld32 16 (ToArray f) = Destination f"
    using ld32_le32 [of "header_front f @ ?c @ le32 (Source f)" 16 "Destination f"]
    by (simp add: ToArray_eq header_back_def)
qed

lemma version_byte:
  assumes "h < 16"
  shows "drop_bit 4 (0x40 OR of_nat h :: u8) = 4" and "unat ((0x40 OR of_nat h :: u8) AND 0x0F) = h"
proof -
  have "\<forall>h \<in> set [0..<16]. drop_bit 4 (0x40 OR of_nat h :: u8) = 4 \<and> unat ((0x40 OR of_nat h :: u8) AND 0x0F) = h"
    by code_simp
  then show "drop_bit 4 (0x40 OR of_nat h :: u8) = 4" and "unat ((0x40 OR of_nat h :: u8) AND 0x0F) = h"
    using assms by auto
qed

lemma ToArray_header:
  assumes "frame_ok f"
  shows "IPH_V (ToArray f) = 4" and "4 * IPH_HL (ToArray f) = 20 + length (segment (Options f))"
proof -
  let ?o = "length (segment (Options f))"
  obtain k where k: "?o = 4 * k" "k \<le> 10"
    using assms by (auto simp: frame_ok_def elim!: dvdE simp flip: dvd_eq_mod_eq_0)
  then show "IPH_V (ToArray f) = 4" and "4 * IPH_HL (ToArray f) = 20 + ?o"
    using version_byte [of "5 + k"] by (simp_all add: IPH_V_def IPH_HL_def ToArray_bytes IP_HLEN_def)
qed

lemma ip_hdr_Parse_intact:
  assumes "p \<noteq> []" "IPH_V p = 4" "4 * IPH_HL p \<le> length p" "20 \<le> 4 * IPH_HL p" "p ! 8 \<noteq> 0"
    "unat (htons (ld16 2 p)) = length p" "ld32 16 p \<noteq> 0" "ld32 12 p \<noteq> 0" "ld32 12 p \<noteq> 0xFFFFFFFF"
    "inet_chksum (take (4 * IPH_HL p) p) = 0" "p ! 9 \<in> {IP_PROTO_UDP, IP_PROTO_TCP, IP_PROTO_ICMP}"
  shows "ip_hdr_Parse verify p = Some p"
  using assms by (auto simp: ip_hdr_Parse_def Let_def IP_HLEN_def)

lemma ip_hdr_Parse_ToArray:
  assumes ok: "frame_ok f"
  shows "ip_hdr_Parse verify (ToArray f) = Some (ToArray f)"
proof -
  let ?p = "ToArray f" and ?hlen = "20 + length (segment (Options f))"
  have len: "length ?p = SizeOf f" "?hlen \<le> length ?p" "SizeOf f \<le> 65535"
    using ok by (auto simp: length_ToArray SizeOf_def IP_HLEN_def frame_ok_def)
  have size: "unat (htons (ld16 2 ?p)) = length ?p"
    using len by (simp add: ToArray_words unat_of_nat take_bit_nat_eq_self)
  have "take ?hlen ?p = header_front f @ le16 (chksum_field (inet_chksum (header_front f @ [0, 0] @ header_back f))) @ header_back f"
    by (simp add: ToArray_eq header_back_def)
  moreover have "length (header_front f) + length (header_back f) \<le> 65534"
    using ok by (simp add: header_back_def frame_ok_def)
  ultimately have chksum: "inet_chksum (take ?hlen ?p) = 0"
    using inet_chksum_verifies [of "header_front f" "header_back f"] by simp
  have "?p \<noteq> []"
    using len(2) by auto
  then show ?thesis
    using ok len size chksum ToArray_header [OF ok]
    by (intro ip_hdr_Parse_intact) (simp_all add: ToArray_words(4,5) ToArray_bytes frame_ok_def)
qed

lemma ucast_ucast_u16:
  assumes "(x :: u32) < 0x10000"
  shows "ucast (ucast x :: u16) = x"
proof -
  have "unat x < 65536"
    using assms by (simp add: word_less_nat_alt)
  then have "unat (ucast (ucast x :: u16) :: u32) = unat x"
    by (simp add: unsigned_ucast_eq unsigned_take_bit_eq take_bit_nat_eq_self)
  then show ?thesis
    by (simp add: word_unat_eq_iff)
qed

lemma IPFrame_Parse_ToArray:
  assumes "frame_ok f"
  shows "IPFrame_Parse verify flash (ToArray f) = Some (received flash f)"
proof -
  let ?o = "segment (Options f)"
  have "drop (20 + length ?o) (ToArray f) = segment (Payload f)"
    by (simp add: ToArray_eq header_back_def)
  moreover have "drop 20 (take (20 + length ?o) (ToArray f)) = ?o"
    by (simp add: ToArray_eq header_back_def)
  moreover have "nonempty (segment s) = s" if "s \<noteq> Some []" for s
    using that by (auto simp: nonempty_def segment_def split: option.splits)
  moreover have "ucast (ucast IP_DF :: u16) = IP_DF" "ucast (ucast (Flags f) :: u16) = Flags f"
    using assms by (simp_all add: ucast_ucast_u16 frame_ok_def IP_DF_def)
  ultimately show ?thesis
    using assms ip_hdr_Parse_ToArray [OF assms, of verify] ToArray_header [OF assms]
    by (cases f) (simp add: IPFrame_Parse_def Let_def ToArray_words ToArray_bytes IP_HLEN_def frame_ok_def
        received_def del: if_split)
qed

section \<open>Datagrams and messages\<close>

lemma udp_message_eq:
  "udp_message source destination payload =
     (let front = udp_front source destination (8 + length payload)
      in front @ le16 (chksum_field (inet_chksum_pseudo (front @ [0, 0] @ payload) 17 (Address source) (Address destination))) @
         payload)"
  by (simp add: udp_message_def chksum_field_def Let_def)

lemma length_udp_front [simp]: "length (udp_front source destination n) = 6"
  by (simp add: udp_front_def)

lemma length_udp_message [simp]: "length (udp_message source destination payload) = 8 + length payload"
  by (simp add: udp_message_eq Let_def)

lemma udp_message_fields:
  "ld16 0 (udp_message source destination payload) = htons (Port source)"
  "ld16 2 (udp_message source destination payload) = htons (Port destination)"
  "ld16 4 (udp_message source destination payload) = htons (of_nat (8 + length payload))"
  "drop 8 (udp_message source destination payload) = payload"
  using htons_ld16 [of "[]" 0 "htons (Port source)"]
    htons_ld16 [of "le16 (htons (Port source))" 2 "htons (Port destination)"]
    htons_ld16 [of "le16 (htons (Port source)) @ le16 (htons (Port destination))" 4 "htons (of_nat (8 + length payload))"]
  by (simp_all add: udp_message_eq udp_front_def Let_def)

lemma udp_message_verifies:
  assumes "8 + length payload \<le> 65535"
  shows "inet_chksum_pseudo (udp_message source destination payload) 17 (Address source) (Address destination) = 0"
  using pseudo_field_verifies [of "udp_front source destination (8 + length payload)" payload 17 "Address source"
      "Address destination"] assms
  by (simp add: udp_message_eq Let_def)

text \<open>The parser of the frame and the check of the native header agree on what they accept.\<close>

lemma udp_hdr_Parse_message:
  assumes "8 + length payload \<le> 65535"
  shows "udp_hdr_Parse verify (Address source) (Address destination) (udp_message source destination payload) =
         Some (udp_message source destination payload)"
proof -
  have "unat (of_nat (8 + length payload) :: u16) = 8 + length payload"
    using assms by (simp add: unat_of_nat take_bit_nat_eq_self del: of_nat_add)
  then show ?thesis
    using udp_message_verifies [OF assms, of source destination]
    by (simp add: udp_hdr_Parse_def udp_message_fields del: of_nat_add)
qed

lemma UdpFrame_Parse_message:
  assumes "8 + length payload \<le> 65535" "payload \<noteq> []"
    and "Payload f = Some (udp_message source destination payload)"
    and "Source f = Address source" "Destination f = Address destination"
  shows "UdpFrame_Parse verify f =
           Some \<lparr>udp_Source = source, udp_Destination = destination, udp_Ttl = Ttl f, udp_Payload = Some payload\<rparr>"
proof -
  have "unat (of_nat (8 + length payload) :: u16) = 8 + length payload"
    using assms(1) by (simp add: unat_of_nat take_bit_nat_eq_self del: of_nat_add)
  then show ?thesis
    using assms udp_message_verifies [OF assms(1), of source destination]
    by (simp add: UdpFrame_Parse_def udp_message_fields del: of_nat_add)
qed

lemma icmp_message_eq:
  "icmp_message i =
     (let back = le16 (htons (Identification i)) @ le16 (htons (Sequence i)) @ segment (icmp_Payload i)
      in [icmp_Type i, icmp_Code i] @
         le16 (chksum_field (inet_chksum ([icmp_Type i, icmp_Code i] @ [0, 0] @ back))) @ back)"
  by (simp add: icmp_message_def chksum_field_def Let_def)

text \<open>An ICMP message is parsed back, an absent payload as an empty one.\<close>

lemma IcmpFrame_Parse_message:
  assumes "length (segment (icmp_Payload i)) \<le> 65000" "ProtocolType f = IP_PROTO_ICMP"
    and "Payload f = Some (icmp_message i)"
    and "Source f = icmp_Source i" "Destination f = icmp_Destination i" "Ttl f = icmp_Ttl i"
  shows "IcmpFrame_Parse verify f = Some (i\<lparr>icmp_Payload := Some (segment (icmp_Payload i))\<rparr>)"
proof -
  let ?h = "[icmp_Type i, icmp_Code i]"
  let ?tl = "le16 (htons (Identification i)) @ le16 (htons (Sequence i)) @ segment (icmp_Payload i)"
  let ?c = "le16 (chksum_field (inet_chksum (?h @ [0, 0] @ ?tl)))"
  have "inet_chksum (icmp_message i) = 0"
    using inet_chksum_verifies [of ?h ?tl] assms(1) by (simp add: icmp_message_eq Let_def)
  moreover have "ld16 4 (icmp_message i) = htons (Identification i)" "ld16 6 (icmp_message i) = htons (Sequence i)"
    using htons_ld16 [of "?h @ ?c" 4 "htons (Identification i)"]
      htons_ld16 [of "?h @ ?c @ le16 (htons (Identification i))" 6 "htons (Sequence i)"]
    by (simp_all add: icmp_message_eq Let_def)
  moreover have "icmp_message i ! 0 = icmp_Type i" "icmp_message i ! Suc 0 = icmp_Code i"
      "length (icmp_message i) = 8 + length (segment (icmp_Payload i))"
      "drop 8 (icmp_message i) = segment (icmp_Payload i)"
    by (simp_all add: icmp_message_eq Let_def)
  ultimately show ?thesis
    using assms by (simp add: IcmpFrame_Parse_def)
qed

section \<open>Properties\<close>


definition example_frame :: IPFrame where
  "example_frame =
     \<lparr>Destination = 0x0100000A, Source = 0x0200000A, Ttl = 64, Id = 7, Tos = 0, ProtocolType = IP_PROTO_UDP,
      Flags = 0, Payload = Some [1, 2, 3], Options = Some [1, 1, 1, 1]\<rparr>"


text \<open>
  A UDP datagram survives encapsulation. For a non-empty payload that fits an IPv4 packet, between
  routable addresses, the datagram put into an IPv4 frame, serialized, parsed and unpacked again has the
  same endpoints, time to live and payload, and its checksum verifies. The one-buffer fast path writes
  the same bytes, and refuses exactly when the datagram would have to be fragmented.
\<close>

theorem udp_datagram_roundtrip:
  assumes payload: "udp_Payload u = Some payload" "payload \<noteq> []" "28 + length payload \<le> 65535"
    and addresses: "Address (udp_Destination u) \<noteq> 0" "Address (udp_Source u) \<notin> {0, 0xFFFFFFFF}" "udp_Ttl u \<noteq> 0"
  shows "\<exists>f g. UdpFrame_ToIp flash u = Some f \<and> IPFrame_Parse verify flash (ToArray f) = Some g \<and>
     UdpFrame_Parse verify g = Some u \<and>
     ToIPv4Packet flash (udp_Source u) (udp_Destination u) (udp_Ttl u) payload =
       (if 8 + length payload \<le> 1480 then Some (ToArray f) else None)"
proof -
  let ?m = "udp_message (udp_Source u) (udp_Destination u) payload"
  define f where "f = \<lparr>Destination = Address (udp_Destination u), Source = Address (udp_Source u),
     Ttl = udp_Ttl u, Id = 0, Tos = udp_tos flash, ProtocolType = IP_PROTO_UDP, Flags = 0,
     Payload = Some ?m, Options = None\<rparr>"
  have toip: "UdpFrame_ToIp flash u = Some f"
    using payload by (simp add: UdpFrame_ToIp_def f_def)
  have "?m \<noteq> []"
    using length_udp_message [of "udp_Source u" "udp_Destination u" payload] by (metis list.size(3) add_is_0 zero_neq_numeral)
  then have "frame_ok f"
    using payload(3) addresses by (simp add: frame_ok_def f_def segment_def SizeOf_def IP_HLEN_def)
  then have "IPFrame_Parse verify flash (ToArray f) = Some (received flash f)"
    by (rule IPFrame_Parse_ToArray)
  moreover have "UdpFrame_Parse verify (received flash f) = Some u"
    using UdpFrame_Parse_message [of payload "received flash f" "udp_Source u" "udp_Destination u" verify] payload
    by (simp add: received_def f_def)
  moreover have "ToIPv4Packet flash (udp_Source u) (udp_Destination u) (udp_Ttl u) payload =
       (if 8 + length payload \<le> 1480 then Some (ToArray f) else None)"
    using payload by (simp add: ToIPv4Packet_def ToArray_def header_front_def header_back_def f_def segment_def SizeOf_def
        ITap_Mtu_def IP_HLEN_def htons_zero Let_def)
  ultimately show ?thesis
    using toip by blast
qed

definition example_udp :: UdpFrame where
  "example_udp =
     \<lparr>udp_Source = \<lparr>Address = 0x0200000A, Port = 53\<rparr>, udp_Destination = \<lparr>Address = 0x0100000A, Port = 4000\<rparr>,
      udp_Ttl = 64, udp_Payload = Some [1, 2, 3]\<rparr>"

theorem udp_datagram_roundtrip_witness:
  "\<exists>f g. UdpFrame_ToIp False example_udp = Some f \<and> IPFrame_Parse True False (ToArray f) = Some g \<and>
     UdpFrame_Parse True g = Some example_udp \<and>
     ToIPv4Packet False (udp_Source example_udp) (udp_Destination example_udp) 64 [1, 2, 3] = Some (ToArray f)"
  using udp_datagram_roundtrip [of example_udp "[1, 2, 3]" False True] by (simp add: example_udp_def)

end
