(* ===== verification/Ip_Fragment.thy ===== *)
theory Ip_Fragment
  imports Ip_Packet "HOL-Library.AList" "HOL-Library.Multiset"
begin

text \<open>
  Fragmentation and reassembly of IPv4 packets: \<^verbatim>\<open>IPFrame::Subpackages\<close> of
  \<^verbatim>\<open>src/ppp/net/packet/IPFrame.cpp\<close>, the class \<^verbatim>\<open>IPFragment\<close> of \<^verbatim>\<open>src/ppp/net/packet/IPFragment.cpp\<close> and
  \<^verbatim>\<open>ip_hdr::NewId\<close>.

  The table of pending datagrams is an association list with one entry per key, the time of an arrival
  is an argument, and what a callback is given is returned as a list of events. A handler is only
  assigned or not. Allocation succeeds.
\<close>

unbundle bit_operations_syntax

section \<open>Fragment offsets\<close>

definition GetFragmentOffset :: "IPFrame \<Rightarrow> nat" where
  "GetFragmentOffset f = 8 * unat (drop_bit 3 (push_bit 3 (ucast (Flags f) :: u16)))"

definition SetFragmentOffset :: "nat \<Rightarrow> IPFrame \<Rightarrow> IPFrame" where
  "SetFragmentOffset value f = f\<lparr>Flags := push_bit 13 (drop_bit 13 (Flags f)) OR of_nat (value div 8)\<rparr>"

section \<open>Splitting\<close>

text \<open>One fragment of a packet.\<close>

definition sub_frame :: "IPFrame \<Rightarrow> u32 \<Rightarrow> bytes option \<Rightarrow> bytes \<Rightarrow> nat \<Rightarrow> IPFrame" where
  "sub_frame packet flags options payload ofs =
     SetFragmentOffset ofs (packet\<lparr>Flags := flags, Options := options, Payload := Some payload\<rparr>)"

text \<open>
  The loop over the payload: \<open>rest\<close> holds the \<^verbatim>\<open>szz\<close> bytes from \<open>ofs\<close> on. It does not return for a
  fragment size of zero, which options of more than a packet would give.
\<close>

partial_function (option) subpackage_loop :: "IPFrame \<Rightarrow> nat \<Rightarrow> bytes option \<Rightarrow> bytes \<Rightarrow> nat \<Rightarrow> IPFrame list option" where
  "subpackage_loop packet mx options rest ofs =
     (if length rest > mx
      then Option.bind (subpackage_loop packet mx None (drop mx rest) (ofs + mx))
             (\<lambda>out. Some (sub_frame packet IP_MF options (take mx rest) ofs # out))
      else if length rest > 0
      then Some [sub_frame packet (if ofs = 0 then Flags packet else 0) options rest ofs]
      else Some [])"

definition fragment_max :: "IPFrame \<Rightarrow> nat" where
  "fragment_max packet = (ITap_Mtu - IP_HLEN - length (segment (Options packet))) div 8 * 8"

definition Subpackages :: "IPFrame \<Rightarrow> IPFrame list option" where
  "Subpackages packet =
     (if Flags packet AND IP_MF \<noteq> 0 then Some [packet]
      else case Payload packet of
        None \<Rightarrow> Some [packet]
      | Some messages \<Rightarrow>
          if length messages \<le> fragment_max packet then Some [packet]
          else subpackage_loop packet (fragment_max packet) (Options packet) messages 0)"

section \<open>Identifiers\<close>

text \<open>A fresh identifier from the process counter; the loop skips the value zero.\<close>

lemma ucast_u16_add: "ucast (x + 1 :: u32) = (ucast x + 1 :: u16)"
  by (simp add: word_unat_eq_iff unat_word_ariths unsigned_ucast_eq unsigned_take_bit_eq take_bit_eq_mod mod_simps mod_mod_cancel)

function NewId :: "u32 \<Rightarrow> u16 \<times> u32" where
  "NewId aid =
     (let aid = aid + 1;
          r = ucast aid :: u16
      in if r \<noteq> 0 then (r, aid) else NewId aid)"
  by auto

termination
  by (relation "measure (\<lambda>aid. if (ucast (aid + 1) :: u16) = 0 then 1 else 0)") (auto simp: ucast_u16_add)

declare NewId.simps [simp del]

lemma NewId_nonzero: "fst (NewId aid) \<noteq> 0"
proof (induction aid rule: NewId.induct)
  case (1 aid)
  then show ?case
    by (subst NewId.simps) (auto simp: Let_def)
qed

section \<open>IPFragment\<close>

type_synonym fragment_key = "u64 \<times> u64"

record Subpackage =
  FinalizeTime :: u64
  Frames :: "IPFrame list"

record IPFragment =
  PacketInput :: bool
  PacketOutput :: bool
  IPV4_SUBPACKAGES :: "(fragment_key \<times> Subpackage) list"

definition MAX_FINALIZE_TIME :: u64 where
  "MAX_FINALIZE_TIME = 1"

definition FragmentKey :: "IPFrame \<Rightarrow> fragment_key" where
  "FragmentKey packet = (ucast (Source packet) OR push_bit 32 (ucast (Destination packet)), ucast (Id packet))"

definition is_fragment :: "IPFrame \<Rightarrow> bool" where
  "is_fragment p \<longleftrightarrow> Flags p AND IP_MF \<noteq> 0 \<or> (Flags p AND IP_OFFMASK \<noteq> 0 \<and> GetFragmentOffset p > 0)"

text \<open>The place of a fragment, searched from the end, and its insertion.\<close>

primrec slot :: "IPFrame \<Rightarrow> IPFrame list \<Rightarrow> nat \<Rightarrow> nat" where
  "slot p frames 0 = 0"
| "slot p frames (Suc index) =
     (if GetFragmentOffset p \<ge> GetFragmentOffset (frames ! index) then Suc index else slot p frames index)"

definition insert_frame :: "IPFrame \<Rightarrow> IPFrame list \<Rightarrow> IPFrame list" where
  "insert_frame p frames = (let index = slot p frames (length frames) in take index frames @ [p] @ drop index frames)"

text \<open>The scan for a continuous byte range, with the offset it ends at.\<close>

fun contiguous :: "nat \<Rightarrow> IPFrame list \<Rightarrow> nat option" where
  "contiguous next_offset [] = Some next_offset"
| "contiguous next_offset (left # frames) =
     (if GetFragmentOffset left \<noteq> next_offset then None
      else contiguous (GetFragmentOffset left + length (segment (Payload left))) frames)"

definition completed :: "IPFrame list \<Rightarrow> nat option" where
  "completed frames =
     (case contiguous 0 frames of
        None \<Rightarrow> None
      | Some n \<Rightarrow>
          if frames \<noteq> [] \<and> Flags (last frames) AND IP_MF = 0 \<and> Flags (last frames) AND IP_OFFMASK \<noteq> 0 \<and>
             GetFragmentOffset (last frames) > 0
          then Some n else None)"

text \<open>
  The stream the payloads are written to; it has room for \<open>n\<close> bytes, which is what the scan summed up.
\<close>

fun write_payloads :: "IPFrame list \<Rightarrow> bytes option" where
  "write_payloads [] = Some []"
| "write_payloads (p # frames) =
     (if segment (Payload p) = [] then None
      else map_option (\<lambda>rest. segment (Payload p) @ rest) (write_payloads frames))"

definition origin_new :: "IPFrame \<Rightarrow> bytes \<Rightarrow> IPFrame" where
  "origin_new first_frame buffer = SetFragmentOffset 0 (first_frame\<lparr>Payload := Some buffer, Flags := IP_DF\<rparr>)"

definition OnInput :: "IPFragment \<Rightarrow> IPFrame \<Rightarrow> IPFrame list" where
  "OnInput s e = (if PacketInput s then [e] else [])"

definition Input :: "u64 \<Rightarrow> IPFrame \<Rightarrow> IPFragment \<Rightarrow> bool \<times> IPFrame list \<times> IPFragment" where
  "Input now packet s =
     (if is_fragment packet
      then if segment (Payload packet) = [] then (False, [], s)
           else let key = FragmentKey packet;
                    subpackage = (case map_of (IPV4_SUBPACKAGES s) key of
                                    Some sub \<Rightarrow> sub
                                  | None \<Rightarrow> \<lparr>FinalizeTime = now + MAX_FINALIZE_TIME, Frames = []\<rparr>);
                    frames = insert_frame packet (Frames subpackage)
                in case completed frames of
                     None \<Rightarrow>
                       (True, [], s\<lparr>IPV4_SUBPACKAGES := AList.update key (subpackage\<lparr>Frames := frames\<rparr>) (IPV4_SUBPACKAGES s)\<rparr>)
                   | Some n \<Rightarrow>
                       let s = s\<lparr>IPV4_SUBPACKAGES := AList.delete key (IPV4_SUBPACKAGES s)\<rparr>
                       in case write_payloads frames of
                            None \<Rightarrow> (False, [], s)
                          | Some buffer \<Rightarrow> (True, OnInput s (origin_new (hd frames) buffer), s)
      else (False, [], s))"

definition OnOutput :: "IPFragment \<Rightarrow> bytes \<Rightarrow> bytes list" where
  "OnOutput s e = (if PacketOutput s then [e] else [])"

text \<open>The loop that gives a packet its identifier.\<close>

function assign_id :: "IPFrame \<Rightarrow> u32 \<Rightarrow> IPFrame \<times> u32" where
  "assign_id packet aid =
     (if Id packet = 0 then let (r, aid) = NewId aid in assign_id (packet\<lparr>Id := r\<rparr>) aid else (packet, aid))"
  by auto

termination
  by (relation "measure (\<lambda>(packet, aid). if Id packet = 0 then 1 else 0)", simp_all) (metis NewId_nonzero fst_conv)

declare assign_id.simps [simp del]

definition Output :: "IPFragment \<Rightarrow> u32 \<Rightarrow> IPFrame \<Rightarrow> (bool \<times> bytes list \<times> u32) option" where
  "Output s aid packet =
     (let (frame, aid) = assign_id packet aid
      in Option.bind (Subpackages frame) (\<lambda>subpackages.
           if subpackages = [] then Some (False, [], aid)
           else Some (True, concat (map (\<lambda>f. OnOutput s (ToArray f)) subpackages), aid)))"

definition Release :: "IPFragment \<Rightarrow> IPFragment" where
  "Release s = s\<lparr>PacketInput := False, PacketOutput := False, IPV4_SUBPACKAGES := []\<rparr>"

definition expired :: "u64 \<Rightarrow> Subpackage \<Rightarrow> bool" where
  "expired now sub \<longleftrightarrow>
     now \<ge> FinalizeTime sub \<or> (FinalizeTime sub > MAX_FINALIZE_TIME \<and> now \<le> MAX_FINALIZE_TIME)"

definition Update :: "u64 \<Rightarrow> IPFragment \<Rightarrow> nat \<times> IPFragment" where
  "Update now s =
     (length (filter (\<lambda>(k, sub). expired now sub) (IPV4_SUBPACKAGES s)),
      s\<lparr>IPV4_SUBPACKAGES := filter (\<lambda>(k, sub). \<not> expired now sub) (IPV4_SUBPACKAGES s)\<rparr>)"

section \<open>Offsets and flags\<close>

lemma offset_field: "drop_bit 3 (push_bit 3 x) = x AND 0x1FFF" for x :: u16
proof (rule bit_word_eqI)
  fix n assume "n < LENGTH(16)"
  moreover have "bit (0x1FFF :: u16) n \<longleftrightarrow> n < 13"
    using bit_mask_iff [of 13 n, where 'a = u16] calculation by (simp add: mask_eq_exp_minus_1)
  ultimately show "bit (drop_bit 3 (push_bit 3 x)) n \<longleftrightarrow> bit (x AND 0x1FFF) n"
    by (auto simp: bit_simps)
qed

lemma offset_masks: "(0x1FFF :: u16) = mask 13" "IP_OFFMASK = mask 13"
  by (simp_all add: mask_eq_exp_minus_1 IP_OFFMASK_def)

lemma bit_IP_MF [simp]: "bit IP_MF n \<longleftrightarrow> n = 13"
proof -
  have "IP_MF = 2 ^ 13"
    by (simp add: IP_MF_def)
  then show ?thesis
    unfolding \<open>IP_MF = 2 ^ 13\<close> bit_exp_iff by auto
qed

lemma GetFragmentOffset_eq: "GetFragmentOffset f = 8 * unat (Flags f AND IP_OFFMASK)"
  by (simp add: GetFragmentOffset_def offset_field offset_masks unsigned_take_bit_eq unsigned_ucast_eq
      flip: take_bit_eq_mask)

lemma GetFragmentOffset_pos: "Flags f AND IP_OFFMASK \<noteq> 0 \<longleftrightarrow> GetFragmentOffset f > 0"
  by (simp add: GetFragmentOffset_eq unat_gt_0)

lemma is_fragment_iff: "is_fragment p \<longleftrightarrow> Flags p AND IP_MF \<noteq> 0 \<or> GetFragmentOffset p > 0"
  by (auto simp: is_fragment_def GetFragmentOffset_pos)

text \<open>Flags with an offset below the flag bits.\<close>

lemma bit_offset: "bit x n \<Longrightarrow> n < 13" if "x < 0x2000" for x :: u32
proof -
  have "take_bit 13 x = x"
    using that by (simp add: word_unat_eq_iff word_less_nat_alt unsigned_take_bit_eq take_bit_nat_eq_self)
  then show "bit x n \<Longrightarrow> n < 13"
    by (metis bit_take_bit_iff)
qed

lemma offset_flags:
  assumes "x < 0x2000"
  shows "(IP_MF OR x) AND IP_MF = IP_MF" "(IP_MF OR x) AND IP_OFFMASK = x" "x AND IP_MF = 0" "x AND IP_OFFMASK = x"
    and "push_bit 13 (drop_bit 13 IP_MF) = IP_MF"
  using bit_offset [OF assms] bit_offset [OF assms, of 13]
  by (auto simp: offset_masks bit_simps intro!: bit_word_eqI)

lemma offset_flags_bound:
  assumes "x < 0x2000"
  shows "IP_MF OR x < 0x10000"
proof -
  have "IP_MF OR x = IP_MF + x"
    using offset_flags(3) [OF assms] by (simp add: disjunctive_add_eq_or and.commute)
  moreover have "unat (IP_MF + x) < 0x10000"
    using assms by (simp add: IP_MF_def unat_word_ariths word_less_nat_alt)
  ultimately show ?thesis
    by (simp add: word_less_nat_alt)
qed


text \<open>The key tells datagrams apart by exactly these three fields; the protocol is not one of them.\<close>

lemma not_bit_u32: "\<not> bit (a :: u32) (32 + n)"
  using bit_imp_le_length [of a "32 + n"] by auto

lemma key_halves:
  "ucast (ucast a OR push_bit 32 (ucast b) :: u64) = (a :: u32)"
  "ucast (drop_bit 32 (ucast a OR push_bit 32 (ucast b) :: u64)) = (b :: u32)"
  "ucast (ucast c :: u64) = (c :: u16)"
  by (auto simp: bit_simps not_bit_u32 intro!: bit_word_eqI)

lemma FragmentKey_eq_iff:
  "FragmentKey p = FragmentKey q \<longleftrightarrow> Source p = Source q \<and> Destination p = Destination q \<and> Id p = Id q"
proof
  assume eq: "FragmentKey p = FragmentKey q"
  then have "Source p = Source q" "Destination p = Destination q" "Id p = Id q"
    unfolding FragmentKey_def prod.inject by (metis key_halves(1), metis key_halves(2), metis key_halves(3))
  then show "Source p = Source q \<and> Destination p = Destination q \<and> Id p = Id q"
    by simp
qed (simp add: FragmentKey_def)

section \<open>Insertion and scan\<close>

lemma slot_le: "slot p frames n \<le> n"
  by (induction n) auto

lemma mset_insert_frame [simp]: "mset (insert_frame p frames) = add_mset p (mset frames)"
proof -
  have "mset (take i frames) + mset (drop i frames) = mset frames" for i
    by (simp flip: mset_append)
  then show ?thesis
    by (simp add: insert_frame_def Let_def)
qed

lemma insert_frame_nonempty [simp]: "insert_frame p frames \<noteq> []"
  by (simp add: insert_frame_def Let_def)

lemma slot_before:
  assumes "sorted (map GetFragmentOffset frames)" "n \<le> length frames" "i < slot p frames n"
  shows "GetFragmentOffset (frames ! i) \<le> GetFragmentOffset p"
  using assms(2,3)
proof (induction n)
  case (Suc n)
  then show ?case
    using sorted_nth_mono [OF assms(1), of i n] by (auto split: if_splits)
qed simp

lemma slot_after:
  assumes "slot p frames n \<le> i" "i < n"
  shows "GetFragmentOffset p < GetFragmentOffset (frames ! i)"
  using assms by (induction n) (auto simp: less_Suc_eq split: if_splits)

lemma sorted_insert_frame:
  assumes "sorted (map GetFragmentOffset frames)"
  shows "sorted (map GetFragmentOffset (insert_frame p frames))"
proof -
  let ?i = "slot p frames (length frames)"
  have "\<forall>x\<in>set (take ?i frames). GetFragmentOffset x \<le> GetFragmentOffset p"
    using slot_before [OF assms order.refl, of _ p] by (auto simp: in_set_conv_nth)
  moreover have "\<forall>x\<in>set (drop ?i frames). GetFragmentOffset p \<le> GetFragmentOffset x"
    using slot_after [of p frames "length frames"]
    by (auto simp: in_set_conv_nth less_diff_conv intro!: less_imp_le)
  moreover have "sorted (map GetFragmentOffset (take ?i frames))" "sorted (map GetFragmentOffset (drop ?i frames))"
    using assms by (simp_all add: sorted_wrt_take sorted_wrt_drop flip: take_map drop_map)
  ultimately show ?thesis
    by (fastforce simp: insert_frame_def Let_def sorted_append intro: order.trans)
qed

text \<open>The scan over fragments that carry data sees strictly increasing offsets.\<close>

lemma contiguous_offsets:
  assumes "contiguous n xs = Some m" "\<forall>p\<in>set xs. segment (Payload p) \<noteq> []"
  shows "(\<forall>p\<in>set xs. n \<le> GetFragmentOffset p) \<and> sorted (map GetFragmentOffset xs) \<and> distinct (map GetFragmentOffset xs)"
  using assms
proof (induction xs arbitrary: n)
  case (Cons x xs)
  let ?n = "GetFragmentOffset x + length (segment (Payload x))"
  have "0 < length (segment (Payload x))"
    using Cons.prems(2) by simp
  moreover have "\<forall>p\<in>set xs. ?n \<le> GetFragmentOffset p" "sorted (map GetFragmentOffset xs)"
      "distinct (map GetFragmentOffset xs)"
    using Cons.IH [of ?n] Cons.prems by (auto split: if_splits)
  ultimately show ?case
    using Cons.prems(1) by (force split: if_splits)
qed auto

text \<open>A continuous selection of the fragments of a continuous list is a prefix of it.\<close>

lemma contiguous_prefix:
  assumes "contiguous n xs = Some m" "contiguous n ys = Some m'" "set xs \<subseteq> set ys"
    and "\<forall>p\<in>set ys. segment (Payload p) \<noteq> []"
  shows "\<exists>zs. ys = xs @ zs"
  using assms
proof (induction xs arbitrary: n ys)
  case (Cons x xs)
  obtain y ys' where ys: "ys = y # ys'"
    using Cons.prems(3) by (cases ys) auto
  have off: "GetFragmentOffset x = n" "GetFragmentOffset y = n"
    using Cons.prems(1,2) by (auto simp: ys split: if_splits)
  have inj: "distinct (map GetFragmentOffset ys)"
    using contiguous_offsets [OF Cons.prems(2,4)] by simp
  then have "x = y"
    using off Cons.prems(3) by (auto simp: ys)
  have "distinct (map GetFragmentOffset (x # xs))"
    using contiguous_offsets [OF Cons.prems(1)] Cons.prems(3,4) by blast
  then have "set xs \<subseteq> set ys'"
    using Cons.prems(3) by (auto simp: ys \<open>x = y\<close>)
  moreover obtain k where "contiguous k xs = Some m" "contiguous k ys' = Some m'"
    using Cons.prems(1,2) by (simp add: ys \<open>x = y\<close> split: if_splits)
  ultimately obtain zs where "ys' = xs @ zs"
    using Cons.IH [of k ys'] Cons.prems(4) by (auto simp: ys)
  then show ?case
    by (simp add: ys \<open>x = y\<close>)
qed simp


section \<open>Complete trains of fragments\<close>

text \<open>A frame the reassembly of a key takes, and the fragments of one datagram from an offset on.\<close>

definition taken :: "fragment_key \<Rightarrow> IPFrame \<Rightarrow> bool" where
  "taken k p \<longleftrightarrow> is_fragment p \<and> segment (Payload p) \<noteq> [] \<and> FragmentKey p = k"

fun train :: "fragment_key \<Rightarrow> nat \<Rightarrow> IPFrame list \<Rightarrow> bool" where
  "train k ofs [] \<longleftrightarrow> False"
| "train k ofs [p] \<longleftrightarrow> taken k p \<and> GetFragmentOffset p = ofs \<and> Flags p AND IP_MF = 0"
| "train k ofs (p # q # ps) \<longleftrightarrow> taken k p \<and> GetFragmentOffset p = ofs \<and> Flags p AND IP_MF \<noteq> 0 \<and>
     train k (ofs + length (segment (Payload p))) (q # ps)"

definition payloads :: "IPFrame list \<Rightarrow> bytes" where
  "payloads frames = concat (map (\<lambda>p. segment (Payload p)) frames)"

lemma train_nonempty [simp]: "train k ofs fs \<Longrightarrow> fs \<noteq> []"
  by auto

lemma train_taken: "train k ofs fs \<Longrightarrow> p \<in> set fs \<Longrightarrow> taken k p"
  by (induction k ofs fs rule: train.induct) auto

lemma train_contiguous: "train k ofs fs \<Longrightarrow> contiguous ofs fs = Some (ofs + length (payloads fs))"
  by (induction k ofs fs rule: train.induct) (auto simp: payloads_def)

lemma train_MF:
  "train k ofs fs \<Longrightarrow> p \<in> set (butlast fs) \<Longrightarrow> Flags p AND IP_MF \<noteq> 0"
  "train k ofs fs \<Longrightarrow> Flags (last fs) AND IP_MF = 0"
  by (induction k ofs fs rule: train.induct) (auto split: if_splits)

lemma train_is_fragment: "train k ofs fs \<Longrightarrow> GetFragmentOffset (last fs) > 0"
  using train_taken [of k ofs fs "last fs"] train_MF(2) [of k ofs fs] by (auto simp: taken_def is_fragment_iff)

lemma write_payloads_eq: "\<forall>p\<in>set fs. segment (Payload p) \<noteq> [] \<Longrightarrow> write_payloads fs = Some (payloads fs)"
  by (induction fs) (auto simp: payloads_def)

lemma train_write: "train k ofs fs \<Longrightarrow> write_payloads fs = Some (payloads fs)"
  using train_taken by (intro write_payloads_eq) (auto simp: taken_def)

lemma train_completed: "train k 0 fs \<Longrightarrow> completed fs = Some (length (payloads fs))"
  using train_contiguous [of k 0 fs] train_MF(2) [of k 0 fs] train_is_fragment [of k 0 fs] GetFragmentOffset_pos [of "last fs"]
  by (simp add: completed_def)

lemma train_sorted:
  assumes "train k 0 fs"
  shows "sorted (map GetFragmentOffset fs)" "distinct (map GetFragmentOffset fs)"
proof -
  have "\<forall>p\<in>set fs. segment (Payload p) \<noteq> []"
    using train_taken [OF assms] by (auto simp: taken_def)
  then show "sorted (map GetFragmentOffset fs)" "distinct (map GetFragmentOffset fs)"
    using contiguous_offsets [OF train_contiguous [OF assms]] by simp_all
qed

text \<open>Until the last fragment is there the scan or the flag test fails.\<close>

lemma train_partial:
  assumes "train k 0 fs" "mset xs \<subset># mset fs"
  shows "completed xs = None"
proof (rule ccontr)
  assume "completed xs \<noteq> None"
  then obtain n where xs: "contiguous 0 xs = Some n" "xs \<noteq> []" "Flags (last xs) AND IP_MF = 0"
    by (auto simp: completed_def split: option.splits if_splits)
  have "set xs \<subseteq> set fs"
    using assms(2) by (metis set_mset_mono set_mset_mset subset_mset.less_imp_le)
  moreover have "\<forall>p\<in>set fs. segment (Payload p) \<noteq> []"
    using train_taken [OF assms(1)] by (auto simp: taken_def)
  ultimately obtain zs where fs: "fs = xs @ zs"
    using contiguous_prefix [OF xs(1) train_contiguous [OF assms(1)]] by auto
  with assms(2) have "zs \<noteq> []"
    by auto
  then have "last xs \<in> set (butlast fs)"
    using xs(2) by (simp add: fs butlast_append)
  then show False
    using train_MF(1) [OF assms(1)] xs(3) by auto
qed

lemma train_unique:
  assumes "train k 0 fs" "mset xs = mset fs" "sorted (map GetFragmentOffset xs)"
  shows "xs = fs"
proof -
  have "distinct (map GetFragmentOffset xs)"
    using assms(2) train_sorted(2) [OF assms(1)] by (metis mset_eq_imp_distinct_iff mset_map)
  then show ?thesis
    using assms train_sorted [OF assms(1)]
    by (intro map_sorted_distinct_set_unique [of GetFragmentOffset]) (auto simp: distinct_map dest: mset_eq_setD)
qed


section \<open>The table of pending datagrams\<close>

definition pending :: "IPFragment \<Rightarrow> fragment_key \<Rightarrow> IPFrame list" where
  "pending s k = (case map_of (IPV4_SUBPACKAGES s) k of None \<Rightarrow> [] | Some sub \<Rightarrow> Frames sub)"

definition keyed :: "IPFragment \<Rightarrow> bool" where
  "keyed s \<longleftrightarrow> (\<forall>k. \<forall>p\<in>set (pending s k). taken k p)"

lemma keyedD: "keyed s \<Longrightarrow> p \<in> set (pending s k) \<Longrightarrow> taken k p"
  unfolding keyed_def by blast

lemma keyed_upd:
  assumes "keyed s" "pending s' = (pending s)(k := frames)" "\<forall>p\<in>set frames. taken k p"
  shows "keyed s'"
  unfolding keyed_def using assms(2,3) keyedD [OF assms(1)] by (metis fun_upd_apply)

lemma map_of_update: "map_of (AList.update k v t) k' = (if k' = k then Some v else map_of t k')"
  by (simp add: update_conv')

lemma map_of_delete: "map_of (AList.delete k t) k' = (if k' = k then None else map_of t k')"
  by (simp add: delete_conv')

text \<open>The three outcomes of an arrival: ignored, kept for later, or the last one missing.\<close>

lemma Input_ignored: "\<not> taken (FragmentKey p) p \<Longrightarrow> Input now p s = (False, [], s)"
  by (auto simp: Input_def taken_def)

lemma Input_kept:
  assumes "taken k p" "completed (insert_frame p (pending s k)) = None" "Input now p s = (ok, out, s')"
  shows "ok" "out = []" "pending s' = (pending s)(k := insert_frame p (pending s k))" "PacketInput s' = PacketInput s"
  using assms
  by (auto simp: Input_def taken_def pending_def fun_eq_iff map_of_update Let_def split: option.splits)

lemma Input_last:
  assumes "taken k p" "completed (insert_frame p (pending s k)) = Some n"
    and "write_payloads (insert_frame p (pending s k)) = Some b" "Input now p s = (ok, out, s')"
  shows "ok" "out = OnInput s (origin_new (hd (insert_frame p (pending s k))) b)"
    and "pending s' = (pending s)(k := [])" "PacketInput s' = PacketInput s"
  using assms
  by (auto simp: Input_def taken_def pending_def fun_eq_iff map_of_delete OnInput_def Let_def split: option.splits)

lemma FragmentKey_origin_new [simp]: "FragmentKey (origin_new p b) = FragmentKey p"
  by (simp add: FragmentKey_def origin_new_def SetFragmentOffset_def)

lemma set_insert_frame [simp]: "set (insert_frame p frames) = insert p (set frames)"
  by (metis mset_insert_frame set_mset_add_mset_insert set_mset_mset)

text \<open>What an arrival does to the datagram of another key: nothing.\<close>

lemma Input_step:
  assumes "keyed s" "Input now p s = (ok, out, s')"
  shows "keyed s'" "PacketInput s' = PacketInput s" "\<forall>q\<in>set out. FragmentKey q = FragmentKey p"
    and "\<not> taken k p \<Longrightarrow> pending s' k = pending s k \<and> (\<forall>q\<in>set out. FragmentKey q \<noteq> k)"
proof -
  let ?k = "FragmentKey p" and ?fs = "insert_frame p (pending s (FragmentKey p))"
  have "keyed s' \<and> PacketInput s' = PacketInput s \<and> (\<forall>q\<in>set out. FragmentKey q = ?k) \<and>
    (\<not> taken k p \<longrightarrow> pending s' k = pending s k \<and> (\<forall>q\<in>set out. FragmentKey q \<noteq> k))"
  proof (cases "taken ?k p")
    case False
    then show ?thesis
      using assms Input_ignored [of p now s] by simp
  next
    case True
    then have fs: "\<forall>q\<in>set ?fs. taken ?k q"
      using keyedD [OF assms(1), of _ ?k] by auto
    then have keys: "segment (Payload q) \<noteq> []" "FragmentKey q = ?k" if "q \<in> set ?fs" for q
      using that by (auto simp: taken_def)
    show ?thesis
    proof (cases "completed ?fs")
      case None
      then show ?thesis
        using Input_kept [OF True None assms(2)] keyed_upd [OF assms(1) _ fs] True by (auto simp: taken_def)
    next
      case (Some n)
      have w: "write_payloads ?fs = Some (payloads ?fs)"
        using keys(1) by (intro write_payloads_eq) blast
      have "FragmentKey (hd ?fs) = ?k"
        using keys(2) [of "hd ?fs"] by (metis hd_in_set insert_frame_nonempty)
      then show ?thesis
        using Input_last [OF True Some w assms(2)] keyed_upd [OF assms(1), of s' ?k "[]"] True
        by (auto simp: OnInput_def taken_def)
    qed
  qed
  then show "keyed s'" "PacketInput s' = PacketInput s" "\<forall>q\<in>set out. FragmentKey q = FragmentKey p"
    and "\<not> taken k p \<Longrightarrow> pending s' k = pending s k \<and> (\<forall>q\<in>set out. FragmentKey q \<noteq> k)"
    by blast+
qed

text \<open>
  The component driven by its calls, from the two handlers assigned. The table keeps one entry per key
  and files every fragment under its own key.
\<close>

datatype fragment_op = Arrive u64 IPFrame | Tick u64 | Close

fun fragment_step :: "fragment_op \<Rightarrow> IPFragment \<Rightarrow> IPFragment" where
  "fragment_step (Arrive now p) s = snd (snd (Input now p s))"
| "fragment_step (Tick now) s = snd (Update now s)"
| "fragment_step Close s = Release s"

definition fragment_init :: IPFragment where
  "fragment_init = \<lparr>PacketInput = True, PacketOutput = True, IPV4_SUBPACKAGES = []\<rparr>"

definition fragment_inv :: "IPFragment \<Rightarrow> bool" where
  "fragment_inv s \<longleftrightarrow> distinct (map fst (IPV4_SUBPACKAGES s)) \<and> keyed s"

lemma Input_distinct:
  "distinct (map fst (IPV4_SUBPACKAGES s)) \<Longrightarrow> distinct (map fst (IPV4_SUBPACKAGES (snd (snd (Input now p s)))))"
  by (simp add: Input_def distinct_update distinct_delete Let_def split: option.splits)

lemma Update_keyed:
  assumes "fragment_inv s"
  shows "fragment_inv (snd (Update now s))"
proof -
  let ?t = "IPV4_SUBPACKAGES s" and ?f = "filter (\<lambda>(k, sub). \<not> expired now sub) (IPV4_SUBPACKAGES s)"
  have "distinct (map fst ?f)"
    using assms by (simp add: fragment_inv_def distinct_map_filter)
  moreover have *: "map_of ?t k = Some sub" if "map_of ?f k = Some sub" for k sub
    using map_of_SomeD [OF that] assms by (simp add: fragment_inv_def map_of_is_SomeI)
  have "pending (snd (Update now s)) k \<in> {[], pending s k}" for k
    using * [of k] by (cases "map_of ?f k") (simp_all add: pending_def Update_def)
  then have "keyed (snd (Update now s))"
    using assms unfolding fragment_inv_def keyed_def by (metis empty_iff empty_set insertE singletonD)
  ultimately show ?thesis
    by (simp add: fragment_inv_def Update_def)
qed

interpretation fragments: guarded_machine fragment_init fragment_step fragment_inv
proof unfold_locales
  show "fragment_inv fragment_init"
    by (simp add: fragment_inv_def fragment_init_def keyed_def pending_def)
  fix s and op :: fragment_op
  assume inv: "fragment_inv s"
  show "fragment_inv (fragment_step op s)"
  proof (cases op)
    case (Arrive now p)
    then show ?thesis
      using inv Input_step(1) [of s now p] Input_distinct [of s now p]
      by (cases "Input now p s") (simp add: fragment_inv_def)
  next
    case (Tick now)
    then show ?thesis
      using Update_keyed [OF inv] by simp
  qed (simp add: fragment_inv_def Release_def keyed_def pending_def)
qed

lemma run_keyed: "keyed (fold fragment_step history fragment_init)"
  using fragments.run_inv [of history] by (simp add: fragment_inv_def)

text \<open>A sequence of arrivals, with the datagrams handed on.\<close>

fun Input_all :: "IPFragment \<Rightarrow> (u64 \<times> IPFrame) list \<Rightarrow> IPFrame list \<times> IPFragment" where
  "Input_all s [] = ([], s)"
| "Input_all s ((now, p) # es) =
     (let (ok, out, s) = Input now p s; (outs, s) = Input_all s es in (out @ outs, s))"

abbreviation arrivals :: "fragment_key \<Rightarrow> (u64 \<times> IPFrame) list \<Rightarrow> IPFrame list" where
  "arrivals k es \<equiv> filter (taken k) (map snd es)"

abbreviation deliveries :: "fragment_key \<Rightarrow> IPFrame list \<Rightarrow> IPFrame list" where
  "deliveries k outs \<equiv> filter (\<lambda>q. FragmentKey q = k) outs"

lemma Input_all_other:
  assumes "keyed s" "arrivals k es = []" "Input_all s es = (outs, s')"
  shows "pending s' k = pending s k \<and> deliveries k outs = []"
  using assms
proof (induction es arbitrary: s outs s')
  case (Cons e es)
  obtain now p where e: "e = (now, p)" by fastforce
  obtain ok out s1 where i: "Input now p s = (ok, out, s1)" by (cases "Input now p s") auto
  obtain outs2 s2 where r: "Input_all s1 es = (outs2, s2)" by fastforce
  have "\<not> taken k p"
    using Cons.prems(2) by (auto simp: e split: if_splits)
  then have "pending s1 k = pending s k" "deliveries k out = []"
    using Input_step(4) [OF Cons.prems(1) i] by (auto simp: filter_empty_conv)
  moreover have "pending s2 k = pending s1 k \<and> deliveries k outs2 = []"
    using Cons.IH [OF Input_step(1) [OF Cons.prems(1) i] _ r] Cons.prems(2) by (auto simp: e split: if_splits)
  ultimately show ?case
    using Cons.prems(3) by (auto simp: e i r)
qed simp

text \<open>The fragments of a datagram in any order, between any other traffic, complete it once.\<close>

lemma Input_all_train:
  assumes "train k 0 fs" "keyed s" "PacketInput s" "sorted (map GetFragmentOffset (pending s k))"
    and "mset (pending s k) + mset (arrivals k es) = mset fs" "arrivals k es \<noteq> []" "Input_all s es = (outs, s')"
  shows "deliveries k outs = [origin_new (hd fs) (payloads fs)] \<and> pending s' k = []"
  using assms(2-)
proof (induction es arbitrary: s outs s')
  case (Cons e es)
  obtain now p where e: "e = (now, p)" by fastforce
  obtain ok out s1 where i: "Input now p s = (ok, out, s1)" by (cases "Input now p s") auto
  obtain outs2 s2 where r: "Input_all s1 es = (outs2, s2)" by fastforce
  have outs: "outs = out @ outs2" "s' = s2"
    using Cons.prems(6) by (simp_all add: e i r)
  note step = Input_step [OF Cons.prems(1) i]
  let ?fs = "insert_frame p (pending s k)"
  show ?case
  proof (cases "taken k p")
    case False
    then show ?thesis
      using Cons.IH [OF step(1) _ _ _ _ r] step(2) step(4) [of k] Cons.prems(2-5)
      by (auto simp: e outs filter_empty_conv)
  next
    case True
    have sorted: "sorted (map GetFragmentOffset ?fs)" and ms: "mset ?fs + mset (arrivals k es) = mset fs"
      using Cons.prems(4) sorted_insert_frame [OF Cons.prems(3)] True by (simp_all add: e)
    show ?thesis
    proof (cases "arrivals k es = []")
      case last: True
      then have "?fs = fs"
        using train_unique [OF assms(1) _ sorted] ms by simp
      then have "out = OnInput s (origin_new (hd fs) (payloads fs))" "pending s1 k = []"
        using Input_last [OF True _ _ i] train_completed [OF assms(1)] train_write [OF assms(1)] by simp_all
      moreover have "FragmentKey (hd fs) = k"
        using train_taken [OF assms(1), of "hd fs"] train_nonempty [OF assms(1)] by (simp add: taken_def)
      ultimately show ?thesis
        using Input_all_other [OF step(1) last r] Cons.prems(2) by (simp add: outs OnInput_def)
    next
      case False
      have "mset ?fs \<subset># mset ?fs + mset (arrivals k es)"
        using False by (simp add: filter_empty_conv subset_mset.less_le)
      then have "completed ?fs = None"
        unfolding ms by (rule train_partial [OF assms(1)])
      then show ?thesis
        using Input_kept [OF True _ i] Cons.IH [OF step(1) _ _ _ False r] Cons.prems(2) sorted ms by (simp add: outs)
    qed
  qed
qed simp


section \<open>Splitting gives a complete train\<close>

lemma of_nat_offset:
  assumes "8 dvd ofs" "ofs < 65536"
  shows "(of_nat (ofs div 8) :: u32) < 0x2000" "unat (of_nat (ofs div 8) :: u32) * 8 = ofs"
proof -
  have "unat (of_nat (ofs div 8) :: u32) = ofs div 8"
    using assms(2) by (simp add: unat_of_nat take_bit_nat_eq_self)
  then show "(of_nat (ofs div 8) :: u32) < 0x2000" "unat (of_nat (ofs div 8) :: u32) * 8 = ofs"
    using assms by (auto simp: word_less_nat_alt)
qed

lemma sub_frame_simps [simp]:
  "Destination (sub_frame p fl opt b ofs) = Destination p" "Source (sub_frame p fl opt b ofs) = Source p"
  "Ttl (sub_frame p fl opt b ofs) = Ttl p" "Id (sub_frame p fl opt b ofs) = Id p" "Tos (sub_frame p fl opt b ofs) = Tos p"
  "ProtocolType (sub_frame p fl opt b ofs) = ProtocolType p" "Options (sub_frame p fl opt b ofs) = opt"
  "Payload (sub_frame p fl opt b ofs) = Some b"
  by (simp_all add: sub_frame_def SetFragmentOffset_def)

lemma received_simps [simp]:
  "Payload (received flash p) = Payload p" "FragmentKey (received flash p) = FragmentKey p"
  by (simp_all add: received_def FragmentKey_def)

lemma FragmentKey_sub_frame [simp]: "FragmentKey (sub_frame p fl opt b ofs) = FragmentKey p"
  by (simp add: FragmentKey_def)

text \<open>A middle fragment and a last one, as the receiver sees them.\<close>

lemma sub_frame_middle:
  fixes packet :: IPFrame and options :: "bytes option" and b :: bytes
  assumes "8 dvd ofs" "ofs < 65536"
  defines "p \<equiv> sub_frame packet IP_MF options b ofs"
  shows "GetFragmentOffset (received flash p) = ofs" "Flags (received flash p) AND IP_MF \<noteq> 0" "Flags p < 0x10000"
proof -
  let ?x = "of_nat (ofs div 8) :: u32"
  note x = of_nat_offset [OF assms(1,2)]
  have fl: "Flags p = IP_MF OR ?x"
    by (simp add: p_def sub_frame_def SetFragmentOffset_def offset_flags(5) [OF x(1)])
  then have "Flags p AND IP_MF \<noteq> 0"
    using offset_flags(1) [OF x(1)] by (simp add: IP_MF_def)
  then have "Flags p \<noteq> 0"
    by auto
  then have rfl: "Flags (received flash p) = Flags p"
    by (simp add: received_def)
  then show "GetFragmentOffset (received flash p) = ofs"
    using x(2) by (simp add: GetFragmentOffset_eq fl offset_flags(2) [OF x(1)])
  show "Flags (received flash p) AND IP_MF \<noteq> 0"
    using rfl \<open>Flags p AND IP_MF \<noteq> 0\<close> by simp
  show "Flags p < 0x10000"
    using offset_flags_bound [OF x(1)] by (simp add: fl)
qed

lemma sub_frame_last:
  fixes packet :: IPFrame and options :: "bytes option" and b :: bytes
  assumes "8 dvd ofs" "ofs < 65536" "0 < ofs"
  defines "p \<equiv> sub_frame packet 0 options b ofs"
  shows "GetFragmentOffset (received flash p) = ofs" "Flags (received flash p) AND IP_MF = 0" "Flags p < 0x10000"
proof -
  let ?x = "of_nat (ofs div 8) :: u32"
  note x = of_nat_offset [OF assms(1,2)]
  have fl: "Flags p = ?x"
    by (simp add: p_def sub_frame_def SetFragmentOffset_def)
  have "?x \<noteq> 0"
    using x(2) assms(3) by (metis mult_0 less_irrefl unat_0)
  then have rfl: "Flags (received flash p) = ?x"
    by (simp add: received_def fl)
  then show "GetFragmentOffset (received flash p) = ofs" "Flags (received flash p) AND IP_MF = 0"
    using x(2) by (simp_all add: GetFragmentOffset_eq offset_flags(3,4) [OF x(1)])
  have "?x < 0x10000"
    using x(1) by (rule order.strict_trans) simp
  then show "Flags p < 0x10000"
    by (simp add: fl)
qed


lemma frame_ok_sub_frame:
  assumes "frame_ok packet" "opt \<in> {None, Options packet}" "b \<noteq> []" "length b \<le> 1480"
    and "Flags (sub_frame packet fl opt b ofs) < 0x10000"
  shows "frame_ok (sub_frame packet fl opt b ofs)"
  using assms by (auto simp: frame_ok_def SizeOf_def segment_def IP_HLEN_def)

text \<open>The loop returns, and what it returns is a train with the bytes of the payload.\<close>

lemma subpackage_loop_train:
  assumes "frame_ok packet" "8 dvd mx" "0 < mx" "mx \<le> 1480"
    and "opt \<in> {None, Options packet}" "8 dvd ofs" "rest \<noteq> []" "ofs + length rest \<le> 65535" "0 < ofs \<or> mx < length rest"
  shows "\<exists>fs. subpackage_loop packet mx opt rest ofs = Some fs \<and>
    train (FragmentKey packet) ofs (map (received flash) fs) \<and> payloads (map (received flash) fs) = rest \<and>
    (\<forall>f\<in>set fs. frame_ok f \<and> length (segment (Payload f)) \<le> mx \<and> Options f \<in> {None, opt})"
  using assms(5-)
proof (induction "length rest" arbitrary: opt rest ofs rule: less_induct)
  case less
  have ofs: "ofs < 65536"
    using less.prems(3,4) by (cases rest) auto
  show ?case
  proof (cases "mx < length rest")
    case True
    let ?p = "sub_frame packet IP_MF opt (take mx rest) ofs"
    note mid = sub_frame_middle [OF less.prems(2) ofs]
    obtain fs where fs: "subpackage_loop packet mx None (drop mx rest) (ofs + mx) = Some fs"
        "train (FragmentKey packet) (ofs + mx) (map (received flash) fs)" "payloads (map (received flash) fs) = drop mx rest"
        "\<forall>f\<in>set fs. frame_ok f \<and> length (segment (Payload f)) \<le> mx \<and> Options f \<in> {None, None}"
      using less.hyps [of "drop mx rest" None "ofs + mx"] less.prems True assms(2,3) by auto
    have "subpackage_loop packet mx opt rest ofs = Some (?p # fs)"
      using True fs(1) by (subst subpackage_loop.simps) simp
    moreover have "train (FragmentKey packet) ofs (map (received flash) (?p # fs))"
      using fs(2) mid(1,2) True assms(3) less.prems(3)
      by (cases fs) (auto simp: taken_def is_fragment_def segment_def min_def)
    moreover have "payloads (map (received flash) (?p # fs)) = rest"
      using fs(3) by (simp add: payloads_def segment_def)
    moreover have "frame_ok ?p"
      using mid(3) assms less.prems True by (intro frame_ok_sub_frame) auto
    ultimately show ?thesis
      using fs(4) by (intro exI [of _ "?p # fs"]) (auto simp: segment_def)
  next
    case False
    let ?p = "sub_frame packet 0 opt rest ofs"
    have pos: "0 < ofs"
      using less.prems(5) False by simp
    note last = sub_frame_last [OF less.prems(2) ofs pos]
    have "subpackage_loop packet mx opt rest ofs = Some [?p]"
      using False less.prems(3) pos by (subst subpackage_loop.simps) simp
    moreover have "train (FragmentKey packet) ofs (map (received flash) [?p])"
      using last(1,2) less.prems(3) pos by (simp add: taken_def is_fragment_iff segment_def)
    moreover have "frame_ok ?p"
      using last(3) assms less.prems False by (intro frame_ok_sub_frame) auto
    ultimately show ?thesis
      using False by (intro exI [of _ "[?p]"]) (auto simp: segment_def payloads_def)
  qed
qed

lemma subpackage_loop_first:
  "mx < length rest \<Longrightarrow> subpackage_loop packet mx opt rest ofs = Some fs \<Longrightarrow>
    hd fs = sub_frame packet IP_MF opt (take mx rest) ofs"
  by (subst (asm) subpackage_loop.simps) (auto simp: bind_eq_Some_conv)

lemma fragment_max_bounds:
  assumes "frame_ok f"
  shows "8 dvd fragment_max f" "0 < fragment_max f" "fragment_max f + length (segment (Options f)) \<le> 1480"
proof -
  let ?n = "1480 - length (segment (Options f))"
  have "length (segment (Options f)) \<le> 40"
    using assms by (simp add: frame_ok_def)
  then have "fragment_max f = ?n div 8 * 8" "1440 \<le> ?n"
    by (simp_all add: fragment_max_def ITap_Mtu_def IP_HLEN_def)
  moreover have "1440 div 8 \<le> ?n div 8" "?n div 8 * 8 \<le> ?n"
    using \<open>1440 \<le> ?n\<close> by (simp_all add: div_le_mono del: div_le_dividend)
  ultimately show "8 dvd fragment_max f" "0 < fragment_max f" "fragment_max f + length (segment (Options f)) \<le> 1480"
    using \<open>length (segment (Options f)) \<le> 40\<close> by simp_all
qed


lemma assign_id_frame: "\<exists>i. fst (assign_id f aid) = f\<lparr>Id := i\<rparr> \<and> i \<noteq> 0"
proof (induction f aid rule: assign_id.induct)
  case (1 f aid)
  show ?case
  proof (cases "Id f = 0")
    case True
    obtain r aid' where n: "NewId aid = (r, aid')" by fastforce
    show ?thesis
      using 1 [OF True n [symmetric] refl] True by (subst assign_id.simps) (auto simp: n)
  next
    case False
    then show ?thesis
      by (subst assign_id.simps) (auto intro: exI [of _ "Id f"])
  qed
qed

text \<open>What is sent for an oversized packet, and what the receiver makes of it.\<close>

lemma Subpackages_train:
  assumes "frame_ok f" "Payload f = Some data" "Flags f AND IP_MF = 0" "fragment_max f < length data"
  obtains fs where "Subpackages f = Some fs" "train (FragmentKey f) 0 (map (received flash) fs)"
    "payloads (map (received flash) fs) = data" "\<forall>g\<in>set fs. frame_ok g \<and> SizeOf g \<le> 1500"
    "origin_new (hd (map (received flash) fs)) data = (received flash f)\<lparr>Flags := IP_DF\<rparr>"
proof -
  note mx = fragment_max_bounds [OF assms(1)]
  have "length data \<le> 65535"
    using assms(1,2) by (simp add: frame_ok_def SizeOf_def segment_def)
  then obtain fs where fs: "subpackage_loop f (fragment_max f) (Options f) data 0 = Some fs"
      "train (FragmentKey f) 0 (map (received flash) fs)" "payloads (map (received flash) fs) = data"
      "\<forall>g\<in>set fs. frame_ok g \<and> length (segment (Payload g)) \<le> fragment_max f \<and> Options g \<in> {None, Options f}"
    using subpackage_loop_train [of f "fragment_max f" "Options f" 0 data flash] mx assms(1,4) by (cases "data = []") auto
  have "hd fs = sub_frame f IP_MF (Options f) (take (fragment_max f) data) 0" "fs \<noteq> []"
    using subpackage_loop_first [OF assms(4) fs(1)] fs(2) by auto
  moreover have "IP_MF \<noteq> 0" "push_bit 13 (drop_bit 13 IP_DF) = IP_DF" "push_bit 13 (drop_bit 13 IP_MF) = IP_MF"
    by (simp_all add: IP_MF_def IP_DF_def)
  ultimately have "origin_new (hd (map (received flash) fs)) data = (received flash f)\<lparr>Flags := IP_DF\<rparr>"
    using assms(2) by (simp add: hd_map received_def origin_new_def sub_frame_def SetFragmentOffset_def)
  moreover have "SizeOf g \<le> 1500" if "g \<in> set fs" for g
  proof -
    have "length (segment (Options g)) \<le> length (segment (Options f))"
      using fs(4) that by (auto simp: segment_def)
    then show ?thesis
      using fs(4) that mx(3) by (fastforce simp: SizeOf_def IP_HLEN_def)
  qed
  moreover have "Subpackages f = Some fs"
    using assms fs(1) by (simp add: Subpackages_def)
  ultimately show thesis
    using that fs(2-4) by blast
qed

section \<open>Properties\<close>



definition example_large :: IPFrame where
  "example_large = example_frame\<lparr>Id := 0, Payload := Some (replicate 2000 0), Options := None\<rparr>"


lemma example_id: "assign_id example_large 7 = (example_large\<lparr>Id := 8\<rparr>, 8)"
proof -
  have "NewId 7 = (8, 8)"
    by (subst NewId.simps) simp
  then show ?thesis
    using assign_id.simps [of example_large 7] assign_id.simps [of "example_large\<lparr>Id := 8\<rparr>" 8]
    by (simp add: example_large_def)
qed


lemma update_new: "map_of t k = None \<Longrightarrow> AList.update k v t = t @ [(k, v)]"
  by (induction t) (auto split: if_splits)

lemma completed_single: "completed [p] = None"
  by (simp add: completed_def)

lemma insert_frame_empty: "insert_frame p [] = [p]"
  by (simp add: insert_frame_def)

text \<open>
  A pending datagram lives for one tick of the millisecond clock. The expiry time of a datagram is its
  first arrival plus one, in the unit of the clock, and the clock counts milliseconds; the periodic
  update therefore drops every datagram whose first fragment arrived at least one millisecond ago,
  although its constant is documented as one second.
\<close>

theorem fragments_expire_next_tick:
  assumes "taken k p" "map_of (IPV4_SUBPACKAGES s) k = None" "now + 1 \<le> later"
  shows "\<exists>s1. Input now p s = (True, [], s1) \<and> pending s1 k = [p] \<and> pending (snd (Update later s1)) k = [] \<and>
    1 \<le> fst (Update later s1)"
proof -
  let ?sub = "\<lparr>FinalizeTime = now + 1, Frames = [p]\<rparr>"
  have "AList.update k ?sub (IPV4_SUBPACKAGES s) = IPV4_SUBPACKAGES s @ [(k, ?sub)]"
    using assms(2) by (rule update_new)
  then have i: "Input now p s = (True, [], s\<lparr>IPV4_SUBPACKAGES := IPV4_SUBPACKAGES s @ [(k, ?sub)]\<rparr>)"
    using assms(1,2) by (auto simp: Input_def taken_def completed_single insert_frame_empty MAX_FINALIZE_TIME_def Let_def)
  have "map_of (filter P (IPV4_SUBPACKAGES s)) k = None" for P
    using assms(2) by (auto simp: map_of_eq_None_iff)
  then show ?thesis
    using i assms(2,3) by (simp add: pending_def Update_def expired_def map_add_def)
qed

theorem fragments_expire_next_tick_witness:
  "taken (FragmentKey (example_frame\<lparr>Flags := IP_MF\<rparr>)) (example_frame\<lparr>Flags := IP_MF\<rparr>) \<and>
   (\<exists>s1. Input 5000 (example_frame\<lparr>Flags := IP_MF\<rparr>) fragment_init = (True, [], s1) \<and>
      pending (snd (Update 5001 s1)) (FragmentKey (example_frame\<lparr>Flags := IP_MF\<rparr>)) = [])"
proof -
  have t: "taken (FragmentKey (example_frame\<lparr>Flags := IP_MF\<rparr>)) (example_frame\<lparr>Flags := IP_MF\<rparr>)"
    by (simp add: taken_def is_fragment_def IP_MF_def example_frame_def segment_def)
  then show ?thesis
    using fragments_expire_next_tick [OF t, of fragment_init 5000 5001] by (auto simp: fragment_init_def)
qed


end
