(* ===== verification/Aes.thy ===== *)
theory Aes
  imports Prelude
begin

text \<open>
  The AES-NI cipher of \<^verbatim>\<open>src/common/aesni\<close>: key expansion, block encryption with four interleaved blocks, the
  CFB and counter modes, and the class \<^verbatim>\<open>AES\<close>. A 128-bit register is the list of its sixteen bytes, lowest
  address first. The machine instructions are modelled as the processor manual describes them, over the
  substitution table \<open>sbox\<close>, which is an argument. The branch of the GCM routines that hashes an
  initialisation vector of another length than twelve bytes is never taken and left out.
\<close>

unbundle bit_operations_syntax

section \<open>Instructions\<close>

type_synonym m128 = bytes

definition mm_xor :: "m128 \<Rightarrow> m128 \<Rightarrow> m128" where
  "mm_xor a b = map2 (XOR) a b"

definition mm_slli :: "m128 \<Rightarrow> nat \<Rightarrow> m128" where
  "mm_slli v n = take 16 (replicate n 0 @ v)"

definition lane :: "m128 \<Rightarrow> nat \<Rightarrow> bytes" where
  "lane v i = take 4 (drop (4 * i) v)"

definition mm_shuffle :: "m128 \<Rightarrow> nat \<Rightarrow> m128" where
  "mm_shuffle v imm = lane v (imm mod 4) @ lane v (imm div 4 mod 4) @ lane v (imm div 16 mod 4) @ lane v (imm div 64 mod 4)"

definition RotWord :: "bytes \<Rightarrow> bytes" where
  "RotWord w = rotate1 w"

definition Rcon :: "u8 \<Rightarrow> bytes" where
  "Rcon rc = [rc, 0, 0, 0]"

definition aeskeygenassist :: "(u8 \<Rightarrow> u8) \<Rightarrow> m128 \<Rightarrow> u8 \<Rightarrow> m128" where
  "aeskeygenassist sbox v rc =
     (let x1 = map sbox (lane v 1); x3 = map sbox (lane v 3)
      in x1 @ mm_xor (RotWord x1) (Rcon rc) @ x3 @ mm_xor (RotWord x3) (Rcon rc))"

text \<open>The state is stored by columns: byte \<open>4 * c + r\<close> is row \<open>r\<close> of column \<open>c\<close>.\<close>

definition ShiftRows :: "m128 \<Rightarrow> m128" where
  "ShiftRows v = map (\<lambda>i. v ! ((5 * i) mod 16)) [0..<16]"

definition xtime :: "u8 \<Rightarrow> u8" where
  "xtime b = push_bit 1 b XOR (if bit b 7 then 0x1b else 0)"

definition MixColumn :: "bytes \<Rightarrow> bytes" where
  "MixColumn w =
     map (\<lambda>r. xtime (w ! r) XOR (xtime (w ! ((r + 1) mod 4)) XOR w ! ((r + 1) mod 4)) XOR
              w ! ((r + 2) mod 4) XOR w ! ((r + 3) mod 4)) [0..<4]"

definition aesenc :: "(u8 \<Rightarrow> u8) \<Rightarrow> m128 \<Rightarrow> m128 \<Rightarrow> m128" where
  "aesenc sbox v k = mm_xor (concat (map (\<lambda>c. MixColumn (lane (map sbox (ShiftRows v)) c)) [0..<4])) k"

definition aesenclast :: "(u8 \<Rightarrow> u8) \<Rightarrow> m128 \<Rightarrow> m128 \<Rightarrow> m128" where
  "aesenclast sbox v k = mm_xor (map sbox (ShiftRows v)) k"

section \<open>Key expansion\<close>

text \<open>The step that is unrolled for every round: the assist word of one register, mixed into the other.\<close>

definition expand_step :: "m128 \<Rightarrow> m128 \<Rightarrow> m128" where
  "expand_step key temp =
     (let key = mm_xor key (mm_slli key 4); key = mm_xor key (mm_slli key 8) in mm_xor key temp)"

definition aes128_expand :: "(u8 \<Rightarrow> u8) \<Rightarrow> m128 \<Rightarrow> u8 \<Rightarrow> m128" where
  "aes128_expand sbox key rc = expand_step key (mm_shuffle (aeskeygenassist sbox key rc) 0xFF)"

primrec aes128_rounds :: "(u8 \<Rightarrow> u8) \<Rightarrow> m128 \<Rightarrow> u8 list \<Rightarrow> m128 list" where
  "aes128_rounds sbox key [] = []"
| "aes128_rounds sbox key (rc # rcs) =
     (let key = aes128_expand sbox key rc in key # aes128_rounds sbox key rcs)"

definition aes128_cfb_key_expansion :: "(u8 \<Rightarrow> u8) \<Rightarrow> bytes \<Rightarrow> m128 list" where
  "aes128_cfb_key_expansion sbox key =
     take 16 key # aes128_rounds sbox (take 16 key) [0x01, 0x02, 0x04, 0x08, 0x10, 0x20, 0x40, 0x80, 0x1B, 0x36]"

text \<open>The counter mode has its own copy of the expansion, as every file of \<^verbatim>\<open>impl\<close>.\<close>

definition aes128_gcm_key_expansion :: "(u8 \<Rightarrow> u8) \<Rightarrow> bytes \<Rightarrow> m128 list" where
  "aes128_gcm_key_expansion sbox key =
     take 16 key # aes128_rounds sbox (take 16 key) [0x01, 0x02, 0x04, 0x08, 0x10, 0x20, 0x40, 0x80, 0x1B, 0x36]"

primrec aes256_rounds :: "(u8 \<Rightarrow> u8) \<Rightarrow> m128 \<Rightarrow> m128 \<Rightarrow> u8 list \<Rightarrow> m128 list" where
  "aes256_rounds sbox key1 key2 [] = []"
| "aes256_rounds sbox key1 key2 (rc # rcs) =
     (let key1 = expand_step key1 (mm_shuffle (aeskeygenassist sbox key2 rc) 0xFF)
      in key1 # (if rcs = [] then []
                 else let key2 = expand_step key2 (mm_shuffle (aeskeygenassist sbox key1 0x00) 0xAA)
                      in key2 # aes256_rounds sbox key1 key2 rcs))"

definition aes256_cfb_key_expansion :: "(u8 \<Rightarrow> u8) \<Rightarrow> bytes \<Rightarrow> m128 list" where
  "aes256_cfb_key_expansion sbox key =
     (let key1 = take 16 key; key2 = take 16 (drop 16 key)
      in key1 # key2 # aes256_rounds sbox key1 key2 [0x01, 0x02, 0x04, 0x08, 0x10, 0x20, 0x40])"

definition aes256_gcm_key_expansion :: "(u8 \<Rightarrow> u8) \<Rightarrow> bytes \<Rightarrow> m128 list" where
  "aes256_gcm_key_expansion sbox key =
     (let key1 = take 16 key; key2 = take 16 (drop 16 key)
      in key1 # key2 # aes256_rounds sbox key1 key2 [0x01, 0x02, 0x04, 0x08, 0x10, 0x20, 0x40])"

section \<open>Blocks\<close>

definition encrypt_block :: "(u8 \<Rightarrow> u8) \<Rightarrow> nat \<Rightarrow> m128 list \<Rightarrow> m128 \<Rightarrow> m128" where
  "encrypt_block sbox rounds round_key block =
     aesenclast sbox (foldl (aesenc sbox) (mm_xor block (round_key ! 0)) (map ((!) round_key) [1..<rounds]))
       (round_key ! rounds)"

definition aes128_encrypt_block :: "(u8 \<Rightarrow> u8) \<Rightarrow> m128 list \<Rightarrow> m128 \<Rightarrow> m128" where
  "aes128_encrypt_block sbox = encrypt_block sbox 10"

definition aes256_encrypt_block :: "(u8 \<Rightarrow> u8) \<Rightarrow> m128 list \<Rightarrow> m128 \<Rightarrow> m128" where
  "aes256_encrypt_block sbox = encrypt_block sbox 14"

type_synonym quad = "m128 \<times> m128 \<times> m128 \<times> m128"

fun quad_round :: "(m128 \<Rightarrow> m128 \<Rightarrow> m128) \<Rightarrow> quad \<Rightarrow> m128 \<Rightarrow> quad" where
  "quad_round f (b0, b1, b2, b3) k = (f b0 k, f b1 k, f b2 k, f b3 k)"

definition encrypt_blocks4 :: "(u8 \<Rightarrow> u8) \<Rightarrow> nat \<Rightarrow> m128 list \<Rightarrow> quad \<Rightarrow> quad" where
  "encrypt_blocks4 sbox rounds round_key b =
     quad_round (aesenclast sbox)
       (foldl (quad_round (aesenc sbox)) (quad_round mm_xor b (round_key ! 0)) (map ((!) round_key) [1..<rounds]))
       (round_key ! rounds)"

definition aes128_encrypt_blocks4 :: "(u8 \<Rightarrow> u8) \<Rightarrow> m128 list \<Rightarrow> quad \<Rightarrow> quad" where
  "aes128_encrypt_blocks4 sbox = encrypt_blocks4 sbox 10"

definition aes256_encrypt_blocks4 :: "(u8 \<Rightarrow> u8) \<Rightarrow> m128 list \<Rightarrow> quad \<Rightarrow> quad" where
  "aes256_encrypt_blocks4 sbox = encrypt_blocks4 sbox 14"

section \<open>Cipher feedback\<close>

text \<open>
  The loops over a buffer consume it from the front: full blocks first, then the remaining bytes. The
  block cipher \<open>E\<close> and its interleaved form \<open>E4\<close> are those of the key size.
\<close>

function cfb_encrypt :: "(m128 \<Rightarrow> m128) \<Rightarrow> m128 \<Rightarrow> bytes \<Rightarrow> bytes" where
  "cfb_encrypt E feedback plaintext =
     (if length plaintext < 16 then mm_xor plaintext (E feedback)
      else let cipher_block = mm_xor (take 16 plaintext) (E feedback)
           in cipher_block @ cfb_encrypt E cipher_block (drop 16 plaintext))"
  by pat_completeness auto

termination
  by (relation "measure (\<lambda>(E, feedback, plaintext). length plaintext)") auto

function cfb_decrypt_blocks :: "(m128 \<Rightarrow> m128) \<Rightarrow> m128 \<Rightarrow> bytes \<Rightarrow> bytes" where
  "cfb_decrypt_blocks E feedback ciphertext =
     (if length ciphertext < 16 then mm_xor ciphertext (E feedback)
      else let cipher_block = take 16 ciphertext
           in mm_xor cipher_block (E feedback) @ cfb_decrypt_blocks E cipher_block (drop 16 ciphertext))"
  by pat_completeness auto

termination
  by (relation "measure (\<lambda>(E, feedback, ciphertext). length ciphertext)") auto

definition block_at :: "bytes \<Rightarrow> nat \<Rightarrow> m128" where
  "block_at data i = take 16 (drop (16 * i) data)"

function cfb_decrypt :: "(quad \<Rightarrow> quad) \<Rightarrow> (m128 \<Rightarrow> m128) \<Rightarrow> m128 \<Rightarrow> bytes \<Rightarrow> bytes" where
  "cfb_decrypt E4 E feedback ciphertext =
     (if 4 \<le> length ciphertext div 16
      then let c0 = block_at ciphertext 0; c1 = block_at ciphertext 1;
               c2 = block_at ciphertext 2; c3 = block_at ciphertext 3;
               (b0, b1, b2, b3) = E4 (feedback, c0, c1, c2)
           in mm_xor c0 b0 @ mm_xor c1 b1 @ mm_xor c2 b2 @ mm_xor c3 b3 @ cfb_decrypt E4 E c3 (drop 64 ciphertext)
      else cfb_decrypt_blocks E feedback ciphertext)"
  by pat_completeness auto

termination
  by (relation "measure (\<lambda>(E4, E, feedback, ciphertext). length ciphertext)") auto

definition aes128_cfb_encrypt :: "(u8 \<Rightarrow> u8) \<Rightarrow> bytes \<Rightarrow> m128 list \<Rightarrow> bytes \<Rightarrow> bytes" where
  "aes128_cfb_encrypt sbox iv rk = cfb_encrypt (aes128_encrypt_block sbox rk) (take 16 iv)"

definition aes128_cfb_decrypt :: "(u8 \<Rightarrow> u8) \<Rightarrow> bytes \<Rightarrow> m128 list \<Rightarrow> bytes \<Rightarrow> bytes" where
  "aes128_cfb_decrypt sbox iv rk =
     cfb_decrypt (aes128_encrypt_blocks4 sbox rk) (aes128_encrypt_block sbox rk) (take 16 iv)"

definition aes256_cfb_encrypt :: "(u8 \<Rightarrow> u8) \<Rightarrow> bytes \<Rightarrow> m128 list \<Rightarrow> bytes \<Rightarrow> bytes" where
  "aes256_cfb_encrypt sbox iv rk = cfb_encrypt (aes256_encrypt_block sbox rk) (take 16 iv)"

definition aes256_cfb_decrypt :: "(u8 \<Rightarrow> u8) \<Rightarrow> bytes \<Rightarrow> m128 list \<Rightarrow> bytes \<Rightarrow> bytes" where
  "aes256_cfb_decrypt sbox iv rk =
     cfb_decrypt (aes256_encrypt_blocks4 sbox rk) (aes256_encrypt_block sbox rk) (take 16 iv)"

section \<open>Counter mode\<close>

text \<open>The counter is a 32-bit integer and wraps.\<close>

definition gctr_block :: "m128 \<Rightarrow> u32 \<Rightarrow> m128" where
  "gctr_block pre counter = map2 (OR) pre (mm_slli (be32 counter @ replicate 12 0) 12)"

function gctr_blocks :: "(m128 \<Rightarrow> m128) \<Rightarrow> m128 \<Rightarrow> u32 \<Rightarrow> bytes \<Rightarrow> bytes" where
  "gctr_blocks E pre counter input =
     (if length input < 16 then mm_xor input (E (gctr_block pre counter))
      else mm_xor (take 16 input) (E (gctr_block pre counter)) @ gctr_blocks E pre (counter + 1) (drop 16 input))"
  by pat_completeness auto

termination
  by (relation "measure (\<lambda>(E, pre, counter, input). length input)") auto

function gctr_loop :: "(quad \<Rightarrow> quad) \<Rightarrow> (m128 \<Rightarrow> m128) \<Rightarrow> m128 \<Rightarrow> u32 \<Rightarrow> bytes \<Rightarrow> bytes" where
  "gctr_loop E4 E pre counter input =
     (if 4 \<le> length input div 16
      then let (b0, b1, b2, b3) = E4 (gctr_block pre counter, gctr_block pre (counter + 1),
                                      gctr_block pre (counter + 2), gctr_block pre (counter + 3))
           in mm_xor (block_at input 0) b0 @ mm_xor (block_at input 1) b1 @ mm_xor (block_at input 2) b2 @
              mm_xor (block_at input 3) b3 @ gctr_loop E4 E pre (counter + 4) (drop 64 input)
      else gctr_blocks E pre counter input)"
  by pat_completeness auto

termination
  by (relation "measure (\<lambda>(E4, E, pre, counter, input). length input)") auto

definition gctr :: "(quad \<Rightarrow> quad) \<Rightarrow> (m128 \<Rightarrow> m128) \<Rightarrow> m128 \<Rightarrow> bytes \<Rightarrow> bytes" where
  "gctr E4 E icb input =
     gctr_loop E4 E (map2 (AND) icb (replicate 12 0xFF @ replicate 4 0)) (rd32 (drop 12 icb)) input"

text \<open>The first counter block for a vector of twelve bytes, and the block the data starts with.\<close>

definition gcm_icb :: "bytes \<Rightarrow> m128" where
  "gcm_icb iv = (let J0 = take 12 iv @ [0, 0, 0, 1] in take 12 J0 @ be32 (rd32 (drop 12 J0) + 1))"

definition aes128_gcm_encrypt :: "(u8 \<Rightarrow> u8) \<Rightarrow> bytes \<Rightarrow> m128 list \<Rightarrow> bytes \<Rightarrow> bytes" where
  "aes128_gcm_encrypt sbox iv rk =
     gctr (aes128_encrypt_blocks4 sbox rk) (aes128_encrypt_block sbox rk) (gcm_icb iv)"

definition aes128_gcm_decrypt :: "(u8 \<Rightarrow> u8) \<Rightarrow> bytes \<Rightarrow> m128 list \<Rightarrow> bytes \<Rightarrow> bytes" where
  "aes128_gcm_decrypt sbox iv rk =
     gctr (aes128_encrypt_blocks4 sbox rk) (aes128_encrypt_block sbox rk) (gcm_icb iv)"

definition aes256_gcm_encrypt :: "(u8 \<Rightarrow> u8) \<Rightarrow> bytes \<Rightarrow> m128 list \<Rightarrow> bytes \<Rightarrow> bytes" where
  "aes256_gcm_encrypt sbox iv rk =
     gctr (aes256_encrypt_blocks4 sbox rk) (aes256_encrypt_block sbox rk) (gcm_icb iv)"

definition aes256_gcm_decrypt :: "(u8 \<Rightarrow> u8) \<Rightarrow> bytes \<Rightarrow> m128 list \<Rightarrow> bytes \<Rightarrow> bytes" where
  "aes256_gcm_decrypt sbox iv rk =
     gctr (aes256_encrypt_blocks4 sbox rk) (aes256_encrypt_block sbox rk) (gcm_icb iv)"

section \<open>Class AES\<close>

record AES =
  aes_iv :: "bytes option"
  aes_i128m :: bool
  aes_bgctr :: bool
  aes_round_key :: "m128 list"

definition AES_new :: AES where
  "AES_new = \<lparr>aes_iv = None, aes_i128m = False, aes_bgctr = False, aes_round_key = []\<rparr>"

definition AES_IsAttached :: "AES \<Rightarrow> bool" where
  "AES_IsAttached a \<longleftrightarrow> aes_iv a \<noteq> None"

text \<open>The flag \<open>cpu\<close> tells whether the processor has the instructions.\<close>

definition AES_TryAttach :: "bool \<Rightarrow> (u8 \<Rightarrow> u8) \<Rightarrow> bytes \<Rightarrow> bytes \<Rightarrow> bool \<Rightarrow> bool \<Rightarrow> AES \<Rightarrow> bool \<times> AES" where
  "AES_TryAttach cpu sbox key iv i128m bgctr a =
     (if \<not> cpu then (False, a)
      else (True, \<lparr>aes_iv = Some iv, aes_i128m = i128m, aes_bgctr = bgctr,
                   aes_round_key =
                     (if i128m then if bgctr then aes128_gcm_key_expansion sbox key else aes128_cfb_key_expansion sbox key
                      else if bgctr then aes256_gcm_key_expansion sbox key else aes256_cfb_key_expansion sbox key)\<rparr>))"

text \<open>Support of a method: whether the key has 128 bits, whether it is a counter mode, and the OpenSSL name.\<close>

definition AES_Support :: "bool \<Rightarrow> string \<Rightarrow> (bool \<times> bool \<times> string) option" where
  "AES_Support cpu method =
     (if \<not> cpu then None
      else if method = ''simd-aes-128-cfb'' then Some (True, False, ''aes-128-cfb'')
      else if method = ''simd-aes-256-cfb'' then Some (False, False, ''aes-256-cfb'')
      else if method = ''simd-aes-128-gcm'' then Some (True, True, ''aes-128-gcm'')
      else if method = ''simd-aes-256-gcm'' then Some (False, True, ''aes-256-gcm'')
      else None)"

definition aes_encrypt_feedback :: "(u8 \<Rightarrow> u8) \<Rightarrow> m128 list \<Rightarrow> bytes \<Rightarrow> bytes \<Rightarrow> bool \<Rightarrow> bytes" where
  "aes_encrypt_feedback sbox rk plaintext iv i128m =
     (if i128m then aes128_cfb_encrypt sbox iv rk plaintext else aes256_cfb_encrypt sbox iv rk plaintext)"

definition aes_decrypt_feedback :: "(u8 \<Rightarrow> u8) \<Rightarrow> m128 list \<Rightarrow> bytes \<Rightarrow> bytes \<Rightarrow> bool \<Rightarrow> bytes" where
  "aes_decrypt_feedback sbox rk ciphertext iv i128m =
     (if i128m then aes128_cfb_decrypt sbox iv rk ciphertext else aes256_cfb_decrypt sbox iv rk ciphertext)"

definition aes_encrypt_gcounter :: "(u8 \<Rightarrow> u8) \<Rightarrow> m128 list \<Rightarrow> bytes \<Rightarrow> bytes \<Rightarrow> bool \<Rightarrow> bytes" where
  "aes_encrypt_gcounter sbox rk plaintext iv i128m =
     (if i128m then aes128_gcm_encrypt sbox iv rk plaintext else aes256_gcm_encrypt sbox iv rk plaintext)"

definition aes_decrypt_gcounter :: "(u8 \<Rightarrow> u8) \<Rightarrow> m128 list \<Rightarrow> bytes \<Rightarrow> bytes \<Rightarrow> bool \<Rightarrow> bytes" where
  "aes_decrypt_gcounter sbox rk ciphertext iv i128m =
     (if i128m then aes128_gcm_decrypt sbox iv rk ciphertext else aes256_gcm_decrypt sbox iv rk ciphertext)"

lemmas aes_dispatch = aes_encrypt_feedback_def aes_decrypt_feedback_def aes_encrypt_gcounter_def aes_decrypt_gcounter_def

definition AES_ProcessTo :: "(u8 \<Rightarrow> u8) \<Rightarrow> AES \<Rightarrow> bytes \<Rightarrow> bool \<Rightarrow> bytes option" where
  "AES_ProcessTo sbox a data enc =
     (if data = [] then None
      else let iv = the (aes_iv a); rk = aes_round_key a
           in Some (if aes_bgctr a
                    then if enc then aes_encrypt_gcounter sbox rk data iv (aes_i128m a)
                         else aes_decrypt_gcounter sbox rk data iv (aes_i128m a)
                    else if enc then aes_encrypt_feedback sbox rk data iv (aes_i128m a)
                    else aes_decrypt_feedback sbox rk data iv (aes_i128m a)))"

definition AES_Process :: "(u8 \<Rightarrow> u8) \<Rightarrow> AES \<Rightarrow> bytes \<Rightarrow> bool \<Rightarrow> bytes option" where
  "AES_Process sbox a data enc = (if data = [] then None else AES_ProcessTo sbox a data enc)"

section \<open>Blocks and modes\<close>

declare cfb_encrypt.simps [simp del] cfb_decrypt_blocks.simps [simp del] cfb_decrypt.simps [simp del]
  gctr_blocks.simps [simp del] gctr_loop.simps [simp del]

lemma length_mm_xor [simp]: "length (mm_xor a b) = min (length a) (length b)"
  by (simp add: mm_xor_def)

lemma mm_xor_Nil [simp]: "mm_xor [] b = []"
  by (simp add: mm_xor_def)

lemma mm_xor_cancel: "length a \<le> length k \<Longrightarrow> mm_xor (mm_xor a k) k = a"
  by (rule nth_equalityI) (simp_all add: mm_xor_def xor.assoc)

lemma mm_xor_append:
  "length a = length c \<Longrightarrow> mm_xor (a @ b) (c @ d) = mm_xor a c @ mm_xor b d"
  by (simp add: mm_xor_def)

lemma foldl_quad_round:
  "foldl (quad_round f) (a, b, c, d) ks = (foldl f a ks, foldl f b ks, foldl f c ks, foldl f d ks)"
  by (induction ks arbitrary: a b c d) simp_all

text \<open>Interleaving the rounds of four blocks does not change them.\<close>

lemma encrypt_blocks4_eq:
  "encrypt_blocks4 sbox rounds rk (a, b, c, d) =
     (encrypt_block sbox rounds rk a, encrypt_block sbox rounds rk b, encrypt_block sbox rounds rk c,
      encrypt_block sbox rounds rk d)"
  by (simp add: encrypt_blocks4_def encrypt_block_def foldl_quad_round)

text \<open>Counter mode as the standard states it: the data under a stream of encrypted counter blocks.\<close>

primrec ctr_stream :: "(m128 \<Rightarrow> m128) \<Rightarrow> m128 \<Rightarrow> u32 \<Rightarrow> nat \<Rightarrow> bytes" where
  "ctr_stream E pre counter 0 = []"
| "ctr_stream E pre counter (Suc n) = E (gctr_block pre counter) @ ctr_stream E pre (counter + 1) n"

text \<open>
  What the modes rely on: the block cipher returns whole registers, and its interleaved form computes
  four of them. The modes are proved correct for every such pair.
\<close>

locale block_cipher =
  fixes valid :: "m128 list \<Rightarrow> bool" and E :: "m128 list \<Rightarrow> m128 \<Rightarrow> m128" and E4 :: "m128 list \<Rightarrow> quad \<Rightarrow> quad"
  assumes length_E [simp]: "valid rk \<Longrightarrow> length (E rk b) = 16"
    and E4 [simp]: "E4 rk (a, b, c, d) = (E rk a, E rk b, E rk c, E rk d)"
begin

lemma cfb_encrypt_length:
  assumes [simp]: "valid rk"
  shows "length (cfb_encrypt (E rk) fb data) = length data"
proof (induction "length data" arbitrary: fb data rule: less_induct)
  case less
  show ?case
    using less [of "drop 16 data"] by (subst cfb_encrypt.simps) (auto simp: Let_def)
qed

lemma cfb_blocks_inverse:
  assumes [simp]: "valid rk"
  shows "cfb_decrypt_blocks (E rk) fb (cfb_encrypt (E rk) fb data) = data"
proof (induction "length data" arbitrary: fb data rule: less_induct)
  case less
  show ?case
  proof (cases "length data < 16")
    case True
    then show ?thesis
      by (simp add: mm_xor_cancel cfb_encrypt.simps cfb_decrypt_blocks.simps)
  next
    case False
    let ?c = "mm_xor (take 16 data) (E rk fb)"
    have "cfb_encrypt (E rk) fb data = ?c @ cfb_encrypt (E rk) ?c (drop 16 data)"
      using False by (subst cfb_encrypt.simps) (simp add: Let_def)
    moreover have "cfb_decrypt_blocks (E rk) ?c (cfb_encrypt (E rk) ?c (drop 16 data)) = drop 16 data"
      using False by (intro less) simp
    ultimately show ?thesis
      using False by (subst cfb_decrypt_blocks.simps) (simp add: Let_def mm_xor_cancel)
  qed
qed

lemma four_blocks:
  assumes "4 \<le> length data div 16"
  shows "data = block_at data 0 @ block_at data 1 @ block_at data 2 @ block_at data 3 @ drop 64 data"
    and "length (block_at data 0) = 16" "length (block_at data 1) = 16" "length (block_at data 2) = 16"
      "length (block_at data 3) = 16"
proof -
  have "take 16 (drop n data) @ drop (n + 16) data = drop n data" for n
    by (metis add.commute append_take_drop_id drop_drop)
  from this [of 0] this [of 16] this [of 32] this [of 48]
  show "data = block_at data 0 @ block_at data 1 @ block_at data 2 @ block_at data 3 @ drop 64 data"
    by (simp add: block_at_def)
qed (use assms in \<open>auto simp: block_at_def\<close>)

lemma cfb_blocks_step:
  "length c = 16 \<Longrightarrow> cfb_decrypt_blocks (E rk) fb (c @ r) = mm_xor c (E rk fb) @ cfb_decrypt_blocks (E rk) c r"
  by (subst cfb_decrypt_blocks.simps) (simp add: Let_def)

lemma cfb_decrypt_blocks_eq: "cfb_decrypt (E4 rk) (E rk) fb data = cfb_decrypt_blocks (E rk) fb data"
proof (induction "length data" arbitrary: fb data rule: less_induct)
  case less
  show ?case
  proof (cases "4 \<le> length data div 16")
    case True
    note b = four_blocks [OF True]
    have "cfb_decrypt (E4 rk) (E rk) (block_at data 3) (drop 64 data) = cfb_decrypt_blocks (E rk) (block_at data 3) (drop 64 data)"
      using True by (intro less) auto
    then have "cfb_decrypt (E4 rk) (E rk) fb data =
        cfb_decrypt_blocks (E rk) fb (block_at data 0 @ block_at data 1 @ block_at data 2 @ block_at data 3 @ drop 64 data)"
      using True b(2-) by (simp add: cfb_decrypt.simps [of "E4 rk"] Let_def cfb_blocks_step)
    then show ?thesis
      using b(1) by simp
  qed (simp add: cfb_decrypt.simps)
qed

lemma cfb_roundtrip: "valid rk \<Longrightarrow> cfb_decrypt (E4 rk) (E rk) fb (cfb_encrypt (E rk) fb data) = data"
  by (simp add: cfb_decrypt_blocks_eq cfb_blocks_inverse)

lemma gctr_blocks_step:
  "length c = 16 \<Longrightarrow> gctr_blocks (E rk) pre k (c @ r) = mm_xor c (E rk (gctr_block pre k)) @ gctr_blocks (E rk) pre (k + 1) r"
  by (subst gctr_blocks.simps) simp

lemma gctr_loop_blocks: "gctr_loop (E4 rk) (E rk) pre k data = gctr_blocks (E rk) pre k data"
proof (induction "length data" arbitrary: k data rule: less_induct)
  case less
  show ?case
  proof (cases "4 \<le> length data div 16")
    case True
    note b = four_blocks [OF True]
    have "gctr_loop (E4 rk) (E rk) pre (k + 4) (drop 64 data) = gctr_blocks (E rk) pre (k + 4) (drop 64 data)"
      using True by (intro less) auto
    then have "gctr_loop (E4 rk) (E rk) pre k data =
        gctr_blocks (E rk) pre k (block_at data 0 @ block_at data 1 @ block_at data 2 @ block_at data 3 @ drop 64 data)"
      using True b(2-) by (simp add: gctr_loop.simps [of "E4 rk"] Let_def gctr_blocks_step add.assoc)
    then show ?thesis
      using b(1) by simp
  qed (simp add: gctr_loop.simps)
qed

lemma gctr_stream:
  assumes [simp]: "valid rk"
  shows "length data \<le> 16 * n \<Longrightarrow> gctr_blocks (E rk) pre k data = mm_xor data (ctr_stream (E rk) pre k n)"
proof (induction n arbitrary: k data)
  case 0
  then show ?case
    by (simp add: gctr_blocks.simps)
next
  case (Suc n)
  show ?case
  proof (cases "length data < 16")
    case True
    then have "mm_xor data (E rk b @ r) = mm_xor data (E rk b)" for b r
      by (simp add: mm_xor_def zip_append2)
    then show ?thesis
      using True by (simp add: gctr_blocks.simps)
  next
    case False
    then have "mm_xor (take 16 data @ drop 16 data) (ctr_stream (E rk) pre k (Suc n)) =
        mm_xor (take 16 data) (E rk (gctr_block pre k)) @ mm_xor (drop 16 data) (ctr_stream (E rk) pre (k + 1) n)"
      by (subst ctr_stream.simps, subst mm_xor_append) simp_all
    then show ?thesis
      using False Suc.IH [of "drop 16 data" "k + 1"] Suc.prems by (simp add: gctr_blocks.simps [of "E rk" pre k data])
  qed
qed

lemma length_ctr_stream: "valid rk \<Longrightarrow> length (ctr_stream (E rk) pre k n) = 16 * n"
  by (induction n arbitrary: k) simp_all

lemma gctr_involution:
  assumes [simp]: "valid rk"
  shows "gctr_loop (E4 rk) (E rk) pre k (gctr_loop (E4 rk) (E rk) pre k data) = data" "length (gctr_loop (E4 rk) (E rk) pre k data) = length data"
proof -
  let ?s = "ctr_stream (E rk) pre k (length data)"
  have "gctr_blocks (E rk) pre k data = mm_xor data ?s" and "gctr_blocks (E rk) pre k (mm_xor data ?s) = mm_xor (mm_xor data ?s) ?s"
    by (auto intro!: gctr_stream simp: length_ctr_stream)
  then show "gctr_loop (E4 rk) (E rk) pre k (gctr_loop (E4 rk) (E rk) pre k data) = data" "length (gctr_loop (E4 rk) (E rk) pre k data) = length data"
    by (simp_all add: gctr_loop_blocks mm_xor_cancel length_ctr_stream)
qed

end

section \<open>Key schedule\<close>

text \<open>
  The key expansion of the AES standard (FIPS 197) over words of four bytes, for keys of \<open>nk\<close> words. The word
  after \<open>ws\<close> is computed from the previous one and the one \<open>nk\<close> words before.
\<close>

definition fips_rcon :: "nat \<Rightarrow> u8" where
  "fips_rcon j = (xtime ^^ (j - 1)) 1"

definition fips_word :: "(u8 \<Rightarrow> u8) \<Rightarrow> nat \<Rightarrow> bytes list \<Rightarrow> bytes" where
  "fips_word sbox nk ws =
     (let i = length ws; temp = ws ! (i - 1);
          temp = (if i mod nk = 0 then mm_xor (map sbox (RotWord temp)) (Rcon (fips_rcon (i div nk)))
                  else if nk > 6 \<and> i mod nk = 4 then map sbox temp
                  else temp)
      in mm_xor (ws ! (i - nk)) temp)"

primrec fips_expand :: "(u8 \<Rightarrow> u8) \<Rightarrow> nat \<Rightarrow> nat \<Rightarrow> bytes list \<Rightarrow> bytes list" where
  "fips_expand sbox nk 0 ws = ws"
| "fips_expand sbox nk (Suc n) ws = fips_expand sbox nk n (ws @ [fips_word sbox nk ws])"

definition fips_key_expansion :: "(u8 \<Rightarrow> u8) \<Rightarrow> nat \<Rightarrow> nat \<Rightarrow> bytes \<Rightarrow> bytes list" where
  "fips_key_expansion sbox nk nr key =
     fips_expand sbox nk (4 * (nr + 1) - nk) (map (\<lambda>i. take 4 (drop (4 * i) key)) [0..<nk])"

definition lanes :: "m128 \<Rightarrow> bytes list" where
  "lanes v = [lane v 0, lane v 1, lane v 2, lane v 3]"

definition reg :: "bytes \<Rightarrow> bytes \<Rightarrow> bytes \<Rightarrow> bytes \<Rightarrow> m128" where
  "reg a b c d = a @ b @ c @ d"

definition word4 :: "bytes \<Rightarrow> bool" where
  "word4 w \<longleftrightarrow> length w = 4"

lemma mm_xor_commute: "mm_xor a b = mm_xor b a"
  by (rule nth_equalityI) (auto simp: mm_xor_def xor.commute)

lemma mm_xor_assoc: "mm_xor (mm_xor a b) c = mm_xor a (mm_xor b c)"
  by (rule nth_equalityI) (auto simp: mm_xor_def xor.assoc)

lemma mm_xor_left_commute: "mm_xor a (mm_xor b c) = mm_xor b (mm_xor a c)"
  by (metis mm_xor_assoc mm_xor_commute)

lemmas mm_xor_ac = mm_xor_assoc mm_xor_commute mm_xor_left_commute

lemma mm_xor_zero [simp]: "length a \<le> n \<Longrightarrow> mm_xor a (replicate n 0) = a"
  by (rule nth_equalityI) (auto simp: mm_xor_def)

lemma lane_reg:
  "word4 a \<Longrightarrow> word4 b \<Longrightarrow> word4 c \<Longrightarrow> word4 d \<Longrightarrow>
   lane (reg a b c d) 0 = a \<and> lane (reg a b c d) 1 = b \<and> lane (reg a b c d) 2 = c \<and> lane (reg a b c d) 3 = d"
  by (simp add: lane_def reg_def word4_def)

lemma word4_xor: "word4 a \<Longrightarrow> word4 b \<Longrightarrow> word4 (mm_xor a b)"
  by (simp add: word4_def)

lemma word4_simps [simp]: "word4 w \<Longrightarrow> word4 (map sbox w)" "word4 w \<Longrightarrow> word4 (RotWord w)" "word4 (Rcon rc)"
  by (simp_all add: word4_def RotWord_def Rcon_def)

lemma RotWord_map: "RotWord (map sbox w) = map sbox (RotWord w)"
  by (simp add: RotWord_def rotate1_map)

lemma mm_slli_reg:
  "word4 a \<Longrightarrow> word4 b \<Longrightarrow> word4 c \<Longrightarrow> word4 d \<Longrightarrow>
   mm_slli (reg a b c d) 4 = reg (replicate 4 0) a b c \<and> mm_slli (reg a b c d) 8 = reg (replicate 4 0) (replicate 4 0) a b"
  by (simp add: mm_slli_def reg_def word4_def replicate_add [of 4 4, simplified])

lemma mm_xor_reg:
  "word4 a \<Longrightarrow> word4 b \<Longrightarrow> word4 c \<Longrightarrow> word4 a' \<Longrightarrow> word4 b' \<Longrightarrow> word4 c' \<Longrightarrow>
   mm_xor (reg a b c d) (reg a' b' c' d') = reg (mm_xor a a') (mm_xor b b') (mm_xor c c') (mm_xor d d')"
  by (simp add: reg_def word4_def mm_xor_append)

text \<open>One step mixes each word into those after it.\<close>

lemma expand_step_reg:
  assumes "word4 a" "word4 b" "word4 c" "word4 d" "word4 t"
  shows "expand_step (reg a b c d) (reg t t t t) =
     (let a' = mm_xor a t; b' = mm_xor b a'; c' = mm_xor c b' in reg a' b' c' (mm_xor d c'))"
proof -
  have z: "word4 (replicate 4 0)" and x: "mm_xor w (replicate 4 0) = w" if "word4 w" for w
    using that by (simp_all add: word4_def)
  have "mm_xor (reg a b c d) (mm_slli (reg a b c d) 4) = reg a (mm_xor b a) (mm_xor c b) (mm_xor d c)"
    using assms z [OF assms(1)] by (simp add: mm_slli_reg mm_xor_reg x)
  moreover have "mm_slli (reg a (mm_xor b a) (mm_xor c b) (mm_xor d c)) 8 = reg (replicate 4 0) (replicate 4 0) a (mm_xor b a)"
    using assms by (simp add: mm_slli_reg word4_xor)
  ultimately show ?thesis
    using assms z [OF assms(1)] by (simp add: expand_step_def Let_def mm_xor_reg word4_xor x mm_xor_ac)
qed

lemma assist_words:
  assumes "word4 a" "word4 b" "word4 c" "word4 d"
  shows "mm_shuffle (aeskeygenassist sbox (reg a b c d) rc) 0xFF =
      (let t = mm_xor (map sbox (RotWord d)) (Rcon rc) in reg t t t t)"
    and "mm_shuffle (aeskeygenassist sbox (reg a b c d) rc) 0xAA =
      (let t = map sbox d in reg t t t t)"
proof -
  have "aeskeygenassist sbox (reg a b c d) rc =
      reg (map sbox b) (mm_xor (RotWord (map sbox b)) (Rcon rc)) (map sbox d) (mm_xor (RotWord (map sbox d)) (Rcon rc))"
    using lane_reg [OF assms] by (simp add: aeskeygenassist_def Let_def reg_def)
  then show "mm_shuffle (aeskeygenassist sbox (reg a b c d) rc) 0xFF =
      (let t = mm_xor (map sbox (RotWord d)) (Rcon rc) in reg t t t t)"
    "mm_shuffle (aeskeygenassist sbox (reg a b c d) rc) 0xAA = (let t = map sbox d in reg t t t t)"
    using assms by (simp_all add: mm_shuffle_def lane_reg word4_xor RotWord_map reg_def [symmetric] Let_def)
qed

text \<open>The words of the schedule that the steps of the code produce.\<close>

definition next_words :: "bytes \<Rightarrow> bytes list \<Rightarrow> bytes list" where
  "next_words t ws =
     (let a = mm_xor (ws ! 0) t; b = mm_xor (ws ! 1) a; c = mm_xor (ws ! 2) b in [a, b, c, mm_xor (ws ! 3) c])"

lemma expand_step_words:
  assumes "word4 a" "word4 b" "word4 c" "word4 d" "word4 t"
  shows "\<exists>a' b' c' d'. next_words t [a, b, c, d] = [a', b', c', d'] \<and> word4 a' \<and> word4 b' \<and> word4 c' \<and> word4 d' \<and>
    expand_step (reg a b c d) (reg t t t t) = reg a' b' c' d'"
  using assms by (simp add: expand_step_reg next_words_def Let_def word4_xor)

text \<open>The next word from the previous one \<open>p\<close> and the one \<open>nk\<close> words before, \<open>q\<close>.\<close>

definition fips_temp :: "(u8 \<Rightarrow> u8) \<Rightarrow> nat \<Rightarrow> nat \<Rightarrow> bytes \<Rightarrow> bytes" where
  "fips_temp sbox nk i p =
     (if i mod nk = 0 then mm_xor (map sbox (RotWord p)) (Rcon (fips_rcon (i div nk)))
      else if nk > 6 \<and> i mod nk = 4 then map sbox p
      else p)"

lemma fips_word_append:
  "length mid + 2 = nk \<Longrightarrow> fips_word sbox nk (us @ q # mid @ [p]) = mm_xor q (fips_temp sbox nk (length us + nk) p)"
  by (auto simp: fips_word_def fips_temp_def Let_def nth_append)

lemma fips_expand_append:
  "length mid + 2 = nk \<Longrightarrow> fips_expand sbox nk (Suc n) (us @ q # mid @ [p]) =
     fips_expand sbox nk n ((us @ [q]) @ mid @ [p, mm_xor q (fips_temp sbox nk (length us + nk) p)])"
  by (simp add: fips_word_append)

lemma fips_four:
  fixes us q0 q1 q2 q3 mid p
  assumes "length mid + 5 = nk" "j = length us + nk" and t: "t = fips_temp sbox nk j p"
    and "j mod nk \<notin> {1, 2, 3}" "(j + 1) mod nk = j mod nk + 1" "(j + 2) mod nk = j mod nk + 2" "(j + 3) mod nk = j mod nk + 3"
    and "j mod nk = 0 \<or> j mod nk = 4"
  shows "fips_expand sbox nk (4 + n) (us @ q0 # q1 # q2 # q3 # mid @ [p]) =
    fips_expand sbox nk n ((us @ [q0, q1, q2, q3]) @ mid @ [p] @ next_words t [q0, q1, q2, q3])"
proof -
  have same: "fips_temp sbox nk (j + k) w = w" if "k \<in> {1, 2, 3}" for k w
    using that assms by (auto simp: fips_temp_def)
  have idx: "length us + 1 + nk = j + 1" "length us + 2 + nk = j + 2" "length us + 3 + nk = j + 3"
    using assms(2) by auto
  show ?thesis
    using fips_expand_append [of "q1 # q2 # q3 # mid" nk sbox "3 + n" us q0 p]
      fips_expand_append [of "q2 # q3 # mid @ [p]" nk sbox "2 + n" "us @ [q0]" q1 "mm_xor q0 t"]
      fips_expand_append [of "q3 # mid @ [p, mm_xor q0 t]" nk sbox "1 + n" "us @ [q0, q1]" q2 "mm_xor q1 (mm_xor q0 t)"]
      fips_expand_append [of "mid @ [p, mm_xor q0 t, mm_xor q1 (mm_xor q0 t)]" nk sbox n "us @ [q0, q1, q2]" q3
        "mm_xor q2 (mm_xor q1 (mm_xor q0 t))"]
      assms(1,2) t idx same [of 1] same [of 2] same [of 3]
    by (simp add: next_words_def Let_def eval_nat_numeral)
qed

lemma fips4:
  assumes "length us = 4 * j"
  shows "fips_expand sbox 4 (4 + n) (us @ [a, b, c, d]) =
    fips_expand sbox 4 n (us @ [a, b, c, d] @ next_words (mm_xor (map sbox (RotWord d)) (Rcon (fips_rcon (Suc j)))) [a, b, c, d])"
proof -
  let ?t = "mm_xor (map sbox (RotWord d)) (Rcon (fips_rcon (Suc j)))"
  let ?a = "mm_xor a ?t"
  let ?b = "mm_xor b ?a"
  let ?c = "mm_xor c ?b"
  have "(4 * j + 5) mod 4 = 1" "(4 * j + 6) mod 4 = 2" "(4 * j + 7) mod 4 = 3"
    by presburger+
  then have t: "fips_temp sbox 4 (4 * j + 4) d = ?t" "fips_temp sbox 4 (4 * j + 5) x = x" "fips_temp sbox 4 (4 * j + 6) x = x"
    "fips_temp sbox 4 (4 * j + 7) x = x" for x
    by (simp_all add: fips_temp_def add.commute)
  show ?thesis
    using fips_expand_append [of "[b, c]" 4 sbox "3 + n" us a d] fips_expand_append [of "[c, d]" 4 sbox "2 + n" "us @ [a]" b ?a]
      fips_expand_append [of "[d, ?a]" 4 sbox "1 + n" "us @ [a, b]" c ?b]
      fips_expand_append [of "[?a, ?b]" 4 sbox n "us @ [a, b, c]" d ?c] assms t
    by (simp add: next_words_def Let_def eval_nat_numeral)
qed

lemma fips8:
  assumes "length us = 8 * j"
  shows "fips_expand sbox 8 (4 + n) (us @ [a, b, c, d, e, f, g, h]) =
    fips_expand sbox 8 n (us @ [a, b, c, d, e, f, g, h] @
      next_words (mm_xor (map sbox (RotWord h)) (Rcon (fips_rcon (Suc j)))) [a, b, c, d])"
    and "fips_expand sbox 8 (4 + n) (us @ [a, b, c, d] @ [e, f, g, h, a', b', c', d']) =
    fips_expand sbox 8 n (us @ [a, b, c, d] @ [e, f, g, h, a', b', c', d'] @ next_words (map sbox d') [e, f, g, h])"
proof -
  have m: "(8 * j + 8) mod 8 = 0" "(8 * j + 9) mod 8 = 1" "(8 * j + 10) mod 8 = 2" "(8 * j + 11) mod 8 = 3"
    "(8 * j + 12) mod 8 = 4" "(8 * j + 13) mod 8 = 5" "(8 * j + 14) mod 8 = 6" "(8 * j + 15) mod 8 = 7" "(8 * j + 8) div 8 = Suc j"
    by presburger+
  show "fips_expand sbox 8 (4 + n) (us @ [a, b, c, d, e, f, g, h]) =
    fips_expand sbox 8 n (us @ [a, b, c, d, e, f, g, h] @
      next_words (mm_xor (map sbox (RotWord h)) (Rcon (fips_rcon (Suc j)))) [a, b, c, d])"
    using fips_four [of "[e, f, g]" 8 "8 * j + 8" us _ sbox h n a b c d] assms m by (simp add: fips_temp_def)
  show "fips_expand sbox 8 (4 + n) (us @ [a, b, c, d] @ [e, f, g, h, a', b', c', d']) =
    fips_expand sbox 8 n (us @ [a, b, c, d] @ [e, f, g, h, a', b', c', d'] @ next_words (map sbox d') [e, f, g, h])"
    using fips_four [of "[a', b', c']" 8 "8 * j + 12" "us @ [a, b, c, d]" _ sbox d' n e f g h] assms m by (simp add: fips_temp_def)
qed

lemma lanes_reg: "word4 a \<Longrightarrow> word4 b \<Longrightarrow> word4 c \<Longrightarrow> word4 d \<Longrightarrow> lanes (reg a b c d) = [a, b, c, d]"
  using lane_reg [of a b c d] by (simp add: lanes_def)

primrec rcons :: "nat \<Rightarrow> nat \<Rightarrow> u8 list" where
  "rcons j 0 = []"
| "rcons j (Suc n) = fips_rcon j # rcons (Suc j) n"

lemma aes128_rounds_words:
  assumes "length us = 4 * j" "word4 a" "word4 b" "word4 c" "word4 d"
  shows "fips_expand sbox 4 (4 * n) (us @ [a, b, c, d]) =
     us @ [a, b, c, d] @ concat (map lanes (aes128_rounds sbox (reg a b c d) (rcons (Suc j) n)))"
  using assms
proof (induction n arbitrary: us j a b c d)
  case (Suc n)
  let ?t = "mm_xor (map sbox (RotWord d)) (Rcon (fips_rcon (Suc j)))"
  have "word4 ?t"
    using Suc.prems by (simp add: word4_xor)
  then obtain a' b' c' d' where w: "next_words ?t [a, b, c, d] = [a', b', c', d']" "word4 a'" "word4 b'" "word4 c'" "word4 d'"
      and r: "expand_step (reg a b c d) (reg ?t ?t ?t ?t) = reg a' b' c' d'"
    using expand_step_words [OF Suc.prems(2-5)] by blast
  have "aes128_expand sbox (reg a b c d) (fips_rcon (Suc j)) = reg a' b' c' d'"
    using assist_words(1) [OF Suc.prems(2-5)] r by (simp add: aes128_expand_def Let_def)
  moreover have "fips_expand sbox 4 (4 * Suc n) (us @ [a, b, c, d]) = fips_expand sbox 4 (4 * n) ((us @ [a, b, c, d]) @ [a', b', c', d'])"
    using fips4 [OF Suc.prems(1), of sbox "4 * n"] w(1) by simp
  ultimately show ?case
    using Suc.IH [of "us @ [a, b, c, d]" "Suc j" a' b' c' d'] w Suc.prems(1) by (simp add: lanes_reg Let_def)
qed simp

lemma rcons_Nil: "rcons j n = [] \<longleftrightarrow> n = 0"
  by (cases n) simp_all

lemma aes256_rounds_words:
  assumes "length us = 8 * j" "word4 a" "word4 b" "word4 c" "word4 d" "word4 e" "word4 f" "word4 g" "word4 h"
  shows "fips_expand sbox 8 (8 * n + 4) (us @ [a, b, c, d, e, f, g, h]) =
     us @ [a, b, c, d, e, f, g, h] @
       concat (map lanes (aes256_rounds sbox (reg a b c d) (reg e f g h) (rcons (Suc j) (Suc n))))"
  using assms
proof (induction n arbitrary: us j a b c d e f g h)
  case 0
  let ?t = "mm_xor (map sbox (RotWord h)) (Rcon (fips_rcon (Suc j)))"
  obtain a' b' c' d' where w: "next_words ?t [a, b, c, d] = [a', b', c', d']" "word4 a'" "word4 b'" "word4 c'" "word4 d'"
      and r: "expand_step (reg a b c d) (reg ?t ?t ?t ?t) = reg a' b' c' d'"
    using expand_step_words [OF 0(2-5), of ?t] 0(9) by (auto simp: word4_xor)
  then show ?case
    using fips8(1) [OF 0(1), of sbox 0 a b c d e f g h] assist_words(1) [OF 0(6-9)] by (simp add: Let_def lanes_reg)
next
  case (Suc n)
  let ?t = "mm_xor (map sbox (RotWord h)) (Rcon (fips_rcon (Suc j)))"
  obtain a' b' c' d' where w: "next_words ?t [a, b, c, d] = [a', b', c', d']" "word4 a'" "word4 b'" "word4 c'" "word4 d'"
      and r: "expand_step (reg a b c d) (reg ?t ?t ?t ?t) = reg a' b' c' d'"
    using expand_step_words [OF Suc(3-6), of ?t] Suc(10) by (auto simp: word4_xor)
  let ?u = "map sbox d'"
  obtain e' f' g' h' where v: "next_words ?u [e, f, g, h] = [e', f', g', h']" "word4 e'" "word4 f'" "word4 g'" "word4 h'"
      and q: "expand_step (reg e f g h) (reg ?u ?u ?u ?u) = reg e' f' g' h'"
    using expand_step_words [OF Suc(7-10), of ?u] w(5) by auto
  have "8 * Suc n + 4 = 4 + (4 + (8 * n + 4))"
    by simp
  then have "fips_expand sbox 8 (8 * Suc n + 4) (us @ [a, b, c, d, e, f, g, h]) =
      fips_expand sbox 8 (8 * n + 4) ((us @ [a, b, c, d, e, f, g, h]) @ [a', b', c', d', e', f', g', h'])"
    using fips8(1) [OF Suc(2), of sbox "4 + (8 * n + 4)" a b c d e f g h] w(1)
      fips8(2) [OF Suc(2), of sbox "8 * n + 4" a b c d e f g h a' b' c' d'] v(1) by (simp del: fips_expand.simps)
  then show ?case
    using Suc.IH [of "us @ [a, b, c, d, e, f, g, h]" "Suc j" a' b' c' d' e' f' g' h'] Suc(2) w v r q
      assist_words(1) [OF Suc(7-10)] assist_words(2) [OF w(2-5)]
    by (simp add: Let_def lanes_reg rcons_Nil)
qed

section \<open>The class as a stream cipher\<close>

lemma length_expand_step: "length key = 16 \<Longrightarrow> length t = 16 \<Longrightarrow> length (expand_step key t) = 16"
  by (simp add: expand_step_def Let_def mm_slli_def)

lemma length_assist: "length v = 16 \<Longrightarrow> length (mm_shuffle (aeskeygenassist sbox v rc) imm) = 16"
proof -
  assume "length v = 16"
  then have "length (aeskeygenassist sbox v rc) = 16"
    by (simp add: aeskeygenassist_def Let_def lane_def RotWord_def Rcon_def)
  then have "length (lane (aeskeygenassist sbox v rc) (i mod 4)) = 4" for i
    using mod_less_divisor [of 4 i] unfolding lane_def by simp
  then show ?thesis
    by (simp add: mm_shuffle_def)
qed

lemma rounds128_lengths: "r \<in> set (aes128_rounds sbox key rcs) \<Longrightarrow> length key = 16 \<Longrightarrow> length r = 16"
  by (induction rcs arbitrary: key) (auto simp: Let_def aes128_expand_def length_expand_step length_assist)

lemma rounds128_count: "length (aes128_rounds sbox key rcs) = length rcs"
  by (induction rcs arbitrary: key) (simp_all add: Let_def)

lemma rounds256_lengths:
  "r \<in> set (aes256_rounds sbox key1 key2 rcs) \<Longrightarrow> length key1 = 16 \<Longrightarrow> length key2 = 16 \<Longrightarrow> length r = 16"
proof (induction rcs arbitrary: key1 key2)
  case (Cons rc rcs)
  let ?k1 = "expand_step key1 (mm_shuffle (aeskeygenassist sbox key2 rc) 0xFF)"
  let ?k2 = "expand_step key2 (mm_shuffle (aeskeygenassist sbox ?k1 0x00) 0xAA)"
  have "length ?k1 = 16" "length ?k2 = 16"
    using Cons.prems by (simp_all add: length_expand_step length_assist)
  moreover have "r = ?k1 \<or> r = ?k2 \<or> r \<in> set (aes256_rounds sbox ?k1 ?k2 rcs)"
    using Cons.prems(1) by (simp add: Let_def split: if_splits)
  ultimately show ?case
    using Cons.IH by blast
qed simp

lemma rounds256_count: "length (aes256_rounds sbox key1 key2 rcs) = 2 * length rcs - 1"
proof (induction rcs arbitrary: key1 key2)
  case (Cons rc rcs)
  have "Suc (2 * length rcs - Suc 0) = 2 * length rcs" if "rcs \<noteq> []"
    using that by (cases rcs) simp_all
  then show ?case
    by (subst aes256_rounds.simps(2)) (auto simp: Let_def Cons.IH simp del: aes256_rounds.simps(2))
qed simp

definition valid_keys :: "nat \<Rightarrow> m128 list \<Rightarrow> bool" where
  "valid_keys rounds rk \<longleftrightarrow> length rk = Suc rounds \<and> (\<forall>r\<in>set rk. length r = 16)"

lemma rounds128_valid: "length key = 16 \<Longrightarrow> n = length rcs \<Longrightarrow> valid_keys n (key # aes128_rounds sbox key rcs)"
  using rounds128_lengths [of _ sbox key rcs] by (auto simp: valid_keys_def rounds128_count)

lemma rounds256_valid:
  "length key1 = 16 \<Longrightarrow> length key2 = 16 \<Longrightarrow> rcs \<noteq> [] \<Longrightarrow> n = 2 * length rcs \<Longrightarrow>
   valid_keys n (key1 # key2 # aes256_rounds sbox key1 key2 rcs)"
  using rounds256_lengths [of _ sbox key1 key2 rcs] by (cases rcs) (auto simp: valid_keys_def rounds256_count simp del: aes256_rounds.simps)

text \<open>Both modes expand a key alike.\<close>

lemma gcm_key_expansion:
  "aes128_gcm_key_expansion sbox key = aes128_cfb_key_expansion sbox key"
  "aes256_gcm_key_expansion sbox key = aes256_cfb_key_expansion sbox key"
  by (simp_all add: aes128_gcm_key_expansion_def aes128_cfb_key_expansion_def aes256_gcm_key_expansion_def
      aes256_cfb_key_expansion_def del: aes128_rounds.simps aes256_rounds.simps)

lemma expansion_valid:
  "length key = 16 \<Longrightarrow> valid_keys 10 (aes128_cfb_key_expansion sbox key)"
  "length key = 32 \<Longrightarrow> valid_keys 14 (aes256_cfb_key_expansion sbox key)"
  unfolding aes128_cfb_key_expansion_def aes256_cfb_key_expansion_def Let_def
  by ((rule rounds128_valid | rule rounds256_valid); simp)+

lemma length_encrypt_block: "valid_keys rounds rk \<Longrightarrow> length (encrypt_block sbox rounds rk b) = 16"
  by (simp add: encrypt_block_def aesenclast_def ShiftRows_def valid_keys_def)

interpretation aes128: block_cipher "valid_keys 10" "aes128_encrypt_block sbox" "aes128_encrypt_blocks4 sbox" for sbox
  by unfold_locales (simp_all add: aes128_encrypt_block_def aes128_encrypt_blocks4_def encrypt_blocks4_eq length_encrypt_block)

interpretation aes256: block_cipher "valid_keys 14" "aes256_encrypt_block sbox" "aes256_encrypt_blocks4 sbox" for sbox
  by unfold_locales (simp_all add: aes256_encrypt_block_def aes256_encrypt_blocks4_def encrypt_blocks4_eq length_encrypt_block)

text \<open>The round keys of an attached object fit its key size.\<close>

definition aes_ok :: "AES \<Rightarrow> bool" where
  "aes_ok a \<longleftrightarrow> AES_IsAttached a \<and> valid_keys (if aes_i128m a then 10 else 14) (aes_round_key a)"

lemma AES_TryAttach_ok:
  "AES_TryAttach cpu sbox key iv i128m bgctr a0 = (True, a) \<Longrightarrow> length key = (if i128m then 16 else 32) \<Longrightarrow> aes_ok a"
  using expansion_valid by (auto simp: AES_TryAttach_def gcm_key_expansion aes_ok_def AES_IsAttached_def split: if_splits)

lemma AES_roundtrip:
  assumes "aes_ok a" "data \<noteq> []"
  shows "\<exists>c. AES_ProcessTo sbox a data True = Some c \<and> length c = length data \<and> AES_ProcessTo sbox a c False = Some data"
proof -
  have ne: "c \<noteq> []" if "length c = length data" for c :: bytes
    using assms(2) that by auto
  have v: "if aes_i128m a then valid_keys 10 (aes_round_key a) else valid_keys 14 (aes_round_key a)"
    using assms(1) by (simp add: aes_ok_def split: if_splits)
  note modes = aes128_gcm_encrypt_def aes128_gcm_decrypt_def aes256_gcm_encrypt_def aes256_gcm_decrypt_def
    aes128_cfb_encrypt_def aes128_cfb_decrypt_def aes256_cfb_encrypt_def aes256_cfb_decrypt_def gctr_def
  show ?thesis
    using v assms(2) ne
    by (cases "aes_bgctr a"; cases "aes_i128m a")
       (simp_all add: AES_ProcessTo_def aes_dispatch Let_def modes aes128.gctr_involution aes256.gctr_involution
         aes128.cfb_roundtrip aes256.cfb_roundtrip aes128.cfb_encrypt_length aes256.cfb_encrypt_length)
qed

lemma mm_xor_same_pad:
  "length a \<le> length s \<Longrightarrow> length b \<le> length s \<Longrightarrow> mm_xor (mm_xor a s) (mm_xor b s) = mm_xor a b"
  by (rule nth_equalityI) (auto simp: mm_xor_def xor.assoc xor.left_commute xor.commute [of "b ! _" "a ! _"])

section \<open>Properties\<close>

lemma key_words:
  "word4 (take 4 (drop n key)) \<longleftrightarrow> n + 4 \<le> length key"
  "take 16 key = reg (take 4 key) (take 4 (drop 4 key)) (take 4 (drop 8 key)) (take 4 (drop 12 key))"
  by (auto simp: word4_def reg_def take_add [of 4 12, simplified] take_add [of 4 8, simplified] take_add [of 4 4, simplified])

lemma upt_words: "[0..<4] = [0, 1, 2, 3 :: nat]" "[0..<8] = [0, 1, 2, 3, 4, 5, 6, 7 :: nat]"
  by code_simp+

lemma rcons_code:
  "rcons 1 10 = [0x01, 0x02, 0x04, 0x08, 0x10, 0x20, 0x40, 0x80, 0x1B, 0x36]"
  "rcons 1 7 = [0x01, 0x02, 0x04, 0x08, 0x10, 0x20, 0x40]"
  by code_simp+

lemma aes128_schedule:
  assumes "length key = 16"
  shows "concat (map lanes (aes128_cfb_key_expansion sbox key)) = fips_key_expansion sbox 4 10 key"
proof -
  have w: "word4 (take 4 key)" "word4 (take 4 (drop 4 key))" "word4 (take 4 (drop 8 key))" "word4 (take 4 (drop 12 key))"
    using assms by (simp_all add: word4_def)
  show ?thesis
    using aes128_rounds_words [of "[]" 0, OF _ w, of sbox 10] w rcons_code(1)
    by (simp add: fips_key_expansion_def aes128_cfb_key_expansion_def key_words(2) upt_words lanes_reg
        del: fips_expand.simps aes128_rounds.simps)
qed

lemma aes256_schedule:
  assumes "length key = 32"
  shows "concat (map lanes (aes256_cfb_key_expansion sbox key)) = fips_key_expansion sbox 8 14 key"
proof -
  have w: "word4 (take 4 key)" "word4 (take 4 (drop 4 key))" "word4 (take 4 (drop 8 key))" "word4 (take 4 (drop 12 key))"
    "word4 (take 4 (drop 16 key))" "word4 (take 4 (drop 20 key))" "word4 (take 4 (drop 24 key))" "word4 (take 4 (drop 28 key))"
    using assms by (simp_all add: word4_def)
  show ?thesis
    using aes256_rounds_words [of "[]" 0, OF _ w, of sbox 6] w rcons_code(2)
    by (simp add: fips_key_expansion_def aes256_cfb_key_expansion_def Let_def key_words(2) upt_words lanes_reg
        del: fips_expand.simps aes256_rounds.simps)
qed

text \<open>
  C25. The unrolled key expansions compute the key schedule of FIPS 197, whatever the substitution
  table: the words of the round keys are those of the standard, for keys of 128 and of 256 bits.
\<close>

theorem aes_key_schedule:
  assumes "length key = 16" "length key' = 32"
  shows "concat (map lanes (aes128_cfb_key_expansion sbox key)) = fips_key_expansion sbox 4 10 key \<and>
    concat (map lanes (aes256_cfb_key_expansion sbox key')) = fips_key_expansion sbox 8 14 key' \<and>
    aes128_gcm_key_expansion sbox key = aes128_cfb_key_expansion sbox key \<and>
    aes256_gcm_key_expansion sbox key' = aes256_cfb_key_expansion sbox key'"
  using aes128_schedule [OF assms(1)] aes256_schedule [OF assms(2)] gcm_key_expansion by blast

theorem aes_key_schedule_witness:
  "concat (map lanes (aes128_cfb_key_expansion (\<lambda>b. b + 1) (replicate 16 7))) =
     fips_key_expansion (\<lambda>b. b + 1) 4 10 (replicate 16 7)"
  using aes_key_schedule [of "replicate 16 7" "replicate 32 7" "\<lambda>b. b + 1"] by simp

text \<open>
  C26. An attached object decrypts what it encrypts, in the feedback and in the counter mode and with keys of
  either size: the interleaved decryption returns the data of any length from one byte, and the encrypted data
  has the same length.
\<close>

theorem aes_process_roundtrip:
  assumes "AES_TryAttach cpu sbox key iv i128m bgctr a0 = (True, a)" "length key = (if i128m then 16 else 32)" "data \<noteq> []"
  shows "\<exists>c. AES_Process sbox a data True = Some c \<and> length c = length data \<and> AES_Process sbox a c False = Some data"
proof -
  obtain c where c: "AES_ProcessTo sbox a data True = Some c" "length c = length data" "AES_ProcessTo sbox a c False = Some data"
    using AES_roundtrip [OF AES_TryAttach_ok [OF assms(1,2)] assms(3)] by blast
  then have "c \<noteq> []"
    using assms(3) by auto
  then show ?thesis
    using assms(3) c by (simp add: AES_Process_def)
qed

theorem aes_process_roundtrip_witness:
  "\<exists>a c. AES_TryAttach True (\<lambda>b. b + 1) (replicate 32 7) (replicate 16 9) False False AES_new = (True, a) \<and>
     AES_Process (\<lambda>b. b + 1) a (replicate 100 3) True = Some c \<and> AES_Process (\<lambda>b. b + 1) a c False = Some (replicate 100 3)"
proof -
  obtain a where a: "AES_TryAttach True (\<lambda>b. b + 1) (replicate 32 7) (replicate 16 9) False False AES_new = (True, a)"
    by (simp add: AES_TryAttach_def)
  moreover have "replicate 100 (3 :: u8) \<noteq> []"
    by simp
  ultimately show ?thesis
    using aes_process_roundtrip [OF a, of "replicate 100 3"] by auto
qed

text \<open>
  The counter mode reuses its key stream. Every call starts from the same vector and counter, so the
  exclusive or of any two encrypted messages is that of the messages, over their common length.
\<close>

theorem gcm_keystream_reuse:
  assumes "AES_TryAttach cpu sbox key iv i128m True a0 = (True, a)" "length key = (if i128m then 16 else 32)"
    and "AES_Process sbox a m1 True = Some c1" "AES_Process sbox a m2 True = Some c2"
  shows "mm_xor c1 c2 = mm_xor m1 m2"
proof -
  let ?n = "length m1 + length m2"
  let ?pre = "map2 (AND) (gcm_icb iv) (replicate 12 0xFF @ replicate 4 0)"
  let ?E = "(if i128m then aes128_encrypt_block else aes256_encrypt_block) sbox (aes_round_key a)"
  let ?s = "ctr_stream ?E ?pre (rd32 (drop 12 (gcm_icb iv))) ?n"
  have ok: "aes_ok a" and a: "aes_iv a = Some iv" "aes_bgctr a" "aes_i128m a = i128m"
    using AES_TryAttach_ok [OF assms(1,2)] assms(1) by (auto simp: AES_TryAttach_def split: if_splits)
  have v: "if i128m then valid_keys 10 (aes_round_key a) else valid_keys 14 (aes_round_key a)"
    using ok a by (simp add: aes_ok_def split: if_splits)
  have s: "AES_Process sbox a m True = Some (mm_xor m ?s)" if "m \<noteq> []" "length m \<le> ?n" for m
    using that v a
    by (simp add: AES_Process_def AES_ProcessTo_def aes_dispatch Let_def aes128_gcm_encrypt_def aes256_gcm_encrypt_def gctr_def
        aes128.gctr_loop_blocks aes256.gctr_loop_blocks aes128.gctr_stream aes256.gctr_stream)
  have "length ?s = 16 * ?n"
    using v by (simp add: aes128.length_ctr_stream aes256.length_ctr_stream)
  then have "mm_xor (mm_xor m1 ?s) (mm_xor m2 ?s) = mm_xor m1 m2"
    by (simp add: mm_xor_same_pad)
  then show ?thesis
    using s [of m1] s [of m2] assms(3,4) by (auto simp: AES_Process_def split: if_splits)
qed

theorem gcm_keystream_reuse_witness:
  "\<exists>a c1 c2. AES_TryAttach True (\<lambda>b. b + 1) (replicate 16 7) (replicate 12 9) True True AES_new = (True, a) \<and>
     AES_Process (\<lambda>b. b + 1) a [1, 2, 3] True = Some c1 \<and> AES_Process (\<lambda>b. b + 1) a [4, 5, 6] True = Some c2 \<and>
     mm_xor c1 c2 = mm_xor [1, 2, 3] [4, 5, 6]"
proof -
  obtain a where a: "AES_TryAttach True (\<lambda>b. b + 1) (replicate 16 7) (replicate 12 9) True True AES_new = (True, a)"
    by (simp add: AES_TryAttach_def)
  obtain c1 c2 where "AES_Process (\<lambda>b. b + 1) a [1, 2, 3] True = Some c1" "AES_Process (\<lambda>b. b + 1) a [4, 5, 6] True = Some c2"
    by (simp add: AES_Process_def AES_ProcessTo_def Let_def)
  then show ?thesis
    using gcm_keystream_reuse [OF a] a by auto
qed

end
