(* ===== verification/Md5.thy ===== *)
theory Md5
  imports Prelude
begin

text \<open>
  The MD5 of \<^verbatim>\<open>src/ppp/cryptography/md5.cpp\<close>, with its bit counter of two 32-bit words and the partial block it
  buffers, and the digests of \<^verbatim>\<open>src/ppp/cryptography/digest.cpp\<close> and \<^verbatim>\<open>src/ppp/cryptography/EVP.cpp\<close> that rest on it.
  The SHA family is OpenSSL code and an argument. Reading from a file stream is left out.
\<close>

unbundle bit_operations_syntax

section \<open>Compression\<close>

definition md5_F :: "u32 \<Rightarrow> u32 \<Rightarrow> u32 \<Rightarrow> u32" where
  "md5_F x y z = (x AND y) OR (NOT x AND z)"

definition md5_G :: "u32 \<Rightarrow> u32 \<Rightarrow> u32 \<Rightarrow> u32" where
  "md5_G x y z = (x AND z) OR (y AND NOT z)"

definition md5_H :: "u32 \<Rightarrow> u32 \<Rightarrow> u32 \<Rightarrow> u32" where
  "md5_H x y z = x XOR y XOR z"

definition md5_I :: "u32 \<Rightarrow> u32 \<Rightarrow> u32 \<Rightarrow> u32" where
  "md5_I x y z = y XOR (x OR NOT z)"

definition ROTATE_LEFT :: "u32 \<Rightarrow> nat \<Rightarrow> u32" where
  "ROTATE_LEFT x n = push_bit n x OR drop_bit (32 - n) x"

type_synonym md5_regs = "u32 \<times> u32 \<times> u32 \<times> u32"

text \<open>
  One of the macros \<^verbatim>\<open>FF\<close>, \<^verbatim>\<open>GG\<close>, \<^verbatim>\<open>HH\<close>, \<^verbatim>\<open>II\<close>. The calls name the four registers in rotation, so each step takes the
  registers rotated by one.
\<close>

fun md5_step :: "u32 list \<Rightarrow> md5_regs \<Rightarrow> (u32 \<Rightarrow> u32 \<Rightarrow> u32 \<Rightarrow> u32) \<times> nat \<times> nat \<times> u32 \<Rightarrow> md5_regs" where
  "md5_step x (a, b, c, d) (f, k, s, ac) = (d, ROTATE_LEFT (a + f b c d + x ! k + ac) s + b, b, c)"

definition md5_steps :: "((u32 \<Rightarrow> u32 \<Rightarrow> u32 \<Rightarrow> u32) \<times> nat \<times> nat \<times> u32) list" where
  "md5_steps = [
     (md5_F, 0, 7, 0xd76aa478), (md5_F, 1, 12, 0xe8c7b756), (md5_F, 2, 17, 0x242070db), (md5_F, 3, 22, 0xc1bdceee),
     (md5_F, 4, 7, 0xf57c0faf), (md5_F, 5, 12, 0x4787c62a), (md5_F, 6, 17, 0xa8304613), (md5_F, 7, 22, 0xfd469501),
     (md5_F, 8, 7, 0x698098d8), (md5_F, 9, 12, 0x8b44f7af), (md5_F, 10, 17, 0xffff5bb1), (md5_F, 11, 22, 0x895cd7be),
     (md5_F, 12, 7, 0x6b901122), (md5_F, 13, 12, 0xfd987193), (md5_F, 14, 17, 0xa679438e), (md5_F, 15, 22, 0x49b40821),
     (md5_G, 1, 5, 0xf61e2562), (md5_G, 6, 9, 0xc040b340), (md5_G, 11, 14, 0x265e5a51), (md5_G, 0, 20, 0xe9b6c7aa),
     (md5_G, 5, 5, 0xd62f105d), (md5_G, 10, 9, 0x2441453), (md5_G, 15, 14, 0xd8a1e681), (md5_G, 4, 20, 0xe7d3fbc8),
     (md5_G, 9, 5, 0x21e1cde6), (md5_G, 14, 9, 0xc33707d6), (md5_G, 3, 14, 0xf4d50d87), (md5_G, 8, 20, 0x455a14ed),
     (md5_G, 13, 5, 0xa9e3e905), (md5_G, 2, 9, 0xfcefa3f8), (md5_G, 7, 14, 0x676f02d9), (md5_G, 12, 20, 0x8d2a4c8a),
     (md5_H, 5, 4, 0xfffa3942), (md5_H, 8, 11, 0x8771f681), (md5_H, 11, 16, 0x6d9d6122), (md5_H, 14, 23, 0xfde5380c),
     (md5_H, 1, 4, 0xa4beea44), (md5_H, 4, 11, 0x4bdecfa9), (md5_H, 7, 16, 0xf6bb4b60), (md5_H, 10, 23, 0xbebfbc70),
     (md5_H, 13, 4, 0x289b7ec6), (md5_H, 0, 11, 0xeaa127fa), (md5_H, 3, 16, 0xd4ef3085), (md5_H, 6, 23, 0x4881d05),
     (md5_H, 9, 4, 0xd9d4d039), (md5_H, 12, 11, 0xe6db99e5), (md5_H, 15, 16, 0x1fa27cf8), (md5_H, 2, 23, 0xc4ac5665),
     (md5_I, 0, 6, 0xf4292244), (md5_I, 7, 10, 0x432aff97), (md5_I, 14, 15, 0xab9423a7), (md5_I, 5, 21, 0xfc93a039),
     (md5_I, 12, 6, 0x655b59c3), (md5_I, 3, 10, 0x8f0ccc92), (md5_I, 10, 15, 0xffeff47d), (md5_I, 1, 21, 0x85845dd1),
     (md5_I, 8, 6, 0x6fa87e4f), (md5_I, 15, 10, 0xfe2ce6e0), (md5_I, 6, 15, 0xa3014314), (md5_I, 13, 21, 0x4e0811a1),
     (md5_I, 4, 6, 0xf7537e82), (md5_I, 11, 10, 0xbd3af235), (md5_I, 2, 15, 0x2ad7d2bb), (md5_I, 9, 21, 0xeb86d391)]"

fun md5_decode :: "bytes \<Rightarrow> u32 list" where
  "md5_decode (a # b # c # d # r) =
     (ucast a OR push_bit 8 (ucast b) OR push_bit 16 (ucast c) OR push_bit 24 (ucast d)) # md5_decode r"
| "md5_decode _ = []"

definition md5_encode :: "u32 list \<Rightarrow> bytes" where
  "md5_encode ws = concat (map (\<lambda>w. [byte_at 0 w, byte_at 1 w, byte_at 2 w, byte_at 3 w]) ws)"

definition md5_transform :: "md5_regs \<Rightarrow> bytes \<Rightarrow> md5_regs" where
  "md5_transform st block =
     (let x = md5_decode block; (a0, b0, c0, d0) = st; (a, b, c, d) = foldl (md5_step x) st md5_steps
      in (a0 + a, b0 + b, c0 + c, d0 + d))"

section \<open>The context\<close>

record MD5 =
  md5_state :: md5_regs
  md5_count0 :: u32
  md5_count1 :: u32
  md5_buffer :: bytes
  md5_digest :: bytes
  md5_finished :: bool

definition md5_init :: md5_regs where
  "md5_init = (0x67452301, 0xefcdab89, 0x98badcfe, 0x10325476)"

definition MD5_reset :: "MD5 \<Rightarrow> MD5" where
  "MD5_reset m = m\<lparr>md5_finished := False, md5_count0 := 0, md5_count1 := 0, md5_state := md5_init\<rparr>"

text \<open>The constructor; the arrays start with whatever the memory holds, here given by \<open>buffer\<close> and \<open>digest\<close>.\<close>

definition MD5_new :: "bytes \<Rightarrow> bytes \<Rightarrow> MD5" where
  "MD5_new buffer digest =
     MD5_reset \<lparr>md5_state = md5_init, md5_count0 = 0, md5_count1 = 0, md5_buffer = buffer, md5_digest = digest, md5_finished = False\<rparr>"

text \<open>The loop over whole blocks of the input; returns the state and the remaining bytes.\<close>

function md5_blocks :: "md5_regs \<Rightarrow> bytes \<Rightarrow> md5_regs \<times> bytes" where
  "md5_blocks st input =
     (if 64 \<le> length input then md5_blocks (md5_transform st (take 64 input)) (drop 64 input) else (st, input))"
  by pat_completeness auto

termination
  by (relation "measure (\<lambda>(st, input). length input)") auto

definition md5_index :: "MD5 \<Rightarrow> nat" where
  "md5_index m = unat (drop_bit 3 (md5_count0 m) AND 0x3f)"

definition md5_put :: "bytes \<Rightarrow> nat \<Rightarrow> bytes \<Rightarrow> bytes" where
  "md5_put buffer index data = take index buffer @ data @ drop (index + length data) buffer"

definition MD5_update :: "bytes \<Rightarrow> MD5 \<Rightarrow> MD5" where
  "MD5_update input m =
     (let index = md5_index m;
          bits = push_bit 3 (of_nat (length input));
          count0 = md5_count0 m + bits;
          count1 = md5_count1 m + (if count0 < bits then 1 else 0) + drop_bit 29 (of_nat (length input));
          m = m\<lparr>md5_finished := False, md5_count0 := count0, md5_count1 := count1\<rparr>;
          partLen = 64 - index
      in if partLen \<le> length input
         then let buffer = md5_put (md5_buffer m) index (take partLen input);
                  (st, rest) = md5_blocks (md5_transform (md5_state m) buffer) (drop partLen input)
              in m\<lparr>md5_state := st, md5_buffer := md5_put buffer 0 rest\<rparr>
         else m\<lparr>md5_buffer := md5_put (md5_buffer m) index input\<rparr>)"

definition MD5_PADDING :: bytes where
  "MD5_PADDING = 0x80 # replicate 63 0"

definition MD5_final :: "MD5 \<Rightarrow> MD5" where
  "MD5_final m =
     (let bits = md5_encode [md5_count0 m, md5_count1 m];
          index = md5_index m;
          padLen = (if index < 56 then 56 - index else 120 - index);
          m1 = MD5_update bits (MD5_update (take padLen MD5_PADDING) m);
          (a, b, c, d) = md5_state m1
      in m1\<lparr>md5_digest := md5_encode [a, b, c, d], md5_state := md5_state m,
            md5_count0 := md5_count0 m, md5_count1 := md5_count1 m\<rparr>)"

definition MD5_digest :: "MD5 \<Rightarrow> bytes \<times> MD5" where
  "MD5_digest m =
     (if md5_finished m then (md5_digest m, m)
      else let m = MD5_final (m\<lparr>md5_finished := True\<rparr>) in (md5_digest m, m))"

section \<open>Digests\<close>

definition MD5_HEX :: string where
  "MD5_HEX = ''0123456789abcdef''"

definition hex_upper :: "bool \<Rightarrow> char \<Rightarrow> char" where
  "hex_upper up c = (let n = of_char c :: nat in if up \<and> 97 \<le> n \<and> n \<le> 122 then char_of (n - 32) else c)"

definition bytesToHexString :: "bytes \<Rightarrow> bool \<Rightarrow> string" where
  "bytesToHexString input up =
     concat (map (\<lambda>t. [hex_upper up (MD5_HEX ! (unat t div 16)), hex_upper up (MD5_HEX ! (unat t mod 16))]) input)"

definition MD5_toString :: "MD5 \<Rightarrow> bool \<Rightarrow> string" where
  "MD5_toString m up = bytesToHexString (fst (MD5_digest m)) up"

text \<open>
  The digest of a text in hexadecimal, and in raw bytes with the capacity of the output buffer; the arrays of the
  context hold arbitrary bytes before.
\<close>

definition MD5_of :: "bytes \<Rightarrow> bytes \<Rightarrow> bytes \<Rightarrow> MD5" where
  "MD5_of buffer digest str = MD5_update str (MD5_new buffer digest)"

definition ComputeMD5 :: "bytes \<Rightarrow> bytes \<Rightarrow> bytes \<Rightarrow> bool \<Rightarrow> string" where
  "ComputeMD5 buffer digest str up = MD5_toString (MD5_of buffer digest str) up"

definition ComputeMD5_raw :: "bytes \<Rightarrow> bytes \<Rightarrow> bytes \<Rightarrow> int \<Rightarrow> bytes option" where
  "ComputeMD5_raw buffer digest str md5len =
     (if md5len < 1 then None
      else Some (take (nat (if md5len > 16 then 16 else md5len)) (fst (MD5_digest (MD5_of buffer digest str)))))"

datatype digest_algorithm = Digest_md5 | Digest_sha1 | Digest_sha224 | Digest_sha256 | Digest_sha384 | Digest_sha512

text \<open>
  \<^verbatim>\<open>hash_hmac\<close>: hexadecimal text or raw bytes. The raw MD5 branch passes the uninitialised local \<^verbatim>\<open>md5len\<close> as
  the capacity; its value is the argument \<open>md5len\<close>.
\<close>

definition hash_hmac_hex :: "(digest_algorithm \<Rightarrow> bytes \<Rightarrow> bytes) \<Rightarrow> bytes \<Rightarrow> bytes \<Rightarrow> digest_algorithm \<Rightarrow> bool \<Rightarrow> bytes \<Rightarrow> string" where
  "hash_hmac_hex sha buffer digest alg up data =
     (if alg = Digest_md5 then ComputeMD5 buffer digest data up else bytesToHexString (sha alg data) up)"

definition hash_hmac_raw :: "(digest_algorithm \<Rightarrow> bytes \<Rightarrow> bytes) \<Rightarrow> bytes \<Rightarrow> bytes \<Rightarrow> int \<Rightarrow> digest_algorithm \<Rightarrow> bytes \<Rightarrow> bytes option" where
  "hash_hmac_raw sha buffer digest md5len alg data =
     (if alg = Digest_md5 then ComputeMD5_raw buffer digest data md5len else Some (sha alg data))"

section \<open>MD5 of the standard\<close>

text \<open>
  The digest of a message (RFC 1321): the padded message, its length in bits appended, is compressed block by block.
\<close>

definition md5_pad :: "bytes \<Rightarrow> bytes" where
  "md5_pad msg =
     (let index = length msg mod 64; bits = of_nat (8 * length msg) :: u64
      in msg @ take (if index < 56 then 56 - index else 120 - index) MD5_PADDING @
         md5_encode [ucast bits, ucast (drop_bit 32 bits)])"

definition md5_spec :: "bytes \<Rightarrow> bytes" where
  "md5_spec msg = (let (a, b, c, d) = fst (md5_blocks md5_init (md5_pad msg)) in md5_encode [a, b, c, d])"

declare md5_blocks.simps [simp del]

lemma md5_blocks_short [simp]: "length input < 64 \<Longrightarrow> md5_blocks st input = (st, input)"
  by (simp add: md5_blocks.simps)

lemma md5_blocks_cons: "length b = 64 \<Longrightarrow> md5_blocks st (b @ r) = md5_blocks (md5_transform st b) r"
  by (simp add: md5_blocks.simps [of st "b @ r"])

lemma md5_blocks_append: "md5_blocks st (a @ b) = md5_blocks (fst (md5_blocks st a)) (snd (md5_blocks st a) @ b)"
proof (induction st a rule: md5_blocks.induct)
  case (1 st a)
  show ?case
  proof (cases "64 \<le> length a")
    case True
    have "a @ b = take 64 a @ drop 64 a @ b"
      by simp
    then have "md5_blocks st (a @ b) = md5_blocks (md5_transform st (take 64 a)) (drop 64 a @ b)"
      using True md5_blocks_cons [of "take 64 a" st "drop 64 a @ b"] by (simp only: length_take min.absorb2)
    then show ?thesis
      using True 1 by (simp add: md5_blocks.simps [of st a])
  qed simp
qed

lemma md5_blocks_rest:
  "length (snd (md5_blocks st a)) = length a mod 64 \<and> snd (md5_blocks st a) = drop (length a - length a mod 64) a"
proof (induction st a rule: md5_blocks.induct)
  case (1 st a)
  show ?case
  proof (cases "64 \<le> length a")
    case True
    moreover have "length a mod 64 = (length a - 64) mod 64"
      using True by (simp add: le_mod_geq)
    moreover have "(length a - 64) mod 64 \<le> length a - 64"
      by (rule mod_less_eq_dividend)
    ultimately show ?thesis
      using 1 by (simp add: md5_blocks.simps [of st a])
  qed simp
qed

section \<open>Incremental use\<close>

text \<open>The context after the message \<open>msg\<close>: the counters hold its length in bits and the buffer its last bytes.\<close>

definition md5_inv :: "bytes \<Rightarrow> MD5 \<Rightarrow> bool" where
  "md5_inv msg m \<longleftrightarrow>
     length (md5_buffer m) = 64 \<and> md5_count0 m = of_nat (8 * length msg) \<and>
     md5_count1 m = of_nat (8 * length msg div 2 ^ 32) \<and>
     md5_blocks md5_init msg = (md5_state m, take (length msg mod 64) (md5_buffer m))"

lemma unat_index: "unat (drop_bit 3 w AND 0x3f) = unat (w :: u32) div 8 mod 64"
proof -
  have m: "(0x3f :: u32) = mask 6"
    by (simp add: mask_eq_exp_minus_1)
  show ?thesis
    unfolding m take_bit_eq_mask [symmetric] unsigned_take_bit_eq take_bit_eq_mod
    by (simp add: drop_bit_eq_div unat_div_distrib unat_mod_distrib)
qed

lemma md5_index_eq: "md5_inv msg m \<Longrightarrow> md5_index m = length msg mod 64"
proof -
  assume "md5_inv msg m"
  then have "md5_index m = 8 * length msg mod 2 ^ 32 div 8 mod 64"
    unfolding md5_index_def md5_inv_def unat_index by (simp only: unat_of_nat take_bit_eq_mod) simp
  also have "8 * length msg mod 2 ^ 32 div 8 mod 64 = length msg mod 64"
    by (simp add: mod_mult_mult1 [of 8 _ 536870912, simplified] mod_mod_cancel)
  finally show ?thesis .
qed

lemma count0_carry:
  fixes A B :: nat
  shows "(of_nat A + of_nat B < (of_nat B :: u32)) \<longleftrightarrow> 2 ^ 32 \<le> A mod 2 ^ 32 + B mod 2 ^ 32"
proof -
  let ?a = "A mod 2 ^ 32" and ?b = "B mod 2 ^ 32"
  have "?a < 2 ^ 32" "?b < 2 ^ 32"
    by simp_all
  then have "(?a + ?b) mod 2 ^ 32 < ?b \<longleftrightarrow> 2 ^ 32 \<le> ?a + ?b"
    by (cases "?a + ?b < 2 ^ 32") (simp_all add: le_mod_geq)
  then show ?thesis
    by (simp add: word_less_nat_alt unat_word_ariths unat_of_nat take_bit_eq_mod mod_add_eq)
qed

lemma count_update:
  fixes L n :: nat
  assumes "n < 2 ^ 32"
  shows "of_nat (8 * L) + push_bit 3 (of_nat n) = (of_nat (8 * (L + n)) :: u32)"
    and "of_nat (8 * L div 2 ^ 32) + (if of_nat (8 * L) + push_bit 3 (of_nat n) < (push_bit 3 (of_nat n) :: u32) then 1 else 0) +
         drop_bit 29 (of_nat n) = (of_nat (8 * (L + n) div 2 ^ 32) :: u32)"
proof -
  have bits: "push_bit 3 (of_nat n) = (of_nat (8 * n) :: u32)"
    by (simp add: push_bit_eq_mult)
  then show "of_nat (8 * L) + push_bit 3 (of_nat n) = (of_nat (8 * (L + n)) :: u32)"
    by (simp add: algebra_simps)
  have "unat (drop_bit 29 (of_nat n :: u32)) = n div 2 ^ 29"
    using assms by (simp add: drop_bit_eq_div unat_div_distrib unat_of_nat take_bit_eq_mod)
  moreover have "n div 2 ^ 29 < 2 ^ 32"
    using assms by (simp add: less_mult_imp_div_less)
  ultimately have high: "drop_bit 29 (of_nat n) = (of_nat (8 * n div 2 ^ 32) :: u32)"
    by (simp add: word_unat_eq_iff unat_of_nat take_bit_eq_mod)
  have "8 * (L + n) div 2 ^ 32 = 8 * L div 2 ^ 32 + 8 * n div 2 ^ 32 + (8 * L mod 2 ^ 32 + 8 * n mod 2 ^ 32) div 2 ^ 32"
    unfolding distrib_left by (rule div_add1_eq)
  moreover have "(8 * L mod 2 ^ 32 + 8 * n mod 2 ^ 32) div 2 ^ 32 = (if 2 ^ 32 \<le> 8 * L mod 2 ^ 32 + 8 * n mod 2 ^ 32 then 1 else 0)"
    using mod_less_divisor [of "2 ^ 32" "8 * L"] mod_less_divisor [of "2 ^ 32" "8 * n"]
    by (auto simp: div_if)
  ultimately show "of_nat (8 * L div 2 ^ 32) + (if of_nat (8 * L) + push_bit 3 (of_nat n) < (push_bit 3 (of_nat n) :: u32) then 1 else 0) +
         drop_bit 29 (of_nat n) = (of_nat (8 * (L + n) div 2 ^ 32) :: u32)"
    unfolding bits high count0_carry by simp
qed

lemma rest_length: "64 - k mod 64 \<le> n \<Longrightarrow> (n - (64 - k mod 64)) mod 64 = (k + n) mod (64 :: nat)"
proof -
  assume "64 - k mod 64 \<le> n"
  then have "(n - (64 - k mod 64)) mod 64 = (k mod 64 + n) mod 64"
    by (subst le_mod_geq [of 64 "k mod 64 + n"]) (auto simp: algebra_simps)
  then show ?thesis
    by (simp add: mod_add_left_eq)
qed

text \<open>The two branches of an update, for a context whose buffer starts with \<open>r\<close>.\<close>

lemma MD5_update_blocks:
  assumes "length (md5_buffer m) = 64" "md5_index m = k" "k < 64" "64 - k \<le> length input"
    and "md5_blocks (md5_transform (md5_state m) (take k (md5_buffer m) @ take (64 - k) input)) (drop (64 - k) input) = (st, rest)"
  shows "md5_state (MD5_update input m) = st"
    "md5_buffer (MD5_update input m) = rest @ drop (length rest) (take k (md5_buffer m) @ take (64 - k) input)"
  using assms by (simp_all add: MD5_update_def Let_def md5_put_def)

lemma MD5_update_short:
  assumes "md5_index m = k" "length input < 64 - k"
  shows "md5_state (MD5_update input m) = md5_state m"
    "md5_buffer (MD5_update input m) = md5_put (md5_buffer m) k input"
  using assms by (simp_all add: MD5_update_def Let_def)

lemma MD5_update_counts:
  assumes "md5_inv msg m" "length input < 2 ^ 32"
  shows "md5_count0 (MD5_update input m) = of_nat (8 * length (msg @ input))"
    "md5_count1 (MD5_update input m) = of_nat (8 * length (msg @ input) div 2 ^ 32)"
proof -
  have c: "md5_count0 m = of_nat (8 * length msg)" "md5_count1 m = of_nat (8 * length msg div 2 ^ 32)"
    using assms(1) by (auto simp: md5_inv_def)
  show "md5_count0 (MD5_update input m) = of_nat (8 * length (msg @ input))"
    unfolding length_append count_update(1) [OF assms(2), symmetric] c(1) [symmetric]
    by (simp add: MD5_update_def Let_def split: prod.split)
  show "md5_count1 (MD5_update input m) = of_nat (8 * length (msg @ input) div 2 ^ 32)"
    unfolding length_append count_update(2) [OF assms(2), symmetric] c(1) [symmetric] c(2) [symmetric]
    by (simp add: MD5_update_def Let_def split: prod.split)
qed

lemma put_front_length: "length buf = n \<Longrightarrow> length rest \<le> n \<Longrightarrow> length (rest @ drop (length rest) buf) = n"
  by simp

lemma MD5_update_inv:
  assumes inv: "md5_inv msg m" and n: "length input < 2 ^ 32"
  shows "md5_inv (msg @ input) (MD5_update input m)"
proof -
  let ?k = "length msg mod 64"
  let ?r = "take ?k (md5_buffer m)"
  note index = md5_index_eq [OF inv]
  have b: "length (md5_buffer m) = 64" "md5_blocks md5_init msg = (md5_state m, ?r)" and k: "?k < 64"
    using inv by (auto simp: md5_inv_def)
  have app: "md5_blocks md5_init (msg @ input) = md5_blocks (md5_state m) (?r @ input)"
    using md5_blocks_append [of md5_init msg input] b(2) by simp
  show ?thesis
  proof (cases "64 - ?k \<le> length input")
    case True
    let ?buf = "?r @ take (64 - ?k) input"
    let ?rest = "drop (64 - ?k) input"
    obtain st rest where st: "md5_blocks (md5_transform (md5_state m) ?buf) ?rest = (st, rest)"
      by fastforce
    have len: "length rest = (length msg + length input) mod 64"
      using conjunct1 [OF md5_blocks_rest [of "md5_transform (md5_state m) ?buf" ?rest]] rest_length [OF True] unfolding st
      by (simp only: snd_conv length_drop)
    have buf: "length ?buf = 64"
      using True b(1) k by simp
    have "md5_blocks md5_init (msg @ input) = (st, rest)"
      unfolding app using md5_blocks_cons [OF buf, of "md5_state m" ?rest] st
      by (simp only: append_assoc append_take_drop_id)
    moreover have "length rest \<le> 64"
      unfolding len by simp
    moreover have "length (rest @ drop (length rest) ?buf) = 64"
      using put_front_length [OF buf \<open>length rest \<le> 64\<close>] .
    moreover have "take (length (msg @ input) mod 64) (rest @ drop (length rest) ?buf) = rest"
      unfolding length_append len [symmetric] by simp
    ultimately show ?thesis
      unfolding md5_inv_def MD5_update_counts [OF inv n] MD5_update_blocks [OF b(1) index k True st]
      by (simp only: simp_thms)
  next
    case False
    then have "md5_blocks md5_init (msg @ input) = (md5_state m, ?r @ input)"
      unfolding app using b(1) k by (intro md5_blocks_short) simp
    moreover have small: "?k + length input < 64"
      using False by simp
    then have len: "(length msg + length input) mod 64 = ?k + length input"
      by (metis mod_add_left_eq mod_less)
    moreover have "length input < 64 - ?k"
      using False by simp
    moreover have "length (md5_put (md5_buffer m) ?k input) = 64"
      "take (length (msg @ input) mod 64) (md5_put (md5_buffer m) ?k input) = ?r @ input"
      unfolding length_append len using b(1) k small by (simp_all add: md5_put_def)
    ultimately show ?thesis
      unfolding md5_inv_def MD5_update_counts [OF inv n] using MD5_update_short [OF index] by (simp only: simp_thms)
  qed
qed

section \<open>Finishing\<close>

lemma length_md5_encode [simp]: "length (md5_encode ws) = 4 * length ws"
  by (induction ws) (simp_all add: md5_encode_def)

lemma length_pad: "length (take (if k < 56 then 56 - k else 120 - k) MD5_PADDING) = (if k < 56 then 56 - k else 120 - k)"
  if "k < 64" for k
  using that by (auto simp: MD5_PADDING_def)

text \<open>The bytes that finishing appends to a message of length \<open>n\<close>.\<close>

definition md5_tail_pad :: "nat \<Rightarrow> bytes" where
  "md5_tail_pad n = take (if n mod 64 < 56 then 56 - n mod 64 else 120 - n mod 64) MD5_PADDING"

definition md5_tail_bits :: "nat \<Rightarrow> bytes" where
  "md5_tail_bits n = md5_encode [of_nat (8 * n), of_nat (8 * n div 2 ^ 32)]"

lemma length_tail [simp]:
  "length (md5_tail_pad n) = (if n mod 64 < 56 then 56 - n mod 64 else 120 - n mod 64)" "length (md5_tail_bits n) = 8"
  using length_pad [of "n mod 64"] by (simp_all add: md5_tail_pad_def md5_tail_bits_def)

lemma tail_short: "length (md5_tail_pad n) < 2 ^ 32" "length (md5_tail_bits n) < 2 ^ 32"
proof -
  have "length (md5_tail_pad n) \<le> 120"
    unfolding length_tail by auto
  then show "length (md5_tail_pad n) < 2 ^ 32"
    by (rule le_less_trans) simp
qed simp

lemma tail_aligned: "(n + length (md5_tail_pad n)) mod 64 = 56"
proof -
  have "k < 64 \<Longrightarrow> (k + (if k < 56 then 56 - k else 120 - k)) mod 64 = (56 :: nat)" for k
    by auto
  from this [of "n mod 64"] show ?thesis
    unfolding length_tail by (simp add: mod_add_left_eq)
qed

lemma md5_pad_eq: "md5_pad msg = msg @ md5_tail_pad (length msg) @ md5_tail_bits (length msg)"
proof -
  have "ucast (of_nat n :: u64) = (of_nat n :: u32)" for n
    by (simp add: word_unat_eq_iff unsigned_ucast_eq unat_of_nat take_bit_eq_mod mod_mod_cancel)
  moreover have "ucast (drop_bit 32 (of_nat n :: u64)) = (of_nat (n div 2 ^ 32) :: u32)" for n
    by (simp add: word_unat_eq_iff unsigned_ucast_eq unat_of_nat take_bit_eq_mod drop_bit_eq_div unat_div_distrib
        div_exp_mod_exp_eq [of n 32 32, simplified])
  ultimately show ?thesis
    by (simp only: md5_pad_def md5_tail_pad_def md5_tail_bits_def Let_def)
qed

lemma MD5_final_digest:
  assumes "md5_inv msg m"
  shows "md5_digest (MD5_final m) = md5_spec msg"
proof -
  let ?pad = "md5_tail_pad (length msg)" and ?bits = "md5_tail_bits (length msg)"
  let ?m = "MD5_update ?bits (MD5_update ?pad m)"
  have c: "md5_encode [md5_count0 m, md5_count1 m] = ?bits"
    using assms by (simp only: md5_inv_def md5_tail_bits_def)
  have "md5_inv ((msg @ ?pad) @ ?bits) ?m"
    using assms tail_short [of "length msg"] by (intro MD5_update_inv)
  then have "fst (md5_blocks md5_init (md5_pad msg)) = md5_state ?m"
    unfolding md5_pad_eq md5_inv_def by simp
  moreover have "md5_digest (MD5_final m) = (let (a, b, c, d) = md5_state ?m in md5_encode [a, b, c, d])"
    by (simp only: MD5_final_def Let_def c md5_index_eq [OF assms] flip: md5_tail_pad_def) (simp split: prod.split)
  ultimately show ?thesis
    by (simp add: md5_spec_def)
qed

text \<open>
  The message whose context finishing leaves behind. The state and the counters are restored, the buffer is not: when the
  padding needs a second block, the bytes of the first one are overwritten with zeros and the encoded length.
\<close>

definition md5_reused :: "bytes \<Rightarrow> bytes" where
  "md5_reused msg =
     (let k = length msg mod 64
      in if k < 56 then msg
         else take (length msg - k) msg @ replicate 56 0 @ take (k - 56) (md5_tail_bits (length msg)))"

lemma length_md5_reused [simp]: "length (md5_reused msg) = length msg"
proof -
  have "length msg mod 64 \<le> length msg" "length msg mod 64 - 56 < 8"
    by (simp, use mod_less_divisor [of 64 "length msg"] in arith)
  then show ?thesis
    by (simp add: md5_reused_def Let_def min_def)
qed

lemma md5_blocks_whole:
  assumes "md5_blocks st msg = (s, r)"
  shows "md5_blocks st (take (length msg - length msg mod 64) msg) = (s, [])"
proof -
  let ?n = "length msg - length msg mod 64"
  let ?a = "take ?n msg"
  have "length ?a mod 64 = 0"
    by (simp add: minus_mod_eq_mult_div)
  then have a: "snd (md5_blocks st ?a) = []"
    using md5_blocks_rest [of st ?a] by simp
  have "length (drop ?n msg) < 64"
    by (simp add: min_def)
  then have "md5_blocks st (?a @ drop ?n msg) = (fst (md5_blocks st ?a), drop ?n msg)"
    unfolding md5_blocks_append [of st ?a] a by simp
  then show ?thesis
    using assms a by (metis append_take_drop_id fst_conv prod.collapse)
qed

lemma pad_drop: "56 \<le> k \<Longrightarrow> k < 64 \<Longrightarrow> drop (64 - k) (take (120 - k) MD5_PADDING) = replicate 56 0"
proof -
  assume k: "56 \<le> k" "k < 64"
  define i where "i = 63 - k"
  have i: "64 - k = Suc i" "120 - k = Suc (i + 56)" "i + 56 \<le> 63"
    using k by (simp_all add: i_def)
  then show ?thesis
    unfolding MD5_PADDING_def i take_Suc_Cons drop_Suc_Cons by (simp add: min_def)
qed

lemma final_buffer:
  assumes inv: "md5_inv msg m"
  shows "take (length msg mod 64) (md5_buffer (MD5_final m)) =
      (if length msg mod 64 < 56 then take (length msg mod 64) (md5_buffer m)
       else replicate 56 0 @ take (length msg mod 64 - 56) (md5_tail_bits (length msg)))"
    and "length (md5_buffer (MD5_final m)) = 64"
proof -
  let ?k = "length msg mod 64" and ?pad = "md5_tail_pad (length msg)" and ?bits = "md5_tail_bits (length msg)"
  let ?m1 = "MD5_update ?pad m"
  have c: "md5_encode [md5_count0 m, md5_count1 m] = ?bits"
    using inv by (simp only: md5_inv_def md5_tail_bits_def)
  have buf: "md5_buffer (MD5_final m) = md5_buffer (MD5_update ?bits ?m1)"
    by (simp only: MD5_final_def Let_def c md5_index_eq [OF inv] flip: md5_tail_pad_def) (simp split: prod.split)
  have m1: "md5_inv (msg @ ?pad) ?m1"
    using inv tail_short(1) by (rule MD5_update_inv)
  then have l1: "length (md5_buffer ?m1) = 64" and i1: "md5_index ?m1 = 56"
    using md5_index_eq [OF m1] tail_aligned by (simp_all only: md5_inv_def length_append)
  have last: "md5_buffer (MD5_final m) = take 56 (md5_buffer ?m1) @ ?bits"
    unfolding buf using MD5_update_blocks(2) [OF l1 i1, of ?bits] by simp
  show "length (md5_buffer (MD5_final m)) = 64"
    unfolding last using l1 by simp
  have l: "length (md5_buffer m) = 64" and k: "?k < 64"
    using inv by (auto simp: md5_inv_def)
  show "take ?k (md5_buffer (MD5_final m)) =
      (if ?k < 56 then take ?k (md5_buffer m) else replicate 56 0 @ take (?k - 56) ?bits)"
  proof (cases "?k < 56")
    case True
    then have "length ?pad < 64 - ?k"
      by simp
    from MD5_update_short(2) [OF md5_index_eq [OF inv] this] show ?thesis
      unfolding last using True l by (simp add: md5_put_def min_def)
  next
    case False
    then have long: "64 - ?k \<le> length ?pad"
      by simp
    have "drop (64 - ?k) ?pad = replicate 56 0"
      using False k pad_drop [of ?k] by (simp add: md5_tail_pad_def)
    then have "md5_blocks st (drop (64 - ?k) ?pad) = (st, replicate 56 0)" for st
      by simp
    from MD5_update_blocks(2) [OF l md5_index_eq [OF inv] k long this]
    have "md5_buffer ?m1 = replicate 56 0 @ drop 56 (take ?k (md5_buffer m) @ take (64 - ?k) ?pad)"
      by (simp only: length_replicate)
    then show ?thesis
      unfolding last using False by simp
  qed
qed

lemma MD5_final_inv:
  assumes "md5_inv msg m"
  shows "md5_inv (md5_reused msg) (MD5_final m)"
proof -
  let ?k = "length msg mod 64"
  have keep: "md5_state (MD5_final m) = md5_state m" "md5_count0 (MD5_final m) = md5_count0 m" "md5_count1 (MD5_final m) = md5_count1 m"
    by (simp_all add: MD5_final_def Let_def split: prod.split)
  have "md5_blocks md5_init (md5_reused msg) = (md5_state m, take ?k (md5_buffer (MD5_final m)))"
  proof (cases "?k < 56")
    case True
    then show ?thesis
      using assms final_buffer(1) [OF assms] by (simp add: md5_reused_def md5_inv_def)
  next
    case False
    let ?r = "replicate 56 0 @ take (?k - 56) (md5_tail_bits (length msg))"
    have "md5_blocks md5_init (take (length msg - ?k) msg) = (md5_state m, [])"
      using assms by (intro md5_blocks_whole) (simp add: md5_inv_def)
    moreover have "length ?r < 64"
      using mod_less_divisor [of 64 "length msg"] False by (simp add: min_def)
    ultimately have "md5_blocks md5_init (take (length msg - ?k) msg @ ?r) = (md5_state m, ?r)"
      by (simp only: md5_blocks_append [of md5_init _ ?r] fst_conv snd_conv append_Nil md5_blocks_short)
    then show ?thesis
      using False final_buffer(1) [OF assms] by (simp add: md5_reused_def Let_def)
  qed
  then show ?thesis
    using assms final_buffer(2) [OF assms] keep unfolding md5_inv_def length_md5_reused by simp
qed

lemma md5_new_inv: "length buffer = 64 \<Longrightarrow> md5_inv [] (MD5_new buffer digest)"
  by (simp add: md5_inv_def MD5_new_def MD5_reset_def)

lemma md5_updates_inv:
  "md5_inv msg m \<Longrightarrow> \<forall>c\<in>set chunks. length c < 2 ^ 32 \<Longrightarrow> md5_inv (msg @ concat chunks) (fold MD5_update chunks m)"
proof (induction chunks arbitrary: msg m)
  case (Cons c chunks)
  then have "md5_inv (msg @ c) (MD5_update c m)"
    by (intro MD5_update_inv) simp_all
  then show ?case
    using Cons.IH [of "msg @ c" "MD5_update c m"] Cons.prems(2) by simp
qed simp

lemma md5_finished_True: "md5_inv msg (m\<lparr>md5_finished := b\<rparr>) \<longleftrightarrow> md5_inv msg m"
  by (simp add: md5_inv_def)

lemma MD5_digest_inv:
  assumes "md5_inv msg m" "\<not> md5_finished m"
  shows "fst (MD5_digest m) = md5_spec msg" "md5_inv (md5_reused msg) (snd (MD5_digest m))"
  using MD5_final_digest [of msg "m\<lparr>md5_finished := True\<rparr>"] MD5_final_inv [of msg "m\<lparr>md5_finished := True\<rparr>"] assms
  by (simp_all add: MD5_digest_def Let_def md5_finished_True)

lemma MD5_update_finished [simp]: "\<not> md5_finished (MD5_update input m)"
  by (simp add: MD5_update_def Let_def split: prod.split)

lemma MD5_digest_unfinished: "\<not> md5_finished m \<Longrightarrow> \<not> md5_finished (snd (MD5_digest m))"
  by (simp add: MD5_digest_def MD5_final_def Let_def MD5_update_finished split: prod.split)

lemma md5_updates_finished: "\<not> md5_finished m \<Longrightarrow> \<not> md5_finished (fold MD5_update chunks m)"
  by (induction chunks arbitrary: m) simp_all

lemma md5_new_finished: "\<not> md5_finished (MD5_new buffer digest)"
  by (simp add: MD5_new_def MD5_reset_def)

text \<open>A test vector of the standard: the digest of \<^verbatim>\<open>abc\<close>.\<close>

lemma md5_abc:
  "md5_spec [97, 98, 99] =
     [0x90, 0x01, 0x50, 0x98, 0x3c, 0xd2, 0x4f, 0xb0, 0xd6, 0x96, 0x3f, 0x7d, 0x28, 0xe1, 0x7f, 0x72]"
  by code_simp

text \<open>The arrays of a context keep their sizes: no call writes outside of them.\<close>

datatype md5_call = Call_update bytes | Call_digest | Call_reset

fun md5_call_step :: "md5_call \<Rightarrow> MD5 \<Rightarrow> MD5" where
  "md5_call_step (Call_update input) m = MD5_update input m"
| "md5_call_step Call_digest m = snd (MD5_digest m)"
| "md5_call_step Call_reset m = MD5_reset m"

definition md5_wf :: "MD5 \<Rightarrow> bool" where
  "md5_wf m \<longleftrightarrow> length (md5_buffer m) = 64 \<and> length (md5_digest m) = 16"

lemma md5_index_less: "md5_index m < 64"
  by (simp add: md5_index_def unat_index)

lemma MD5_update_wf: "md5_wf m \<Longrightarrow> md5_wf (MD5_update input m)"
proof -
  assume "md5_wf m"
  then have m: "length (md5_buffer m) = 64" "length (md5_digest m) = 16"
    by (simp_all add: md5_wf_def)
  have d: "md5_digest (MD5_update input m) = md5_digest m"
    by (simp add: MD5_update_def Let_def split: prod.split)
  have "length (md5_buffer (MD5_update input m)) = 64"
  proof (cases "64 - md5_index m \<le> length input")
    case True
    obtain st rest where b: "md5_blocks (md5_transform (md5_state m) (take (md5_index m) (md5_buffer m) @ take (64 - md5_index m) input))
        (drop (64 - md5_index m) input) = (st, rest)"
      by fastforce
    have "length rest \<le> 64"
      using md5_blocks_rest [of "md5_transform (md5_state m) (take (md5_index m) (md5_buffer m) @ take (64 - md5_index m) input)"
          "drop (64 - md5_index m) input"] b by simp
    then show ?thesis
      using MD5_update_blocks(2) [OF m(1) refl md5_index_less True b] m(1) md5_index_less [of m] True by simp
  next
    case False
    then show ?thesis
      using MD5_update_short(2) [OF refl, of input m] m(1) md5_index_less [of m] by (simp add: md5_put_def)
  qed
  then show ?thesis
    using d m(2) by (simp add: md5_wf_def)
qed

lemma MD5_final_wf: "md5_wf m \<Longrightarrow> md5_wf (MD5_final m)"
  using MD5_update_wf [OF MD5_update_wf [of m]]
  by (simp add: MD5_final_def Let_def md5_wf_def split: prod.split)

interpretation md5_object: guarded_machine "MD5_new (replicate 64 b) (replicate 16 d)" md5_call_step md5_wf for b d
proof unfold_locales
  show "md5_wf (MD5_new (replicate 64 b) (replicate 16 d))"
    by (simp add: MD5_new_def MD5_reset_def md5_wf_def)
  show "md5_wf (md5_call_step call m)" if "md5_wf m" for call m
    using that MD5_update_wf [of m] MD5_final_wf [of "m\<lparr>md5_finished := True\<rparr>"]
    by (cases call) (auto simp: MD5_digest_def MD5_reset_def Let_def md5_wf_def)
qed

section \<open>Properties\<close>





text \<open>
  A context may be used on after its digest was taken only when the message has fewer than 56 bytes in its
  last block. Otherwise the padding has overwritten the buffer, and further updates continue a message whose last block
  starts with 56 zero bytes.
\<close>

theorem md5_reuse:
  assumes "length buffer = 64" "\<forall>c\<in>set chunks. length c < 2 ^ 32" "length rest < 2 ^ 32"
  shows "fst (MD5_digest (MD5_update rest (snd (MD5_digest (fold MD5_update chunks (MD5_new buffer digest)))))) =
    md5_spec (md5_reused (concat chunks) @ rest)"
proof -
  let ?m = "fold MD5_update chunks (MD5_new buffer digest)"
  have "md5_inv (md5_reused (concat chunks)) (snd (MD5_digest ?m))"
    using MD5_digest_inv(2) [OF md5_updates_inv [OF md5_new_inv [OF assms(1)] assms(2)] md5_updates_finished [OF md5_new_finished]]
    by simp
  from MD5_digest_inv(1) [OF MD5_update_inv [OF this assms(3)]] show ?thesis
    by simp
qed

theorem md5_reuse_witness:
  "fst (MD5_digest (MD5_update [2] (snd (MD5_digest (MD5_update (replicate 56 1) (MD5_new (replicate 64 0) []))))))
     = md5_spec (replicate 56 0 @ [2])"
  using md5_reuse [of "replicate 64 0" "[replicate 56 1]" "[2]" "[]"] by (simp add: md5_reused_def)

end
