(* ===== verification/Rc4.thy ===== *)
theory Rc4
  imports Ssea Md5
begin

text \<open>
  The RC4 variant of \<^verbatim>\<open>src/ppp/cryptography/rc4.cpp\<close>: the key schedule over 255 entries, the two stream
  loops and the stateful class \<^verbatim>\<open>RC4\<close> with its methods. The digest that turns a password into the key of
  the schedule is an argument; a text is the list of its bytes. Allocation succeeds.
\<close>

unbundle bit_operations_syntax

section \<open>Key schedule\<close>

definition RC4_MAXBIT :: nat where
  "RC4_MAXBIT = 255"

definition sbox_seed :: "nat \<Rightarrow> bool \<Rightarrow> bytes" where
  "sbox_seed sboxlen ascending =
     (if ascending then map of_nat [0..<sboxlen] else rev (map of_nat [0..<sboxlen]))"

definition ksa_step :: "bytes \<Rightarrow> nat \<Rightarrow> nat \<times> bytes \<Rightarrow> nat \<times> bytes" where
  "ksa_step key i js =
     (let (j, sbox) = js;
          j = (j + unat (sbox ! i) + unat (key ! (i mod length key))) mod length sbox
      in (j, swap_at sbox i j))"

definition rc4_sbox_impl :: "nat \<Rightarrow> bytes \<Rightarrow> bool \<Rightarrow> bytes option" where
  "rc4_sbox_impl sboxlen key ascending =
     (if key = [] \<or> sboxlen < 1 then None
      else Some (snd (fold (ksa_step key) [0..<sboxlen] (0, sbox_seed sboxlen ascending))))"

definition rc4_sbox :: "nat \<Rightarrow> bytes \<Rightarrow> bytes option" where
  "rc4_sbox sboxlen key = rc4_sbox_impl sboxlen key True"

definition rc4_sbox_descending :: "nat \<Rightarrow> bytes \<Rightarrow> bytes option" where
  "rc4_sbox_descending sboxlen key = rc4_sbox_impl sboxlen key False"

section \<open>Stream loops\<close>

text \<open>
  The loop of both routines: the low index advances by \<open>stride\<close>, which is 0 in \<^verbatim>\<open>rc4_crypt_sbox\<close> and the key length
  in \<^verbatim>\<open>rc4_crypt_sbox_c\<close>. The box is changed in place and returned.
\<close>

primrec crypt_loop :: "nat \<Rightarrow> bool \<Rightarrow> u8 \<Rightarrow> nat \<Rightarrow> nat \<Rightarrow> nat \<Rightarrow> bytes \<Rightarrow> bytes \<Rightarrow> bytes \<times> bytes" where
  "crypt_loop stride E x i low high sbox [] = ([], sbox)"
| "crypt_loop stride E x i low high sbox (d # data) =
     (let sboxlen = length sbox;
          low = (low + stride) mod sboxlen;
          high = (high + unat (sbox ! (i mod sboxlen))) mod sboxlen;
          sbox = swap_at sbox low high;
          mid = (unat (sbox ! low) + unat (sbox ! high)) mod sboxlen;
          c = (if E then (d XOR sbox ! mid) - x else (d - x) XOR sbox ! mid);
          (rest, sbox) = crypt_loop stride E x (Suc i) low high sbox data
      in (c # rest, sbox))"

definition crypt_offset :: "int \<Rightarrow> bool \<Rightarrow> u8" where
  "crypt_offset subtract E = of_int (if E then subtract else - subtract)"

definition rc4_crypt_sbox :: "bytes \<Rightarrow> bytes \<Rightarrow> bytes \<Rightarrow> int \<Rightarrow> bool \<Rightarrow> (bytes \<times> bytes) option" where
  "rc4_crypt_sbox key sbox data subtract E =
     (if key = [] \<or> data = [] \<or> sbox = [] then None
      else Some (crypt_loop 0 E (crypt_offset subtract E) 0 0 0 sbox data))"

definition rc4_crypt_sbox_c :: "bytes \<Rightarrow> bytes \<Rightarrow> bytes \<Rightarrow> int \<Rightarrow> bool \<Rightarrow> (bytes \<times> bytes) option" where
  "rc4_crypt_sbox_c key sbox data subtract E =
     (if key = [] \<or> data = [] \<or> sbox = [] then None
      else Some (crypt_loop (length key) E (crypt_offset subtract E) 0 0 0 sbox data))"

definition rc4_crypt :: "bytes \<Rightarrow> bytes \<Rightarrow> int \<Rightarrow> bool \<Rightarrow> bytes option" where
  "rc4_crypt key data subtract E =
     (if key = [] \<or> data = [] then None
      else case rc4_sbox RC4_MAXBIT key of
        None \<Rightarrow> None
      | Some sbox \<Rightarrow> map_option fst (rc4_crypt_sbox key sbox data subtract E))"

section \<open>RC4\<close>

record RC4 =
  rc4_E :: bool
  rc4_subtract :: int
  rc4_method :: string
  rc4_password :: bytes
  rc4_box :: "bytes option"

definition RC4_new :: "(digest_algorithm \<Rightarrow> bytes \<Rightarrow> bytes) \<Rightarrow> string \<Rightarrow> bytes \<Rightarrow> digest_algorithm \<Rightarrow> bool \<Rightarrow> int \<Rightarrow> bool \<Rightarrow> RC4" where
  "RC4_new hash_hmac method password algorithm ascending subtract E =
     (let sbox_key = hash_hmac algorithm password
      in \<lparr>rc4_E = E, rc4_subtract = subtract, rc4_method = method, rc4_password = password,
          rc4_box = (if ascending then rc4_sbox RC4_MAXBIT sbox_key else rc4_sbox_descending RC4_MAXBIT sbox_key)\<rparr>)"

definition RC4_EncryptTo :: "nat \<Rightarrow> bytes \<Rightarrow> RC4 \<Rightarrow> bytes option \<times> RC4" where
  "RC4_EncryptTo output_capacity data r =
     (if data = [] \<or> output_capacity < length data then (None, r)
      else if rc4_password r = [] then (None, r)
      else case rc4_box r of
        None \<Rightarrow> (None, r)
      | Some sbox \<Rightarrow>
          (case rc4_crypt_sbox_c (rc4_password r) sbox data (rc4_subtract r) (rc4_E r) of
             None \<Rightarrow> (None, r)
           | Some (output, sbox) \<Rightarrow> (Some output, r\<lparr>rc4_box := Some sbox\<rparr>)))"

definition RC4_Encrypt :: "bytes \<Rightarrow> RC4 \<Rightarrow> bytes option \<times> RC4" where
  "RC4_Encrypt data r =
     (if data = [] then (None, r)
      else if rc4_password r = [] then (None, r)
      else if rc4_box r = None then (None, r)
      else RC4_EncryptTo (length data) data r)"

definition RC4_Decrypt :: "bytes \<Rightarrow> RC4 \<Rightarrow> bytes option \<times> RC4" where
  "RC4_Decrypt data r = RC4_Encrypt data r"

definition RC4_DecryptInPlace :: "bytes \<Rightarrow> RC4 \<Rightarrow> bytes option \<times> RC4" where
  "RC4_DecryptInPlace data r = RC4_EncryptTo (length data) data r"

definition rc4_methods :: "(string \<times> digest_algorithm) list" where
  "rc4_methods =
     [(''rc4-md5'', Digest_md5), (''rc4-sha1'', Digest_sha1), (''rc4-sha224'', Digest_sha224),
      (''rc4-sha256'', Digest_sha256), (''rc4-sha384'', Digest_sha384), (''rc4-sha512'', Digest_sha512)]"

definition RC4_Support :: "string \<Rightarrow> bool" where
  "RC4_Support method \<longleftrightarrow> method \<noteq> [] \<and> method \<in> set (map fst rc4_methods)"

text \<open>The classes of the methods start descending, with no offset and the decrypting branch for both directions.\<close>

definition RC4_Create :: "(digest_algorithm \<Rightarrow> bytes \<Rightarrow> bytes) \<Rightarrow> string \<Rightarrow> bytes \<Rightarrow> RC4 option" where
  "RC4_Create hash_hmac method password =
     (if method = [] then None
      else map_option (\<lambda>algorithm. RC4_new hash_hmac method password algorithm False 0 False)
             (map_of rc4_methods method))"

section \<open>The loops are inverse\<close>

lemma length_crypt_loop: "length (fst (crypt_loop stride E x i low high sbox data)) = length data"
  by (induction data arbitrary: i low high sbox) (simp_all add: Let_def case_prod_beta)

lemma crypt_loop_inverse:
  "crypt_loop stride E x i low high sbox data = (c, sbox') \<Longrightarrow>
   crypt_loop stride (\<not> E) (- x) i low high sbox c = (data, sbox')"
proof (induction data arbitrary: i low high sbox c)
  case (Cons d data)
  then show ?case
    by (auto simp: Let_def xor.assoc prod_eq_iff case_prod_beta)
qed simp

lemma crypt_loop_self_inverse:
  "crypt_loop stride E 0 i low high sbox data = (c, sbox') \<Longrightarrow>
   crypt_loop stride E 0 i low high sbox c = (data, sbox')"
proof (induction data arbitrary: i low high sbox c)
  case (Cons d data)
  then show ?case
    by (auto simp: Let_def xor.assoc prod_eq_iff case_prod_beta)
qed simp

section \<open>Two ends of a connection\<close>

text \<open>Two objects in the same state, as the two ends of a connection create them from one password.\<close>

definition in_step :: "RC4 \<Rightarrow> RC4 \<Rightarrow> bool" where
  "in_step a b \<longleftrightarrow> a = b \<and> rc4_password a \<noteq> [] \<and> rc4_subtract a = 0 \<and> rc4_box a \<noteq> None \<and> rc4_box a \<noteq> Some []"

lemma length_swap_loop: "length (snd (crypt_loop stride E x i low high sbox data)) = length sbox"
  by (induction data arbitrary: i low high sbox) (simp_all add: Let_def case_prod_beta)

lemma RC4_roundtrip:
  assumes "in_step a b" "data \<noteq> []"
  obtains c a' b' where "RC4_Encrypt data a = (Some c, a')" "RC4_Decrypt c b = (Some data, b')" "in_step a' b'"
    "length c = length data"
proof -
  obtain sbox where sbox: "rc4_box a = Some sbox" "sbox \<noteq> []"
    using assms(1) by (auto simp: in_step_def)
  obtain c sbox' where c: "crypt_loop (length (rc4_password a)) (rc4_E a) 0 0 0 0 sbox data = (c, sbox')"
    by fastforce
  have len: "length c = length data" "sbox' \<noteq> []"
    using length_crypt_loop [of "length (rc4_password a)" "rc4_E a" 0 0 0 0 sbox data]
      length_swap_loop [of "length (rc4_password a)" "rc4_E a" 0 0 0 0 sbox data] sbox(2) by (auto simp: c)
  then have ne: "c \<noteq> []"
    using assms(2) by auto
  let ?a = "a\<lparr>rc4_box := Some sbox'\<rparr>"
  have off: "crypt_offset 0 E = 0" for E
    by (simp add: crypt_offset_def)
  have "RC4_Encrypt data a = (Some c, ?a)"
    using assms sbox c by (auto simp: in_step_def RC4_Encrypt_def RC4_EncryptTo_def rc4_crypt_sbox_c_def off)
  moreover have "RC4_Decrypt c b = (Some data, ?a)"
    using assms sbox crypt_loop_self_inverse [OF c] ne
    by (auto simp: in_step_def RC4_Decrypt_def RC4_Encrypt_def RC4_EncryptTo_def rc4_crypt_sbox_c_def off)
  moreover have "in_step ?a ?a"
    using assms(1) len(2) by (auto simp: in_step_def)
  ultimately show thesis
    using that len(1) by blast
qed

lemma length_sbox: "rc4_sbox_impl n key asc = Some sbox \<Longrightarrow> length sbox = n"
proof -
  have "length (snd (fold (ksa_step key) is js)) = length (snd js)" for "is" js
    by (induction "is" arbitrary: js) (simp_all add: ksa_step_def Let_def case_prod_beta)
  then show "rc4_sbox_impl n key asc = Some sbox \<Longrightarrow> length sbox = n"
    by (auto simp: rc4_sbox_impl_def sbox_seed_def split: if_splits)
qed

lemma RC4_Create_in_step:
  assumes "RC4_Create hash_hmac method password = Some r" "\<forall>a. hash_hmac a password \<noteq> []" "password \<noteq> []"
  shows "in_step r r"
proof -
  obtain algorithm where r: "r = RC4_new hash_hmac method password algorithm False 0 False"
    using assms(1) by (auto simp: RC4_Create_def split: if_splits)
  obtain sbox where sbox: "rc4_sbox_impl RC4_MAXBIT (hash_hmac algorithm password) False = Some sbox"
    using assms(2) by (simp add: rc4_sbox_impl_def RC4_MAXBIT_def)
  then have "sbox \<noteq> []"
    using length_sbox by (fastforce simp: RC4_MAXBIT_def)
  then show ?thesis
    using sbox assms(3) by (simp add: r RC4_new_def in_step_def rc4_sbox_descending_def)
qed

text \<open>
  A conversation in which every message is read before the next one is written: the writer of each
  message is the first end when the flag is set. The result lists what the reader got.
\<close>

primrec conversation :: "RC4 \<Rightarrow> RC4 \<Rightarrow> (bool \<times> bytes) list \<Rightarrow> bytes option list" where
  "conversation a b [] = []"
| "conversation a b (m # ms) =
     (if fst m
      then (let (c, a) = RC4_Encrypt (snd m) a; (p, b) = RC4_Decrypt (the c) b in p # conversation a b ms)
      else (let (c, b) = RC4_Encrypt (snd m) b; (p, a) = RC4_Decrypt (the c) a in p # conversation a b ms))"

lemma conversation_ok:
  "in_step a b \<Longrightarrow> \<forall>(from_a, data)\<in>set ms. data \<noteq> [] \<Longrightarrow> conversation a b ms = map (Some \<circ> snd) ms"
proof (induction ms arbitrary: a b)
  case (Cons m ms)
  obtain from_a data where m: "m = (from_a, data)" "data \<noteq> []"
    using Cons.prems(2) by (cases m) auto
  have sym: "in_step b a"
    using Cons.prems(1) by (auto simp: in_step_def)
  show ?case
  proof (cases from_a)
    case True
    obtain c a' b' where "RC4_Encrypt data a = (Some c, a')" "RC4_Decrypt c b = (Some data, b')" "in_step a' b'"
      using RC4_roundtrip [OF Cons.prems(1) m(2)] by metis
    then show ?thesis
      using Cons True by (simp add: m)
  next
    case False
    obtain c a' b' where "RC4_Encrypt data b = (Some c, b')" "RC4_Decrypt c a = (Some data, a')" "in_step b' a'"
      using RC4_roundtrip [OF sym m(2)] by metis
    moreover from this have "in_step a' b'"
      by (auto simp: in_step_def)
    ultimately show ?thesis
      using Cons False by (simp add: m)
  qed
qed simp

section \<open>Properties\<close>

text \<open>
  RC4 works in alternation. Two ends that create the cipher from one password read every message
  as it was written, in both directions and in any number, as long as each message is
  read before the next one is written by either end.
\<close>

theorem rc4_alternating:
  assumes "RC4_Create hash_hmac method password = Some r" "\<forall>a. hash_hmac a password \<noteq> []" "password \<noteq> []"
    and "\<forall>(from_a, data)\<in>set ms. data \<noteq> []"
  shows "conversation r r ms = map (Some \<circ> snd) ms"
  using conversation_ok [OF RC4_Create_in_step [OF assms(1-3)] assms(4)] .

theorem rc4_alternating_witness:
  "\<exists>r. RC4_Create (\<lambda>_ p. p @ [7]) ''rc4-md5'' [97] = Some r \<and>
     conversation r r [(True, [1, 2]), (False, [3]), (True, [4])] = [Some [1, 2], Some [3], Some [4]]"
proof -
  obtain r where r: "RC4_Create (\<lambda>_ p. p @ [7]) ''rc4-md5'' [97] = Some r"
    by (simp add: RC4_Create_def rc4_methods_def)
  show ?thesis
    using rc4_alternating [OF r, of "[(True, [1, 2]), (False, [3]), (True, [4])]"] r by simp
qed

lemma crypt_step:
  assumes "l = (low + stride) mod length sbox" "h = (high + unat (sbox ! (i mod length sbox))) mod length sbox"
    and "sbox' = sbox[l := sbox ! h, h := sbox ! l]" "k = sbox' ! ((unat (sbox' ! l) + unat (sbox' ! h)) mod length sbox)"
    and "crypt_loop stride False 0 (Suc i) l h sbox' data = (rest, final)"
  shows "crypt_loop stride False 0 i low high sbox (d # data) = ((d XOR k) # rest, final)"
  using assms by (simp add: swap_at_def Let_def)

lemma overlap_steps:
  assumes len: "length S = 255"
    and S: "S ! 0 = 254" "S ! 1 = 253" "S ! 2 = 252" "S ! 250 = 4" "S ! 252 = 2" "S ! 253 = 1" "S ! 254 = 0"
  defines "S1 \<equiv> S[1 := 0, 254 := 253]"
  defines "S2 \<equiv> S1[2 := 253, 254 := 252]"
  shows "crypt_loop 1 False 0 0 0 0 S [7] = ([6], S1)"
    and "crypt_loop 1 False 0 0 0 0 S [1, 2] = ([0, 6], S2)"
    and "fst (crypt_loop 1 False 0 0 0 0 S2 [6]) = [4]"
proof -
  have S1: "length S1 = 255" "S1 ! 1 = 0" "S1 ! 2 = 252" "S1 ! 254 = 253" "S1 ! 253 = 1" "S1 ! 250 = 4" "S1 ! 252 = 2" "S1 ! 0 = 254"
    using len S by (simp_all add: S1_def)
  have S2: "length S2 = 255" "S2 ! 0 = 254" "S2 ! 1 = 0" "S2 ! 254 = 252" "S2 ! 250 = 4" "S2 ! 252 = 2" "S2 ! 2 = 253"
    using S1 by (simp_all add: S2_def)
  show "crypt_loop 1 False 0 0 0 0 S [7] = ([6], S1)"
    by (subst crypt_step [where l = 1 and h = 254 and sbox' = S1 and k = 1]) (use len S S1 in \<open>simp_all add: S1_def\<close>)
  have "crypt_loop 1 False 0 1 1 254 S1 [2] = ([6], S2)"
    by (subst crypt_step [where l = 2 and h = 254 and sbox' = S2 and k = 4]) (use S1 S2 in \<open>simp_all add: S2_def\<close>)
  then show "crypt_loop 1 False 0 0 0 0 S [1, 2] = ([0, 6], S2)"
    by (subst crypt_step [where l = 1 and h = 254 and sbox' = S1 and k = 1 and rest = "[6]" and final = S2])
       (use len S S1 in \<open>simp_all add: S1_def\<close>)
  show "fst (crypt_loop 1 False 0 0 0 0 S2 [6]) = [4]"
    by (subst crypt_step [where l = 1 and h = 254 and sbox' = "S2[1 := 252, 254 := 0]" and k = 2]) (use S2 in simp_all)
qed

text \<open>
  RC4 fails when the directions overlap. The object has one permutation for both directions, and each
  call changes it. When an end writes a message while one of the other end is on its way, the message
  on the way is read with another permutation than it was written with: here the first end
  has written two bytes, and reads the byte 7 as 4.
\<close>

definition example_rc4 :: RC4 where
  "example_rc4 = \<lparr>rc4_E = False, rc4_subtract = 0, rc4_method = ''rc4-md5'', rc4_password = [97],
     rc4_box = Some (sbox_seed RC4_MAXBIT False)\<rparr>"

theorem rc4_overlap_garbles:
  "in_step example_rc4 example_rc4 \<and>
   (let (c1, a) = RC4_Encrypt [1, 2] example_rc4; (c2, b) = RC4_Encrypt [7] example_rc4
    in fst (RC4_Decrypt (the c2) a) = Some [4])"
proof -
  let ?S = "sbox_seed RC4_MAXBIT False"
  have len: "length ?S = 255"
    by (simp add: sbox_seed_def RC4_MAXBIT_def)
  then have ne: "?S \<noteq> []"
    by (metis list.size(3) zero_neq_numeral)
  have "i < 255 \<Longrightarrow> ?S ! i = of_nat (254 - i)" for i
    by (simp add: sbox_seed_def RC4_MAXBIT_def rev_nth)
  then have entries: "?S ! 0 = 254" "?S ! 1 = 253" "?S ! 2 = 252" "?S ! 250 = 4" "?S ! 252 = 2" "?S ! 253 = 1" "?S ! 254 = 0"
    by simp_all
  show ?thesis
    using ne overlap_steps [OF len entries]
    by (simp add: example_rc4_def in_step_def RC4_Encrypt_def RC4_Decrypt_def RC4_EncryptTo_def rc4_crypt_sbox_c_def
        crypt_offset_def case_prod_beta del: crypt_loop.simps)
qed

end
