(* ===== verification/Evp.thy ===== *)
theory Evp
  imports Aes Rc4
begin

text \<open>
  The cipher objects of a carrier: \<^verbatim>\<open>src/ppp/cryptography/EVP.cpp\<close> over OpenSSL with the promotion to the AES-NI
  implementation, and \<^verbatim>\<open>src/ppp/cryptography/Ciphertext.cpp\<close>, which chooses between it and RC4. OpenSSL is given by the
  functions the code calls. \<open>ssl_update\<close> is what one \<^verbatim>\<open>EVP_CipherInit_ex\<close> with the key and the vector of the object, or with the
  vector and the key retained, and one \<^verbatim>\<open>EVP_CipherUpdate\<close> return. Allocation succeeds.
\<close>

unbundle bit_operations_syntax

section \<open>Environment\<close>

record crypto_lib =
  ssl_cipherbyname :: "string \<Rightarrow> bool"
  ssl_block_size :: "string \<Rightarrow> nat"
  ssl_iv_length :: "string \<Rightarrow> nat"
  ssl_BytesToKey :: "string \<Rightarrow> bytes \<Rightarrow> (bytes \<times> bytes) option"
  ssl_context :: "string \<Rightarrow> bool \<Rightarrow> bool"
  ssl_update :: "string \<Rightarrow> bytes \<Rightarrow> bytes \<Rightarrow> bool \<Rightarrow> bytes \<Rightarrow> bytes option"
  ssl_sha :: "digest_algorithm \<Rightarrow> bytes \<Rightarrow> bytes"
  cpu_aes :: bool
  cpu_sbox :: "u8 \<Rightarrow> u8"
  simd_auto :: bool

text \<open>The bytes of a text; new contexts of MD5 hold zeros.\<close>

definition text_bytes :: "string \<Rightarrow> bytes" where
  "text_bytes s = map (\<lambda>c. of_nat (of_char c)) s"

section \<open>Class EVP\<close>

record EVP =
  evp_lib :: crypto_lib
  evp_cipher :: "string option"
  evp_key :: bytes
  evp_iv :: bytes
  evp_encryptCTX :: bool
  evp_decryptCTX :: bool
  evp_aes :: AES

text \<open>The vector: the digest of the names and the key, over the first bytes of the one OpenSSL derived, through RC4.\<close>

definition derive_iv :: "string \<Rightarrow> bytes \<Rightarrow> nat \<Rightarrow> bytes \<Rightarrow> bytes \<Rightarrow> bytes" where
  "derive_iv method password ivLen key iv =
     (let iv_string = text_bytes ''Ppp@'' @ text_bytes method @ text_bytes ''.'' @ key @ text_bytes ''.'' @ password;
          md5 = (case ComputeMD5_raw (replicate 64 0) (replicate 16 0) iv_string (int ivLen) of Some d \<Rightarrow> d | None \<Rightarrow> [])
      in (case rc4_crypt key md5 0 False of Some d \<Rightarrow> d | None \<Rightarrow> md5) @ drop (length md5) iv)"

definition EVP_initKey :: "string \<Rightarrow> bytes \<Rightarrow> EVP \<Rightarrow> bool \<times> EVP" where
  "EVP_initKey method password e =
     (let lib = evp_lib e
      in if \<not> ssl_cipherbyname lib method then (False, e\<lparr>evp_cipher := None\<rparr>)
         else case ssl_BytesToKey lib method password of
                None \<Rightarrow> (False, e\<lparr>evp_cipher := Some method\<rparr>)
              | Some (key, iv) \<Rightarrow>
                  (True, e\<lparr>evp_cipher := Some method, evp_key := key,
                           evp_iv := derive_iv method password (ssl_iv_length lib method) key iv\<rparr>))"

definition EVP_initCipher :: "bool \<Rightarrow> EVP \<Rightarrow> bool" where
  "EVP_initCipher enc e = (case evp_cipher e of Some c \<Rightarrow> ssl_context (evp_lib e) c enc | None \<Rightarrow> False)"

definition EVP_clear :: "EVP \<Rightarrow> EVP" where
  "EVP_clear e = e\<lparr>evp_cipher := None, evp_key := [], evp_iv := []\<rparr>"

text \<open>The part of the constructor that uses OpenSSL itself.\<close>

definition EVP_openssl :: "string \<Rightarrow> bytes \<Rightarrow> EVP \<Rightarrow> EVP" where
  "EVP_openssl method password e =
     (let (ok, e) = EVP_initKey method password e
      in if \<not> ok then e
         else if \<not> EVP_initCipher True e then EVP_clear e
         else let e = e\<lparr>evp_encryptCTX := True\<rparr>
              in if \<not> EVP_initCipher False e then EVP_clear (e\<lparr>evp_encryptCTX := False\<rparr>)
                 else e\<lparr>evp_decryptCTX := True\<rparr>)"

text \<open>The method that is probed: the one of the processor when it may be promoted.\<close>

definition EVP_probe :: "crypto_lib \<Rightarrow> string \<Rightarrow> string" where
  "EVP_probe lib method =
     (let explicit_simd = (take 5 method = ''simd-'')
      in if simd_auto lib \<and> \<not> explicit_simd \<and> AES_Support (cpu_aes lib) (''simd-'' @ method) \<noteq> None
         then ''simd-'' @ method else method)"

definition EVP_new :: "crypto_lib \<Rightarrow> string \<Rightarrow> bytes \<Rightarrow> EVP" where
  "EVP_new lib method password =
     (let e = \<lparr>evp_lib = lib, evp_cipher = None, evp_key = [], evp_iv = [], evp_encryptCTX = False,
               evp_decryptCTX = False, evp_aes = AES_new\<rparr>;
          probe_method = EVP_probe lib method;
          auto_promoted = (probe_method \<noteq> method)
      in case AES_Support (cpu_aes lib) probe_method of
           None \<Rightarrow> EVP_openssl method password e
         | Some (aes128, aes_gcm, aes_real_name) \<Rightarrow>
             let (ok, e) = EVP_initKey aes_real_name password e
             in if \<not> ok then e
                else let (ok, a) = AES_TryAttach (cpu_aes lib) (cpu_sbox lib) (evp_key e) (evp_iv e) aes128 aes_gcm (evp_aes e)
                     in if ok then e\<lparr>evp_aes := a\<rparr>
                        else let e = EVP_clear e
                             in if \<not> auto_promoted then e else EVP_openssl method password e)"

definition EVP_update :: "bool \<Rightarrow> bytes \<Rightarrow> EVP \<Rightarrow> bytes option" where
  "EVP_update enc data e = ssl_update (evp_lib e) (the (evp_cipher e)) (evp_key e) (evp_iv e) enc data"

definition EVP_block_size :: "EVP \<Rightarrow> nat" where
  "EVP_block_size e = ssl_block_size (evp_lib e) (the (evp_cipher e))"

definition EVP_EncryptTo :: "nat \<Rightarrow> bytes \<Rightarrow> EVP \<Rightarrow> bytes option" where
  "EVP_EncryptTo capacity data e =
     (if data = [] then None
      else if AES_IsAttached (evp_aes e)
      then if capacity < length data then None else AES_ProcessTo (cpu_sbox (evp_lib e)) (evp_aes e) data True
      else if evp_cipher e = None \<or> \<not> evp_encryptCTX e then None
      else if capacity < length data + EVP_block_size e then None
      else EVP_update True data e)"

definition EVP_Encrypt :: "bytes \<Rightarrow> EVP \<Rightarrow> bytes option" where
  "EVP_Encrypt data e =
     (if AES_IsAttached (evp_aes e) then AES_Process (cpu_sbox (evp_lib e)) (evp_aes e) data True
      else if data = [] then None
      else if evp_cipher e = None \<or> \<not> evp_encryptCTX e then None
      else EVP_EncryptTo (length data + EVP_block_size e) data e)"

definition EVP_Decrypt :: "bytes \<Rightarrow> EVP \<Rightarrow> bytes option" where
  "EVP_Decrypt data e =
     (if AES_IsAttached (evp_aes e) then AES_Process (cpu_sbox (evp_lib e)) (evp_aes e) data False
      else if data = [] then None
      else if evp_cipher e = None \<or> \<not> evp_decryptCTX e then None
      else EVP_update False data e)"

definition EVP_CanDecryptInPlace :: "EVP \<Rightarrow> bool" where
  "EVP_CanDecryptInPlace e \<longleftrightarrow>
     AES_IsAttached (evp_aes e) \<or> evp_cipher e \<noteq> None \<and> evp_decryptCTX e \<and> EVP_block_size e = 1"

definition EVP_DecryptInPlace :: "bytes \<Rightarrow> EVP \<Rightarrow> bytes option" where
  "EVP_DecryptInPlace data e =
     (if data = [] then None
      else if AES_IsAttached (evp_aes e) then AES_ProcessTo (cpu_sbox (evp_lib e)) (evp_aes e) data False
      else if \<not> EVP_CanDecryptInPlace e then None
      else case EVP_update False data e of
             Some p \<Rightarrow> if length p = length data then Some p else None
           | None \<Rightarrow> None)"

definition EVP_Support :: "crypto_lib \<Rightarrow> string \<Rightarrow> bool" where
  "EVP_Support lib method \<longleftrightarrow>
     method \<noteq> [] \<and> (ssl_cipherbyname lib method \<or> AES_Support (cpu_aes lib) method \<noteq> None)"

section \<open>Class Ciphertext\<close>

record Ciphertext =
  ct_evp :: "EVP option"
  ct_rc4 :: "RC4 option"

definition Ciphertext_new :: "crypto_lib \<Rightarrow> string \<Rightarrow> bytes \<Rightarrow> Ciphertext" where
  "Ciphertext_new lib method password =
     (if method \<noteq> [] \<and> password \<noteq> []
      then if EVP_Support lib method then \<lparr>ct_evp = Some (EVP_new lib method password), ct_rc4 = None\<rparr>
           else if RC4_Support method
           then \<lparr>ct_evp = None,
                 ct_rc4 = RC4_Create (\<lambda>alg data. text_bytes (hash_hmac_hex (ssl_sha lib) (replicate 64 0) (replicate 16 0) alg False data))
                            method password\<rparr>
           else \<lparr>ct_evp = None, ct_rc4 = None\<rparr>
      else \<lparr>ct_evp = None, ct_rc4 = None\<rparr>)"

text \<open>A call on the backend that exists; RC4 changes its state, an EVP object restarts for every call.\<close>

definition ct_call :: "(EVP \<Rightarrow> 'r option) \<Rightarrow> (RC4 \<Rightarrow> 'r option \<times> RC4) \<Rightarrow> Ciphertext \<Rightarrow> 'r option \<times> Ciphertext" where
  "ct_call f g c =
     (case ct_evp c of
        Some e \<Rightarrow> (f e, c)
      | None \<Rightarrow> (case ct_rc4 c of
                   Some r \<Rightarrow> let (out, r) = g r in (out, c\<lparr>ct_rc4 := Some r\<rparr>)
                 | None \<Rightarrow> (None, c)))"

definition Ciphertext_Encrypt :: "bytes \<Rightarrow> Ciphertext \<Rightarrow> bytes option \<times> Ciphertext" where
  "Ciphertext_Encrypt data = ct_call (EVP_Encrypt data) (RC4_Encrypt data)"

definition Ciphertext_EncryptTo :: "nat \<Rightarrow> bytes \<Rightarrow> Ciphertext \<Rightarrow> bytes option \<times> Ciphertext" where
  "Ciphertext_EncryptTo capacity data = ct_call (EVP_EncryptTo capacity data) (RC4_EncryptTo capacity data)"

definition Ciphertext_Decrypt :: "bytes \<Rightarrow> Ciphertext \<Rightarrow> bytes option \<times> Ciphertext" where
  "Ciphertext_Decrypt data = ct_call (EVP_Decrypt data) (RC4_Decrypt data)"

definition CanDecryptInPlace :: "Ciphertext \<Rightarrow> bool" where
  "CanDecryptInPlace c = (case ct_evp c of Some e \<Rightarrow> EVP_CanDecryptInPlace e | None \<Rightarrow> ct_rc4 c \<noteq> None)"

definition DecryptInPlace :: "bytes \<Rightarrow> Ciphertext \<Rightarrow> bytes option \<times> Ciphertext" where
  "DecryptInPlace data = ct_call (EVP_DecryptInPlace data) (RC4_DecryptInPlace data)"

definition Ciphertext_Support :: "crypto_lib \<Rightarrow> string \<Rightarrow> bool" where
  "Ciphertext_Support lib method \<longleftrightarrow> method \<noteq> [] \<and> (EVP_Support lib method \<or> RC4_Support method)"

definition EncryptToSlack :: nat where
  "EncryptToSlack = 32"

section \<open>Ciphers in step\<close>

text \<open>
  The contract between the cipher of the writer and that of the reader, as the framing uses it: what one end encrypts
  has the length of the data and the other end decrypts it, through every entry point. An EVP object restarts for
  every call; RC4 objects have to be in the same state.
\<close>

definition evp_sync :: "EVP \<Rightarrow> EVP \<Rightarrow> bool" where
  "evp_sync e f \<longleftrightarrow>
     (\<forall>x. x \<noteq> [] \<longrightarrow>
        (\<exists>y. EVP_Encrypt x e = Some y \<and> length y = length x \<and>
             (\<forall>capacity. length x + EncryptToSlack \<le> capacity \<longrightarrow> EVP_EncryptTo capacity x e = Some y) \<and>
             EVP_Decrypt y f = Some x \<and> (EVP_CanDecryptInPlace f \<longrightarrow> EVP_DecryptInPlace y f = Some x)))"

definition in_sync :: "Ciphertext \<Rightarrow> Ciphertext \<Rightarrow> bool" where
  "in_sync c d \<longleftrightarrow>
     (case (ct_evp c, ct_evp d) of
        (Some e, Some f) \<Rightarrow> evp_sync e f
      | (None, None) \<Rightarrow> (case (ct_rc4 c, ct_rc4 d) of (Some a, Some b) \<Rightarrow> in_step a b | _ \<Rightarrow> False)
      | _ \<Rightarrow> False)"

lemma RC4_EncryptTo_capacity:
  "length data \<le> capacity \<Longrightarrow> in_step a b \<Longrightarrow> data \<noteq> [] \<Longrightarrow> RC4_EncryptTo capacity data a = RC4_Encrypt data a"
  by (auto simp: RC4_Encrypt_def RC4_EncryptTo_def in_step_def)

lemma cipher_roundtrip:
  assumes sync: "in_sync c d" and x: "x \<noteq> []"
  obtains y c' d' where "Ciphertext_Encrypt x c = (Some y, c')" "length y = length x" "in_sync c' d'"
    "Ciphertext_EncryptTo (length x + EncryptToSlack) x c = (Some y, c')"
    "Ciphertext_Decrypt y d = (Some x, d')" "CanDecryptInPlace d \<Longrightarrow> DecryptInPlace y d = (Some x, d')"
proof (cases "ct_evp c")
  case (Some e)
  then obtain f where f: "ct_evp d = Some f" "evp_sync e f"
    using sync by (auto simp: in_sync_def split: option.splits)
  obtain y where "EVP_Encrypt x e = Some y" "length y = length x" "EVP_EncryptTo (length x + EncryptToSlack) x e = Some y"
      "EVP_Decrypt y f = Some x" "EVP_CanDecryptInPlace f \<longrightarrow> EVP_DecryptInPlace y f = Some x"
    using f(2) x unfolding evp_sync_def by blast
  then show thesis
    using that [of y c d] sync Some f(1)
    by (simp add: ct_call_def Ciphertext_Encrypt_def Ciphertext_EncryptTo_def Ciphertext_Decrypt_def CanDecryptInPlace_def
        DecryptInPlace_def)
next
  case None
  then obtain a b where r: "ct_evp d = None" "ct_rc4 c = Some a" "ct_rc4 d = Some b" "in_step a b"
    using sync by (auto simp: in_sync_def split: option.splits)
  obtain y a' b' where y: "RC4_Encrypt x a = (Some y, a')" "RC4_Decrypt y b = (Some x, b')" "in_step a' b'" "length y = length x"
    using RC4_roundtrip [OF r(4) x] by metis
  have "RC4_EncryptTo (length x + EncryptToSlack) x a = (Some y, a')"
    using RC4_EncryptTo_capacity [OF _ r(4) x] y(1) by simp
  moreover have "RC4_DecryptInPlace y b = (Some x, b')"
    using RC4_EncryptTo_capacity [of y "length y" b b] y(2,4) r(4) x
    by (cases "y = []") (auto simp: RC4_DecryptInPlace_def RC4_Decrypt_def in_step_def)
  ultimately show thesis
    using that [of y "c\<lparr>ct_rc4 := Some a'\<rparr>" "d\<lparr>ct_rc4 := Some b'\<rparr>"] y r None
    by (simp add: ct_call_def Ciphertext_Encrypt_def Ciphertext_EncryptTo_def Ciphertext_Decrypt_def CanDecryptInPlace_def
        DecryptInPlace_def in_sync_def)
qed

section \<open>Construction\<close>

text \<open>What the code relies on of OpenSSL: stream ciphers keep the length and are inverse, keys have the length of their cipher.\<close>

definition aes_names :: "string list" where
  "aes_names = [''aes-128-cfb'', ''aes-256-cfb'', ''aes-128-gcm'', ''aes-256-gcm'']"

definition aes_key_bytes :: "string \<Rightarrow> nat" where
  "aes_key_bytes m = (if m \<in> {''aes-128-cfb'', ''aes-128-gcm''} then 16 else 32)"

definition lib_ok :: "crypto_lib \<Rightarrow> bool" where
  "lib_ok lib \<longleftrightarrow>
     (\<forall>m pw. ssl_cipherbyname lib m \<longrightarrow>
        (\<exists>key iv. ssl_BytesToKey lib m pw = Some (key, iv) \<and> (m \<in> set aes_names \<longrightarrow> length key = aes_key_bytes m))) \<and>
     (\<forall>m enc. ssl_cipherbyname lib m \<longrightarrow> ssl_context lib m enc) \<and>
     (\<forall>m key iv x. ssl_cipherbyname lib m \<longrightarrow> ssl_block_size lib m = 1 \<longrightarrow> x \<noteq> [] \<longrightarrow>
        (\<exists>y. ssl_update lib m key iv True x = Some y \<and> length y = length x \<and> ssl_update lib m key iv False y = Some x)) \<and>
     (\<forall>m \<in> set aes_names. ssl_cipherbyname lib m) \<and>
     (\<forall>alg data. ssl_sha lib alg data \<noteq> [])"

lemma lib_ok_update:
  assumes "lib_ok lib" "ssl_cipherbyname lib m" "ssl_block_size lib m = 1" "x \<noteq> []"
  obtains y where "ssl_update lib m key iv True x = Some y" "length y = length x" "ssl_update lib m key iv False y = Some x"
  using assms unfolding lib_ok_def by blast

lemma lib_ok_key:
  assumes "lib_ok lib" "ssl_cipherbyname lib m"
  obtains key iv where "ssl_BytesToKey lib m pw = Some (key, iv)" "m \<in> set aes_names \<Longrightarrow> length key = aes_key_bytes m"
  using assms unfolding lib_ok_def by blast

lemma lib_ok_rest:
  assumes "lib_ok lib"
  shows "ssl_cipherbyname lib m \<Longrightarrow> ssl_context lib m enc" "m \<in> set aes_names \<Longrightarrow> ssl_cipherbyname lib m" "ssl_sha lib alg data \<noteq> []"
  using assms unfolding lib_ok_def by blast+

lemma aes_evp_sync:
  assumes "aes_ok (evp_aes e)"
  shows "evp_sync e e"
  unfolding evp_sync_def
proof (intro allI impI)
  fix x :: bytes assume x: "x \<noteq> []"
  let ?P = "AES_ProcessTo (cpu_sbox (evp_lib e)) (evp_aes e)"
  obtain y where y: "?P x True = Some y" "length y = length x" "?P y False = Some x"
    using AES_roundtrip [OF assms x] by metis
  moreover from y(2) x have "y \<noteq> []"
    by auto
  ultimately show "\<exists>y. EVP_Encrypt x e = Some y \<and> length y = length x \<and>
      (\<forall>capacity. length x + EncryptToSlack \<le> capacity \<longrightarrow> EVP_EncryptTo capacity x e = Some y) \<and>
      EVP_Decrypt y e = Some x \<and> (EVP_CanDecryptInPlace e \<longrightarrow> EVP_DecryptInPlace y e = Some x)"
    using assms x
    by (auto simp: aes_ok_def EVP_Encrypt_def EVP_EncryptTo_def EVP_Decrypt_def EVP_DecryptInPlace_def AES_Process_def
        intro!: exI [of _ y])
qed

lemma openssl_evp_sync:
  assumes "lib_ok (evp_lib e)" "\<not> AES_IsAttached (evp_aes e)" "evp_cipher e = Some m" "ssl_cipherbyname (evp_lib e) m"
    "ssl_block_size (evp_lib e) m = 1" "evp_encryptCTX e" "evp_decryptCTX e"
  shows "evp_sync e e"
  unfolding evp_sync_def
proof (intro allI impI)
  fix x :: bytes assume x: "x \<noteq> []"
  obtain y where y: "EVP_update True x e = Some y" "length y = length x" "EVP_update False y e = Some x"
    using lib_ok_update [OF assms(1,4,5) x] assms(3) unfolding EVP_update_def by (metis option.sel)
  moreover from y(2) x have "y \<noteq> []"
    by auto
  ultimately show "\<exists>y. EVP_Encrypt x e = Some y \<and> length y = length x \<and>
      (\<forall>capacity. length x + EncryptToSlack \<le> capacity \<longrightarrow> EVP_EncryptTo capacity x e = Some y) \<and>
      EVP_Decrypt y e = Some x \<and> (EVP_CanDecryptInPlace e \<longrightarrow> EVP_DecryptInPlace y e = Some x)"
    using assms x
    by (auto simp: EVP_Encrypt_def EVP_EncryptTo_def EVP_Decrypt_def EVP_DecryptInPlace_def EVP_block_size_def EncryptToSlack_def
        intro!: exI [of _ y])
qed

lemma EVP_initKey_ok:
  assumes "lib_ok (evp_lib e)" "ssl_cipherbyname (evp_lib e) m"
  obtains key iv where "EVP_initKey m pw e = (True, e\<lparr>evp_cipher := Some m, evp_key := key, evp_iv := iv\<rparr>)"
    "m \<in> set aes_names \<Longrightarrow> length key = aes_key_bytes m"
proof -
  obtain key iv where "ssl_BytesToKey (evp_lib e) m pw = Some (key, iv)" "m \<in> set aes_names \<Longrightarrow> length key = aes_key_bytes m"
    using lib_ok_key [OF assms] by blast
  then show thesis
    using that assms(2) by (simp add: EVP_initKey_def Let_def)
qed

lemma EVP_openssl_sync:
  assumes "lib_ok (evp_lib e)" "ssl_cipherbyname (evp_lib e) m" "ssl_block_size (evp_lib e) m = 1" "\<not> AES_IsAttached (evp_aes e)"
  shows "evp_sync (EVP_openssl m pw e) (EVP_openssl m pw e)"
proof -
  obtain key iv where k: "EVP_initKey m pw e = (True, e\<lparr>evp_cipher := Some m, evp_key := key, evp_iv := iv\<rparr>)"
    using EVP_initKey_ok [OF assms(1,2)] by metis
  have "EVP_openssl m pw e =
      e\<lparr>evp_cipher := Some m, evp_key := key, evp_iv := iv, evp_encryptCTX := True, evp_decryptCTX := True\<rparr>"
    using lib_ok_rest(1) [OF assms(1,2)] by (simp add: EVP_openssl_def k EVP_initCipher_def Let_def)
  then show ?thesis
    using assms by (intro openssl_evp_sync [where m = m]) simp_all
qed

lemma AES_Support_names:
  "AES_Support cpu method = Some (i128m, bgctr, name) \<Longrightarrow>
   cpu \<and> name \<in> set aes_names \<and> aes_key_bytes name = (if i128m then 16 else 32)"
  by (auto simp: AES_Support_def aes_names_def aes_key_bytes_def split: if_splits)

text \<open>A method whose cipher runs on the processor, or is a stream cipher of OpenSSL.\<close>

definition stream_method :: "crypto_lib \<Rightarrow> string \<Rightarrow> bool" where
  "stream_method lib method \<longleftrightarrow>
     AES_Support (cpu_aes lib) method \<noteq> None \<or> ssl_cipherbyname lib method \<and> ssl_block_size lib method = 1"

lemma EVP_new_sync:
  assumes "lib_ok lib" "stream_method lib method"
  shows "evp_sync (EVP_new lib method pw) (EVP_new lib method pw)"
proof -
  let ?e = "\<lparr>evp_lib = lib, evp_cipher = None, evp_key = [], evp_iv = [], evp_encryptCTX = False,
    evp_decryptCTX = False, evp_aes = AES_new\<rparr>"
  show ?thesis
  proof (cases "AES_Support (cpu_aes lib) (EVP_probe lib method)")
    case None
    then have "EVP_new lib method pw = EVP_openssl method pw ?e"
      by (simp add: EVP_new_def Let_def)
    moreover have "ssl_cipherbyname lib method \<and> ssl_block_size lib method = 1"
      using assms(2) None by (auto simp: stream_method_def EVP_probe_def Let_def split: if_splits)
    ultimately show ?thesis
      using EVP_openssl_sync [of ?e "method" pw] assms(1) by (simp add: AES_new_def AES_IsAttached_def)
  next
    case (Some r)
    obtain i128m bgctr name where r: "r = (i128m, bgctr, name)"
      by (cases r)
    note names = AES_Support_names [OF Some [unfolded r]]
    have lib: "lib_ok (evp_lib ?e)" "ssl_cipherbyname (evp_lib ?e) name"
      using assms(1) lib_ok_rest(2) [OF assms(1)] names by simp_all
    obtain key iv where k: "EVP_initKey name pw ?e = (True, ?e\<lparr>evp_cipher := Some name, evp_key := key, evp_iv := iv\<rparr>)"
        "name \<in> set aes_names \<Longrightarrow> length key = aes_key_bytes name"
      using EVP_initKey_ok [OF lib] by metis
    obtain a where a: "AES_TryAttach (cpu_aes lib) (cpu_sbox lib) key iv i128m bgctr AES_new = (True, a)"
      using names by (simp add: AES_TryAttach_def)
    then have "aes_ok a"
      using AES_TryAttach_ok names k(2) by metis
    moreover have "evp_aes (EVP_new lib method pw) = a"
      using Some r k(1) a by (simp add: EVP_new_def Let_def)
    ultimately show ?thesis
      by (intro aes_evp_sync) simp
  qed
qed

lemma hash_hmac_hex_nonempty: "lib_ok lib \<Longrightarrow> text_bytes (hash_hmac_hex (ssl_sha lib) buffer digest alg up data) \<noteq> []"
proof -
  assume "lib_ok lib"
  have hex: "d \<noteq> [] \<Longrightarrow> text_bytes (bytesToHexString d up) \<noteq> []" for d
    by (cases d) (simp_all add: text_bytes_def bytesToHexString_def)
  have "length (md5_digest (MD5_final m)) = 16" for m
    by (simp add: MD5_final_def Let_def split: prod.split)
  then have "length (fst (MD5_digest (MD5_of buffer digest data))) = 16"
    by (simp add: MD5_of_def MD5_digest_def Let_def)
  then have "fst (MD5_digest (MD5_of buffer digest data)) \<noteq> []"
    by (metis list.size(3) zero_neq_numeral)
  then show ?thesis
    using hex lib_ok_rest(3) [OF \<open>lib_ok lib\<close>] by (simp add: hash_hmac_hex_def ComputeMD5_def MD5_toString_def)
qed

lemma Ciphertext_new_sync:
  assumes "lib_ok lib" "method \<noteq> []" "password \<noteq> []" "EVP_Support lib method \<longrightarrow> stream_method lib method"
    and "Ciphertext_Support lib method"
  shows "in_sync (Ciphertext_new lib method password) (Ciphertext_new lib method password)"
proof (cases "EVP_Support lib method")
  case True
  then show ?thesis
    using assms EVP_new_sync by (simp add: Ciphertext_new_def in_sync_def)
next
  case False
  let ?h = "\<lambda>alg data. text_bytes (hash_hmac_hex (ssl_sha lib) (replicate 64 0) (replicate 16 0) alg False data)"
  have "RC4_Support method"
    using False assms(5) by (simp add: Ciphertext_Support_def)
  then obtain r where r: "RC4_Create ?h method password = Some r"
    using assms(2) by (auto simp: RC4_Create_def RC4_Support_def rc4_methods_def split: if_splits)
  then have "in_step r r"
    using RC4_Create_in_step hash_hmac_hex_nonempty [OF assms(1)] assms(3) by blast
  then show ?thesis
    using False \<open>RC4_Support method\<close> r assms(2,3) by (simp add: Ciphertext_new_def in_sync_def)
qed

end
