(* ===== verification/Transmission.thy ===== *)
theory Transmission
  imports Evp Checksum
begin

text \<open>
  The framing of a carrier, \<^verbatim>\<open>src/ppp/transmissions/ITransmission.cpp\<close>: the obfuscated three-byte header and the
  payload transforms of a packet, the Base94 envelope before the handshake and in plaintext mode, and reading and
  writing messages on the byte stream. The ciphers are the \<open>Ciphertext\<close> objects of \<open>Evp\<close>, whose state is threaded through
  every call.

  The random draws of a packet are arguments, as is the SIMD implementation of the byte transforms. A stream is the
  list of the bytes still to come; a read that the stream cannot serve fails. Allocation succeeds.
\<close>

unbundle bit_operations_syntax

section \<open>Configuration and state\<close>

text \<open>The framing keys of the configuration; \<open>key_kf\<close> is a 32-bit integer.\<close>

record key_config =
  key_kf :: u32
  key_kl :: nat
  key_kh :: nat
  key_kx :: nat
  key_masked :: bool
  key_plaintext :: bool
  key_delta_encode :: bool
  key_shuffle_data :: bool
  key_protocol :: string
  key_protocol_key :: bytes
  key_transport :: string
  key_transport_key :: bytes

definition IsHaveCiphertext :: "key_config \<Rightarrow> bool" where
  "IsHaveCiphertext cfg \<longleftrightarrow>
     key_protocol cfg \<noteq> [] \<and> key_protocol_key cfg \<noteq> [] \<and> key_transport cfg \<noteq> [] \<and> key_transport_key cfg \<noteq> []"

definition Lcgmod :: "key_config \<Rightarrow> nat" where
  "Lcgmod cfg = nat (lcgmod (key_kf cfg) (64 * 64 * 64) (94 * 94 * 94))"

record ssea_simd =
  simd_b94_encode :: "bytes \<Rightarrow> int \<Rightarrow> bytes option"
  simd_b94_decode :: "bytes \<Rightarrow> int \<Rightarrow> bytes option"
  simd_delta_encode :: "bytes \<Rightarrow> int \<Rightarrow> bytes option"
  simd_delta_decode :: "bytes \<Rightarrow> int \<Rightarrow> bytes option"

record ITransmission =
  disposed :: bool
  handshaked :: bool
  frame_tn :: bool
  frame_rn :: bool
  protocol :: "Ciphertext option"
  transport :: "Ciphertext option"
  peer_supports_transport_auth_v1 :: bool
  peer_enables_transport_auth_v1 :: bool
  server_loopback_ingress :: bool

definition ITransmission_new :: "crypto_lib \<Rightarrow> key_config \<Rightarrow> ITransmission" where
  "ITransmission_new lib cfg =
     (let s = \<lparr>disposed = False, handshaked = False, frame_tn = False, frame_rn = False, protocol = None, transport = None,
               peer_supports_transport_auth_v1 = False, peer_enables_transport_auth_v1 = False, server_loopback_ingress = False\<rparr>
      in if IsHaveCiphertext cfg
         then if Ciphertext_Support lib (key_protocol cfg) \<and> Ciphertext_Support lib (key_transport cfg)
              then s\<lparr>protocol := Some (Ciphertext_new lib (key_protocol cfg) (key_protocol_key cfg)),
                     transport := Some (Ciphertext_new lib (key_transport cfg) (key_transport_key cfg))\<rparr>
              else s
         else s)"

definition ITransmission_Finalize :: "ITransmission \<Rightarrow> ITransmission" where
  "ITransmission_Finalize s = s\<lparr>disposed := True, handshaked := False\<rparr>"

definition EVP_HEADER_TSS :: nat where
  "EVP_HEADER_TSS = 2"

definition EVP_HEADER_MSS :: nat where
  "EVP_HEADER_MSS = EVP_HEADER_TSS + 1"

definition EVP_HEADER_XSS :: nat where
  "EVP_HEADER_XSS = EVP_HEADER_MSS + 1"

definition PPP_BUFFER_SIZE :: nat where
  "PPP_BUFFER_SIZE = 65536"

definition EVP_BASE94_MAX_FRAME :: nat where
  "EVP_BASE94_MAX_FRAME = PPP_BUFFER_SIZE * 2 + 64"

section \<open>Packet header\<close>

definition xor_key :: "u32 \<Rightarrow> bytes \<Rightarrow> bytes" where
  "xor_key kf xs = map (\<lambda>b. b XOR ucast kf) xs"

text \<open>Use of the protocol cipher on the length field; without a cipher the field stays as it is.\<close>

definition length_field :: "(bytes \<Rightarrow> Ciphertext \<Rightarrow> bytes option \<times> Ciphertext) \<Rightarrow> bytes \<Rightarrow> Ciphertext option
    \<Rightarrow> bytes option \<times> Ciphertext option" where
  "length_field crypt field p =
     (case p of
        None \<Rightarrow> (Some field, None)
      | Some c \<Rightarrow>
          let (r, c) = crypt field c
          in ((case r of Some b \<Rightarrow> if length b = EVP_HEADER_TSS then Some b else None | None \<Rightarrow> None), Some c))"

definition Transmission_Header_Encrypt :: "ssea_simd \<Rightarrow> key_config \<Rightarrow> u8 \<Rightarrow> Ciphertext option \<Rightarrow> nat
    \<Rightarrow> (bytes \<times> u32) option \<times> Ciphertext option" where
  "Transmission_Header_Encrypt simd cfg seed p payload_length =
     (if payload_length = 0 then (None, p)
      else let n = payload_length - 1;
               header_kf = key_kf cfg XOR ucast seed;
               (field, p) = length_field Ciphertext_Encrypt [of_nat (n div 256), of_nat (n mod 256)] p
           in case field of
                None \<Rightarrow> (None, p)
              | Some field \<Rightarrow>
                  (case delta_encode (simd_delta_encode simd) (seed # shuffle_data (xor_key header_kf field) header_kf)
                          (sint (key_kf cfg)) of
                     Some output \<Rightarrow> (if length output = EVP_HEADER_MSS then Some (output, header_kf) else None, p)
                   | None \<Rightarrow> (None, p)))"

definition Transmission_Header_Decrypt :: "ssea_simd \<Rightarrow> key_config \<Rightarrow> Ciphertext option \<Rightarrow> bytes
    \<Rightarrow> nat \<times> u32 \<times> Ciphertext option" where
  "Transmission_Header_Decrypt simd cfg p header =
     (case delta_decode (simd_delta_decode simd) (take EVP_HEADER_MSS header) (sint (key_kf cfg)) of
        None \<Rightarrow> (0, 0, p)
      | Some array \<Rightarrow>
          if length array \<noteq> EVP_HEADER_MSS then (0, 0, p)
          else let header_kf = key_kf cfg XOR ucast (array ! 0);
                   field = xor_key header_kf (unshuffle_data (drop 1 array) header_kf);
                   (field, p) = length_field Ciphertext_Decrypt field p
               in case field of
                    None \<Rightarrow> (0, header_kf, p)
                  | Some field \<Rightarrow> (unat (field ! 0) * 256 + unat (field ! 1) + 1, header_kf, p))"

section \<open>Packet payload\<close>

definition Payload_Encrypt_Partial :: "key_config \<Rightarrow> u32 \<Rightarrow> bool \<Rightarrow> bytes \<Rightarrow> bytes" where
  "Payload_Encrypt_Partial cfg kf safest data =
     (let data = (if safest \<or> key_masked cfg then masked_xor_random_next data kf else data)
      in if safest \<or> key_shuffle_data cfg then shuffle_data data kf else data)"

definition Payload_Encrypt :: "ssea_simd \<Rightarrow> key_config \<Rightarrow> u32 \<Rightarrow> bool \<Rightarrow> bytes \<Rightarrow> bytes option" where
  "Payload_Encrypt simd cfg kf safest data =
     (let output = Payload_Encrypt_Partial cfg kf safest data
      in if safest \<or> key_delta_encode cfg
         then (case delta_encode (simd_delta_encode simd) output (sint (key_kf cfg)) of
                 Some encoded \<Rightarrow> if length encoded = length data then Some encoded else None
               | None \<Rightarrow> None)
         else Some output)"

definition Payload_Decrypt_Partial :: "key_config \<Rightarrow> u32 \<Rightarrow> bool \<Rightarrow> bytes \<Rightarrow> bytes" where
  "Payload_Decrypt_Partial cfg kf safest data =
     (let data = (if safest \<or> key_shuffle_data cfg then unshuffle_data data kf else data)
      in if safest \<or> key_masked cfg then masked_xor_random_next data kf else data)"

definition Payload_Decrypt :: "ssea_simd \<Rightarrow> key_config \<Rightarrow> u32 \<Rightarrow> bool \<Rightarrow> bytes \<Rightarrow> bytes option" where
  "Payload_Decrypt simd cfg kf safest data =
     (if safest \<or> key_delta_encode cfg
      then (case delta_decode (simd_delta_decode simd) data (sint (key_kf cfg)) of
              Some decoded \<Rightarrow>
                if length decoded = length data then Some (Payload_Decrypt_Partial cfg kf safest decoded) else None
            | None \<Rightarrow> None)
      else Some (Payload_Decrypt_Partial cfg kf safest data))"

definition Transport_Decrypt :: "bytes \<Rightarrow> Ciphertext \<Rightarrow> bytes option \<times> Ciphertext" where
  "Transport_Decrypt payload c = (if CanDecryptInPlace c then DecryptInPlace payload c else Ciphertext_Decrypt payload c)"

section \<open>Packets\<close>

text \<open>A value of the length of the input, or nothing.\<close>

definition same_length :: "bytes \<Rightarrow> bytes option \<Rightarrow> bytes option" where
  "same_length data r = (case r of Some b \<Rightarrow> if length b = length data then Some b else None | None \<Rightarrow> None)"

definition Packet_Encrypt :: "ssea_simd \<Rightarrow> key_config \<Rightarrow> u8 \<Rightarrow> bool \<Rightarrow> Ciphertext option \<Rightarrow> Ciphertext option \<Rightarrow> bytes
    \<Rightarrow> bytes option \<times> Ciphertext option \<times> Ciphertext option" where
  "Packet_Encrypt simd cfg seed safest p t data =
     (case (p, t) of
        (Some _, Some c) \<Rightarrow>
          let direct = \<not> (safest \<or> key_delta_encode cfg);
              (payload, c) = (if direct then Ciphertext_EncryptTo (length data + EncryptToSlack) data c
                              else Ciphertext_Encrypt data c)
          in (case same_length data payload of
                None \<Rightarrow> (None, p, Some c)
              | Some payload \<Rightarrow>
                  let (header, p) = Transmission_Header_Encrypt simd cfg seed p (length payload)
                  in (case header of
                        None \<Rightarrow> (None, p, Some c)
                      | Some (header, header_kf) \<Rightarrow>
                          let payload = (if direct then Some (Payload_Encrypt_Partial cfg header_kf safest payload)
                                         else Payload_Encrypt simd cfg header_kf safest payload)
                          in (map_option (\<lambda>payload. header @ payload) payload, p, Some c)))
      | _ \<Rightarrow>
          let (header, p) = Transmission_Header_Encrypt simd cfg seed p (length data)
          in (case header of
                None \<Rightarrow> (None, p, t)
              | Some (header, header_kf) \<Rightarrow>
                  (map_option (\<lambda>payload. header @ payload) (Payload_Encrypt simd cfg header_kf safest data), p, t)))"

text \<open>What follows the header on the reading side, in memory and from the stream.\<close>

definition Packet_Open :: "ssea_simd \<Rightarrow> key_config \<Rightarrow> u32 \<Rightarrow> bool \<Rightarrow> Ciphertext option \<Rightarrow> Ciphertext option \<Rightarrow> bytes
    \<Rightarrow> bytes option \<times> Ciphertext option \<times> Ciphertext option" where
  "Packet_Open simd cfg header_kf safest p t payload =
     (case Payload_Decrypt simd cfg header_kf safest payload of
        None \<Rightarrow> (None, p, t)
      | Some data \<Rightarrow>
          (case (p, t) of
             (Some _, Some c) \<Rightarrow>
               let (r, c) = Transport_Decrypt data c in (same_length data r, p, Some c)
           | _ \<Rightarrow> (Some data, p, t)))"

definition Packet_Decrypt :: "ssea_simd \<Rightarrow> key_config \<Rightarrow> bool \<Rightarrow> Ciphertext option \<Rightarrow> Ciphertext option \<Rightarrow> bytes
    \<Rightarrow> bytes option \<times> Ciphertext option \<times> Ciphertext option" where
  "Packet_Decrypt simd cfg safest p t data =
     (if length data \<le> EVP_HEADER_MSS then (None, p, t)
      else let (payload_len, header_kf, p) = Transmission_Header_Decrypt simd cfg p data
           in if payload_len < 1 then (None, p, t)
              else if payload_len > PPP_BUFFER_SIZE then (None, p, t)
              else if payload_len + EVP_HEADER_MSS \<noteq> length data then (None, p, t)
              else Packet_Open simd cfg header_kf safest p t (drop EVP_HEADER_MSS data))"

definition ReadBytes :: "nat \<Rightarrow> bytes \<Rightarrow> (bytes \<times> bytes) option" where
  "ReadBytes n stream = (if n \<le> length stream then Some (take n stream, drop n stream) else None)"

definition Packet_Read :: "ssea_simd \<Rightarrow> key_config \<Rightarrow> bool \<Rightarrow> Ciphertext option \<Rightarrow> Ciphertext option \<Rightarrow> bytes
    \<Rightarrow> bytes option \<times> bytes \<times> Ciphertext option \<times> Ciphertext option" where
  "Packet_Read simd cfg safest p t stream =
     (case ReadBytes EVP_HEADER_MSS stream of
        None \<Rightarrow> (None, stream, p, t)
      | Some (header, stream) \<Rightarrow>
          let (payload_len, header_kf, p) = Transmission_Header_Decrypt simd cfg p header
          in if payload_len < 1 then (None, stream, p, t)
             else if payload_len > PPP_BUFFER_SIZE then (None, stream, p, t)
             else case ReadBytes payload_len stream of
                    None \<Rightarrow> (None, stream, p, t)
                  | Some (payload, stream) \<Rightarrow>
                      let (r, p, t) = Packet_Open simd cfg header_kf safest p t payload in (r, stream, p, t))"

section \<open>Base94 envelope\<close>

text \<open>The random draws of one message: the header seed and the key and filler bytes of the envelope.\<close>

record draws =
  draw_seed :: u8
  draw_k :: u8
  draw_f :: u8

definition KF_MOD :: "key_config \<Rightarrow> nat" where
  "KF_MOD cfg = nat \<bar>sint (key_kf cfg) smod int (Lcgmod cfg)\<bar>"

text \<open>The key byte is even exactly when the filler byte replaces a leading zero digit.\<close>

definition obfuscate_header :: "draws \<Rightarrow> bytes \<Rightarrow> bytes" where
  "obfuscate_header rnd h =
     (let k = draw_k rnd; f = h ! 1;
          (k, f) = (if f = 0x20
                    then (if k AND 1 \<noteq> 0 then k + 1 else k, draw_f rnd)
                    else if k AND 1 = 0 then (if k + 1 > 0x7e then 0x21 else k + 1, f)
                    else (k, f))
      in [k, f, h ! 3, h ! 2])"

definition base94_encode_length :: "key_config \<Rightarrow> draws \<Rightarrow> bool \<Rightarrow> nat \<Rightarrow> bytes option \<times> bool" where
  "base94_encode_length cfg rnd tn len =
     (let modulus = Lcgmod cfg;
          n = (len + KF_MOD cfg) mod modulus;
          d = base94_decimal (of_nat n);
          dl = length d
      in if dl < 1 \<or> dl \<ge> EVP_HEADER_XSS then (None, tn)
         else let h = obfuscate_header rnd (replicate (EVP_HEADER_XSS - dl) 0x20 @ d)
              in if tn then (Some h, tn)
                 else let K = unat (inet_chksum h) XOR len;
                          n = (K + KF_MOD cfg) mod modulus;
                          d = base94_decimal (of_nat n)
                      in if length d \<noteq> EVP_HEADER_MSS then (None, tn)
                         else (Some (h @ shuffle_data d (key_kf cfg)), True))"

definition base94_decode_length :: "key_config \<Rightarrow> bytes \<Rightarrow> nat" where
  "base94_decode_length cfg data =
     (unat (base94_decimal_parse (take EVP_HEADER_MSS data)) + Lcgmod cfg - KF_MOD cfg) mod Lcgmod cfg"

definition base94_decode_kf :: "bytes \<Rightarrow> bytes" where
  "base94_decode_kf h =
     [0x20, if h ! 0 AND 1 = 0 then 0x20 else h ! 1, h ! 3, h ! 2] @ drop 4 h"

definition envelope_encode :: "ssea_simd \<Rightarrow> key_config \<Rightarrow> draws \<Rightarrow> bool \<Rightarrow> bytes \<Rightarrow> bytes option \<times> bool" where
  "envelope_encode simd cfg rnd tn data =
     (case base94_encode (simd_b94_encode simd) data (sint (key_kf cfg)) of
        Inl _ \<Rightarrow> (None, tn)
      | Inr payload \<Rightarrow>
          let (k, tn) = base94_encode_length cfg rnd tn (length payload)
          in (case k of
                None \<Rightarrow> (None, tn)
              | Some k \<Rightarrow> (if length k < EVP_HEADER_XSS then None else Some (k @ payload), tn)))"

text \<open>The envelope in memory always has the short header.\<close>

definition envelope_decode :: "ssea_simd \<Rightarrow> key_config \<Rightarrow> bytes \<Rightarrow> bytes option" where
  "envelope_decode simd cfg data =
     (if length data < EVP_HEADER_XSS then None
      else let data = base94_decode_kf data;
               payload_length = base94_decode_length cfg (drop 1 data)
           in if payload_length < 1 then None
              else if payload_length > EVP_BASE94_MAX_FRAME then None
              else if payload_length + EVP_HEADER_XSS \<noteq> length data then None
              else case base94_decode (simd_b94_decode simd) (drop EVP_HEADER_XSS data) (sint (key_kf cfg)) of
                     Inl _ \<Rightarrow> None
                   | Inr decoded \<Rightarrow> Some decoded)"

definition decode_length_rn :: "key_config \<Rightarrow> bytes \<Rightarrow> nat option \<times> bytes" where
  "decode_length_rn cfg stream =
     (case ReadBytes EVP_HEADER_XSS stream of
        None \<Rightarrow> (None, stream)
      | Some (data, stream) \<Rightarrow>
          let len = base94_decode_length cfg (drop 1 (base94_decode_kf data))
          in (if len > 0 then Some len else None, stream))"

definition decode_length_r1 :: "key_config \<Rightarrow> bytes \<Rightarrow> nat option \<times> bytes" where
  "decode_length_r1 cfg stream =
     (case ReadBytes (EVP_HEADER_XSS + EVP_HEADER_MSS) stream of
        None \<Rightarrow> (None, stream)
      | Some (data, stream) \<Rightarrow>
          let K = unat (inet_chksum (take EVP_HEADER_XSS data));
              payload_length = base94_decode_length cfg (drop 1 (base94_decode_kf data))
          in if payload_length < 1 then (None, stream)
             else let pbc = unshuffle_data (drop EVP_HEADER_XSS data) (key_kf cfg);
                      n = base94_decode_length cfg pbc
                  in (if n \<noteq> K XOR payload_length then None else Some payload_length, stream))"

definition envelope_read :: "ssea_simd \<Rightarrow> key_config \<Rightarrow> bool \<Rightarrow> bytes \<Rightarrow> bytes option \<times> bytes \<times> bool" where
  "envelope_read simd cfg rn stream =
     (let (len, stream) = (if rn then decode_length_rn cfg stream else decode_length_r1 cfg stream)
      in case len of
           None \<Rightarrow> (None, stream, rn)
         | Some payload_length \<Rightarrow>
             if payload_length > EVP_BASE94_MAX_FRAME then (None, stream, True)
             else case ReadBytes payload_length stream of
                    None \<Rightarrow> (None, stream, True)
                  | Some (packet, stream) \<Rightarrow>
                      (case base94_decode (simd_b94_decode simd) packet (sint (key_kf cfg)) of
                         Inl _ \<Rightarrow> (None, stream, True)
                       | Inr decoded \<Rightarrow> (Some decoded, stream, True)))"

section \<open>Messages\<close>

definition both_ciphers :: "ITransmission \<Rightarrow> bool" where
  "both_ciphers s \<longleftrightarrow> protocol s \<noteq> None \<and> transport s \<noteq> None"

text \<open>The packet functions see both ciphers or none.\<close>

definition with_ciphers :: "(Ciphertext option \<Rightarrow> Ciphertext option \<Rightarrow> 'a \<times> Ciphertext option \<times> Ciphertext option) \<Rightarrow>
    ITransmission \<Rightarrow> 'a \<times> ITransmission" where
  "with_ciphers f s =
     (if both_ciphers s
      then let (r, p, t) = f (protocol s) (transport s) in (r, s\<lparr>protocol := p, transport := t\<rparr>)
      else let (r, p, t) = f None None in (r, s))"

definition EncryptBinary :: "ssea_simd \<Rightarrow> key_config \<Rightarrow> draws \<Rightarrow> bytes \<Rightarrow> ITransmission \<Rightarrow> bytes option \<times> ITransmission" where
  "EncryptBinary simd cfg rnd data s =
     with_ciphers (\<lambda>p t. Packet_Encrypt simd cfg (draw_seed rnd) (\<not> handshaked s) p t data) s"

definition DecryptBinary :: "ssea_simd \<Rightarrow> key_config \<Rightarrow> bytes \<Rightarrow> ITransmission \<Rightarrow> bytes option \<times> ITransmission" where
  "DecryptBinary simd cfg data s =
     with_ciphers (\<lambda>p t. Packet_Decrypt simd cfg (\<not> handshaked s) p t data) s"

definition ReadBinary :: "ssea_simd \<Rightarrow> key_config \<Rightarrow> bytes \<Rightarrow> ITransmission \<Rightarrow> (bytes option \<times> bytes) \<times> ITransmission" where
  "ReadBinary simd cfg stream s =
     with_ciphers (\<lambda>p t. let (r, stream, p, t) = Packet_Read simd cfg (\<not> handshaked s) p t stream in ((r, stream), p, t)) s"

definition uses_envelope :: "key_config \<Rightarrow> ITransmission \<Rightarrow> bool" where
  "uses_envelope cfg s \<longleftrightarrow> \<not> handshaked s \<or> key_plaintext cfg"

definition Transmission_Encrypt :: "ssea_simd \<Rightarrow> key_config \<Rightarrow> draws \<Rightarrow> bytes \<Rightarrow> ITransmission \<Rightarrow> bytes option \<times> ITransmission" where
  "Transmission_Encrypt simd cfg rnd data s =
     (case EncryptBinary simd cfg rnd data s of
        (None, s) \<Rightarrow> (None, s)
      | (Some packet, s) \<Rightarrow>
          if uses_envelope cfg s
          then let (packet, tn) = envelope_encode simd cfg rnd (frame_tn s) packet in (packet, s\<lparr>frame_tn := tn\<rparr>)
          else (Some packet, s))"

definition Transmission_Decrypt :: "ssea_simd \<Rightarrow> key_config \<Rightarrow> bytes \<Rightarrow> ITransmission \<Rightarrow> bytes option \<times> ITransmission" where
  "Transmission_Decrypt simd cfg data s =
     (if uses_envelope cfg s
      then case envelope_decode simd cfg data of
             None \<Rightarrow> (None, s)
           | Some packet \<Rightarrow> if packet = [] then (None, s) else DecryptBinary simd cfg packet s
      else DecryptBinary simd cfg data s)"

definition Transmission_Read :: "ssea_simd \<Rightarrow> key_config \<Rightarrow> bytes \<Rightarrow> ITransmission \<Rightarrow> bytes option \<times> bytes \<times> ITransmission" where
  "Transmission_Read simd cfg stream s =
     (if disposed s then (None, stream, s)
      else if uses_envelope cfg s
      then let (packet, stream, rn) = envelope_read simd cfg (frame_rn s) stream;
               s = s\<lparr>frame_rn := rn\<rparr>
           in (case packet of
                 None \<Rightarrow> (None, stream, s)
               | Some packet \<Rightarrow>
                   if packet = [] then (None, stream, s)
                   else let (r, s) = DecryptBinary simd cfg packet s in (r, stream, s))
      else let ((r, stream), s) = ReadBinary simd cfg stream s in (r, stream, s))"

text \<open>Writing hands the encoded bytes to the carrier.\<close>

definition Transmission_Write :: "ssea_simd \<Rightarrow> key_config \<Rightarrow> draws \<Rightarrow> bytes \<Rightarrow> ITransmission \<Rightarrow> bytes option \<times> ITransmission" where
  "Transmission_Write simd cfg rnd packet s =
     (if packet = [] then (None, s)
      else if disposed s then (None, s)
      else Transmission_Encrypt simd cfg rnd packet s)"


section \<open>Ciphers in step\<close>

text \<open>Both ends have a cipher in step, or neither has one.\<close>

fun opt_sync :: "Ciphertext option \<Rightarrow> Ciphertext option \<Rightarrow> bool" where
  "opt_sync None None \<longleftrightarrow> True"
| "opt_sync (Some c) (Some d) \<longleftrightarrow> in_sync c d"
| "opt_sync _ _ \<longleftrightarrow> False"

text \<open>The SIMD implementations may decline an input; otherwise they return what the scalar ones do.\<close>

definition simd_ok :: "ssea_simd \<Rightarrow> bool" where
  "simd_ok simd \<longleftrightarrow>
     (\<forall>d k. simd_b94_encode simd d k = None \<or> simd_b94_encode simd d k = base94_encode_scalar d k) \<and>
     (\<forall>d k. simd_b94_decode simd d k = None \<or> simd_b94_decode simd d k = base94_decode_scalar d k) \<and>
     (\<forall>d k. simd_delta_encode simd d k = None \<or> simd_delta_encode simd d k = delta_encode_scalar d k) \<and>
     (\<forall>d k. simd_delta_decode simd d k = None \<or> simd_delta_decode simd d k = delta_decode_scalar d k)"

section \<open>Packets survive\<close>

lemma delta_inverse:
  assumes "simd_ok simd" "data \<noteq> []"
  obtains e where "delta_encode (simd_delta_encode simd) data k = Some e" "length e = length data"
    "delta_decode (simd_delta_decode simd) e k = Some data"
proof -
  let ?e = "case data of [] \<Rightarrow> [] | x # xs \<Rightarrow> (x - of_int k) # diffs x xs"
  have len: "length (diffs x xs) = length xs" for x xs
    by (induction xs arbitrary: x) simp_all
  have "delta_encode (simd_delta_encode simd) data k = delta_encode_scalar data k"
    using assms(1) unfolding simd_ok_def by (intro delta_dispatch) blast
  moreover have "delta_decode (simd_delta_decode simd) ?e k = delta_decode_scalar ?e k"
    using assms(1) unfolding simd_ok_def by (intro delta_dispatch_decode) blast
  ultimately show thesis
    using assms(2) that [of ?e]
    by (cases data) (auto simp: delta_encode_scalar_def delta_decode_scalar_def sums_diffs len)
qed

lemma unshuffle_shuffle: "length xs < 2 ^ 31 \<Longrightarrow> unshuffle_data (shuffle_data xs key) key = xs"
  using shuffle_inverse [of xs key] by simp

lemma length_shuffle_data [simp]: "length xs < 2 ^ 31 \<Longrightarrow> length (shuffle_data xs key) = length xs"
  using shuffle_inverse [of xs key] by (metis mset_eq_length)

lemma xor_key_xor_key [simp]: "xor_key kf (xor_key kf xs) = xs"
  by (simp add: xor_key_def comp_def xor_xor_byte)

lemma length_xor_key [simp]: "length (xor_key kf xs) = length xs"
  by (simp add: xor_key_def)

lemma length_field_roundtrip:
  assumes "opt_sync p q" "length field = 2"
  obtains y p' q' where "length_field Ciphertext_Encrypt field p = (Some y, p')" "length y = 2" "opt_sync p' q'"
    "length_field Ciphertext_Decrypt y q = (Some field, q')" "p' = None \<longleftrightarrow> p = None" "q' = None \<longleftrightarrow> q = None"
proof (cases p)
  case None
  then show thesis
    using assms that [of field None None] by (cases q) (auto simp: length_field_def)
next
  case (Some c)
  then obtain d where d: "q = Some d" "in_sync c d"
    using assms(1) by (cases q) auto
  have "field \<noteq> []"
    using assms(2) by auto
  then obtain y c' d' where "Ciphertext_Encrypt field c = (Some y, c')" "length y = length field" "in_sync c' d'"
      "Ciphertext_Decrypt y d = (Some field, d')"
    using cipher_roundtrip [OF d(2)] by metis
  then show thesis
    using that [of y "Some c'" "Some d'"] assms(2) by (simp add: length_field_def Some d(1) EVP_HEADER_TSS_def)
qed


lemma header_value: "0 < n \<Longrightarrow> n \<le> 65536 \<Longrightarrow>
  unat (of_nat ((n - 1) div 256) :: u8) * 256 + unat (of_nat ((n - 1) mod 256) :: u8) + 1 = n"
proof -
  assume n: "0 < n" "n \<le> 65536"
  have "(n - 1) div 256 < 256"
    using n by (simp add: less_mult_imp_div_less)
  then have "unat (of_nat ((n - 1) div 256) :: u8) = (n - 1) div 256" "unat (of_nat ((n - 1) mod 256) :: u8) = (n - 1) mod 256"
    by (simp_all add: unat_small)
  then show ?thesis
    using n div_mult_mod_eq [of "n - 1" 256] by simp
qed

lemma two_bytes: "length y = 2 \<Longrightarrow> \<exists>a b. y = [a, b]"
  by (auto simp: numeral_2_eq_2 length_Suc_conv)

lemma header_roundtrip:
  assumes "simd_ok simd" "opt_sync p q" "0 < n" "n \<le> 65536"
  obtains out kf p' q' where "Transmission_Header_Encrypt simd cfg seed p n = (Some (out, kf), p')" "length out = 3"
    "opt_sync p' q'" "\<forall>rest. Transmission_Header_Decrypt simd cfg q (out @ rest) = (n, kf, q')"
    "p' = None \<longleftrightarrow> p = None" "q' = None \<longleftrightarrow> q = None"
proof -
  let ?field = "[of_nat ((n - 1) div 256), of_nat ((n - 1) mod 256)] :: bytes"
  let ?kf = "key_kf cfg XOR ucast seed :: u32"
  obtain y p' q' where y: "length_field Ciphertext_Encrypt ?field p = (Some y, p')" "length y = 2" "opt_sync p' q'"
      "length_field Ciphertext_Decrypt y q = (Some ?field, q')" "p' = None \<longleftrightarrow> p = None" "q' = None \<longleftrightarrow> q = None"
    using length_field_roundtrip [OF assms(2), of ?field] by auto
  let ?plain = "seed # shuffle_data (xor_key ?kf y) ?kf"
  obtain e where e: "delta_encode (simd_delta_encode simd) ?plain (sint (key_kf cfg)) = Some e" "length e = length ?plain"
      "delta_decode (simd_delta_decode simd) e (sint (key_kf cfg)) = Some ?plain"
    using delta_inverse [OF assms(1), of ?plain] by blast
  have len: "length ?plain = 3"
    using y(2) by simp
  have "Transmission_Header_Encrypt simd cfg seed p n = (Some (e, ?kf), p')"
    using assms(3) y(1) e(1,2) len by (simp add: Transmission_Header_Encrypt_def Let_def EVP_HEADER_MSS_def EVP_HEADER_TSS_def)
  moreover have "Transmission_Header_Decrypt simd cfg q (e @ rest) = (n, ?kf, q')" for rest
    using e(2,3) len y(2,4) header_value [OF assms(3,4)]
    by (simp add: Transmission_Header_Decrypt_def Let_def EVP_HEADER_MSS_def EVP_HEADER_TSS_def unshuffle_shuffle)
  ultimately show thesis
    using that [of e ?kf p' q'] y(3,5,6) e(2) len by simp
qed

lemma length_xor_tail [simp]: "length (xor_random_tail data kf) = length data"
  by (induction data kf rule: xor_random_tail.induct) simp_all

lemma payload_partial:
  assumes "length data < 2 ^ 31"
  shows "Payload_Decrypt_Partial cfg kf safest (Payload_Encrypt_Partial cfg kf safest data) = data"
    "length (Payload_Encrypt_Partial cfg kf safest data) = length data"
  using assms by (auto simp: Payload_Decrypt_Partial_def Payload_Encrypt_Partial_def Let_def masked_xor_random_next_def
      xor_random_tail_involution unshuffle_shuffle)

lemma payload_roundtrip:
  assumes "simd_ok simd" "data \<noteq> []" "length data < 2 ^ 31"
  obtains e where "Payload_Encrypt simd cfg kf safest data = Some e" "length e = length data"
    "Payload_Decrypt simd cfg kf safest e = Some data"
proof (cases "safest \<or> key_delta_encode cfg")
  case True
  let ?d = "Payload_Encrypt_Partial cfg kf safest data"
  have ne: "?d \<noteq> []"
    using payload_partial(2) [OF assms(3), of cfg kf safest] assms(2) by auto
  obtain e where "delta_encode (simd_delta_encode simd) ?d (sint (key_kf cfg)) = Some e" "length e = length ?d"
      "delta_decode (simd_delta_decode simd) e (sint (key_kf cfg)) = Some ?d"
    using delta_inverse [OF assms(1) ne] by blast
  then show thesis
    using that [of e] True payload_partial [OF assms(3), of cfg kf safest]
    by (simp add: Payload_Encrypt_def Payload_Decrypt_def)
next
  case False
  then show thesis
    using that [of "Payload_Encrypt_Partial cfg kf safest data"] payload_partial [OF assms(3), of cfg kf safest]
    by (simp add: Payload_Encrypt_def Payload_Decrypt_def)
qed

text \<open>
  What the writer of a packet and its reader do, past the ciphers: the bytes \<open>body\<close> under the header are put on the wire,
  and the reader gets to open them with the header key.
\<close>

definition packs :: "ssea_simd \<Rightarrow> key_config \<Rightarrow> bool \<Rightarrow> Ciphertext option \<Rightarrow> bytes \<Rightarrow> bytes \<Rightarrow> u32 \<Rightarrow> Ciphertext option \<Rightarrow> bool" where
  "packs simd cfg safest q pk body kf q' \<longleftrightarrow>
     (\<forall>u. Packet_Decrypt simd cfg safest q u pk = Packet_Open simd cfg kf safest q' u body) \<and>
     (\<forall>u rest. Packet_Read simd cfg safest q u (pk @ rest) =
        (let (r, p, t) = Packet_Open simd cfg kf safest q' u body in (r, rest, p, t)))"

lemma packsI:
  assumes "\<forall>rest. Transmission_Header_Decrypt simd cfg q (out @ rest) = (n, kf, q')" "length out = 3" "length body = n"
    and "0 < n" "n \<le> 65536"
  shows "packs simd cfg safest q (out @ body) body kf q'"
  using assms assms(1) [rule_format, of "[]"]
  by (auto simp: packs_def Packet_Decrypt_def Packet_Read_def ReadBytes_def EVP_HEADER_MSS_def EVP_HEADER_TSS_def
      PPP_BUFFER_SIZE_def Let_def)

lemma transport_decrypt:
  assumes "in_sync c d" "x \<noteq> []"
  obtains y c' d' where "Ciphertext_Encrypt x c = (Some y, c')" "length y = length x" "in_sync c' d'"
    "Ciphertext_EncryptTo (length x + EncryptToSlack) x c = (Some y, c')" "Transport_Decrypt y d = (Some x, d')"
  using cipher_roundtrip [OF assms] unfolding Transport_Decrypt_def by (metis (full_types))

lemma packet_ciphered:
  assumes "simd_ok simd" "in_sync c0 d0" "in_sync c d" "data \<noteq> []" "length data \<le> 65536"
  obtains pk c0' d0' c' d' body kf where "Packet_Encrypt simd cfg seed safest (Some c0) (Some c) data = (Some pk, Some c0', Some c')"
    "length pk = length data + 3" "in_sync c0' d0'" "in_sync c' d'" "packs simd cfg safest (Some d0) pk body kf (Some d0')"
    "Packet_Open simd cfg kf safest (Some d0') (Some d) body = (Some data, Some d0', Some d')"
proof -
  obtain y c' d' where y: "Ciphertext_Encrypt data c = (Some y, c')" "length y = length data" "in_sync c' d'"
      "Ciphertext_EncryptTo (length data + EncryptToSlack) data c = (Some y, c')" "Transport_Decrypt y d = (Some data, d')"
    using transport_decrypt [OF assms(3,4)] by metis
  have n: "0 < length y" "length y \<le> 65536" "y \<noteq> []" "length y < 2 ^ 31"
    using y(2) assms(4,5) by auto
  have sync: "opt_sync (Some c0) (Some d0)"
    using assms(2) by simp
  obtain out kf p' q' where h: "Transmission_Header_Encrypt simd cfg seed (Some c0) (length y) = (Some (out, kf), p')"
      "length out = 3" "opt_sync p' q'" "\<forall>rest. Transmission_Header_Decrypt simd cfg (Some d0) (out @ rest) = (length y, kf, q')"
      "p' = None \<longleftrightarrow> Some c0 = None" "q' = None \<longleftrightarrow> Some d0 = None"
    using header_roundtrip [OF assms(1) sync n(1,2), of cfg seed] by blast
  obtain c0' d0' where s: "p' = Some c0'" "q' = Some d0'" "in_sync c0' d0'"
    using h(3,5,6) by (cases p'; cases q') auto
  obtain e where e: "Payload_Encrypt simd cfg kf safest y = Some e" "length e = length y" "Payload_Decrypt simd cfg kf safest e = Some y"
    using payload_roundtrip [OF assms(1) n(3,4)] by metis
  have direct: "Payload_Encrypt_Partial cfg kf safest y = e" if "\<not> (safest \<or> key_delta_encode cfg)"
    using e(1) that by (simp add: Payload_Encrypt_def Let_def)
  have "Packet_Encrypt simd cfg seed safest (Some c0) (Some c) data = (Some (out @ e), Some c0', Some c')"
    using y h(1) e direct s by (cases safest) (simp_all add: Packet_Encrypt_def Let_def same_length_def)
  moreover have "packs simd cfg safest (Some d0) (out @ e) e kf (Some d0')"
    using packsI [OF h(4,2) e(2) n(1,2)] s(2) by simp
  moreover have "Packet_Open simd cfg kf safest (Some d0') (Some d) e = (Some data, Some d0', Some d')"
    using e(3) y(2,5) by (simp add: Packet_Open_def same_length_def)
  ultimately show thesis
    using that [of "out @ e" c0' c' d0' d' e kf] h(2) e(2) y(2,3) s(3) by simp
qed

lemma packet_plain:
  assumes "simd_ok simd" "data \<noteq> []" "length data \<le> 65536"
  obtains pk body kf where "Packet_Encrypt simd cfg seed safest None None data = (Some pk, None, None)"
    "length pk = length data + 3" "packs simd cfg safest None pk body kf None"
    "Packet_Open simd cfg kf safest None None body = (Some data, None, None)"
proof -
  have n: "0 < length data" "length data < 2 ^ 31"
    using assms(2,3) by auto
  have sync: "opt_sync None None"
    by simp
  obtain out kf p' q' where r: "Transmission_Header_Encrypt simd cfg seed None (length data) = (Some (out, kf), p')"
      "length out = 3" "opt_sync p' q'" "\<forall>rest. Transmission_Header_Decrypt simd cfg None (out @ rest) = (length data, kf, q')"
      "p' = None" "q' = None"
    using header_roundtrip [OF assms(1) sync n(1) assms(3), of cfg seed] by metis
  have h: "Transmission_Header_Encrypt simd cfg seed None (length data) = (Some (out, kf), None)" "length out = 3"
      "\<forall>rest. Transmission_Header_Decrypt simd cfg None (out @ rest) = (length data, kf, None)"
    using r by blast+
  obtain e where e: "Payload_Encrypt simd cfg kf safest data = Some e" "length e = length data"
      "Payload_Decrypt simd cfg kf safest e = Some data"
    using payload_roundtrip [OF assms(1,2) n(2)] by metis
  have "packs simd cfg safest None (out @ e) e kf None"
    using packsI [OF h(3,2) e(2) n(1) assms(3)] .
  then show thesis
    using that [of "out @ e" e kf] h(1,2) e by (simp add: Packet_Encrypt_def Packet_Open_def)
qed

section \<open>The two ends of a carrier\<close>

text \<open>The writing end \<open>a\<close> and the reading end \<open>b\<close> of one direction agree.\<close>

definition tr_sync :: "ITransmission \<Rightarrow> ITransmission \<Rightarrow> bool" where
  "tr_sync a b \<longleftrightarrow>
     \<not> disposed a \<and> \<not> disposed b \<and> handshaked a = handshaked b \<and> frame_tn a = frame_rn b \<and>
     opt_sync (protocol a) (protocol b) \<and> opt_sync (transport a) (transport b)"

lemma opt_sync_None: "opt_sync p q \<Longrightarrow> p = None \<longleftrightarrow> q = None"
  by (cases p; cases q) simp_all

lemma opt_sync_Some: "opt_sync (Some c) q \<longleftrightarrow> (\<exists>d. q = Some d \<and> in_sync c d)"
  by (cases q) simp_all

lemma binary_roundtrip:
  assumes "simd_ok simd" "tr_sync a b" "data \<noteq> []" "length data \<le> 65536"
  obtains pk a' b' where "EncryptBinary simd cfg rnd data a = (Some pk, a')" "length pk = length data + 3"
    "DecryptBinary simd cfg pk b = (Some data, b')" "\<forall>rest. ReadBinary simd cfg (pk @ rest) b = ((Some data, rest), b')"
    "tr_sync a' b'" "frame_tn a' = frame_tn a" "handshaked a' = handshaked a" "frame_rn b' = frame_rn b" "handshaked b' = handshaked b"
    "disposed b' = disposed b"
proof -
  have s: "handshaked a = handshaked b" "opt_sync (protocol a) (protocol b)" "opt_sync (transport a) (transport b)"
    using assms(2) by (simp_all add: tr_sync_def)
  show thesis
  proof (cases "both_ciphers a")
    case True
    then obtain c0 c d0 d where c: "protocol a = Some c0" "transport a = Some c" "protocol b = Some d0" "transport b = Some d"
        "in_sync c0 d0" "in_sync c d"
      using s(2,3) by (auto simp: both_ciphers_def opt_sync_Some)
    obtain pk c0' d0' c' d' body kf where p:
        "Packet_Encrypt simd cfg (draw_seed rnd) (\<not> handshaked b) (Some c0) (Some c) data = (Some pk, Some c0', Some c')"
        "length pk = length data + 3" "in_sync c0' d0'" "in_sync c' d'" "packs simd cfg (\<not> handshaked b) (Some d0) pk body kf (Some d0')"
        "Packet_Open simd cfg kf (\<not> handshaked b) (Some d0') (Some d) body = (Some data, Some d0', Some d')"
      by (rule packet_ciphered [OF assms(1) c(5,6) assms(3,4), of cfg "draw_seed rnd" "\<not> handshaked b"])
    have "both_ciphers b"
      using c by (simp add: both_ciphers_def)
    then show thesis
      using that [of pk "a\<lparr>protocol := Some c0', transport := Some c'\<rparr>" "b\<lparr>protocol := Some d0', transport := Some d'\<rparr>"]
        True p c s(1) assms(2)
      by (simp add: EncryptBinary_def DecryptBinary_def ReadBinary_def with_ciphers_def packs_def tr_sync_def)
  next
    case False
    then have "\<not> both_ciphers b"
      using opt_sync_None [OF s(2)] opt_sync_None [OF s(3)] by (auto simp: both_ciphers_def)
    moreover obtain pk body kf where p: "Packet_Encrypt simd cfg (draw_seed rnd) (\<not> handshaked b) None None data = (Some pk, None, None)"
        "length pk = length data + 3" "packs simd cfg (\<not> handshaked b) None pk body kf None"
        "Packet_Open simd cfg kf (\<not> handshaked b) None None body = (Some data, None, None)"
      by (rule packet_plain [OF assms(1,3,4), of cfg "draw_seed rnd" "\<not> handshaked b"])
    ultimately show thesis
      using that [of pk a b] False p s(1) assms(2)
      by (simp add: EncryptBinary_def DecryptBinary_def ReadBinary_def with_ciphers_def packs_def)
  qed
qed

section \<open>The envelope\<close>

lemma Lcgmod_bounds: "262144 \<le> Lcgmod cfg" "Lcgmod cfg \<le> 830584"
  using lcgmod_bounds [of "64 * 64 * 64" "94 * 94 * 94" "key_kf cfg"] by (simp_all add: Lcgmod_def le_nat_iff nat_le_iff)

lemma smod_less: "0 < b \<Longrightarrow> \<bar>a smod b\<bar> < (b :: int)"
  using Euclidean_Rings.pos_mod_bound [of b "\<bar>a\<bar>"] Euclidean_Rings.pos_mod_sign [of b "\<bar>a\<bar>"]
  by (simp add: smod_int_alt_def abs_mult sgn_if)

lemma KF_MOD_less: "KF_MOD cfg < Lcgmod cfg"
proof -
  have m: "0 < int (Lcgmod cfg)"
    using Lcgmod_bounds(1) [of cfg] by simp
  from smod_less [OF m, of "sint (key_kf cfg)"] show ?thesis
    by (simp add: KF_MOD_def nat_less_iff)
qed

lemma shift_back: "x < m \<Longrightarrow> k < m \<Longrightarrow> ((x + k) mod m + m - k) mod m = (x :: nat)"
proof -
  assume "x < m" "k < m"
  then show ?thesis
    by (cases "x + k < m") (simp_all add: le_mod_geq)
qed

lemma length_decimal: "length (base94_decimal v) = digit_count (unat v)"
  using base94_decimal_eq [of v] by (simp add: length_digits94)

lemma digit_count_three: "n < 830584 \<Longrightarrow> digit_count n = 3 \<longleftrightarrow> 8836 \<le> n"
  by (simp add: digit_count.simps [of n] digit_count.simps [of "n div 94"] digit_count.simps [of "n div 94 div 94"]) arith

lemma decimal_digits:
  assumes "n < 830584"
  defines "d \<equiv> base94_decimal (of_nat n)"
  shows "1 \<le> length d" "length d \<le> 3" "unat (base94_decimal_parse (replicate (3 - length d) 0x20 @ d)) = n"
    "length d = 3 \<longleftrightarrow> 8836 \<le> n"
proof -
  have n: "unat (of_nat n :: u64) = n"
    using assms(1) by (simp add: unsigned_of_nat take_bit_eq_mod)
  show len: "1 \<le> length d" "length d \<le> 3"
    using digit_count_le [of n 2] assms(1) by (simp_all add: d_def length_decimal n digit_count.simps [of n])
  show "length d = 3 \<longleftrightarrow> 8836 \<le> n"
    using assms(1) by (simp add: d_def length_decimal n digit_count_three)
  have "decimal_loop (replicate k 0x20) 0 = Inr 0" for k
    by (induction k) (simp_all add: Let_def)
  then show "unat (base94_decimal_parse (replicate (3 - length d) 0x20 @ d)) = n"
    using base94_decimal_eq [of "of_nat n"] len(1)
    by (auto simp: base94_decimal_parse_def decimal_loop_append d_def n decimal_loop_digits)
qed

lemma parity_flip: "(k + 1 :: u8) AND 1 = 0 \<longleftrightarrow> k AND 1 \<noteq> 0"
  by (simp add: and_one_eq flip: even_iff_mod_2_eq_zero)

lemma decode_kf_obfuscate:
  assumes "length h = 4" "h ! 0 = 0x20"
  shows "base94_decode_kf (obfuscate_header rnd h @ rest) = h @ rest"
proof -
  obtain b c d where h: "h = [0x20, b, c, d]"
    using assms by (auto simp: length_Suc_conv eval_nat_numeral)
  show ?thesis
    using parity_flip [of "draw_k rnd"]
    by (simp add: h base94_decode_kf_def obfuscate_header_def Let_def)
qed

lemma length_obfuscate_header [simp]: "length (obfuscate_header rnd h) = 4"
  by (simp add: obfuscate_header_def Let_def split: prod.split)

lemma frame_sizes: "EVP_HEADER_XSS = 4" "EVP_HEADER_MSS = 3"
  by (simp_all add: EVP_HEADER_XSS_def EVP_HEADER_MSS_def EVP_HEADER_TSS_def)

text \<open>The four header bytes of a length and the number its first frame carries as a check.\<close>

definition frame_header :: "key_config \<Rightarrow> draws \<Rightarrow> nat \<Rightarrow> bytes" where
  "frame_header cfg rnd len =
     (let d = base94_decimal (of_nat ((len + KF_MOD cfg) mod Lcgmod cfg))
      in obfuscate_header rnd (replicate (4 - length d) 0x20 @ d))"

definition frame_check :: "key_config \<Rightarrow> draws \<Rightarrow> nat \<Rightarrow> nat" where
  "frame_check cfg rnd len = ((unat (inet_chksum (frame_header cfg rnd len)) XOR len) + KF_MOD cfg) mod Lcgmod cfg"

lemma length_frame_header [simp]: "length (frame_header cfg rnd len) = 4"
  by (simp add: frame_header_def Let_def)

lemma mod_Lcgmod_less: "n mod Lcgmod cfg < 830584"
  using Lcgmod_bounds [of cfg] by (intro less_le_trans [OF mod_less_divisor]) simp_all

lemma decode_length_digits:
  fixes cfg
  assumes "len < 262144"
  defines "d \<equiv> base94_decimal (of_nat ((len + KF_MOD cfg) mod Lcgmod cfg))"
  shows "base94_decode_length cfg (replicate (3 - length d) 0x20 @ d @ rest) = len"
proof -
  have l: "length d \<le> 3" "unat (base94_decimal_parse (replicate (3 - length d) 0x20 @ d)) = (len + KF_MOD cfg) mod Lcgmod cfg"
    using decimal_digits(2,3) [OF mod_Lcgmod_less] by (simp_all add: d_def)
  have "len < Lcgmod cfg"
    using assms(1) Lcgmod_bounds(1) [of cfg] by simp
  then show ?thesis
    using l shift_back [OF _ KF_MOD_less] by (simp add: base94_decode_length_def frame_sizes)
qed

lemma frame_header_decode:
  assumes "len < 262144"
  shows "base94_decode_length cfg (drop (Suc 0) (base94_decode_kf (frame_header cfg rnd len @ rest))) = len"
proof -
  define d where "d = base94_decimal (of_nat ((len + KF_MOD cfg) mod Lcgmod cfg))"
  have l: "length d \<le> 3"
    using decimal_digits(2) [OF mod_Lcgmod_less] by (simp add: d_def)
  then have "replicate (4 - length d) 0x20 @ d = (0x20 :: u8) # replicate (3 - length d) 0x20 @ d"
    by (simp add: Suc_diff_le eval_nat_numeral)
  then have "base94_decode_kf (frame_header cfg rnd len @ rest) = 0x20 # replicate (3 - length d) 0x20 @ d @ rest"
    using l decode_kf_obfuscate [of "0x20 # replicate (3 - length d) 0x20 @ d" rnd rest]
    by (simp add: frame_header_def d_def [symmetric])
  then show ?thesis
    using decode_length_digits [OF assms, of cfg rest] by (simp add: d_def)
qed

lemma encode_length_eq:
  assumes "len < 262144"
  shows "base94_encode_length cfg rnd tn len =
    (if tn then (Some (frame_header cfg rnd len), True)
     else if frame_check cfg rnd len < 8836 then (None, False)
     else (Some (frame_header cfg rnd len @ shuffle_data (base94_decimal (of_nat (frame_check cfg rnd len))) (key_kf cfg)), True))"
proof -
  have "frame_check cfg rnd len < 830584"
    by (simp add: frame_check_def mod_Lcgmod_less)
  note c = decimal_digits(4) [OF this]
  show ?thesis
    using decimal_digits(1,2) [OF mod_Lcgmod_less, of "len + KF_MOD cfg" cfg] c
    by (auto simp: base94_encode_length_def Let_def frame_sizes frame_header_def [symmetric, unfolded Let_def]
        frame_check_def [symmetric] not_less)
qed

lemma decode_length_rn_header:
  assumes "0 < len" "len < 262144"
  shows "decode_length_rn cfg (frame_header cfg rnd len @ rest) = (Some len, rest)"
  using frame_header_decode [OF assms(2), of cfg rnd "[]"] assms(1)
  by (simp add: decode_length_rn_def ReadBytes_def frame_sizes)

lemma decode_length_r1_header:
  assumes "0 < len" "len < 262144" "8836 \<le> frame_check cfg rnd len"
  shows "decode_length_r1 cfg (frame_header cfg rnd len @ shuffle_data (base94_decimal (of_nat (frame_check cfg rnd len))) (key_kf cfg) @ rest)
    = (Some len, rest)"
proof -
  define K where "K = unat (inet_chksum (frame_header cfg rnd len)) XOR len"
  define d where "d = base94_decimal (of_nat (frame_check cfg rnd len))"
  have "unat (inet_chksum (frame_header cfg rnd len)) < 2 ^ 16"
    using unsigned_less [of "inet_chksum (frame_header cfg rnd len)", where 'a = nat] by simp
  then have K: "K < 262144"
    using nat_xor_less [of _ 18 len] assms(2) by (simp add: K_def)
  have d: "length d = 3" "d = base94_decimal (of_nat ((K + KF_MOD cfg) mod Lcgmod cfg))"
    using decimal_digits(4) [OF mod_Lcgmod_less] assms(3) by (simp_all add: d_def frame_check_def K_def)
  have "base94_decode_length cfg d = K"
    using decode_length_digits [OF K, of cfg "[]"] d by simp
  then show ?thesis
    using frame_header_decode [OF assms(2), of cfg rnd "shuffle_data d (key_kf cfg)"] assms(1) d(1)
    by (simp add: decode_length_r1_def ReadBytes_def frame_sizes d_def [symmetric] unshuffle_shuffle K_def)
qed

lemma envelope_encode_eq:
  assumes "simd_ok simd" "packet \<noteq> []" "length packet \<le> 65539"
  obtains payload where "base94_decode (simd_b94_decode simd) payload (sint (key_kf cfg)) = Inr packet"
    "0 < length payload" "length payload \<le> 131078"
    "base94_encode (simd_b94_encode simd) packet (sint (key_kf cfg)) = Inr payload"
    "envelope_encode simd cfg rnd tn packet =
       (if tn then (Some (frame_header cfg rnd (length payload) @ payload), True)
        else if frame_check cfg rnd (length payload) < 8836 then (None, False)
        else (Some (frame_header cfg rnd (length payload) @
                    shuffle_data (base94_decimal (of_nat (frame_check cfg rnd (length payload)))) (key_kf cfg) @ payload), True))"
proof -
  have "\<forall>d k. simd_b94_encode simd d k = None \<or> simd_b94_encode simd d k = base94_encode_scalar d k"
    "\<forall>d k. simd_b94_decode simd d k = None \<or> simd_b94_decode simd d k = base94_decode_scalar d k"
    using assms(1) by (simp_all add: simd_ok_def)
  from base94_roundtrip [OF this assms(2), of "sint (key_kf cfg)"] obtain payload where p: "base94_encode (simd_b94_encode simd) packet (sint (key_kf cfg)) = Inr payload"
      "length payload \<le> 2 * length packet" "base94_decode (simd_b94_decode simd) payload (sint (key_kf cfg)) = Inr packet"
    by blast
  have n: "payload \<noteq> []"
    using p(3) assms(2) by (auto simp: base94_decode_def)
  have "length payload < 262144"
    using p(2) assms(3) by simp
  from encode_length_eq [OF this] show thesis
    using that [OF p(3) _ _ p(1)] n p(1,2) assms(3) by (simp add: envelope_encode_def frame_sizes)
qed

lemma envelope_read_encode:
  assumes "simd_ok simd" "packet \<noteq> []" "length packet \<le> 65539" "envelope_encode simd cfg rnd tn packet = (Some out, tn')"
  shows "tn' \<and> envelope_read simd cfg tn (out @ rest) = (Some packet, rest, True)"
proof -
  obtain payload where p: "base94_decode (simd_b94_decode simd) payload (sint (key_kf cfg)) = Inr packet"
      "0 < length payload" "length payload \<le> 131078"
      "envelope_encode simd cfg rnd tn packet =
       (if tn then (Some (frame_header cfg rnd (length payload) @ payload), True)
        else if frame_check cfg rnd (length payload) < 8836 then (None, False)
        else (Some (frame_header cfg rnd (length payload) @
                    shuffle_data (base94_decimal (of_nat (frame_check cfg rnd (length payload)))) (key_kf cfg) @ payload), True))"
    by (rule envelope_encode_eq [OF assms(1-3)])
  have l: "length payload < 262144" "length payload \<le> EVP_BASE94_MAX_FRAME"
    using p(3) by (simp_all add: EVP_BASE94_MAX_FRAME_def PPP_BUFFER_SIZE_def)
  show ?thesis
    using p assms(4) l decode_length_rn_header [OF p(2) l(1), of cfg rnd "payload @ rest"]
      decode_length_r1_header [OF p(2) l(1), of cfg rnd "payload @ rest"]
    by (auto simp: envelope_read_def ReadBytes_def not_less split: if_splits)
qed

lemma DecryptBinary_frame_rn:
  "DecryptBinary simd cfg data (s\<lparr>frame_rn := x\<rparr>) =
   (let (r, s) = DecryptBinary simd cfg data s in (r, s\<lparr>frame_rn := x\<rparr>))"
  by (simp add: DecryptBinary_def with_ciphers_def both_ciphers_def split: prod.split)

section \<open>Messages\<close>

lemma write_read:
  assumes "simd_ok simd" "tr_sync a b" "data \<noteq> []" "length data \<le> 65536"
    and w: "Transmission_Write simd cfg rnd data a = (Some out, a')"
  shows "\<exists>b'. tr_sync a' b' \<and> (\<forall>rest. Transmission_Read simd cfg (out @ rest) b = (Some data, rest, b'))"
proof -
  obtain pk a1 b1 where e: "EncryptBinary simd cfg rnd data a = (Some pk, a1)" "length pk = length data + 3"
    "DecryptBinary simd cfg pk b = (Some data, b1)" "\<forall>rest. ReadBinary simd cfg (pk @ rest) b = ((Some data, rest), b1)"
    "tr_sync a1 b1" "frame_tn a1 = frame_tn a" "handshaked a1 = handshaked a" "frame_rn b1 = frame_rn b" "handshaked b1 = handshaked b"
    "disposed b1 = disposed b"
    by (rule binary_roundtrip [OF assms(1-4)])
  have s: "\<not> disposed a" "\<not> disposed b" "frame_tn a = frame_rn b" "handshaked a = handshaked b"
    using assms(2) by (simp_all add: tr_sync_def)
  show ?thesis
  proof (cases "uses_envelope cfg a")
    case True
    then have u: "uses_envelope cfg a1" "uses_envelope cfg b"
      using e(7) s(4) by (simp_all add: uses_envelope_def)
    obtain tn where t: "envelope_encode simd cfg rnd (frame_tn a) pk = (Some out, tn)" "a' = a1\<lparr>frame_tn := tn\<rparr>"
      using w s(1) assms(3) e(1,6) u(1) by (auto simp: Transmission_Write_def Transmission_Encrypt_def split: prod.splits)
    have p: "pk \<noteq> []" "length pk \<le> 65539"
      using e(2) assms(4) by auto
    have r: "tn \<and> envelope_read simd cfg (frame_rn b) (out @ rest) = (Some pk, rest, True)" for rest
      using envelope_read_encode [OF assms(1) p t(1)] s(3) by simp
    have "tr_sync a' (b1\<lparr>frame_rn := True\<rparr>)"
      using e(5) t(2) r by (simp add: tr_sync_def)
    moreover have "Transmission_Read simd cfg (out @ rest) b = (Some data, rest, b1\<lparr>frame_rn := True\<rparr>)" for rest
      using s(2) u(2) r p(1) e(3) by (simp add: Transmission_Read_def DecryptBinary_frame_rn)
    ultimately show ?thesis
      by blast
  next
    case False
    then have u: "\<not> uses_envelope cfg a1" "\<not> uses_envelope cfg b"
      using e(7) s(4) by (simp_all add: uses_envelope_def)
    have "out = pk" "a' = a1"
      using w s(1) assms(3) e(1) u(1) by (simp_all add: Transmission_Write_def Transmission_Encrypt_def)
    then show ?thesis
      using s(2) u(2) e(4,5) by (auto simp: Transmission_Read_def)
  qed
qed

section \<open>Streams of messages\<close>

text \<open>Sending and receiving several messages; a list entry has the random draws of its message.\<close>

fun send_all :: "('r \<Rightarrow> 'm \<Rightarrow> 's \<Rightarrow> bytes option \<times> 's) \<Rightarrow> ('r \<times> 'm) list \<Rightarrow> 's \<Rightarrow> bytes option \<times> 's" where
  "send_all send [] s = (Some [], s)"
| "send_all send ((r, m) # ms) s =
     (case send r m s of
        (None, s) \<Rightarrow> (None, s)
      | (Some out, s) \<Rightarrow> (case send_all send ms s of (None, s) \<Rightarrow> (None, s) | (Some outs, s) \<Rightarrow> (Some (out @ outs), s)))"

fun recv_all :: "(bytes \<Rightarrow> 's \<Rightarrow> 'm option \<times> bytes \<times> 's) \<Rightarrow> nat \<Rightarrow> bytes \<Rightarrow> 's \<Rightarrow> 'm option list \<times> bytes \<times> 's" where
  "recv_all recv 0 stream s = ([], stream, s)"
| "recv_all recv (Suc n) stream s =
     (let (m, stream, s) = recv stream s; (ms, stream, s) = recv_all recv n stream s in (m # ms, stream, s))"

text \<open>
  The contract of a carrier: as long as its two ends are in step, a message that was sent is received whatever
  follows it on the stream, and the ends are in step again.
\<close>

locale message_stream =
  fixes send :: "'r \<Rightarrow> 'm \<Rightarrow> 's \<Rightarrow> bytes option \<times> 's"
    and recv :: "bytes \<Rightarrow> 's \<Rightarrow> 'm option \<times> bytes \<times> 's"
    and valid :: "'m \<Rightarrow> bool"
    and sync :: "'s \<Rightarrow> 's \<Rightarrow> bool"
  assumes delivery: "sync a b \<Longrightarrow> valid m \<Longrightarrow> send r m a = (Some out, a') \<Longrightarrow>
      \<exists>b'. sync a' b' \<and> (\<forall>rest. recv (out @ rest) b = (Some m, rest, b'))"
begin

lemma stream_delivery:
  "sync a b \<Longrightarrow> list_all (valid \<circ> snd) ms \<Longrightarrow> send_all send ms a = (Some outs, a') \<Longrightarrow>
   \<exists>b'. sync a' b' \<and> (\<forall>rest. recv_all recv (length ms) (outs @ rest) b = (map (Some \<circ> snd) ms, rest, b'))"
proof (induction ms arbitrary: a b outs)
  case (Cons rm ms)
  obtain r m where rm: "rm = (r, m)"
    by (cases rm)
  obtain out a1 outs1 where s: "send r m a = (Some out, a1)" "send_all send ms a1 = (Some outs1, a')" "outs = out @ outs1"
    using Cons.prems(3) by (auto simp: rm split: prod.splits option.splits)
  obtain b1 where b1: "sync a1 b1" "\<forall>rest. recv (out @ rest) b = (Some m, rest, b1)"
    using delivery [OF Cons.prems(1) _ s(1)] Cons.prems(2) by (auto simp: rm)
  obtain b' where "sync a' b'" "\<forall>rest. recv_all recv (length ms) (outs1 @ rest) b1 = (map (Some \<circ> snd) ms, rest, b')"
    using Cons.IH [OF b1(1) _ s(2)] Cons.prems(2) by auto
  then show ?case
    using b1(2) by (auto simp: rm s(3))
qed simp

end

definition message_ok :: "bytes \<Rightarrow> bool" where
  "message_ok m \<longleftrightarrow> m \<noteq> [] \<and> length m \<le> PPP_BUFFER_SIZE"

interpretation carrier: message_stream "Transmission_Write simd cfg" "Transmission_Read simd cfg" message_ok
  "\<lambda>a b. simd_ok simd \<and> tr_sync a b" for simd cfg
  by unfold_locales (use write_read in \<open>auto simp: message_ok_def PPP_BUFFER_SIZE_def\<close>)

text \<open>Configured ciphers the framing can use.\<close>

definition cipher_config_ok :: "crypto_lib \<Rightarrow> key_config \<Rightarrow> bool" where
  "cipher_config_ok lib cfg \<longleftrightarrow>
     (\<forall>m \<in> {key_protocol cfg, key_transport cfg}. EVP_Support lib m \<longrightarrow> stream_method lib m)"

lemma ITransmission_new_sync:
  assumes "lib_ok lib" "cipher_config_ok lib cfg"
  shows "tr_sync (ITransmission_new lib cfg) (ITransmission_new lib cfg)"
  using assms Ciphertext_new_sync [OF assms(1)]
  by (simp add: ITransmission_new_def Let_def tr_sync_def IsHaveCiphertext_def cipher_config_ok_def)

lemma EVP_openssl_fields:
  "evp_lib (EVP_openssl m pw e) = evp_lib e \<and> evp_aes (EVP_openssl m pw e) = evp_aes e \<and>
   (evp_encryptCTX (EVP_openssl m pw e) \<longrightarrow> evp_encryptCTX e \<or> evp_cipher (EVP_openssl m pw e) = Some m)"
  by (simp add: EVP_openssl_def EVP_initKey_def EVP_clear_def Let_def split: option.splits)

text \<open>A length field that the cipher turns into no bytes ends the message.\<close>

lemma header_without_field:
  assumes "\<And>field. length field = 2 \<Longrightarrow> fst (Ciphertext_Encrypt field c) \<in> {None, Some []}"
  shows "fst (Packet_Encrypt simd cfg seed safest (Some c) (Some d) data) = None"
proof -
  have "fst (length_field Ciphertext_Encrypt [x, y] (Some c)) = None" for x y
    using assms [of "[x, y]"] by (auto simp: length_field_def EVP_HEADER_TSS_def split: prod.splits option.splits)
  then have "fst (Transmission_Header_Encrypt simd cfg seed (Some c) n) = None" for n
    by (auto simp: Transmission_Header_Encrypt_def Let_def split: prod.splits option.splits) (metis fst_conv option.distinct(1))
  then show ?thesis
    by (auto simp: Packet_Encrypt_def Let_def split: prod.splits option.splits) (metis fst_conv option.distinct(1))+
qed

lemma block_cipher_field:
  assumes "method \<noteq> []" "password \<noteq> []" "ssl_cipherbyname lib method" "AES_Support (cpu_aes lib) (EVP_probe lib method) = None"
    and "\<forall>key iv x. length x = 2 \<longrightarrow> ssl_update lib method key iv True x = Some []" "length field = 2"
  shows "fst (Ciphertext_Encrypt field (Ciphertext_new lib method password)) \<in> {None, Some []}"
proof -
  define e where "e = EVP_new lib method password"
  have e: "evp_lib e = lib" "\<not> AES_IsAttached (evp_aes e)" "evp_encryptCTX e \<longrightarrow> evp_cipher e = Some method"
    using assms(4) EVP_openssl_fields [of "method" password "\<lparr>evp_lib = lib, evp_cipher = None, evp_key = [], evp_iv = [],
      evp_encryptCTX = False, evp_decryptCTX = False, evp_aes = AES_new\<rparr>"]
    by (simp_all add: e_def EVP_new_def Let_def AES_new_def AES_IsAttached_def)
  have "EVP_Encrypt field e \<in> {None, Some []}"
    using e assms(5,6) by (auto simp: EVP_Encrypt_def EVP_EncryptTo_def EVP_update_def)
  then show ?thesis
    using assms(1-3) by (simp add: Ciphertext_new_def EVP_Support_def Ciphertext_Encrypt_def ct_call_def e_def)
qed

section \<open>A sample configuration\<close>

definition no_simd :: ssea_simd where
  "no_simd = \<lparr>simd_b94_encode = (\<lambda>_ _. None), simd_b94_decode = (\<lambda>_ _. None), simd_delta_encode = (\<lambda>_ _. None),
     simd_delta_decode = (\<lambda>_ _. None)\<rparr>"

text \<open>A library with a stream cipher under the AES names and a cipher of sixteen-byte blocks.\<close>

definition sample_lib :: crypto_lib where
  "sample_lib = \<lparr>ssl_cipherbyname = (\<lambda>m. m \<in> set (''aes-256-cbc'' # aes_names)),
     ssl_block_size = (\<lambda>m. if m = ''aes-256-cbc'' then 16 else 1), ssl_iv_length = (\<lambda>_. 16),
     ssl_BytesToKey = (\<lambda>m pw. Some (replicate (aes_key_bytes m) 7, replicate 16 9)), ssl_context = (\<lambda>_ _. True),
     ssl_update = (\<lambda>m _ _ enc x. if m = ''aes-256-cbc'' then Some (take (length x div 16 * 16) x)
                               else Some (map (\<lambda>b. b XOR 0x5a) x)),
     ssl_sha = (\<lambda>_ _. replicate 20 1), cpu_aes = False, cpu_sbox = (\<lambda>b. b), simd_auto = True\<rparr>"

definition sample_config :: "string \<Rightarrow> u32 \<Rightarrow> key_config" where
  "sample_config method kf = \<lparr>key_kf = kf, key_kl = 10, key_kh = 12, key_kx = 8, key_masked = True,
     key_plaintext = False, key_delta_encode = True, key_shuffle_data = True, key_protocol = method,
     key_protocol_key = [97, 98], key_transport = ''aes-256-cfb'', key_transport_key = [99]\<rparr>"

lemma sample_ok: "simd_ok no_simd" "lib_ok sample_lib" "cipher_config_ok sample_lib (sample_config ''aes-128-cfb'' kf)"
  by (simp_all add: simd_ok_def no_simd_def lib_ok_def sample_lib_def cipher_config_ok_def sample_config_def stream_method_def
      aes_names_def EVP_Support_def AES_Support_def xor.assoc comp_def)

text \<open>A key that makes the first frame of a one-byte message fail.\<close>

definition sample_draws :: draws where
  "sample_draws = \<lparr>draw_seed = 0x11, draw_k = 0x41, draw_f = 0x52\<rparr>"

abbreviation sample_plain :: key_config where
  "sample_plain \<equiv> sample_config '''' 375472"

lemma sample_mod: "Lcgmod sample_plain = 397301" "KF_MOD sample_plain = 375472"
proof -
  show m: "Lcgmod sample_plain = 397301"
    by (simp add: Lcgmod_def sample_config_def lcgmod_def random_next_range_def random_next_def lcg_step_def Let_def smod_int_alt_def)
  show "KF_MOD sample_plain = 375472"
    by (simp add: KF_MOD_def m smod_int_alt_def) (simp add: sample_config_def)
qed

lemma sample_packet:
  "EncryptBinary no_simd sample_plain sample_draws [1] (ITransmission_new sample_lib sample_plain) =
   (Some [97, 144, 0, 13], ITransmission_new sample_lib sample_plain)"
  by (simp add: EncryptBinary_def with_ciphers_def both_ciphers_def ITransmission_new_def IsHaveCiphertext_def sample_config_def
      Let_def Packet_Encrypt_def Transmission_Header_Encrypt_def length_field_def no_simd_def delta_encode_def sample_draws_def
      xor_key_def shuffle_data_def swap_at_def shuffle_index_def EVP_HEADER_MSS_def EVP_HEADER_TSS_def Payload_Encrypt_def
      Payload_Encrypt_Partial_def masked_xor_random_next_def random_next_from_key_def random_next_def lcg_step_def byte_at_def)

lemma sample_text:
  "base94_encode (simd_b94_encode no_simd) [97, 144, 0, 13] (sint (key_kf sample_plain)) = Inr [125, 116, 126, 70, 112, 125, 32]"
  by (simp add: base94_encode_def sample_config_def encode_symbol_def no_simd_def Let_def)

lemma sample_check: "frame_check sample_plain sample_draws 7 = 4655"
proof -
  have "frame_header sample_plain sample_draws 7 = [0x41, 74, 75, 78]"
    by (simp add: frame_header_def sample_mod base94_decimal_eq digits94.simps [of 375479] digits94.simps [of 3994]
        digits94.simps [of 42] obfuscate_header_def sample_draws_def)
  moreover have "inet_chksum [0x41, 74, 75, 78] = 26483"
    by code_simp
  ultimately show ?thesis
    by (simp add: frame_check_def sample_mod)
qed

lemma writes_succeed:
  "simd_ok simd \<Longrightarrow> tr_sync a b \<Longrightarrow> \<not> uses_envelope cfg a \<Longrightarrow> list_all (message_ok \<circ> snd) ms \<Longrightarrow>
   \<exists>outs a'. send_all (Transmission_Write simd cfg) ms a = (Some outs, a')"
proof (induction ms arbitrary: a b)
  case (Cons rm ms)
  obtain rnd data where rm: "rm = (rnd, data)"
    by (cases rm)
  have d: "data \<noteq> []" "length data \<le> 65536"
    using Cons.prems(4) by (simp_all add: rm message_ok_def PPP_BUFFER_SIZE_def)
  obtain pk a' b' where e: "EncryptBinary simd cfg rnd data a = (Some pk, a')" "tr_sync a' b'" "handshaked a' = handshaked a"
    using binary_roundtrip [OF Cons.prems(1,2) d, of cfg rnd] by metis
  have "\<not> uses_envelope cfg a'"
    using Cons.prems(3) e(3) by (simp add: uses_envelope_def)
  with e Cons.prems(2) d(1) have w: "Transmission_Write simd cfg rnd data a = (Some pk, a')" "\<not> uses_envelope cfg a'"
    by (simp_all add: Transmission_Write_def Transmission_Encrypt_def tr_sync_def)
  obtain outs a'' where "send_all (Transmission_Write simd cfg) ms a' = (Some outs, a'')"
    using Cons.IH [OF Cons.prems(1) e(2) w(2)] Cons.prems(4) by auto
  then show ?case
    using w(1) by (simp add: rm)
qed simp

lemma write_outcome:
  assumes "simd_ok simd" "tr_sync a b" "message_ok data" "EncryptBinary simd cfg rnd data a = (Some packet, a1)"
    and "base94_encode (simd_b94_encode simd) packet (sint (key_kf cfg)) = Inr text"
  shows "fst (Transmission_Write simd cfg rnd data a) = None \<longleftrightarrow>
    uses_envelope cfg a \<and> \<not> frame_tn a \<and> frame_check cfg rnd (length text) < 94 * 94"
proof -
  have d: "data \<noteq> []" "length data \<le> 65536"
    using assms(3) by (simp_all add: message_ok_def PPP_BUFFER_SIZE_def)
  obtain pk a2 where e: "EncryptBinary simd cfg rnd data a = (Some pk, a2)" "length pk = length data + 3"
    "frame_tn a2 = frame_tn a" "handshaked a2 = handshaked a"
    using binary_roundtrip [OF assms(1,2) d, of cfg rnd] by metis
  have p: "packet \<noteq> []" "length packet \<le> 65539" "frame_tn a1 = frame_tn a" "handshaked a1 = handshaked a" "\<not> disposed a"
    using e assms(2,4) d(2) by (auto simp: tr_sync_def)
  obtain payload where "base94_encode (simd_b94_encode simd) packet (sint (key_kf cfg)) = Inr payload"
      "envelope_encode simd cfg rnd (frame_tn a) packet =
       (if frame_tn a then (Some (frame_header cfg rnd (length payload) @ payload), True)
        else if frame_check cfg rnd (length payload) < 8836 then (None, False)
        else (Some (frame_header cfg rnd (length payload) @
                    shuffle_data (base94_decimal (of_nat (frame_check cfg rnd (length payload)))) (key_kf cfg) @ payload), True))"
    using envelope_encode_eq [OF assms(1) p(1,2), of cfg rnd "frame_tn a"] by metis
  then show ?thesis
    using assms(4,5) p d(1) by (simp add: Transmission_Write_def Transmission_Encrypt_def uses_envelope_def)
qed

section \<open>Properties\<close>



text \<open>
  C30. The first frame can fail. With both ends in step, a write of 1 to 65536 bytes fails in exactly one case: the frame has
  the Base94 envelope, it is the first one of its end, and the number that protects its length has fewer than three digits.
\<close>

theorem write_fails_iff:
  assumes "simd_ok simd" "tr_sync a b" "message_ok data" "EncryptBinary simd cfg rnd data a = (Some packet, a1)"
    and "base94_encode (simd_b94_encode simd) packet (sint (key_kf cfg)) = Inr text"
  shows "fst (Transmission_Write simd cfg rnd data a) = None \<longleftrightarrow>
    uses_envelope cfg a \<and> \<not> frame_tn a \<and> frame_check cfg rnd (length text) < 94 * 94"
  by (rule write_outcome [OF assms])

theorem write_fails_iff_witness:
  "fst (Transmission_Write no_simd sample_plain sample_draws [1] (ITransmission_new sample_lib sample_plain)) = None"
proof -
  have "tr_sync (ITransmission_new sample_lib sample_plain) (ITransmission_new sample_lib sample_plain)"
    by (simp add: tr_sync_def ITransmission_new_def IsHaveCiphertext_def sample_config_def)
  moreover have l: "length [125, 116, 126, 70, 112, 125, 32 :: u8] = 7"
    by simp
  ultimately show ?thesis
    using write_fails_iff [OF sample_ok(1) _ _ sample_packet sample_text, unfolded l sample_check]
    by (simp add: message_ok_def PPP_BUFFER_SIZE_def uses_envelope_def ITransmission_new_def IsHaveCiphertext_def sample_config_def)
qed

text \<open>
  Block ciphers never send. A configuration whose protocol cipher is a block cipher of OpenSSL is accepted, but since
  such a cipher returns no bytes for the two bytes of a length field, no write on the carrier succeeds.
\<close>

theorem block_cipher_never_sends:
  assumes "IsHaveCiphertext cfg" "Ciphertext_Support lib (key_transport cfg)" "ssl_cipherbyname lib (key_protocol cfg)"
    and "AES_Support (cpu_aes lib) (EVP_probe lib (key_protocol cfg)) = None"
    and "\<forall>key iv x. length x = 2 \<longrightarrow> ssl_update lib (key_protocol cfg) key iv True x = Some []"
  shows "Ciphertext_Support lib (key_protocol cfg) \<and>
    fst (Transmission_Write simd cfg rnd data ((ITransmission_new lib cfg)\<lparr>handshaked := h\<rparr>)) = None"
proof -
  have s: "Ciphertext_Support lib (key_protocol cfg)"
    using assms(1,3) by (simp add: Ciphertext_Support_def EVP_Support_def IsHaveCiphertext_def)
  have "fst (Ciphertext_Encrypt field (Ciphertext_new lib (key_protocol cfg) (key_protocol_key cfg))) \<in> {None, Some []}"
    if "length field = 2" for field
    using block_cipher_field [OF _ _ assms(3-5) that] assms(1) by (simp add: IsHaveCiphertext_def)
  note fails = header_without_field [OF this]
  have "fst (EncryptBinary simd cfg rnd data ((ITransmission_new lib cfg)\<lparr>handshaked := h\<rparr>)) = None"
    using fails s assms(1,2)
    by (simp add: EncryptBinary_def with_ciphers_def both_ciphers_def ITransmission_new_def split: prod.split) (metis fst_conv)
  then show ?thesis
    using s by (auto simp: Transmission_Write_def Transmission_Encrypt_def split: prod.splits option.splits)
qed

theorem block_cipher_never_sends_witness:
  "Ciphertext_Support sample_lib ''aes-256-cbc'' \<and>
   fst (Transmission_Write no_simd (sample_config ''aes-256-cbc'' 9) sample_draws [1]
     ((ITransmission_new sample_lib (sample_config ''aes-256-cbc'' 9))\<lparr>handshaked := True\<rparr>)) = None"
proof -
  let ?cfg = "sample_config ''aes-256-cbc'' 9"
  have k: "key_protocol ?cfg = ''aes-256-cbc''" "key_transport ?cfg = ''aes-256-cfb''" "IsHaveCiphertext ?cfg"
    by (simp_all add: sample_config_def IsHaveCiphertext_def)
  have "Ciphertext_Support sample_lib (key_transport ?cfg)" "ssl_cipherbyname sample_lib (key_protocol ?cfg)"
    "AES_Support (cpu_aes sample_lib) (EVP_probe sample_lib (key_protocol ?cfg)) = None"
    "\<forall>key iv x. length x = 2 \<longrightarrow> ssl_update sample_lib (key_protocol ?cfg) key iv True x = Some []"
    unfolding k by (simp_all add: Ciphertext_Support_def EVP_Support_def sample_lib_def aes_names_def AES_Support_def)
  from block_cipher_never_sends [OF k(3) this, of no_simd sample_draws "[1]" True] show ?thesis
    by (simp only: k)
qed

end
