(* ===== verification/Int128_Text.thy ===== *)
theory Int128_Text
  imports Prelude
begin

text \<open>
  Decimal and other texts of 128-bit integers, \<^verbatim>\<open>src/ppp/Int128.h\<close>: the printer over the compiler's
  integer type and the parser, which works on four 32-bit parts with explicit carries and saturates. A text
  is a list of bytes. The parser is proved equal to a reference over natural numbers, and inverse to the printer.
\<close>

unbundle bit_operations_syntax

type_synonym i128 = "128 word"

definition MAKE_OWORD :: "u64 \<Rightarrow> u64 \<Rightarrow> i128" where
  "MAKE_OWORD low high = push_bit 64 (ucast high) OR ucast low"

section \<open>Printer\<close>

definition digit_table :: bytes where
  "digit_table = map of_nat ([48..<58] @ [65..<91])"

definition clamp_radix :: "int \<Rightarrow> nat" where
  "clamp_radix radix = (if radix < 2 then 10 else if radix > 36 then 36 else nat radix)"

text \<open>The loop fills its buffer from the end; a base below two does not occur.\<close>

function digits_loop :: "nat \<Rightarrow> nat \<Rightarrow> bytes \<Rightarrow> bytes" where
  "digits_loop base magnitude current =
     (if magnitude = 0 \<or> base < 2 then current
      else digits_loop base (magnitude div base) (digit_table ! (magnitude mod base) # current))"
  by pat_completeness auto

termination
  by (relation "measure (\<lambda>(base, magnitude, current). magnitude)") auto

definition Int128ToString :: "i128 \<Rightarrow> int \<Rightarrow> bytes" where
  "Int128ToString v radix =
     (if v = 0 then [48]
      else let negative = (sint v < 0);
               magnitude = (if negative then NOT v + 1 else v);
               current = digits_loop (clamp_radix radix) (unat magnitude) []
           in if negative then 45 # current else current)"

section \<open>Parser\<close>

definition digit_of :: "u8 \<Rightarrow> nat option" where
  "digit_of ch =
     (let c = unat ch
      in if 48 \<le> c \<and> c \<le> 57 then Some (c - 48)
         else if 65 \<le> c \<and> c \<le> 90 then Some (c - 65 + 10)
         else if 97 \<le> c \<and> c \<le> 122 then Some (c - 97 + 10)
         else None)"

text \<open>The four parts, least significant first: multiply by the radix and add, with a 64-bit carry.\<close>

primrec parts_step :: "u64 \<Rightarrow> u64 \<Rightarrow> u32 list \<Rightarrow> u32 list \<times> u64" where
  "parts_step radix carry [] = ([], carry)"
| "parts_step radix carry (p # ps) =
     (let val = ucast p * radix + carry;
          (qs, carry) = parts_step radix (drop_bit 32 val) ps
      in (ucast val # qs, carry))"

text \<open>\<open>compare_parts\<close> yields a positive result: the most significant difference decides.\<close>

fun parts_greater :: "u32 list \<Rightarrow> u32 list \<Rightarrow> bool" where
  "parts_greater (l # ls) (r # rs) = (parts_greater ls rs \<or> ls = rs \<and> r < l)"
| "parts_greater _ _ = False"

definition max_positive :: "u32 list" where
  "max_positive = [0xFFFFFFFF, 0xFFFFFFFF, 0xFFFFFFFF, 0x7FFFFFFF]"

definition min_negative_magnitude :: "u32 list" where
  "min_negative_magnitude = [0, 0, 0, 0x80000000]"

primrec from_loop :: "nat \<Rightarrow> u32 list \<Rightarrow> bytes \<Rightarrow> u32 list \<Rightarrow> u32 list" where
  "from_loop radix limit [] parts = parts"
| "from_loop radix limit (ch # v) parts =
     (case digit_of ch of
        None \<Rightarrow> parts
      | Some digit \<Rightarrow>
          if digit \<ge> radix then parts
          else let (parts, carry) = parts_step (of_nat radix) (of_nat digit) parts
               in if carry \<noteq> 0 \<or> parts_greater parts limit then limit else from_loop radix limit v parts)"

definition parts_oword :: "u32 list \<Rightarrow> i128" where
  "parts_oword parts =
     MAKE_OWORD (ucast (parts ! 0) OR push_bit 32 (ucast (parts ! 1))) (ucast (parts ! 2) OR push_bit 32 (ucast (parts ! 3)))"

definition Int128FromString :: "bytes \<Rightarrow> int \<Rightarrow> i128" where
  "Int128FromString v radix =
     (if v = [] then 0
      else let negative = (hd v = 45);
               v = (if hd v = 45 \<or> hd v = 43 then tl v else v)
           in if v = [] then 0
              else let limit = (if negative then min_negative_magnitude else max_positive);
                       parts = from_loop (clamp_radix radix) limit v [0, 0, 0, 0]
                   in if \<not> negative then parts_oword parts
                      else if parts = min_negative_magnitude then MAKE_OWORD 0 0x8000000000000000
                      else - parts_oword parts)"

section \<open>Reference\<close>

primrec parts_value :: "u32 list \<Rightarrow> nat" where
  "parts_value [] = 0"
| "parts_value (p # ps) = unat p + 2 ^ 32 * parts_value ps"

text \<open>The number at the start of a text, cut off at a limit.\<close>

primrec number_upto :: "nat \<Rightarrow> nat \<Rightarrow> bytes \<Rightarrow> nat \<Rightarrow> nat" where
  "number_upto radix limit [] n = n"
| "number_upto radix limit (ch # v) n =
     (case digit_of ch of
        None \<Rightarrow> n
      | Some digit \<Rightarrow>
          if digit \<ge> radix then n
          else if n * radix + digit > limit then limit
          else number_upto radix limit v (n * radix + digit))"

lemma parts_step_value:
  assumes "r \<le> 36" "unat c < 2 ^ 32" "parts_step (of_nat r) c ps = (qs, c')"
  shows "parts_value qs + 2 ^ (32 * length ps) * unat c' = parts_value ps * r + unat c \<and> length qs = length ps"
  using assms(2,3)
proof (induction ps arbitrary: c qs)
  case (Cons p ps)
  define val where "val = (ucast p * of_nat r + c :: u64)"
  have r: "unat (of_nat r :: u64) = r"
    using assms(1) by (simp add: unsigned_of_nat take_bit_eq_mod)
  have p: "unat p < 2 ^ 32"
    using unsigned_less [of p, where 'a = nat] by simp
  have "unat p * r \<le> (2 ^ 32 - 1) * 36"
    using p assms(1) by (intro mult_le_mono) auto
  then have pr: "unat p * r < 2 ^ 32 * 36"
    by simp
  have "unat (ucast p * of_nat r :: u64) = unat p * r"
    using p pr by (simp add: unat_word_ariths r unsigned_ucast_eq take_bit_eq_mod)
  then have v: "unat val = unat p * r + unat c"
    using pr Cons.prems(1) unfolding val_def unat_word_ariths(1) by simp
  have d: "unat (drop_bit 32 val) = unat val div 2 ^ 32" "unat (ucast val :: u32) = unat val mod 2 ^ 32"
    by (simp_all add: drop_bit_eq_div unat_div_distrib unsigned_ucast_eq take_bit_eq_mod)
  have small: "unat (drop_bit 32 val) < 2 ^ 32"
    using v pr Cons.prems(1) by (simp add: d(1))
  obtain qs' c'' where q: "parts_step (of_nat r) (drop_bit 32 val) ps = (qs', c'')"
    by fastforce
  have qs: "qs = ucast val # qs'" "c'' = c'"
    using Cons.prems(2) q by (simp_all add: val_def [symmetric] Let_def)
  have IH: "parts_value qs' + 2 ^ (32 * length ps) * unat c' = parts_value ps * r + unat val div 2 ^ 32" "length qs' = length ps"
    using Cons.IH [OF small q [unfolded qs(2)]] by (simp_all add: d(1))
  have "parts_value qs + 2 ^ (32 * length (p # ps)) * unat c' =
      unat val mod 2 ^ 32 + 2 ^ 32 * (parts_value qs' + 2 ^ (32 * length ps) * unat c')"
    by (simp add: qs(1) d(2) power_add algebra_simps)
  then have "parts_value qs + 2 ^ (32 * length (p # ps)) * unat c' = unat val + 2 ^ 32 * (parts_value ps * r)"
    unfolding IH(1) by (simp add: algebra_simps)
  then show ?case
    using IH(2) by (simp add: v qs(1) algebra_simps)
qed simp

lemma parts_value_less: "parts_value ps < 2 ^ (32 * length ps)"
proof (induction ps)
  case (Cons p ps)
  have "unat p < 2 ^ 32"
    using unsigned_less [of p, where 'a = nat] by simp
  then have "parts_value (p # ps) < 2 ^ 32 * (1 + parts_value ps)"
    by (simp add: algebra_simps)
  also have "\<dots> \<le> 2 ^ 32 * 2 ^ (32 * length ps)"
    using Cons.IH by (intro mult_le_mono2) simp
  finally show ?case
    by (simp add: power_add)
qed simp

lemma digit_less: "p < m \<Longrightarrow> q < m \<Longrightarrow> b < a \<Longrightarrow> q + m * b < p + m * (a :: nat)"
proof -
  assume "p < m" "q < m" "b < a"
  then have "m * Suc b \<le> m * a"
    by (intro mult_le_mono2) simp
  then show ?thesis
    using \<open>q < m\<close> by simp
qed

lemma digit_order:
  assumes "p < m" "q < (m :: nat)"
  shows "p + m * a = q + m * b \<longleftrightarrow> p = q \<and> a = b"
    and "q + m * b < p + m * a \<longleftrightarrow> b < a \<or> a = b \<and> q < p"
  using digit_less [OF assms, of b a] digit_less [OF assms(2,1), of a b]
  by (cases a b rule: linorder_cases; auto)+

lemma parts_value_eq: "length ps = length qs \<Longrightarrow> parts_value ps = parts_value qs \<longleftrightarrow> ps = qs"
proof (induction ps qs rule: list_induct2)
  case (Cons p ps q qs)
  have "unat p < 2 ^ 32" "unat q < 2 ^ 32"
    using unsigned_less [of p, where 'a = nat] unsigned_less [of q, where 'a = nat] by simp_all
  then show ?case
    using Cons.IH by (simp only: parts_value.simps digit_order(1) list.inject word_unat_eq_iff)
qed simp

lemma parts_greater_value: "length ps = length qs \<Longrightarrow> parts_greater ps qs \<longleftrightarrow> parts_value qs < parts_value ps"
proof (induction ps qs rule: list_induct2)
  case (Cons p ps q qs)
  have "unat p < 2 ^ 32" "unat q < 2 ^ 32"
    using unsigned_less [of p, where 'a = nat] unsigned_less [of q, where 'a = nat] by simp_all
  then show ?case
    using Cons.IH parts_value_eq [OF Cons.hyps] by (simp only: parts_value.simps parts_greater.simps digit_order(2) word_less_nat_alt)
qed simp

lemma from_loop_value:
  assumes "r \<le> 36" "length limit = 4"
  shows "length ps = 4 \<Longrightarrow> length (from_loop r limit v ps) = 4 \<and>
    parts_value (from_loop r limit v ps) = number_upto r (parts_value limit) v (parts_value ps)"
proof (induction v arbitrary: ps)
  case (Cons ch v)
  show ?case
  proof (cases "\<exists>d. digit_of ch = Some d \<and> d < r")
    case True
    then obtain d where d: "digit_of ch = Some d" "d < r"
      by blast
    obtain qs c where q: "parts_step (of_nat r) (of_nat d) ps = (qs, c)"
      by fastforce
    have "unat (of_nat d :: u64) = d"
      using d(2) assms(1) by (simp add: unsigned_of_nat take_bit_eq_mod)
    then have s: "parts_value qs + 2 ^ 128 * unat c = parts_value ps * r + d" "length qs = 4"
      using parts_step_value [OF assms(1) _ q] d(2) assms(1) Cons.prems by auto
    have l: "parts_value limit < 2 ^ 128" "parts_value qs < 2 ^ 128"
      using parts_value_less [of limit] parts_value_less [of qs] assms(2) s(2) by simp_all
    have over: "c \<noteq> 0 \<or> parts_greater qs limit \<longleftrightarrow> parts_value limit < parts_value ps * r + d"
    proof (cases "c = 0")
      case True
      then show ?thesis
        using s parts_greater_value [of qs limit] assms(2) by simp
    next
      case False
      then have "1 \<le> unat c"
        by (simp add: word_unat_eq_iff)
      then have "2 ^ 128 \<le> 2 ^ 128 * unat c"
        by simp
      then have "2 ^ 128 \<le> parts_value ps * r + d"
        using s(1) by linarith
      then show ?thesis
        using False l(1) by linarith
    qed
    show ?thesis
    proof (cases "parts_value limit < parts_value ps * r + d")
      case True
      then show ?thesis
        using d q over assms(2) by simp
    next
      case False
      then have "c = 0" "\<not> parts_greater qs limit"
        using over by auto
      then show ?thesis
        using d q False s Cons.IH [OF s(2)] by simp
    qed
  qed (use Cons.prems in \<open>auto split: option.splits\<close>)
qed simp
section \<open>Round trip\<close>

declare digits_loop.simps [simp del]

lemma unat_OR_disjoint:
  fixes high :: "'a :: len word" and low :: "'b :: len word"
  assumes "LENGTH('a) + n = LENGTH('c)" "LENGTH('b) = n"
  shows "unat (push_bit n (ucast high) OR ucast low :: 'c :: len word) = unat low + 2 ^ n * unat high"
proof -
  have "push_bit n (ucast high) OR ucast low = (push_bit n (ucast high) + ucast low :: 'c word)"
    using assms(2) by (intro disjunctive_add [symmetric]) (auto simp: bit_simps dest: bit_imp_le_length)
  moreover have "unat high < 2 ^ LENGTH('a)" "unat low < 2 ^ n"
    using unsigned_less [of high, where 'a = nat] unsigned_less [of low, where 'a = nat] assms(2) by simp_all
  moreover from this have "unat low + 2 ^ n * unat high < 2 ^ LENGTH('c)"
    using digit_less [of 0 "2 ^ n" "unat low" "unat high" "2 ^ LENGTH('a)"] assms(1) by (simp add: power_add [symmetric] add.commute)
  moreover have "unat high * 2 ^ n mod 2 ^ LENGTH('c) = unat high * 2 ^ n"
    using calculation(4) by (intro mod_less) (simp add: mult.commute)
  moreover have "unat high < 2 ^ LENGTH('c)" "unat low < 2 ^ LENGTH('c)"
    using assms by (auto intro!: less_le_trans [OF unsigned_less])
  ultimately show ?thesis
    by (simp add: unat_word_ariths unsigned_push_bit_eq unsigned_ucast_eq take_bit_eq_mod push_bit_nat_def mult.commute add.commute)
qed

lemma unat_MAKE_OWORD: "unat (MAKE_OWORD low high) = unat low + 2 ^ 64 * unat high"
  unfolding MAKE_OWORD_def by (rule unat_OR_disjoint) simp_all

lemma unat_parts_oword: "length ps = 4 \<Longrightarrow> unat (parts_oword ps) = parts_value ps"
proof -
  assume "length ps = 4"
  then obtain a b c d where ps: "ps = [a, b, c, d]"
    by (auto simp: length_Suc_conv eval_nat_numeral)
  have half: "unat (ucast x OR push_bit 32 (ucast y) :: u64) = unat x + 2 ^ 32 * unat y" for x y :: u32
    using unat_OR_disjoint [of 32 y x, where 'c = 64] by (simp add: or.commute)
  show ?thesis
    by (simp add: ps parts_oword_def unat_MAKE_OWORD half)
qed

lemma limits: "length max_positive = 4" "length min_negative_magnitude = 4"
  "parts_value max_positive = 2 ^ 127 - 1" "parts_value min_negative_magnitude = 2 ^ 127"
  by (simp_all add: max_positive_def min_negative_magnitude_def)

lemma clamp_bounds: "2 \<le> clamp_radix radix" "clamp_radix radix \<le> 36"
  by (auto simp: clamp_radix_def)

text \<open>The parser computes the reference.\<close>

lemma Int128FromString_eq:
  "Int128FromString v radix =
     (let negative = (v \<noteq> [] \<and> hd v = 45);
          digits = (if v \<noteq> [] \<and> (hd v = 45 \<or> hd v = 43) then tl v else v);
          n = number_upto (clamp_radix radix) (if negative then 2 ^ 127 else 2 ^ 127 - 1) digits 0
      in if negative then - of_nat n else of_nat n)"
proof -
  have p: "parts_oword (from_loop (clamp_radix radix) lim w [0, 0, 0, 0]) =
      of_nat (number_upto (clamp_radix radix) (parts_value lim) w 0)" if "length lim = 4" for lim w
  proof -
    have "length (from_loop (clamp_radix radix) lim w [0, 0, 0, 0]) = 4"
      "parts_value (from_loop (clamp_radix radix) lim w [0, 0, 0, 0]) = number_upto (clamp_radix radix) (parts_value lim) w 0"
      using from_loop_value [OF clamp_bounds(2) that, of "[0, 0, 0, 0]"] by simp_all
    then show ?thesis
      by (metis of_nat_unat unat_parts_oword unsigned_of_nat ucast_id of_nat_eq_id word_unat_eq_iff)
  qed
  have m: "MAKE_OWORD 0 0x8000000000000000 = - parts_oword min_negative_magnitude"
    by (simp add: word_unat_eq_iff) (simp add: MAKE_OWORD_def parts_oword_def min_negative_magnitude_def)
  show ?thesis
    using p [OF limits(1), of v] p [OF limits(1), of "tl v"] p [OF limits(2), of "tl v"] m
    by (auto simp: Int128FromString_def limits(3,4) Let_def)
qed


lemma digits_loop_append: "digits_loop base n (xs @ ys) = digits_loop base n xs @ ys"
proof (induction base n xs arbitrary: ys rule: digits_loop.induct)
  case (1 base n xs)
  then show ?case
    by (cases "n = 0 \<or> base < 2") (simp_all add: digits_loop.simps [of base n])
qed

lemma digits_loop_snoc:
  "0 < n \<Longrightarrow> 2 \<le> base \<Longrightarrow> digits_loop base n [] = digits_loop base (n div base) [] @ [digit_table ! (n mod base)]"
  using digits_loop_append [of base "n div base" "[]" "[digit_table ! (n mod base)]"] by (simp add: digits_loop.simps [of base n])

lemma digit_of_table: "d < 36 \<Longrightarrow> digit_of (digit_table ! d) = Some d"
proof -
  assume "d < 36"
  moreover have "\<forall>d \<in> set [0..<36]. digit_of (digit_table ! d) = Some d"
    by code_simp
  ultimately show ?thesis
    by simp
qed

lemma number_digits:
  assumes "2 \<le> r" "r \<le> 36"
  shows "n \<le> limit \<Longrightarrow> number_upto r limit (digits_loop r n [] @ t) 0 = number_upto r limit t n"
proof (induction n arbitrary: t rule: less_induct)
  case (less n)
  show ?case
  proof (cases "n = 0")
    case False
    have m: "n mod r < r" "n div r < n" "n div r \<le> limit"
      using assms False less.prems by (auto intro: le_trans [OF div_le_dividend])
    have "digit_of (digit_table ! (n mod r)) = Some (n mod r)"
      using m(1) assms(2) by (intro digit_of_table) (rule less_le_trans)
    moreover have "\<not> r \<le> n mod r"
      using m(1) by (simp only: not_le)
    ultimately show ?thesis
      using less.IH [OF m(2,3)] less.prems False assms by (simp add: digits_loop_snoc)
  qed (simp add: digits_loop.simps)
qed

lemma length_digits_loop: "n < 2 ^ k \<Longrightarrow> 2 \<le> base \<Longrightarrow> length (digits_loop base n []) \<le> k"
proof (induction k arbitrary: n)
  case (Suc k)
  have "n div base < 2 ^ k"
    using Suc.prems less_le_trans [of n "2 ^ k * 2" "2 ^ k * base"] by (simp add: div_less_iff_less_mult)
  then show ?case
    using Suc by (cases "n = 0") (simp_all add: digits_loop_snoc digits_loop.simps [of base 0])
qed (simp add: digits_loop.simps)

lemma odd_div_iff: "n < 2 * m \<Longrightarrow> odd (n div m) \<longleftrightarrow> m \<le> (n :: nat)"
proof (cases "m \<le> n")
  case True
  assume "n < 2 * m"
  with True have "n div m = 1"
    by (intro div_nat_eqI) simp_all
  with True show ?thesis
    by simp
qed simp

lemma sint_magnitude:
  fixes v :: i128
  shows "sint v < 0 \<Longrightarrow> unat (NOT v + 1) \<le> 2 ^ 127 \<and> of_nat (unat (NOT v + 1)) = - v"
    and "\<not> sint v < 0 \<Longrightarrow> unat v \<le> 2 ^ 127 - 1"
proof -
  have n: "NOT v + 1 = - v"
    by (simp add: minus_eq_not_plus_1)
  have lt: "unat v < 2 ^ 128"
    using unsigned_less [of v, where 'a = nat] by simp
  have "sint v < 0 \<longleftrightarrow> bit (unat v) 127"
    using bit_last_iff [of v] by (simp add: bit_unsigned_iff)
  also have "\<dots> \<longleftrightarrow> 2 ^ 127 \<le> unat v"
    unfolding bit_iff_odd by (rule odd_div_iff) (use lt in simp)
  finally have s: "sint v < 0 \<longleftrightarrow> 2 ^ 127 \<le> unat v" .
  show "\<not> sint v < 0 \<Longrightarrow> unat v \<le> 2 ^ 127 - 1"
    unfolding s by simp
  show "unat (NOT v + 1) \<le> 2 ^ 127 \<and> of_nat (unat (NOT v + 1)) = - v" if "sint v < 0"
  proof -
    have "unat (- v) = 2 ^ 128 - unat v"
      using that [unfolded s] unat_sub_if' [of 0 v] by simp
    moreover have "(2 :: nat) ^ 128 = 2 ^ 127 + 2 ^ 127"
      by simp
    ultimately have "unat (- v) \<le> 2 ^ 127"
      using that [unfolded s] by linarith
    then show ?thesis
      unfolding n by (intro conjI) simp_all
  qed
qed

section \<open>Properties\<close>

text \<open>A text ends here: nothing follows, or a character that is no digit.\<close>

definition text_end :: "bytes \<Rightarrow> bool" where
  "text_end t \<longleftrightarrow> t = [] \<or> digit_of (hd t) = None"

lemma number_end: "text_end t \<Longrightarrow> number_upto r limit t n = n"
  by (cases t) (simp_all add: text_end_def)

lemma digits_hd:
  "0 < n \<Longrightarrow> 2 \<le> base \<Longrightarrow> base \<le> 36 \<Longrightarrow> digits_loop base n [] \<noteq> [] \<and> digit_of (hd (digits_loop base n [])) \<noteq> None"
proof (induction n rule: less_induct)
  case (less n)
  have "n mod base < 36"
    using less.prems less_le_trans [of "n mod base" base 36] by simp
  then show ?case
    using less digits_loop_snoc [of n base] digit_of_table [of "n mod base"]
    by (cases "n div base = 0") (simp_all add: digits_loop.simps [of base 0] del: div_eq_0_iff)
qed

lemma sign_no_digit: "digit_of 45 = None" "digit_of 43 = None" "digit_of 48 = Some 0"
  by (simp_all add: digit_of_def)

lemma parse_digits:
  assumes "0 < n" "n \<le> 2 ^ 127 - 1" "text_end t"
  shows "Int128FromString (digits_loop (clamp_radix radix) n [] @ t) radix = of_nat n"
proof -
  let ?d = "digits_loop (clamp_radix radix) n []"
  have d: "?d \<noteq> []" "hd ?d \<noteq> 45" "hd ?d \<noteq> 43"
    using digits_hd [OF assms(1) clamp_bounds, of radix] sign_no_digit by auto
  then show ?thesis
    using number_digits [OF clamp_bounds assms(2), of radix t] number_end [OF assms(3)]
    by (simp add: Int128FromString_eq)
qed

lemma print_parse:
  assumes "text_end t"
  shows "Int128FromString (Int128ToString v radix @ t) radix = v \<and> length (Int128ToString v radix) \<le> 130"
proof -
  consider "v = 0" | "v \<noteq> 0" "sint v < 0" | "v \<noteq> 0" "\<not> sint v < 0"
    by blast
  then show ?thesis
  proof cases
    case 1
    have "\<not> clamp_radix radix \<le> 0"
      using clamp_bounds(1) [of radix] by simp
    with 1 assms show ?thesis
      by (simp add: Int128ToString_def Int128FromString_eq sign_no_digit number_end)
  next
    case 2
    have "unat (NOT v + 1) < 2 ^ LENGTH(128)"
      by (rule unsigned_less)
    then have m: "unat (NOT v + 1) \<le> 2 ^ 127" "of_nat (unat (NOT v + 1)) = - v" "unat (NOT v + 1) < 2 ^ 128"
      using sint_magnitude(1) [OF 2(2)] by (blast, blast, simp)
    have "number_upto (clamp_radix radix) (2 ^ 127) (digits_loop (clamp_radix radix) (unat (NOT v + 1)) [] @ t) 0 = unat (NOT v + 1)"
      using number_digits [OF clamp_bounds m(1), of radix t] number_end [OF assms] by simp
    then show ?thesis
      using 2 m(2) length_digits_loop [OF m(3) clamp_bounds(1), of radix]
      by (simp add: Int128ToString_def Int128FromString_eq del: unsigned_not_eq)
  next
    case 3
    have m: "unat v \<le> 2 ^ 127 - 1" "0 < unat v" "unat v < 2 ^ 128"
      using sint_magnitude(2) [OF 3(2)] 3(1) by (auto simp: unat_gt_0)
    then show ?thesis
      using 3 parse_digits [OF m(2,1) assms, of radix] length_digits_loop [OF m(3) clamp_bounds(1), of radix]
      by (simp add: Int128ToString_def)
  qed
qed



end
