(* ===== verification/Handshake.thy ===== *)
theory Handshake
  imports Transmission Int128_Text
begin

text \<open>
  The handshake of a carrier, \<^verbatim>\<open>src/ppp/transmissions/ITransmission.cpp\<close>: packing and unpacking of the numbers
  that are exchanged, dummy packets, the capability words of \<^verbatim>\<open>ITransmission.h\<close>, the check of the framing flags
  and the change of the ciphers. An end has a state of the carrier, the bytes that will arrive and the bytes it
  has sent. Random draws are arguments. The historical names are kept: \<^verbatim>\<open>HandshakeClient\<close> runs in the server
  application and \<^verbatim>\<open>HandshakeServer\<close> in the client application. The timeout of the handshake is left out.
\<close>

unbundle bit_operations_syntax

section \<open>Numbers in packets\<close>

text \<open>The random draws of one packet.\<close>

record hs_draws =
  hs_k0 :: u8
  hs_k1 :: u8
  hs_k2 :: u8
  hs_k3 :: u8
  hs_v :: i128
  hs_sep :: u8
  hs_pad :: "nat \<Rightarrow> u8"
  hs_loops :: nat
  hs_tail :: "nat \<Rightarrow> u8"
  hs_tx :: draws

definition xor_round :: "u8 \<Rightarrow> u32 \<times> bytes \<Rightarrow> u32 \<times> bytes" where
  "xor_round k x = (let kf = fst x XOR ucast k in (kf, xor_key kf (snd x)))"

definition Pack_SessionId :: "key_config \<Rightarrow> hs_draws \<Rightarrow> i128 \<Rightarrow> bytes" where
  "Pack_SessionId cfg d session_id =
     (let kfs = [hs_k0 d, hs_k1 d, hs_k2 d, hs_k3 d];
          id_str = Int128ToString (if session_id \<noteq> 0 then session_id else hs_v d) 10 @ [hs_sep d];
          mx = key_kx cfg mod 0x100;
          id_str = (if mx > 0
                    then id_str @ map (hs_pad d) [0..<mx] @ [47] @ map (hs_tail d) [0..<hs_loops d]
                    else id_str)
      in kfs @ snd (fold xor_round kfs (key_kf cfg, id_str)))"

text \<open>The flag tells a dummy packet.\<close>

definition Unpack_SessionId :: "key_config \<Rightarrow> bytes \<Rightarrow> bool \<times> i128" where
  "Unpack_SessionId cfg packet =
     (if length packet < 4 then (False, 0)
      else if packet ! 0 AND 0x80 \<noteq> 0 then (True, 0)
      else let kfs = take 4 packet; p = drop 4 packet
           in if p = [] then (False, 0)
              else (False, Int128FromString (snd (fold xor_round kfs (key_kf cfg, p))) 10))"

text \<open>
  What the draws give by their ranges: a first byte with the right top bit, a separator that is no digit, and at most
  four times the longer of the padding and the packet so far as the number of further bytes.
\<close>

definition draws_ok :: "key_config \<Rightarrow> i128 \<Rightarrow> hs_draws \<Rightarrow> bool" where
  "draws_ok cfg session_id d \<longleftrightarrow>
     (if session_id \<noteq> 0 then hs_k0 d AND 0x80 = 0 else hs_k0 d AND 0x80 \<noteq> 0) \<and>
     0x20 \<le> unat (hs_sep d) \<and> unat (hs_sep d) \<le> 0x2F \<and> hs_loops d \<le> 4096"

section \<open>Capabilities\<close>

definition EncodeWord :: "u64 \<Rightarrow> u64 \<Rightarrow> bool \<Rightarrow> bool \<Rightarrow> u64" where
  "EncodeWord entropy magic bit0 policy_enabled =
     push_bit 16 magic OR (entropy AND 0x000000000000FFF8) OR (if policy_enabled then 4 else 0) OR 2 OR (if bit0 then 1 else 0)"

definition DecodeWord :: "u64 \<Rightarrow> u64 \<Rightarrow> bool \<times> bool" where
  "DecodeWord v magic = (if drop_bit 16 v \<noteq> magic then (False, False) else (v AND 2 \<noteq> 0, v AND 4 \<noteq> 0))"

definition ClientNmuxMagic :: u64 where
  "ClientNmuxMagic = 0x5452414E5331"

definition ServerIvvMagic :: u64 where
  "ServerIvvMagic = 0x5452414E5332"

definition oword_low :: "i128 \<Rightarrow> u64" where
  "oword_low v = ucast v"

definition oword_high :: "i128 \<Rightarrow> u64" where
  "oword_high v = ucast (drop_bit 64 v)"

definition EncodeClientNmux :: "i128 \<Rightarrow> bool \<Rightarrow> bool \<Rightarrow> i128" where
  "EncodeClientNmux v mux policy_enabled =
     MAKE_OWORD (EncodeWord (oword_low v) ClientNmuxMagic mux policy_enabled) (oword_high v)"

definition DecodeClientNmux :: "i128 \<Rightarrow> bool \<times> bool" where
  "DecodeClientNmux v = DecodeWord (oword_low v) ClientNmuxMagic"

definition EncodeServerIvv :: "i128 \<Rightarrow> bool \<Rightarrow> i128" where
  "EncodeServerIvv v policy_enabled =
     MAKE_OWORD (EncodeWord (oword_low v) ServerIvvMagic (oword_low v AND 1 \<noteq> 0) policy_enabled) (oword_high v)"

definition DecodeServerIvv :: "i128 \<Rightarrow> bool \<times> bool" where
  "DecodeServerIvv v = DecodeWord (oword_low v) ServerIvvMagic"

definition FlagCanary :: "key_config \<Rightarrow> u64" where
  "FlagCanary cfg =
     (let flags = (if key_masked cfg then 1 else 0) OR push_bit 1 (if key_plaintext cfg then 1 else 0) OR
                  push_bit 2 (if key_delta_encode cfg then 1 else 0) OR push_bit 3 (if key_shuffle_data cfg then 1 else 0);
          kf_canary = ucast (key_kf cfg) AND 0xFFF
      in 0xC0DEC0DEC0DE OR push_bit 48 flags OR push_bit 52 kf_canary)"

section \<open>Ends of a carrier\<close>

record endpoint =
  ep_tr :: ITransmission
  ep_in :: bytes
  ep_out :: bytes

definition ep_write :: "ssea_simd \<Rightarrow> key_config \<Rightarrow> draws \<Rightarrow> bytes \<Rightarrow> endpoint \<Rightarrow> bool \<times> endpoint" where
  "ep_write simd cfg rnd packet e =
     (let (r, tr) = Transmission_Write simd cfg rnd packet (ep_tr e)
      in case r of None \<Rightarrow> (False, e\<lparr>ep_tr := tr\<rparr>) | Some out \<Rightarrow> (True, e\<lparr>ep_tr := tr, ep_out := ep_out e @ out\<rparr>))"

definition ep_read :: "ssea_simd \<Rightarrow> key_config \<Rightarrow> endpoint \<Rightarrow> bytes option \<times> endpoint" where
  "ep_read simd cfg e =
     (let (r, stream, tr) = Transmission_Read simd cfg (ep_in e) (ep_tr e) in (r, e\<lparr>ep_tr := tr, ep_in := stream\<rparr>))"

definition send_SessionId :: "ssea_simd \<Rightarrow> key_config \<Rightarrow> hs_draws \<Rightarrow> i128 \<Rightarrow> endpoint \<Rightarrow> bool \<times> endpoint" where
  "send_SessionId simd cfg d session_id e = ep_write simd cfg (hs_tx d) (Pack_SessionId cfg d session_id) e"

lemma ReadBytes_shorter: "ReadBytes n stream = Some (b, rest) \<Longrightarrow> length rest = length stream - n \<and> n \<le> length stream"
  by (auto simp: ReadBytes_def split: if_splits)

lemma envelope_read_shorter: "envelope_read simd cfg rn stream = (Some packet, rest, rn') \<Longrightarrow> length rest < length stream"
  by (auto simp: envelope_read_def decode_length_rn_def decode_length_r1_def Let_def frame_sizes
      split: prod.splits option.splits if_splits sum.splits dest!: ReadBytes_shorter)

lemma ReadBinary_shorter: "ReadBinary simd cfg stream s = ((Some packet, rest), s') \<Longrightarrow> length rest < length stream"
  by (auto simp: ReadBinary_def with_ciphers_def Packet_Read_def Let_def frame_sizes
      split: prod.splits option.splits if_splits dest!: ReadBytes_shorter)

lemma Transmission_Read_shorter: "Transmission_Read simd cfg stream s = (Some packet, rest, s') \<Longrightarrow> length rest < length stream"
  by (auto simp: Transmission_Read_def Let_def split: prod.splits option.splits if_splits
      dest!: envelope_read_shorter ReadBinary_shorter)

text \<open>Receive a number and skip dummy packets; every packet consumes bytes.\<close>

function recv_SessionId :: "ssea_simd \<Rightarrow> key_config \<Rightarrow> endpoint \<Rightarrow> i128 \<times> endpoint" where
  "recv_SessionId simd cfg e =
     (case ep_read simd cfg e of
        (None, e') \<Rightarrow> (0, e')
      | (Some packet, e') \<Rightarrow>
          (case Unpack_SessionId cfg packet of
             (True, _) \<Rightarrow> recv_SessionId simd cfg e'
           | (False, sid) \<Rightarrow> (sid, e')))"
  by pat_completeness auto

termination
  by (relation "measure (\<lambda>(simd, cfg, e). length (ep_in e))")
     (auto simp: ep_read_def split: prod.splits dest!: Transmission_Read_shorter)

section \<open>Handshake\<close>

text \<open>The draws of one end: the number of dummy packets, their draws, those of the numbers, and its random numbers.\<close>

record hs_random =
  hr_rounds :: nat
  hr_dummy :: "nat \<Rightarrow> hs_draws"
  hr_first :: hs_draws
  hr_second :: hs_draws
  hr_ivv :: i128
  hr_nmux_low :: u64

definition nop_rounds :: "key_config \<Rightarrow> nat \<Rightarrow> nat" where
  "nop_rounds cfg r =
     (let kl = 2 ^ key_kl cfg; kh = 2 ^ key_kh cfg;
          rounds = (if kl = kh then kl else r)
      in (rounds + 1399) div 1400)"

fun nop_loop :: "ssea_simd \<Rightarrow> key_config \<Rightarrow> (nat \<Rightarrow> hs_draws) \<Rightarrow> nat list \<Rightarrow> endpoint \<Rightarrow> bool \<times> endpoint" where
  "nop_loop simd cfg ds [] e = (True, e)"
| "nop_loop simd cfg ds (i # is) e =
     (let (ok, e) = send_SessionId simd cfg (ds i) 0 e in if ok then nop_loop simd cfg ds is e else (False, e))"

definition Handshake_Nop :: "ssea_simd \<Rightarrow> key_config \<Rightarrow> hs_random \<Rightarrow> endpoint \<Rightarrow> bool \<times> endpoint" where
  "Handshake_Nop simd cfg rnd e = nop_loop simd cfg (hr_dummy rnd) [0..<nop_rounds cfg (hr_rounds rnd)] e"

text \<open>The new ciphers: both keys are extended by the text of the number in radix 32.\<close>

definition rekey :: "crypto_lib \<Rightarrow> key_config \<Rightarrow> i128 \<Rightarrow> ITransmission \<Rightarrow> ITransmission" where
  "rekey lib cfg ivv s =
     (if both_ciphers s
      then let ivv_str = Int128ToString ivv 32;
               ivv_str = (if sint ivv > 0 then 43 # ivv_str else ivv_str)
           in if IsHaveCiphertext cfg
              then s\<lparr>protocol := Some (Ciphertext_new lib (key_protocol cfg) (key_protocol_key cfg @ ivv_str)),
                     transport := Some (Ciphertext_new lib (key_transport cfg) (key_transport_key cfg @ ivv_str))\<rparr>
              else s
      else s)"

definition set_peer :: "bool \<times> bool \<Rightarrow> ITransmission \<Rightarrow> ITransmission" where
  "set_peer p s = s\<lparr>peer_supports_transport_auth_v1 := fst p, peer_enables_transport_auth_v1 := fst p \<and> snd p\<rparr>"

definition InternalHandshakeClient :: "ssea_simd \<Rightarrow> crypto_lib \<Rightarrow> key_config \<Rightarrow> bool \<Rightarrow> hs_random \<Rightarrow> endpoint
    \<Rightarrow> (i128 \<times> bool) \<times> endpoint" where
  "InternalHandshakeClient simd lib cfg enabled rnd e =
     (let (ok, e) = Handshake_Nop simd cfg rnd e
      in if \<not> ok then ((0, False), e)
         else let (sid, e) = recv_SessionId simd cfg e
              in if sid = 0 then ((0, False), e)
                 else let ivv = EncodeServerIvv (hr_ivv rnd) (enabled \<and> \<not> server_loopback_ingress (ep_tr e));
                          (ok, e) = send_SessionId simd cfg (hr_first rnd) ivv e
                      in if \<not> ok then ((0, False), e)
                         else let (nmux, e) = recv_SessionId simd cfg e
                              in if nmux = 0 then ((0, False), e)
                                 else let mux = (nmux AND 1 \<noteq> 0);
                                          peer = DecodeClientNmux nmux;
                                          nmux_high = oword_high nmux
                                      in if nmux_high AND 0x0000FFFFFFFFFFFF = 0xC0DEC0DEC0DE \<and> nmux_high \<noteq> FlagCanary cfg
                                         then ((0, mux), e)
                                         else ((sid, mux),
                                               e\<lparr>ep_tr := (set_peer peer (rekey lib cfg ivv (ep_tr e)))\<lparr>handshaked := True\<rparr>\<rparr>))"

definition InternalHandshakeServer :: "ssea_simd \<Rightarrow> crypto_lib \<Rightarrow> key_config \<Rightarrow> bool \<Rightarrow> hs_random \<Rightarrow> i128 \<Rightarrow> bool \<Rightarrow> endpoint
    \<Rightarrow> bool \<times> endpoint" where
  "InternalHandshakeServer simd lib cfg enabled rnd session_id mux e =
     (let (ok, e) = Handshake_Nop simd cfg rnd e
      in if \<not> ok then (False, e)
         else let (ok, e) = send_SessionId simd cfg (hr_first rnd) session_id e
              in if \<not> ok then (False, e)
                 else let nmux = EncodeClientNmux (MAKE_OWORD (hr_nmux_low rnd) (FlagCanary cfg)) mux enabled;
                          (ok, e) = send_SessionId simd cfg (hr_second rnd) nmux e
                      in if \<not> ok then (False, e)
                         else let (ivv, e) = recv_SessionId simd cfg e;
                                  e = (if ivv \<noteq> 0
                                       then e\<lparr>ep_tr := (set_peer (DecodeServerIvv ivv) (rekey lib cfg ivv (ep_tr e)))\<lparr>handshaked := True\<rparr>\<rparr>
                                       else e)
                              in (handshaked (ep_tr e), e))"

definition clear_peer :: "endpoint \<Rightarrow> endpoint" where
  "clear_peer e = e\<lparr>ep_tr := set_peer (False, False) (ep_tr e)\<rparr>"

text \<open>The entry points; the timer that guards them cannot be armed on a disposed carrier.\<close>

definition HandshakeClient :: "ssea_simd \<Rightarrow> crypto_lib \<Rightarrow> key_config \<Rightarrow> bool \<Rightarrow> hs_random \<Rightarrow> endpoint \<Rightarrow> (i128 \<times> bool) \<times> endpoint" where
  "HandshakeClient simd lib cfg enabled rnd e =
     (let e = clear_peer e
      in if disposed (ep_tr e) then ((0, False), e)
         else let ((sid, mux), e) = InternalHandshakeClient simd lib cfg enabled rnd e
              in ((sid, mux), if sid = 0 then clear_peer e else e))"

definition HandshakeServer :: "ssea_simd \<Rightarrow> crypto_lib \<Rightarrow> key_config \<Rightarrow> bool \<Rightarrow> hs_random \<Rightarrow> i128 \<Rightarrow> bool \<Rightarrow> endpoint \<Rightarrow> bool \<times> endpoint" where
  "HandshakeServer simd lib cfg enabled rnd session_id mux e =
     (let e = clear_peer e
      in if session_id = 0 then (False, e)
         else if disposed (ep_tr e) then (False, e)
         else let (ok, e) = InternalHandshakeServer simd lib cfg enabled rnd session_id mux e
              in (ok, if ok then e else clear_peer e))"

section \<open>Numbers survive\<close>

declare recv_SessionId.simps [simp del]

lemma xor_round_pair: "xor_round k (kf, raw) = (kf XOR ucast k, map (\<lambda>b. b XOR ucast (kf XOR ucast k)) raw)"
  by (simp add: xor_round_def Let_def xor_key_def)

lemma xor_rounds: "\<exists>m. \<forall>raw. snd (fold xor_round ks (kf, raw)) = map (\<lambda>b. b XOR m) raw"
proof (induction ks arbitrary: kf)
  case Nil
  show ?case
    by (intro exI [of _ 0]) simp
next
  case (Cons k ks)
  obtain m where m: "\<forall>raw. snd (fold xor_round ks (kf XOR ucast k, raw)) = map (\<lambda>b. b XOR m) raw"
    using Cons.IH by blast
  show ?case
    using m by (intro exI [of _ "ucast (kf XOR ucast k) XOR m"])
      (simp add: xor_round_pair comp_def xor.assoc)
qed

lemma xor_rounds_twice: "snd (fold xor_round ks (kf, snd (fold xor_round ks (kf, raw)))) = raw"
  and length_xor_rounds: "length (snd (fold xor_round ks (kf, raw))) = length raw"
proof -
  obtain m where "\<forall>raw. snd (fold xor_round ks (kf, raw)) = map (\<lambda>b. b XOR m) raw"
    using xor_rounds by blast
  then show "snd (fold xor_round ks (kf, snd (fold xor_round ks (kf, raw)))) = raw" "length (snd (fold xor_round ks (kf, raw))) = length raw"
    by (simp_all add: comp_def xor_xor_byte)
qed

lemma separator_ends: "0x20 \<le> unat c \<Longrightarrow> unat c \<le> 0x2F \<Longrightarrow> text_end (c # t)"
  by (simp add: text_end_def digit_of_def)

lemma Pack_shape:
  "\<exists>t. Pack_SessionId cfg d v = [hs_k0 d, hs_k1 d, hs_k2 d, hs_k3 d] @
     snd (fold xor_round [hs_k0 d, hs_k1 d, hs_k2 d, hs_k3 d]
       (key_kf cfg, Int128ToString (if v \<noteq> 0 then v else hs_v d) 10 @ hs_sep d # t)) \<and> length t \<le> 256 + hs_loops d"
proof (cases "key_kx cfg mod 0x100 > 0")
  case True
  then show ?thesis
    using mod_less_divisor [of 256 "key_kx cfg"]
    by (intro exI [of _ "map (hs_pad d) [0..<key_kx cfg mod 0x100] @ [47] @ map (hs_tail d) [0..<hs_loops d]"])
       (simp add: Pack_SessionId_def Let_def del: fold.simps)
next
  case False
  then show ?thesis
    by (intro exI [of _ "[]"]) (simp add: Pack_SessionId_def Let_def del: fold.simps)
qed

lemma Pack_length:
  assumes "draws_ok cfg v d"
  shows "5 \<le> length (Pack_SessionId cfg d v)" "length (Pack_SessionId cfg d v) \<le> 4487"
proof -
  obtain t where t: "Pack_SessionId cfg d v = [hs_k0 d, hs_k1 d, hs_k2 d, hs_k3 d] @
      snd (fold xor_round [hs_k0 d, hs_k1 d, hs_k2 d, hs_k3 d]
       (key_kf cfg, Int128ToString (if v \<noteq> 0 then v else hs_v d) 10 @ hs_sep d # t))" "length t \<le> 256 + hs_loops d"
    using Pack_shape by blast
  have "length (Pack_SessionId cfg d v) = 5 + length (Int128ToString (if v \<noteq> 0 then v else hs_v d) 10) + length t"
    unfolding t(1) length_append length_xor_rounds by simp
  moreover have "length (Int128ToString w 10) \<le> 130" for w
    using print_parse [of "[]"] by (simp add: text_end_def)
  then have "length (Int128ToString (if v \<noteq> 0 then v else hs_v d) 10) \<le> 130"
    by blast
  ultimately show "5 \<le> length (Pack_SessionId cfg d v)" "length (Pack_SessionId cfg d v) \<le> 4487"
    using t(2) assms by (auto simp: draws_ok_def)
qed

lemma Pack_message_ok: "draws_ok cfg v d \<Longrightarrow> message_ok (Pack_SessionId cfg d v)"
  using Pack_length [of cfg v d] by (auto simp: message_ok_def PPP_BUFFER_SIZE_def)

lemma Unpack_Pack:
  assumes "draws_ok cfg v d"
  shows "Unpack_SessionId cfg (Pack_SessionId cfg d v) = (v = 0, v)"
proof -
  let ?k = "[hs_k0 d, hs_k1 d, hs_k2 d, hs_k3 d]"
  obtain t where t: "Pack_SessionId cfg d v = ?k @ snd (fold xor_round ?k
       (key_kf cfg, Int128ToString (if v \<noteq> 0 then v else hs_v d) 10 @ hs_sep d # t))"
    using Pack_shape by blast
  let ?s = "Int128ToString (if v \<noteq> 0 then v else hs_v d) 10 @ hs_sep d # t"
  have ne: "snd (fold xor_round ?k (key_kf cfg, ?s)) \<noteq> []"
    by (metis length_xor_rounds list.size(3) append_is_Nil_conv list.distinct(1) length_0_conv)
  have p: "drop 4 (Pack_SessionId cfg d v) = snd (fold xor_round ?k (key_kf cfg, ?s))" "take 4 (Pack_SessionId cfg d v) = ?k"
    "(length (Pack_SessionId cfg d v) < 4) = False" "Pack_SessionId cfg d v ! 0 = hs_k0 d"
    unfolding t by simp_all
  show ?thesis
  proof (cases "v = 0")
    case True
    then show ?thesis
      using assms unfolding Unpack_SessionId_def Let_def p by (simp add: draws_ok_def)
  next
    case False
    have "Int128FromString (Int128ToString v 10 @ hs_sep d # t) 10 = v"
      using print_parse [of "hs_sep d # t" v 10] separator_ends [of "hs_sep d" t] assms by (simp add: draws_ok_def)
    then show ?thesis
      using False assms ne unfolding Unpack_SessionId_def Let_def p xor_rounds_twice by (simp add: draws_ok_def)
  qed
qed

section \<open>Words\<close>

lemma oword_parts: "oword_low (MAKE_OWORD low high) = low" "oword_high (MAKE_OWORD low high) = high"
proof -
  have l: "unat low < 2 ^ 64" "unat high < 2 ^ 64"
    using unsigned_less [of low, where 'a = nat] unsigned_less [of high, where 'a = nat] by simp_all
  show "oword_low (MAKE_OWORD low high) = low"
    using l(1) by (simp add: word_unat_eq_iff oword_low_def unsigned_ucast_eq take_bit_eq_mod unat_MAKE_OWORD)
  show "oword_high (MAKE_OWORD low high) = high"
    using l by (simp add: word_unat_eq_iff oword_high_def unsigned_ucast_eq take_bit_eq_mod drop_bit_eq_div unat_div_distrib unat_MAKE_OWORD)
qed

lemma EncodeWord_bits:
  "EncodeWord entropy magic bit0 policy AND 1 \<noteq> 0 \<longleftrightarrow> bit0"
  "EncodeWord entropy magic bit0 policy AND 2 \<noteq> 0"
  "EncodeWord entropy magic bit0 policy AND 4 \<noteq> 0 \<longleftrightarrow> policy"
proof -
  have mask: "(7 :: u64) = mask 3"
    by (simp add: mask_eq_exp_minus_1)
  have z: "(push_bit 16 magic :: u64) AND 7 = 0"
    unfolding mask take_bit_eq_mask [symmetric] by (simp add: take_bit_push_bit)
  have m: "(push_bit 16 magic :: u64) AND 1 = 0" "(push_bit 16 magic :: u64) AND 2 = 0" "(push_bit 16 magic :: u64) AND 4 = 0"
    using arg_cong [OF z, of "\<lambda>w. w AND 1"] arg_cong [OF z, of "\<lambda>w. w AND 2"] arg_cong [OF z, of "\<lambda>w. w AND 4"]
    by (simp_all add: and.assoc)
  have e: "(entropy AND 0xFFF8) AND 1 = 0" "(entropy AND 0xFFF8) AND 2 = 0" "(entropy AND 0xFFF8) AND 4 = 0"
    by (simp_all add: and.assoc)
  show "EncodeWord entropy magic bit0 policy AND 1 \<noteq> 0 \<longleftrightarrow> bit0" "EncodeWord entropy magic bit0 policy AND 2 \<noteq> 0"
    "EncodeWord entropy magic bit0 policy AND 4 \<noteq> 0 \<longleftrightarrow> policy"
    by (simp_all add: EncodeWord_def bit.conj_disj_distrib2 m e)
qed

lemma EncodeWord_magic: "drop_bit 16 (EncodeWord entropy magic bit0 policy) = drop_bit 16 (push_bit 16 magic)"
  by (simp add: EncodeWord_def drop_bit_or drop_bit_and)

lemma Decode_Encode:
  "DecodeClientNmux (EncodeClientNmux v mux policy) = (True, policy)"
  "DecodeServerIvv (EncodeServerIvv v policy) = (True, policy)"
  "oword_high (EncodeClientNmux v mux policy) = oword_high v"
  by (simp_all add: DecodeClientNmux_def EncodeClientNmux_def DecodeServerIvv_def EncodeServerIvv_def oword_parts DecodeWord_def
      EncodeWord_magic EncodeWord_bits) (simp_all add: ClientNmuxMagic_def ServerIvvMagic_def)

lemma oword_low_bit: "v AND 1 \<noteq> 0 \<longleftrightarrow> oword_low v AND 1 \<noteq> 0"
proof -
  have b: "w AND 1 \<noteq> 0 \<longleftrightarrow> bit w 0" for w :: "'a :: len word"
    by (simp add: and_one_eq bit_0 flip: even_iff_mod_2_eq_zero)
  show ?thesis
    unfolding b oword_low_def by (simp only: bit_simps) simp
qed

lemma Encode_nonzero: "EncodeClientNmux v mux policy \<noteq> 0" "EncodeServerIvv v policy \<noteq> 0"
  and EncodeClientNmux_mux: "EncodeClientNmux v mux policy AND 1 \<noteq> 0 \<longleftrightarrow> mux"
proof -
  have z: "oword_low 0 AND 2 = 0"
    by (simp add: oword_low_def)
  show "EncodeClientNmux v mux policy \<noteq> 0" "EncodeServerIvv v policy \<noteq> 0"
    using z EncodeWord_bits(2) by (metis EncodeClientNmux_def oword_parts(1), metis EncodeServerIvv_def oword_parts(1))
  show "EncodeClientNmux v mux policy AND 1 \<noteq> 0 \<longleftrightarrow> mux"
    unfolding oword_low_bit EncodeClientNmux_def oword_parts EncodeWord_bits ..
qed

end
