(* ===== verification/Handshake_Run.thy ===== *)
theory Handshake_Run
  imports Handshake
begin

text \<open>
  Runs of the handshake of Handshake over a carrier: which bytes carry which packets to an end that uses the same ciphers,
  what both ends send and receive, that they finish with the same numbers and ciphers in step, and that a client whose
  obfuscation flags differ refuses.
\<close>

unbundle bit_operations_syntax

section \<open>Ciphers without state\<close>

text \<open>The ciphers of OpenSSL and of the processor start anew for every packet, so a carrier may use them in both directions.\<close>

definition stateless :: "Ciphertext option \<Rightarrow> bool" where
  "stateless p \<longleftrightarrow> (case p of None \<Rightarrow> True | Some c \<Rightarrow> ct_evp c \<noteq> None)"

lemma cipher_stateless:
  assumes "ct_evp c \<noteq> None"
  shows "snd (Ciphertext_Encrypt x c) = c" "snd (Ciphertext_EncryptTo n x c) = c" "snd (Ciphertext_Decrypt x c) = c"
    "snd (Transport_Decrypt x c) = c"
  using assms by (auto simp: Ciphertext_Encrypt_def Ciphertext_EncryptTo_def Ciphertext_Decrypt_def Transport_Decrypt_def
      DecryptInPlace_def ct_call_def)

lemma length_field_stateless:
  assumes "stateless p"
  shows "snd (length_field Ciphertext_Encrypt f p) = p" "snd (length_field Ciphertext_Decrypt f p) = p"
  using assms cipher_stateless(1,3) [of "the p" f]
  by (auto simp: stateless_def length_field_def split: option.splits prod.splits)

lemma header_stateless:
  assumes "stateless p"
  shows "snd (Transmission_Header_Encrypt simd cfg seed p n) = p" "snd (snd (Transmission_Header_Decrypt simd cfg p h)) = p"
  using length_field_stateless [OF assms]
  by (auto simp: Transmission_Header_Encrypt_def Transmission_Header_Decrypt_def Let_def split: option.splits prod.splits) (metis snd_conv)+

lemma packet_stateless:
  assumes "stateless p" "stateless t"
  shows "snd (Packet_Encrypt simd cfg seed safest p t data) = (p, t)" "snd (Packet_Open simd cfg kf safest p t data) = (p, t)"
  using header_stateless(1) [OF assms(1)] assms cipher_stateless [of "the t"]
  by (auto simp: Packet_Encrypt_def Packet_Open_def Let_def stateless_def split: option.splits prod.splits if_splits) (metis snd_conv)+

lemma Packet_Decrypt_stateless:
  assumes "stateless p" "stateless t"
  shows "snd (Packet_Decrypt simd cfg safest p t data) = (p, t)"
proof -
  obtain n kf where "Transmission_Header_Decrypt simd cfg p data = (n, kf, p)"
    using header_stateless(2) [OF assms(1), of simd cfg data] by (cases "Transmission_Header_Decrypt simd cfg p data") auto
  then show ?thesis
    using packet_stateless(2) [OF assms] by (simp add: Packet_Decrypt_def)
qed

lemma with_ciphers_same:
  "(both_ciphers s \<Longrightarrow> snd (f (protocol s) (transport s)) = (protocol s, transport s)) \<Longrightarrow> snd (with_ciphers f s) = s"
  by (auto simp: with_ciphers_def split: prod.splits)

lemma binary_stateless:
  assumes "stateless (protocol s)" "stateless (transport s)"
  shows "snd (EncryptBinary simd cfg rnd data s) = s" "snd (DecryptBinary simd cfg data s) = s"
  unfolding EncryptBinary_def DecryptBinary_def
  by (rule with_ciphers_same; simp add: packet_stateless(1) [OF assms] Packet_Decrypt_stateless [OF assms])+

text \<open>Two ends before the handshake, with the same stateless ciphers.\<close>

definition hs_link :: "ITransmission \<Rightarrow> ITransmission \<Rightarrow> bool" where
  "hs_link s r \<longleftrightarrow>
     \<not> disposed s \<and> \<not> disposed r \<and> \<not> handshaked s \<and> \<not> handshaked r \<and> protocol s = protocol r \<and> transport s = transport r \<and>
     stateless (protocol s) \<and> stateless (transport s) \<and>
     opt_sync (protocol s) (protocol s) \<and> opt_sync (transport s) (transport s)"

lemma hs_link_sym: "hs_link s r \<Longrightarrow> hs_link r s"
  by (auto simp: hs_link_def)

lemma hs_link_frames [simp]:
  "hs_link (s\<lparr>frame_tn := x\<rparr>) r = hs_link s r" "hs_link (s\<lparr>frame_rn := x\<rparr>) r = hs_link s r"
  "hs_link s (r\<lparr>frame_tn := x\<rparr>) = hs_link s r" "hs_link s (r\<lparr>frame_rn := x\<rparr>) = hs_link s r"
  by (simp_all add: hs_link_def)

lemma link_delivers:
  assumes "simd_ok simd" "hs_link s r" "frame_tn s = frame_rn r" "message_ok packet"
    and "frame_tn s \<or> fst (Transmission_Write simd cfg rnd packet s) \<noteq> None"
  obtains out where "Transmission_Write simd cfg rnd packet s = (Some out, s\<lparr>frame_tn := True\<rparr>)"
    "\<forall>rest. Transmission_Read simd cfg (out @ rest) r = (Some packet, rest, r\<lparr>frame_rn := True\<rparr>)"
proof -
  have sync: "tr_sync s r"
    using assms(2,3) by (auto simp: hs_link_def tr_sync_def)
  have st: "stateless (protocol s)" "stateless (transport s)" "stateless (protocol r)" "stateless (transport r)"
    and u: "uses_envelope cfg s" "uses_envelope cfg r" "\<not> disposed s" "\<not> disposed r"
    using assms(2) by (auto simp: hs_link_def uses_envelope_def)
  have d: "packet \<noteq> []" "length packet \<le> 65536"
    using assms(4) by (simp_all add: message_ok_def PPP_BUFFER_SIZE_def)
  obtain pk a b where e: "EncryptBinary simd cfg rnd packet s = (Some pk, a)" "length pk = length packet + 3"
      "DecryptBinary simd cfg pk r = (Some packet, b)"
    using binary_roundtrip [OF assms(1) sync d, of cfg rnd] by metis
  have same: "a = s" "b = r"
    using binary_stateless(1) [OF st(1,2), of simd cfg rnd packet] binary_stateless(2) [OF st(3,4), of simd cfg pk] e by simp_all
  have pk: "pk \<noteq> []" "length pk \<le> 65539"
    using e(2) d(2) by auto
  obtain out tn where o: "envelope_encode simd cfg rnd (frame_tn s) pk = (out, tn)"
    by fastforce
  have w: "Transmission_Write simd cfg rnd packet s = (out, s\<lparr>frame_tn := tn\<rparr>)"
    using u d(1) e(1) same(1) o by (simp add: Transmission_Write_def Transmission_Encrypt_def)
  have "out \<noteq> None"
    using assms(5) w envelope_encode_eq [OF assms(1) pk, of cfg rnd "frame_tn s"] o by (metis fst_conv option.distinct(1))
  then obtain bs where bs: "out = Some bs"
    by blast
  have r: "tn \<and> envelope_read simd cfg (frame_rn r) (bs @ rest) = (Some pk, rest, True)" for rest
    using envelope_read_encode [OF assms(1) pk o [unfolded bs assms(3)]] .
  show thesis
  proof (rule that)
    show "Transmission_Write simd cfg rnd packet s = (Some bs, s\<lparr>frame_tn := True\<rparr>)"
      using w bs r by simp
    show "\<forall>rest. Transmission_Read simd cfg (bs @ rest) r = (Some packet, rest, r\<lparr>frame_rn := True\<rparr>)"
      using u r pk(1) e(3) same(2) by (simp add: Transmission_Read_def DecryptBinary_frame_rn)
  qed
qed

text \<open>Bytes that carry packets for an end: each is read in turn, and nothing more.\<close>

fun carried :: "ssea_simd \<Rightarrow> key_config \<Rightarrow> ITransmission \<Rightarrow> bool \<Rightarrow> bytes list \<Rightarrow> bytes \<Rightarrow> bool" where
  "carried simd cfg s rn [] bs \<longleftrightarrow> bs = []"
| "carried simd cfg s rn (p # ps) bs \<longleftrightarrow>
     (\<exists>out bs'. bs = out @ bs' \<and> carried simd cfg s True ps bs' \<and>
        (\<forall>r rest. hs_link s r \<longrightarrow> frame_rn r = rn \<longrightarrow>
           Transmission_Read simd cfg (out @ rest) r = (Some p, rest, r\<lparr>frame_rn := True\<rparr>)))"

lemma carried_frame [simp]: "carried simd cfg (s\<lparr>frame_tn := x\<rparr>) rn ps bs = carried simd cfg s rn ps bs"
  by (induction ps arbitrary: rn bs) simp_all

lemma carried_append:
  "carried simd cfg s rn ps bs \<Longrightarrow> carried simd cfg s (rn \<or> ps \<noteq> []) qs bs' \<Longrightarrow> carried simd cfg s rn (ps @ qs) (bs @ bs')"
proof (induction ps arbitrary: rn bs)
  case (Cons p ps)
  obtain out bs1 where b: "bs = out @ bs1" "carried simd cfg s True ps bs1"
      "\<forall>r rest. hs_link s r \<longrightarrow> frame_rn r = rn \<longrightarrow> Transmission_Read simd cfg (out @ rest) r = (Some p, rest, r\<lparr>frame_rn := True\<rparr>)"
    using Cons.prems(1) by auto
  have "carried simd cfg s True (ps @ qs) (bs1 @ bs')"
    using Cons.IH [OF b(2)] Cons.prems(2) by simp
  then show ?case
    using b(1,3) by auto
qed simp

text \<open>What an end sends from its state, when its first frame does not fail.\<close>

lemma send_carried:
  assumes "simd_ok simd" "hs_link (ep_tr e) (ep_tr e)" "draws_ok cfg v d"
    and "frame_tn (ep_tr e) \<or> fst (Transmission_Write simd cfg (hs_tx d) (Pack_SessionId cfg d v) (ep_tr e)) \<noteq> None"
  obtains bs where "send_SessionId simd cfg d v e = (True, e\<lparr>ep_tr := (ep_tr e)\<lparr>frame_tn := True\<rparr>, ep_out := ep_out e @ bs\<rparr>)"
    "carried simd cfg (ep_tr e) (frame_tn (ep_tr e)) [Pack_SessionId cfg d v] bs"
proof -
  let ?s = "ep_tr e" and ?p = "Pack_SessionId cfg d v"
  have ok: "message_ok ?p"
    by (rule Pack_message_ok [OF assms(3)])
  define out where "out = the (fst (Transmission_Write simd cfg (hs_tx d) ?p ?s))"
  have each: "Transmission_Write simd cfg (hs_tx d) ?p ?s = (Some out, ?s\<lparr>frame_tn := True\<rparr>) \<and>
      (\<forall>rest. Transmission_Read simd cfg (out @ rest) r = (Some ?p, rest, r\<lparr>frame_rn := True\<rparr>))"
    if "hs_link ?s r" "frame_rn r = frame_tn ?s" for r
    using link_delivers [OF assms(1) that(1) that(2) [symmetric] ok assms(4)] out_def by (metis fst_conv option.sel)
  have "Transmission_Write simd cfg (hs_tx d) ?p ?s = (Some out, ?s\<lparr>frame_tn := True\<rparr>)"
    using each [of "?s\<lparr>frame_rn := frame_tn ?s\<rparr>"] assms(2) by simp
  moreover have "carried simd cfg ?s (frame_tn ?s) [?p] out"
    using each by (auto intro!: exI [of _ out])
  ultimately show thesis
    using that [of out] by (simp add: send_SessionId_def ep_write_def)
qed

lemma nops_carried:
  assumes "simd_ok simd"
  shows "hs_link (ep_tr e) (ep_tr e) \<Longrightarrow> list_all (\<lambda>i. draws_ok cfg 0 (ds i)) is \<Longrightarrow>
    frame_tn (ep_tr e) \<or> is = [] \<or>
      fst (Transmission_Write simd cfg (hs_tx (ds (hd is))) (Pack_SessionId cfg (ds (hd is)) 0) (ep_tr e)) \<noteq> None \<Longrightarrow>
    \<exists>bs. nop_loop simd cfg ds is e =
           (True, e\<lparr>ep_tr := (ep_tr e)\<lparr>frame_tn := frame_tn (ep_tr e) \<or> is \<noteq> []\<rparr>, ep_out := ep_out e @ bs\<rparr>) \<and>
         carried simd cfg (ep_tr e) (frame_tn (ep_tr e)) (map (\<lambda>i. Pack_SessionId cfg (ds i) 0) is) bs"
proof (induction "is" arbitrary: e)
  case Nil
  then show ?case
    by simp
next
  case (Cons i "is")
  obtain bs where s: "send_SessionId simd cfg (ds i) 0 e = (True, e\<lparr>ep_tr := (ep_tr e)\<lparr>frame_tn := True\<rparr>, ep_out := ep_out e @ bs\<rparr>)"
      "carried simd cfg (ep_tr e) (frame_tn (ep_tr e)) [Pack_SessionId cfg (ds i) 0] bs"
    by (rule send_carried [OF assms Cons.prems(1), of cfg 0 "ds i"]) (use Cons.prems(2,3) in auto)
  let ?e = "e\<lparr>ep_tr := (ep_tr e)\<lparr>frame_tn := True\<rparr>, ep_out := ep_out e @ bs\<rparr>"
  obtain bs' where n: "nop_loop simd cfg ds is ?e = (True, e\<lparr>ep_tr := (ep_tr e)\<lparr>frame_tn := True\<rparr>, ep_out := ep_out e @ bs @ bs'\<rparr>)"
      "carried simd cfg (ep_tr e) True (map (\<lambda>i. Pack_SessionId cfg (ds i) 0) is) bs'"
    using Cons.IH [of ?e] Cons.prems(1,2) by auto
  have "carried simd cfg (ep_tr e) (frame_tn (ep_tr e)) ([Pack_SessionId cfg (ds i) 0] @ map (\<lambda>i. Pack_SessionId cfg (ds i) 0) is) (bs @ bs')"
    by (rule carried_append [OF s(2)]) (simp add: n(2))
  then show ?case
    using s(1) n(1) by (auto simp del: carried.simps)
qed

lemma recv_carried:
  assumes "fst (Unpack_SessionId cfg p) = False" "\<forall>q \<in> set qs. fst (Unpack_SessionId cfg q)"
  shows "hs_link s (ep_tr e) \<Longrightarrow> carried simd cfg s (frame_rn (ep_tr e)) (qs @ p # ps) bs \<Longrightarrow> ep_in e = bs @ rest \<Longrightarrow>
    \<exists>bs'. recv_SessionId simd cfg e = (snd (Unpack_SessionId cfg p), e\<lparr>ep_tr := (ep_tr e)\<lparr>frame_rn := True\<rparr>, ep_in := bs' @ rest\<rparr>) \<and>
          carried simd cfg s True ps bs'"
  using assms(2)
proof (induction qs arbitrary: e bs)
  case Nil
  obtain out bs' where b: "bs = out @ bs'" "carried simd cfg s True ps bs'"
      "Transmission_Read simd cfg (out @ bs' @ rest) (ep_tr e) = (Some p, bs' @ rest, (ep_tr e)\<lparr>frame_rn := True\<rparr>)"
    using Nil.prems(1,2) by auto
  have "recv_SessionId simd cfg e = (snd (Unpack_SessionId cfg p), e\<lparr>ep_tr := (ep_tr e)\<lparr>frame_rn := True\<rparr>, ep_in := bs' @ rest\<rparr>)"
    using b(1,3) Nil.prems(3) assms(1)
    by (subst recv_SessionId.simps) (auto simp: ep_read_def split: prod.splits bool.splits)
  then show ?case
    using b(2) by blast
next
  case (Cons q qs)
  obtain out bs' where b: "bs = out @ bs'" "carried simd cfg s True (qs @ p # ps) bs'"
      "Transmission_Read simd cfg (out @ bs' @ rest) (ep_tr e) = (Some q, bs' @ rest, (ep_tr e)\<lparr>frame_rn := True\<rparr>)"
    using Cons.prems(1,2) by auto
  let ?e = "e\<lparr>ep_tr := (ep_tr e)\<lparr>frame_rn := True\<rparr>, ep_in := bs' @ rest\<rparr>"
  have "recv_SessionId simd cfg e = recv_SessionId simd cfg ?e"
    using b(1,3) Cons.prems(3,4)
    by (subst recv_SessionId.simps) (auto simp: ep_read_def split: prod.splits bool.splits)
  then show ?case
    using Cons.IH [of ?e bs'] Cons.prems b(2) by auto
qed

section \<open>Configurations that differ in the flags\<close>

definition with_flags :: "bool \<times> bool \<times> bool \<times> bool \<Rightarrow> key_config \<Rightarrow> key_config" where
  "with_flags f cfg = (case f of (m, p, d, sh) \<Rightarrow>
     cfg\<lparr>key_masked := m, key_plaintext := p, key_delta_encode := d, key_shuffle_data := sh\<rparr>)"

definition flags_of :: "key_config \<Rightarrow> bool \<times> bool \<times> bool \<times> bool" where
  "flags_of cfg = (key_masked cfg, key_plaintext cfg, key_delta_encode cfg, key_shuffle_data cfg)"

lemma with_flags_fields [simp]:
  "key_kf (with_flags f cfg) = key_kf cfg" "key_kl (with_flags f cfg) = key_kl cfg" "key_kh (with_flags f cfg) = key_kh cfg"
  "key_kx (with_flags f cfg) = key_kx cfg" "key_protocol (with_flags f cfg) = key_protocol cfg"
  "key_protocol_key (with_flags f cfg) = key_protocol_key cfg" "key_transport (with_flags f cfg) = key_transport cfg"
  "key_transport_key (with_flags f cfg) = key_transport_key cfg" "flags_of (with_flags f cfg) = f"
  by (simp_all add: with_flags_def flags_of_def split: prod.splits)

text \<open>Nothing sent or received before the end of the handshake depends on the flags.\<close>

lemma flags_handshake [simp]:
  "Pack_SessionId (with_flags f cfg) = Pack_SessionId cfg" "Unpack_SessionId (with_flags f cfg) = Unpack_SessionId cfg"
  "draws_ok (with_flags f cfg) = draws_ok cfg" "nop_rounds (with_flags f cfg) = nop_rounds cfg"
  "IsHaveCiphertext (with_flags f cfg) = IsHaveCiphertext cfg" "ITransmission_new lib (with_flags f cfg) = ITransmission_new lib cfg"
  "rekey lib (with_flags f cfg) = rekey lib cfg"
  by (simp_all add: fun_eq_iff Pack_SessionId_def Unpack_SessionId_def draws_ok_def nop_rounds_def IsHaveCiphertext_def
      ITransmission_new_def rekey_def Let_def)

lemma flags_mod: "Lcgmod (with_flags f cfg) = Lcgmod cfg" "KF_MOD (with_flags f cfg) = KF_MOD cfg"
  unfolding KF_MOD_def Lcgmod_def with_flags_fields by (rule refl)+

lemma flags_lengths:
  "base94_decode_length (with_flags f cfg) = base94_decode_length cfg" "base94_encode_length (with_flags f cfg) = base94_encode_length cfg"
  unfolding fun_eq_iff base94_decode_length_def base94_encode_length_def flags_mod with_flags_fields by blast+

lemma flags_envelope:
  "envelope_encode simd (with_flags f cfg) = envelope_encode simd cfg" "envelope_read simd (with_flags f cfg) = envelope_read simd cfg"
  unfolding fun_eq_iff envelope_encode_def envelope_read_def decode_length_rn_def decode_length_r1_def flags_lengths with_flags_fields
  by blast+

lemma flags_header:
  "Transmission_Header_Encrypt simd (with_flags f cfg) = Transmission_Header_Encrypt simd cfg"
  "Transmission_Header_Decrypt simd (with_flags f cfg) = Transmission_Header_Decrypt simd cfg"
  unfolding fun_eq_iff Transmission_Header_Encrypt_def Transmission_Header_Decrypt_def with_flags_fields flags_mod by blast+

lemma flags_payload:
  "Payload_Encrypt simd (with_flags f cfg) kf True = Payload_Encrypt simd cfg kf True"
  "Payload_Decrypt simd (with_flags f cfg) kf True = Payload_Decrypt simd cfg kf True"
  unfolding fun_eq_iff Payload_Encrypt_def Payload_Decrypt_def Payload_Encrypt_Partial_def Payload_Decrypt_Partial_def
    with_flags_fields simp_thms if_True by blast+

lemma flags_packet:
  "Packet_Encrypt simd (with_flags f cfg) seed True = Packet_Encrypt simd cfg seed True"
  "Packet_Decrypt simd (with_flags f cfg) True = Packet_Decrypt simd cfg True"
  unfolding fun_eq_iff Packet_Encrypt_def Packet_Decrypt_def Packet_Open_def flags_header flags_payload with_flags_fields simp_thms
    if_True if_False Let_def by blast+

lemma flags_messages:
  assumes "\<not> handshaked s"
  shows "Transmission_Write simd (with_flags f cfg) rnd data s = Transmission_Write simd cfg rnd data s"
    "Transmission_Read simd (with_flags f cfg) stream s = Transmission_Read simd cfg stream s"
proof -
  have h: "handshaked (snd (EncryptBinary simd cfg rnd data s)) = handshaked s"
    by (simp add: EncryptBinary_def with_ciphers_def split: prod.splits)
  then have "EncryptBinary simd cfg rnd data s = (r, s') \<Longrightarrow> uses_envelope (with_flags f cfg) s' \<and> uses_envelope cfg s'" for r s'
    using assms by (simp add: uses_envelope_def)
  moreover have "EncryptBinary simd (with_flags f cfg) rnd data s = EncryptBinary simd cfg rnd data s"
    "DecryptBinary simd (with_flags f cfg) x (s\<lparr>frame_rn := y\<rparr>) = DecryptBinary simd cfg x (s\<lparr>frame_rn := y\<rparr>)" for x y
    using assms by (simp_all add: EncryptBinary_def DecryptBinary_def flags_packet)
  ultimately show "Transmission_Write simd (with_flags f cfg) rnd data s = Transmission_Write simd cfg rnd data s"
    "Transmission_Read simd (with_flags f cfg) stream s = Transmission_Read simd cfg stream s"
    using assms by (auto simp: Transmission_Write_def Transmission_Encrypt_def Transmission_Read_def flags_envelope uses_envelope_def
        Let_def split: prod.splits option.splits cong: option.case_cong if_cong)
qed

lemma carried_flags: "carried simd (with_flags f cfg) s rn ps bs = carried simd cfg s rn ps bs"
  by (induction ps arbitrary: rn bs) (auto simp: hs_link_def flags_messages)

section \<open>Runs of both ends\<close>

text \<open>The draws of an end are in their ranges, and its first frame does not fail.\<close>

definition random_ok :: "key_config \<Rightarrow> hs_random \<Rightarrow> bool" where
  "random_ok cfg rnd \<longleftrightarrow>
     1 \<le> hr_rounds rnd \<and> list_all (\<lambda>i. draws_ok cfg 0 (hr_dummy rnd i)) [0..<nop_rounds cfg (hr_rounds rnd)] \<and>
     draws_ok cfg 1 (hr_first rnd) \<and> draws_ok cfg 1 (hr_second rnd)"

definition starts :: "ssea_simd \<Rightarrow> key_config \<Rightarrow> hs_random \<Rightarrow> ITransmission \<Rightarrow> bool" where
  "starts simd cfg rnd s \<longleftrightarrow>
     fst (Transmission_Write simd cfg (hs_tx (hr_dummy rnd 0)) (Pack_SessionId cfg (hr_dummy rnd 0) 0) s) \<noteq> None"

definition dummies :: "key_config \<Rightarrow> hs_random \<Rightarrow> bytes list" where
  "dummies cfg rnd = map (\<lambda>i. Pack_SessionId cfg (hr_dummy rnd i) 0) [0..<nop_rounds cfg (hr_rounds rnd)]"

lemma draws_ok_nonzero: "draws_ok cfg 1 d \<Longrightarrow> v \<noteq> 0 \<Longrightarrow> draws_ok cfg v d"
  by (simp add: draws_ok_def)

lemma carried_frame_rn [simp]: "carried simd cfg (s\<lparr>frame_rn := x\<rparr>) rn ps bs = carried simd cfg s rn ps bs"
  by (induction ps arbitrary: rn bs) simp_all

abbreviation ends :: "ITransmission \<Rightarrow> bytes \<Rightarrow> bytes \<Rightarrow> endpoint" where
  "ends t x out \<equiv> \<lparr>ep_tr = t, ep_in = x, ep_out = out\<rparr>"

lemma send_ends:
  "send_SessionId simd cfg d v (ends t x out) =
     (let (ok, e) = send_SessionId simd cfg d v (ends t [] []) in (ok, ends (ep_tr e) x (out @ ep_out e)))"
  by (auto simp: send_SessionId_def ep_write_def split: prod.splits option.splits)

lemma nop_ends:
  "nop_loop simd cfg ds is (ends t x out) =
     (let (ok, e) = nop_loop simd cfg ds is (ends t [] []) in (ok, ends (ep_tr e) x (out @ ep_out e)))"
proof (induction "is" arbitrary: t x out)
  case (Cons i "is")
  obtain ok e where s: "send_SessionId simd cfg (ds i) 0 (ends t [] []) = (ok, e)"
    by fastforce
  show ?case
    unfolding nop_loop.simps send_ends [of _ _ _ _ t x out] s Let_def prod.case
    using Cons.IH [of "ep_tr e" x "out @ ep_out e"] Cons.IH [of "ep_tr e" "[]" "ep_out e"] send_ends [of simd cfg "ds i" 0 t "[]" "[]"] s
    by (auto split: prod.splits)
qed simp

lemma dummies_skipped:
  assumes "random_ok cfg rnd"
  shows "\<forall>q \<in> set (dummies cfg rnd). fst (Unpack_SessionId cfg q)"
  using assms Unpack_Pack by (auto simp: dummies_def random_ok_def list_all_iff)

lemma rounds_positive: "random_ok cfg rnd \<Longrightarrow> 0 < nop_rounds cfg (hr_rounds rnd)"
  by (simp add: random_ok_def nop_rounds_def Let_def div_greater_zero_iff)

text \<open>What an end sends does not depend on what it is sent.\<close>

lemma send_carries:
  assumes "simd_ok simd" "hs_link t t" "draws_ok cfg 1 d" "v \<noteq> 0" "frame_tn t"
  obtains bs where "\<And>x out. send_SessionId simd cfg d v (ends t x out) = (True, ends t x (out @ bs))"
    "carried simd cfg t True [Pack_SessionId cfg d v] bs"
proof -
  obtain bs where s: "send_SessionId simd cfg d v (ends t [] []) = (True, ends (t\<lparr>frame_tn := True\<rparr>) [] bs)"
      "carried simd cfg t True [Pack_SessionId cfg d v] bs"
    using send_carried [OF assms(1) _ draws_ok_nonzero [OF assms(3,4)], of "ends t [] []"] assms(2,5) by auto
  then show thesis
    using assms(5) by (intro that) (subst send_ends, simp)
qed

lemma Nop_carries:
  assumes "simd_ok simd" "hs_link t t" "random_ok cfg rnd" "starts simd cfg rnd t"
  obtains bs where "\<And>x out. Handshake_Nop simd cfg rnd (ends t x out) = (True, ends (t\<lparr>frame_tn := True\<rparr>) x (out @ bs))"
    "carried simd cfg t (frame_tn t) (dummies cfg rnd) bs"
proof -
  let ?is = "[0..<nop_rounds cfg (hr_rounds rnd)]"
  have i: "?is \<noteq> []" "hd ?is = 0"
    using rounds_positive [OF assms(3)] by (simp_all add: upt_rec)
  obtain bs where "nop_loop simd cfg (hr_dummy rnd) ?is (ends t [] []) = (True, ends (t\<lparr>frame_tn := True\<rparr>) [] bs)"
      "carried simd cfg t (frame_tn t) (dummies cfg rnd) bs"
    using nops_carried [OF assms(1), of "ends t [] []" cfg "hr_dummy rnd" ?is] assms(2-4) i
    by (auto simp: random_ok_def starts_def dummies_def)
  then show thesis
    unfolding Handshake_Nop_def by (intro that [unfolded Handshake_Nop_def]) (subst nop_ends, simp)
qed

lemma server_sends:
  assumes "simd_ok simd" "hs_link t t" "random_ok cfg rnd" "starts simd cfg rnd t" "sid \<noteq> 0" "nmux \<noteq> 0"
  obtains b0 b1 b2 where
    "\<And>x out. Handshake_Nop simd cfg rnd (ends t x out) = (True, ends (t\<lparr>frame_tn := True\<rparr>) x (out @ b0))"
    "\<And>x out. send_SessionId simd cfg (hr_first rnd) sid (ends (t\<lparr>frame_tn := True\<rparr>) x out) = (True, ends (t\<lparr>frame_tn := True\<rparr>) x (out @ b1))"
    "\<And>x out. send_SessionId simd cfg (hr_second rnd) nmux (ends (t\<lparr>frame_tn := True\<rparr>) x out) = (True, ends (t\<lparr>frame_tn := True\<rparr>) x (out @ b2))"
    "carried simd cfg t (frame_tn t)
       (dummies cfg rnd @ [Pack_SessionId cfg (hr_first rnd) sid, Pack_SessionId cfg (hr_second rnd) nmux]) (b0 @ b1 @ b2)"
proof -
  let ?t = "t\<lparr>frame_tn := True\<rparr>"
  have l: "hs_link ?t ?t" "frame_tn ?t" and d: "draws_ok cfg 1 (hr_first rnd)" "draws_ok cfg 1 (hr_second rnd)"
    using assms(2,3) by (simp_all add: random_ok_def)
  obtain b0 where b0: "\<And>x out. Handshake_Nop simd cfg rnd (ends t x out) = (True, ends ?t x (out @ b0))"
      "carried simd cfg t (frame_tn t) (dummies cfg rnd) b0"
    using Nop_carries [OF assms(1-4)] by blast
  obtain b1 where b1: "\<And>x out. send_SessionId simd cfg (hr_first rnd) sid (ends ?t x out) = (True, ends ?t x (out @ b1))"
      "carried simd cfg ?t True [Pack_SessionId cfg (hr_first rnd) sid] b1"
    using send_carries [OF assms(1) l(1) d(1) assms(5) l(2)] by blast
  obtain b2 where b2: "\<And>x out. send_SessionId simd cfg (hr_second rnd) nmux (ends ?t x out) = (True, ends ?t x (out @ b2))"
      "carried simd cfg ?t True [Pack_SessionId cfg (hr_second rnd) nmux] b2"
    using send_carries [OF assms(1) l(1) d(2) assms(6) l(2)] by blast
  have "carried simd cfg t True ([Pack_SessionId cfg (hr_first rnd) sid] @ [Pack_SessionId cfg (hr_second rnd) nmux]) (b1 @ b2)"
    using b1(2) b2(2) by (intro carried_append) (simp_all del: carried.simps)
  then have "carried simd cfg t (frame_tn t)
      (dummies cfg rnd @ [Pack_SessionId cfg (hr_first rnd) sid, Pack_SessionId cfg (hr_second rnd) nmux]) (b0 @ b1 @ b2)"
    using carried_append [OF b0(2)] rounds_positive [OF assms(3)] by (simp add: dummies_def)
  then show thesis
    using that [OF b0(1) b1(1) b2(1)] by blast
qed

lemma recv_ends:
  assumes "hs_link s t" "random_ok cfg rs \<or> qs = []" "qs = dummies cfg rs \<or> qs = []" "draws_ok cfg 1 d" "v \<noteq> 0"
    and "carried simd cfg s (frame_rn t) (qs @ Pack_SessionId cfg d v # ps) bs"
  obtains bs' where "recv_SessionId simd cfg (ends t (bs @ x) out) = (v, ends (t\<lparr>frame_rn := True\<rparr>) (bs' @ x) out)"
    "carried simd cfg s True ps bs'"
proof -
  have "fst (Unpack_SessionId cfg (Pack_SessionId cfg d v)) = False" "snd (Unpack_SessionId cfg (Pack_SessionId cfg d v)) = v"
    using Unpack_Pack [OF draws_ok_nonzero [OF assms(4,5)]] assms(5) by simp_all
  moreover have "\<forall>q \<in> set qs. fst (Unpack_SessionId cfg q)"
    using dummies_skipped assms(2,3) by auto
  ultimately show thesis
    using recv_carried [of cfg "Pack_SessionId cfg d v" qs s "ends t (bs @ x) out" simd ps bs x] assms(1,6) that by auto
qed

lemma client_run:
  assumes "simd_ok simd" "hs_link s t" "random_ok cfg rnd" "starts simd cfg rnd t" "random_ok cfg rs" "sid \<noteq> 0" "nmux \<noteq> 0"
    and ivv: "ivv = EncodeServerIvv (hr_ivv rnd) (enabled \<and> \<not> server_loopback_ingress t)"
    and bs: "carried simd cfg s (frame_rn t)
      (dummies cfg rs @ [Pack_SessionId cfg (hr_first rs) sid, Pack_SessionId cfg (hr_second rs) nmux]) bs"
  obtains bc where "carried simd cfg t (frame_tn t) (dummies cfg rnd @ [Pack_SessionId cfg (hr_first rnd) ivv]) bc"
    "\<And>x out. InternalHandshakeClient simd lib cfg enabled rnd (ends t (bs @ x) out) =
       (let t' = t\<lparr>frame_tn := True, frame_rn := True\<rparr>
        in if oword_high nmux AND 0x0000FFFFFFFFFFFF = 0xC0DEC0DEC0DE \<and> oword_high nmux \<noteq> FlagCanary cfg
           then ((0, nmux AND 1 \<noteq> 0), ends t' x (out @ bc))
           else ((sid, nmux AND 1 \<noteq> 0),
                 ends ((set_peer (DecodeClientNmux nmux) (rekey lib cfg ivv t'))\<lparr>handshaked := True\<rparr>) x (out @ bc)))"
proof -
  let ?t1 = "t\<lparr>frame_tn := True\<rparr>" and ?t2 = "t\<lparr>frame_tn := True, frame_rn := True\<rparr>"
  have l: "hs_link t t" "hs_link ?t2 ?t2" "frame_tn ?t2" "ivv \<noteq> 0" "draws_ok cfg 1 (hr_first rnd)"
    using assms(2,3) by (auto simp: hs_link_def ivv Encode_nonzero random_ok_def)
  obtain b0 where b0: "\<And>x out. Handshake_Nop simd cfg rnd (ends t x out) = (True, ends ?t1 x (out @ b0))"
      "carried simd cfg t (frame_tn t) (dummies cfg rnd) b0"
    using Nop_carries [OF assms(1) l(1) assms(3,4)] by blast
  obtain b1 where b1: "\<And>x out. send_SessionId simd cfg (hr_first rnd) ivv (ends ?t2 x out) = (True, ends ?t2 x (out @ b1))"
      "carried simd cfg ?t2 True [Pack_SessionId cfg (hr_first rnd) ivv] b1"
    using send_carries [OF assms(1) l(2,5,4,3)] by blast
  have run: "carried simd cfg t (frame_tn t) (dummies cfg rnd @ [Pack_SessionId cfg (hr_first rnd) ivv]) (b0 @ b1)"
    using b1(2) rounds_positive [OF assms(3)] by (intro carried_append [OF b0(2)]) (simp add: dummies_def del: carried.simps)
  have first: "\<exists>bs'. recv_SessionId simd cfg (ends ?t1 (bs @ x) out) = (sid, ends ?t2 (bs' @ x) out) \<and>
      carried simd cfg s True [Pack_SessionId cfg (hr_second rs) nmux] bs'" for x out
    by (rule recv_ends [of s ?t1 cfg rs "dummies cfg rs" "hr_first rs" sid simd _ bs x out])
       (use assms(2,5,6) bs in \<open>auto simp: random_ok_def simp del: carried.simps\<close>)
  have second: "recv_SessionId simd cfg (ends ?t2 (bs' @ x) out) = (nmux, ends ?t2 x out)"
    if "carried simd cfg s True [Pack_SessionId cfg (hr_second rs) nmux] bs'" for bs' x out
    by (rule recv_ends [of s ?t2 cfg rs "[]" "hr_second rs" nmux simd "[]" bs' x out])
       (use assms(2,5,7) that in \<open>auto simp: random_ok_def simp del: carried.simps(2)\<close>)
  have "InternalHandshakeClient simd lib cfg enabled rnd (ends t (bs @ x) out) =
       (if oword_high nmux AND 0x0000FFFFFFFFFFFF = 0xC0DEC0DEC0DE \<and> oword_high nmux \<noteq> FlagCanary cfg
        then ((0, nmux AND 1 \<noteq> 0), ends ?t2 x (out @ b0 @ b1))
        else ((sid, nmux AND 1 \<noteq> 0),
              ends ((set_peer (DecodeClientNmux nmux) (rekey lib cfg ivv ?t2))\<lparr>handshaked := True\<rparr>) x (out @ b0 @ b1)))" for x out
  proof -
    obtain bs' where r: "recv_SessionId simd cfg (ends ?t1 (bs @ x) (out @ b0)) = (sid, ends ?t2 (bs' @ x) (out @ b0))"
        "\<And>x out. recv_SessionId simd cfg (ends ?t2 (bs' @ x) out) = (nmux, ends ?t2 x out)"
      using first [of x "out @ b0"] second by blast
    have i: "EncodeServerIvv (hr_ivv rnd) (enabled \<and> \<not> server_loopback_ingress ?t2) = ivv"
      by (simp add: ivv)
    show ?thesis
      unfolding InternalHandshakeClient_def b0(1) Let_def prod.case r endpoint.select_convs i b1(1) simp_thms if_False
      using assms(6,7) by simp
  qed
  with run show thesis
    using that [of "b0 @ b1"] unfolding Let_def by blast
qed

lemma server_completes:
  assumes "simd_ok simd" "hs_link s t" "random_ok cfg rnd" "starts simd cfg rnd t" "random_ok cfg rc" "sid \<noteq> 0" "ivv \<noteq> 0"
    and nmux: "nmux = EncodeClientNmux (MAKE_OWORD (hr_nmux_low rnd) (FlagCanary cfg)) mux enabled"
  obtains bs where "carried simd cfg t (frame_tn t)
      (dummies cfg rnd @ [Pack_SessionId cfg (hr_first rnd) sid, Pack_SessionId cfg (hr_second rnd) nmux]) bs"
    "\<And>bc x out. carried simd cfg s (frame_rn t) (dummies cfg rc @ [Pack_SessionId cfg (hr_first rc) ivv]) bc \<Longrightarrow>
       InternalHandshakeServer simd lib cfg enabled rnd sid mux (ends t (bc @ x) out) =
       (True, ends ((set_peer (DecodeServerIvv ivv) (rekey lib cfg ivv (t\<lparr>frame_tn := True, frame_rn := True\<rparr>)))\<lparr>handshaked := True\<rparr>)
                x (out @ bs))"
proof -
  let ?t1 = "t\<lparr>frame_tn := True\<rparr>" and ?t2 = "t\<lparr>frame_tn := True, frame_rn := True\<rparr>"
  have l: "hs_link t t" "nmux \<noteq> 0"
    using assms(2) by (auto simp: hs_link_def nmux Encode_nonzero)
  obtain b0 b1 b2 where b: "\<And>x out. Handshake_Nop simd cfg rnd (ends t x out) = (True, ends ?t1 x (out @ b0))"
      "\<And>x out. send_SessionId simd cfg (hr_first rnd) sid (ends ?t1 x out) = (True, ends ?t1 x (out @ b1))"
      "\<And>x out. send_SessionId simd cfg (hr_second rnd) nmux (ends ?t1 x out) = (True, ends ?t1 x (out @ b2))"
      "carried simd cfg t (frame_tn t)
       (dummies cfg rnd @ [Pack_SessionId cfg (hr_first rnd) sid, Pack_SessionId cfg (hr_second rnd) nmux]) (b0 @ b1 @ b2)"
    using server_sends [OF assms(1) l(1) assms(3,4,6) l(2)] by blast
  have r: "recv_SessionId simd cfg (ends ?t1 (bc @ x) out) = (ivv, ends ?t2 x out)"
    if "carried simd cfg s (frame_rn t) (dummies cfg rc @ [Pack_SessionId cfg (hr_first rc) ivv]) bc" for bc x out
    by (rule recv_ends [of s ?t1 cfg rc "dummies cfg rc" "hr_first rc" ivv simd "[]" bc x out])
       (use assms(2,5,7) that in \<open>auto simp: random_ok_def simp del: carried.simps(2)\<close>)
  show thesis
    by (rule that [OF b(4)], unfold InternalHandshakeServer_def b(1,2) Let_def prod.case simp_thms if_False nmux [symmetric] b(3))
       (simp add: r assms(7))
qed

lemma FlagCanary_bits:
  "FlagCanary cfg AND 0x0000FFFFFFFFFFFF = 0xC0DEC0DEC0DE"
  "FlagCanary (with_flags f cfg) = FlagCanary cfg \<longleftrightarrow> f = flags_of cfg"
proof -
  have m: "(0x0000FFFFFFFFFFFF :: u64) = mask 48"
    by (simp add: mask_eq_exp_minus_1)
  show "FlagCanary cfg AND 0x0000FFFFFFFFFFFF = 0xC0DEC0DEC0DE"
    unfolding FlagCanary_def Let_def m take_bit_eq_mask [symmetric] take_bit_or take_bit_push_bit by simp
  have b: "bit (FlagCanary c) 48 = key_masked c" "bit (FlagCanary c) 49 = key_plaintext c" "bit (FlagCanary c) 50 = key_delta_encode c"
    "bit (FlagCanary c) 51 = key_shuffle_data c" for c
    unfolding FlagCanary_def Let_def bit_or_iff bit_push_bit_iff by simp_all
  have "with_flags (flags_of cfg) cfg = cfg"
    by (simp add: with_flags_def flags_of_def)
  moreover have "f = flags_of cfg" if "FlagCanary (with_flags f cfg) = FlagCanary cfg"
    using b [of "with_flags f cfg", unfolded that b] with_flags_fields(9) [of f cfg] by (simp add: flags_of_def)
  ultimately show "FlagCanary (with_flags f cfg) = FlagCanary cfg \<longleftrightarrow> f = flags_of cfg"
    by metis
qed

text \<open>Both handshakes on carriers of one configuration, up to the flags of the client.\<close>

lemma handshake_run:
  assumes "simd_ok simd" "hs_link t c" "random_ok cfg rs" "starts simd cfg rs t" "random_ok cfg rc" "starts simd cfg rc c" "sid \<noteq> 0"
    and frames: "frame_tn t = frame_rn c" "frame_tn c = frame_rn t"
    and peers: "set_peer (False, False) t = t" "set_peer (False, False) c = c"
    and ivv: "ivv = EncodeServerIvv (hr_ivv rc) (pc \<and> \<not> server_loopback_ingress c)"
  shows "\<exists>bs bc. \<forall>xs xc.
    HandshakeServer simd lib cfg ps rs sid mux (ends t (bc @ xs) []) =
      (True, ends ((set_peer (True, pc \<and> \<not> server_loopback_ingress c) (rekey lib cfg ivv (t\<lparr>frame_tn := True, frame_rn := True\<rparr>)))
                    \<lparr>handshaked := True\<rparr>) xs bs) \<and>
    HandshakeClient simd lib (with_flags f cfg) pc rc (ends c (bs @ xc) []) =
      (if f = flags_of cfg
       then ((sid, mux), ends ((set_peer (True, ps) (rekey lib cfg ivv (c\<lparr>frame_tn := True, frame_rn := True\<rparr>)))\<lparr>handshaked := True\<rparr>) xc bc)
       else ((0, mux), ends (c\<lparr>frame_tn := True, frame_rn := True\<rparr>) xc bc))"
proof -
  let ?cfg = "with_flags f cfg"
  define nmux where nmux: "nmux = EncodeClientNmux (MAKE_OWORD (hr_nmux_low rs) (FlagCanary cfg)) mux ps"
  have nz: "nmux \<noteq> 0" "ivv \<noteq> 0" and d: "\<not> disposed t" "\<not> disposed c" "\<not> handshaked c"
    using assms(2) by (auto simp: nmux ivv Encode_nonzero hs_link_def)
  have flags: "dummies ?cfg = dummies cfg" "random_ok ?cfg = random_ok cfg" "starts simd ?cfg rc c = starts simd cfg rc c"
    by (simp_all add: fun_eq_iff dummies_def random_ok_def starts_def flags_messages(1) [OF d(3)])
  obtain bs where bs: "carried simd cfg t (frame_tn t)
      (dummies cfg rs @ [Pack_SessionId cfg (hr_first rs) sid, Pack_SessionId cfg (hr_second rs) nmux]) bs"
    "\<And>bc x out. carried simd cfg c (frame_rn t) (dummies cfg rc @ [Pack_SessionId cfg (hr_first rc) ivv]) bc \<Longrightarrow>
       InternalHandshakeServer simd lib cfg ps rs sid mux (ends t (bc @ x) out) =
       (True, ends ((set_peer (DecodeServerIvv ivv) (rekey lib cfg ivv (t\<lparr>frame_tn := True, frame_rn := True\<rparr>)))\<lparr>handshaked := True\<rparr>)
                x (out @ bs))"
    using server_completes [OF assms(1) hs_link_sym [OF assms(2)] assms(3,4,5,7) nz(2) nmux] by blast
  obtain bc where bc: "carried simd ?cfg c (frame_tn c) (dummies ?cfg rc @ [Pack_SessionId ?cfg (hr_first rc) ivv]) bc"
    "\<And>x out. InternalHandshakeClient simd lib ?cfg pc rc (ends c (bs @ x) out) =
       (let t' = c\<lparr>frame_tn := True, frame_rn := True\<rparr>
        in if oword_high nmux AND 0x0000FFFFFFFFFFFF = 0xC0DEC0DEC0DE \<and> oword_high nmux \<noteq> FlagCanary ?cfg
           then ((0, nmux AND 1 \<noteq> 0), ends t' x (out @ bc))
           else ((sid, nmux AND 1 \<noteq> 0),
                 ends ((set_peer (DecodeClientNmux nmux) (rekey lib ?cfg ivv t'))\<lparr>handshaked := True\<rparr>) x (out @ bc)))"
    by (rule client_run [OF assms(1,2) _ _ _ assms(7) nz(1) ivv, of ?cfg rs bs lib])
       (use assms(3,5,6) bs(1) in \<open>simp_all add: flags carried_flags frames\<close>)
  have canary: "oword_high nmux = FlagCanary cfg" "(nmux AND 1 \<noteq> 0) = mux" "DecodeClientNmux nmux = (True, ps)"
    "DecodeServerIvv ivv = (True, pc \<and> \<not> server_loopback_ingress c)"
    by (simp_all add: nmux ivv Decode_Encode oword_parts EncodeClientNmux_mux)
  have sent: "carried simd cfg c (frame_rn t) (dummies cfg rc @ [Pack_SessionId cfg (hr_first rc) ivv]) bc"
    using bc(1) by (simp add: flags carried_flags frames)
  have left: "set_peer (False, False) (c\<lparr>frame_tn := True, frame_rn := True\<rparr>) = c\<lparr>frame_tn := True, frame_rn := True\<rparr>"
    using peers(2) by (cases c) (simp add: set_peer_def)
  have eq: "(FlagCanary cfg \<noteq> FlagCanary ?cfg) = (f \<noteq> flags_of cfg)"
    using FlagCanary_bits(2) [of f cfg] by argo
  show ?thesis
    by (rule exI [where x = bs], rule exI [where x = bc])
       (simp add: HandshakeServer_def HandshakeClient_def clear_peer_def peers bs(2) [OF sent] bc(2) canary FlagCanary_bits(1) assms(7) d
         left eq)
qed

section \<open>Carriers of one configuration\<close>

text \<open>Ciphers of OpenSSL or of the processor, or none.\<close>

definition evp_config :: "crypto_lib \<Rightarrow> key_config \<Rightarrow> bool" where
  "evp_config lib cfg \<longleftrightarrow> (IsHaveCiphertext cfg \<longrightarrow> EVP_Support lib (key_protocol cfg) \<and> EVP_Support lib (key_transport cfg))"

lemma new_link:
  assumes "lib_ok lib" "cipher_config_ok lib cfg" "evp_config lib cfg"
  shows "hs_link (ITransmission_new lib cfg) ((ITransmission_new lib cfg)\<lparr>server_loopback_ingress := l\<rparr>)"
  using assms(3) ITransmission_new_sync [OF assms(1,2)]
  by (auto simp: hs_link_def tr_sync_def stateless_def evp_config_def ITransmission_new_def Ciphertext_new_def IsHaveCiphertext_def Let_def
      split: option.splits)

lemma carrier_fields:
  "\<not> disposed (ITransmission_new lib cfg)" "frame_tn (ITransmission_new lib cfg) = frame_rn (ITransmission_new lib cfg)"
  "server_loopback_ingress (ITransmission_new lib cfg) = False" "\<not> handshaked (ITransmission_new lib cfg)"
  "set_peer (False, False) (ITransmission_new lib cfg) = ITransmission_new lib cfg"
  "both_ciphers (ITransmission_new lib cfg) \<Longrightarrow> Ciphertext_Support lib (key_protocol cfg) \<and> Ciphertext_Support lib (key_transport cfg) \<and> IsHaveCiphertext cfg"
  by (auto simp: ITransmission_new_def Let_def set_peer_def both_ciphers_def split: if_splits)

lemma rekey_fields [simp]:
  "disposed (rekey lib cfg ivv s) = disposed s" "frame_tn (rekey lib cfg ivv s) = frame_tn s" "frame_rn (rekey lib cfg ivv s) = frame_rn s"
  "handshaked (rekey lib cfg ivv s) = handshaked s"
  by (simp_all add: rekey_def Let_def)

lemma rekey_sync:
  assumes "lib_ok lib" "cipher_config_ok lib cfg" "s = ITransmission_new lib cfg"
    and "protocol r = protocol s" "transport r = transport s" "protocol r' = protocol s" "transport r' = transport s"
  shows "opt_sync (protocol (rekey lib cfg ivv r)) (protocol (rekey lib cfg ivv r'))"
    "opt_sync (transport (rekey lib cfg ivv r)) (transport (rekey lib cfg ivv r'))"
proof -
  have old: "opt_sync (protocol s) (protocol s)" "opt_sync (transport s) (transport s)"
    using ITransmission_new_sync [OF assms(1,2)] by (simp_all add: assms(3) tr_sync_def)
  have new: "in_sync (Ciphertext_new lib m (k @ x)) (Ciphertext_new lib m (k @ x))"
    if "both_ciphers s" "(m, k) \<in> {(key_protocol cfg, key_protocol_key cfg), (key_transport cfg, key_transport_key cfg)}" for m k x
    using carrier_fields(6) [of lib cfg] that assms(2,3) by (intro Ciphertext_new_sync [OF assms(1)]) (auto simp: cipher_config_ok_def IsHaveCiphertext_def)
  show "opt_sync (protocol (rekey lib cfg ivv r)) (protocol (rekey lib cfg ivv r'))"
    "opt_sync (transport (rekey lib cfg ivv r)) (transport (rekey lib cfg ivv r'))"
    using old new assms(4-7) by (simp_all add: rekey_def Let_def both_ciphers_def)
qed

text \<open>A key for which no first frame of a handshake fails.\<close>

lemma safe_key:
  assumes "simd_ok simd" "hs_link s s" "8836 \<le> KF_MOD cfg" "KF_MOD cfg \<le> 131072" "data \<noteq> []" "length data \<le> 16384"
  shows "fst (Transmission_Write simd cfg rnd data s) \<noteq> None"
proof -
  have sync: "tr_sync s (s\<lparr>frame_rn := frame_tn s\<rparr>)" and s: "\<not> disposed s" "\<not> handshaked s"
    using assms(2) by (simp_all add: hs_link_def tr_sync_def)
  have short: "length data \<le> 65536" and ok: "message_ok data"
    using assms(5,6) by (simp_all add: message_ok_def PPP_BUFFER_SIZE_def)
  obtain pk a where e: "EncryptBinary simd cfg rnd data s = (Some pk, a)" "length pk = length data + 3"
    using binary_roundtrip [OF assms(1) sync assms(5) short, of cfg rnd] by metis
  have simd: "\<forall>d k. simd_b94_encode simd d k = None \<or> simd_b94_encode simd d k = base94_encode_scalar d k"
    "\<forall>d k. simd_b94_decode simd d k = None \<or> simd_b94_decode simd d k = base94_decode_scalar d k"
    using assms(1) by (simp_all add: simd_ok_def)
  have "pk \<noteq> []"
    using e(2) by auto
  then obtain enc where t: "base94_encode (simd_b94_encode simd) pk (sint (key_kf cfg)) = Inr enc" "length enc \<le> 2 * length pk"
    using base94_roundtrip [OF simd, of pk "sint (key_kf cfg)"] by blast
  have "unat (inet_chksum (frame_header cfg rnd (length enc))) < 2 ^ 16" "length enc < 2 ^ 16"
    using unsigned_less [of "inet_chksum (frame_header cfg rnd (length enc))", where 'a = nat] t(2) e(2) assms(6) by simp_all
  then have "unat (inet_chksum (frame_header cfg rnd (length enc))) XOR length enc < 2 ^ 16"
    by (metis take_bit_nat_eq_self_iff take_bit_xor)
  then have "8836 \<le> frame_check cfg rnd (length enc)"
    using assms(3,4) Lcgmod_bounds(1) [of cfg] by (simp add: frame_check_def)
  then show ?thesis
    using write_outcome [OF assms(1) sync ok e(1) t(1)] by simp
qed

lemma safe_key_starts:
  assumes "simd_ok simd" "hs_link s s" "8836 \<le> KF_MOD cfg" "KF_MOD cfg \<le> 131072" "random_ok cfg rnd"
  shows "starts simd cfg rnd s"
proof -
  let ?d = "hr_dummy rnd 0"
  have d: "draws_ok cfg 0 ?d"
    using assms(5) rounds_positive [OF assms(5)] by (auto simp: random_ok_def list_all_iff)
  have "Pack_SessionId cfg ?d 0 \<noteq> []" "length (Pack_SessionId cfg ?d 0) \<le> 16384"
    using Pack_length [OF d] by auto
  from safe_key [OF assms(1-4) this] show ?thesis
    by (simp add: starts_def)
qed

text \<open>Draws for the samples.\<close>

definition sample_hs :: "u8 \<Rightarrow> hs_draws" where
  "sample_hs k = \<lparr>hs_k0 = k, hs_k1 = 2, hs_k2 = 3, hs_k3 = 4, hs_v = 12345, hs_sep = 0x20, hs_pad = (\<lambda>_. 0x41), hs_loops = 3,
     hs_tail = (\<lambda>_. 0x42), hs_tx = sample_draws\<rparr>"

definition sample_random :: hs_random where
  "sample_random = \<lparr>hr_rounds = 2000, hr_dummy = (\<lambda>_. sample_hs 0x81), hr_first = sample_hs 1, hr_second = sample_hs 5, hr_ivv = 77,
     hr_nmux_low = 99\<rparr>"

lemma sample_handshake:
  fixes cfg :: key_config
  defines "cfg \<equiv> sample_config ''aes-128-cfb'' 100000"
  shows "evp_config sample_lib cfg" "random_ok cfg sample_random" "8836 \<le> KF_MOD cfg" "KF_MOD cfg \<le> 131072"
    "starts no_simd cfg sample_random (ITransmission_new sample_lib cfg)"
    "starts no_simd cfg sample_random ((ITransmission_new sample_lib cfg)\<lparr>server_loopback_ingress := l\<rparr>)"
proof -
  show e: "evp_config sample_lib cfg"
    by (simp add: cfg_def evp_config_def sample_config_def sample_lib_def EVP_Support_def aes_names_def)
  show r: "random_ok cfg sample_random"
    by (simp add: cfg_def random_ok_def sample_random_def sample_hs_def draws_ok_def list_all_iff)
  have "KF_MOD cfg = 100000"
    using Lcgmod_bounds(1) [of cfg] by (simp add: KF_MOD_def smod_int_alt_def) (simp add: cfg_def sample_config_def)
  then show k: "8836 \<le> KF_MOD cfg" "KF_MOD cfg \<le> 131072"
    by simp_all
  have l: "hs_link (ITransmission_new sample_lib cfg) (ITransmission_new sample_lib cfg)"
    "hs_link ((ITransmission_new sample_lib cfg)\<lparr>server_loopback_ingress := l\<rparr>) ((ITransmission_new sample_lib cfg)\<lparr>server_loopback_ingress := l\<rparr>)"
    using new_link [OF sample_ok(2,3) e [unfolded cfg_def], of l] by (auto simp: hs_link_def cfg_def)
  show "starts no_simd cfg sample_random (ITransmission_new sample_lib cfg)"
    "starts no_simd cfg sample_random ((ITransmission_new sample_lib cfg)\<lparr>server_loopback_ingress := l\<rparr>)"
    by (rule safe_key_starts [OF sample_ok(1) _ k r], rule l)+
qed

text \<open>Both handshakes on new carriers; the client application decides with the flags of its own configuration.\<close>

lemma new_run:
  fixes lib cfg l
  defines "t \<equiv> ITransmission_new lib cfg" and "c \<equiv> (ITransmission_new lib cfg)\<lparr>server_loopback_ingress := l\<rparr>"
  assumes "simd_ok simd" "lib_ok lib" "cipher_config_ok lib cfg" "evp_config lib cfg" "sid \<noteq> 0"
    and "random_ok cfg rs" "starts simd cfg rs t" "random_ok cfg rc" "starts simd cfg rc c"
  obtains bs bc s' c' where
    "\<And>xs. HandshakeServer simd lib cfg ps rs sid mux (ends t (bc @ xs) []) = (True, ends s' xs bs)"
    "\<And>xc. HandshakeClient simd lib (with_flags f cfg) pc rc (ends c (bs @ xc) []) =
       (if f = flags_of cfg then ((sid, mux), ends c' xc bc) else ((0, mux), ends (c\<lparr>frame_tn := True, frame_rn := True\<rparr>) xc bc))"
    "handshaked s'" "handshaked c'" "tr_sync s' c'" "tr_sync c' s'"
    "peer_supports_transport_auth_v1 s'" "peer_enables_transport_auth_v1 s' = (pc \<and> \<not> l)"
    "peer_supports_transport_auth_v1 c'" "peer_enables_transport_auth_v1 c' = ps"
proof -
  let ?f = "\<lambda>s. s\<lparr>frame_tn := True, frame_rn := True\<rparr>"
  define ivv where "ivv = EncodeServerIvv (hr_ivv rc) (pc \<and> \<not> server_loopback_ingress c)"
  define s' where "s' = (set_peer (True, pc \<and> \<not> server_loopback_ingress c) (rekey lib cfg ivv (?f t)))\<lparr>handshaked := True\<rparr>"
  define c' where "c' = (set_peer (True, ps) (rekey lib cfg ivv (?f c)))\<lparr>handshaked := True\<rparr>"
  have p: "set_peer (False, False) t = t" "set_peer (False, False) c = c" "frame_tn t = frame_rn c" "frame_tn c = frame_rn t"
    using carrier_fields(2,5) [of lib cfg] by (cases t; simp add: t_def c_def set_peer_def)+
  have link: "hs_link t c"
    unfolding t_def c_def by (rule new_link [OF assms(4-6)])
  obtain bs bc where b: "\<And>xs xc. HandshakeServer simd lib cfg ps rs sid mux (ends t (bc @ xs) []) = (True, ends s' xs bs) \<and>
      HandshakeClient simd lib (with_flags f cfg) pc rc (ends c (bs @ xc) []) =
       (if f = flags_of cfg then ((sid, mux), ends c' xc bc) else ((0, mux), ends (?f c) xc bc))"
    using handshake_run [OF assms(3) link assms(8-11,7) p(3,4,1,2) ivv_def, where f = f and lib = lib and ps = ps and mux = mux]
    unfolding s'_def c'_def by blast
  have k: "protocol (?f t) = protocol t" "transport (?f t) = transport t" "protocol (?f c) = protocol t" "transport (?f c) = transport t"
    by (simp_all add: t_def c_def)
  show thesis
    by (rule that [of bc s' bs c', OF conjunct1 [OF b] conjunct2 [OF b]])
       (use link rekey_sync [OF assms(4,5) t_def [THEN meta_eq_to_obj_eq] k] rekey_sync [OF assms(4,5) t_def [THEN meta_eq_to_obj_eq] k(3,4,1,2)]
         in \<open>simp_all add: s'_def c'_def tr_sync_def set_peer_def hs_link_def\<close>, simp_all add: c_def)
qed

section \<open>Properties\<close>





end
