(* ===== verification/Firewall.thy ===== *)
theory Firewall
  imports Text Int128_Text
begin

text \<open>
  The firewall, \<^verbatim>\<open>src/ppp/net/Firewall.cpp\<close>: blocked ports, address segments and domains, the rule file that
  loads them and the tests of ports, addresses and host names. The tables of one firewall are a record; the locks
  around them and the error codes are left out. Addresses are numbers in host order, as the code computes them.
\<close>

unbundle bit_operations_syntax

section \<open>Addresses\<close>

datatype address = V4 u32 | V6 i128

text \<open>\<^verbatim>\<open>inet_pton(AF_INET6, ...)\<close>: groups of one to four hexadecimal digits, one \<open>::\<close>, and an IPv4 address at the end.\<close>

definition hex_value :: "char \<Rightarrow> nat option" where
  "hex_value c =
     (let n = of_char c :: nat
      in if 48 \<le> n \<and> n \<le> 57 then Some (n - 48)
         else if 65 \<le> n \<and> n \<le> 70 then Some (n - 55)
         else if 97 \<le> n \<and> n \<le> 102 then Some (n - 87)
         else None)"

record pton6_state =
  pt_token :: string
  pt_digits :: nat
  pt_value :: nat
  pt_bytes :: bytes
  pt_colon :: "nat option"

definition pton6_store :: "pton6_state \<Rightarrow> pton6_state option" where
  "pton6_store s =
     (if length (pt_bytes s) + 2 > 16 then None
      else Some (s\<lparr>pt_bytes := pt_bytes s @ [of_nat (pt_value s div 256), of_nat (pt_value s mod 256)], pt_digits := 0, pt_value := 0\<rparr>))"

fun pton6_loop :: "string \<Rightarrow> pton6_state \<Rightarrow> pton6_state option" where
  "pton6_loop [] s = (if pt_digits s > 0 then pton6_store s else Some s)"
| "pton6_loop (c # cs) s =
     (case hex_value c of
        Some d \<Rightarrow>
          if pt_digits s = 4 then None
          else pton6_loop cs (s\<lparr>pt_digits := pt_digits s + 1, pt_value := 16 * pt_value s + d\<rparr>)
      | None \<Rightarrow>
          if c = CHR '':''
          then if pt_digits s = 0
               then if pt_colon s \<noteq> None then None
                    else pton6_loop cs (s\<lparr>pt_token := cs, pt_colon := Some (length (pt_bytes s))\<rparr>)
               else if cs = [] then None
               else (case pton6_store s of None \<Rightarrow> None | Some s \<Rightarrow> pton6_loop cs (s\<lparr>pt_token := cs\<rparr>))
          else if c = CHR ''.'' \<and> length (pt_bytes s) + 4 \<le> 16
          then (case StringToAddress (pt_token s) of
                  None \<Rightarrow> None
                | Some a \<Rightarrow> Some (s\<lparr>pt_bytes := pt_bytes s @ be32 a, pt_digits := 0\<rparr>))
          else None)"

definition inet_pton6 :: "string \<Rightarrow> i128 option" where
  "inet_pton6 s =
     (let s = c_str s;
          s' = (if s \<noteq> [] \<and> hd s = CHR '':'' then if length s > 1 \<and> s ! 1 = CHR '':'' then Some (tl s) else None else Some s)
      in case s' of
           None \<Rightarrow> None
         | Some s \<Rightarrow>
             (case pton6_loop s \<lparr>pt_token = s, pt_digits = 0, pt_value = 0, pt_bytes = [], pt_colon = None\<rparr> of
                None \<Rightarrow> None
              | Some r \<Rightarrow>
                  let n = length (pt_bytes r);
                      out = (case pt_colon r of
                               None \<Rightarrow> if n = 16 then Some (pt_bytes r) else None
                             | Some p \<Rightarrow> if n = 16 then None
                                 else Some (take p (pt_bytes r) @ replicate (16 - n) 0 @ drop p (pt_bytes r)))
                  in map_option (\<lambda>bs. foldl (\<lambda>v b. push_bit 8 v OR ucast b) 0 bs) out))"

definition StringToAddress_any :: "string \<Rightarrow> address option" where
  "StringToAddress_any s =
     (if c_str s = [] then None
      else case inet_pton6 s of
             Some a \<Rightarrow> Some (V6 a)
           | None \<Rightarrow> map_option V4 (StringToAddress s))"

definition PrefixMask128 :: "int \<Rightarrow> i128" where
  "PrefixMask128 prefix =
     (if prefix \<le> 0 then 0
      else if prefix \<ge> 128 then MAKE_OWORD (NOT 0) (NOT 0)
      else if prefix \<ge> 64
      then let low_bits = nat (prefix - 64)
           in MAKE_OWORD (if low_bits = 0 then 0 else push_bit (64 - low_bits) (NOT 0)) (NOT 0)
      else MAKE_OWORD 0 (push_bit (64 - nat prefix) (NOT 0)))"

definition FirewallPrefixMask :: "int \<Rightarrow> u32" where
  "FirewallPrefixMask prefix = (if prefix \<noteq> 0 then push_bit (nat (32 - prefix)) (NOT 0) else 0)"

section \<open>Rules\<close>

record Firewall =
  ports :: "int set"
  ports_tcp :: "int set"
  ports_udp :: "int set"
  network_domains :: "string set"
  network_segments :: "i128 \<rightharpoonup> int"

definition Firewall_new :: Firewall where
  "Firewall_new = \<lparr>ports = {}, ports_tcp = {}, ports_udp = {}, network_domains = {}, network_segments = Map.empty\<rparr>"

definition valid_port :: "int \<Rightarrow> bool" where
  "valid_port port \<longleftrightarrow> \<not> (port \<le> 0 \<or> port > 65535)"

definition DropNetworkPort_all :: "int \<Rightarrow> Firewall \<Rightarrow> bool \<times> Firewall" where
  "DropNetworkPort_all port fw =
     (if \<not> valid_port port then (False, fw) else (port \<notin> ports fw, fw\<lparr>ports := insert port (ports fw)\<rparr>))"

definition DropNetworkPort :: "int \<Rightarrow> bool \<Rightarrow> Firewall \<Rightarrow> bool \<times> Firewall" where
  "DropNetworkPort port tcp_or_udp fw =
     (if \<not> valid_port port then (False, fw)
      else if tcp_or_udp then (port \<notin> ports_tcp fw, fw\<lparr>ports_tcp := insert port (ports_tcp fw)\<rparr>)
      else (port \<notin> ports_udp fw, fw\<lparr>ports_udp := insert port (ports_udp fw)\<rparr>))"

definition set_network_segments :: "i128 \<Rightarrow> int \<Rightarrow> Firewall \<Rightarrow> bool \<times> Firewall" where
  "set_network_segments k prefix fw =
     (case network_segments fw k of
        None \<Rightarrow> (True, fw\<lparr>network_segments := (network_segments fw)(k \<mapsto> prefix)\<rparr>)
      | Some now \<Rightarrow>
          if prefix < now then (True, fw\<lparr>network_segments := (network_segments fw)(k \<mapsto> prefix)\<rparr>) else (False, fw))"

definition DropNetworkSegment :: "address \<Rightarrow> int \<Rightarrow> Firewall \<Rightarrow> bool \<times> Firewall" where
  "DropNetworkSegment ip prefix fw =
     (case ip of
        V4 a \<Rightarrow>
          let prefix = (if prefix < 0 \<or> prefix > 32 then 32 else prefix);
              mask = (if prefix \<noteq> 0 then push_bit (nat (32 - prefix)) (NOT 0) else 0)
          in set_network_segments (ucast (a AND mask)) prefix fw
      | V6 a \<Rightarrow>
          let prefix = (if prefix < 0 \<or> prefix > 128 then 128 else prefix)
          in set_network_segments (a AND PrefixMask128 prefix) prefix fw)"

definition normal_host :: "string \<Rightarrow> string" where
  "normal_host host = LTrim (RTrim (ToLower host))"

definition DropNetworkDomains :: "string \<Rightarrow> Firewall \<Rightarrow> bool \<times> Firewall" where
  "DropNetworkDomains host fw =
     (if host = [] then (False, fw)
      else let host_lower = normal_host host
           in if host_lower = [] then (False, fw)
              else (host_lower \<notin> network_domains fw, fw\<lparr>network_domains := insert host_lower (network_domains fw)\<rparr>))"

definition Firewall_Clear :: "Firewall \<Rightarrow> Firewall" where
  "Firewall_Clear fw =
     fw\<lparr>ports := {}, ports_tcp := {}, ports_udp := {}, network_domains := {}, network_segments := Map.empty\<rparr>"

section \<open>Tests\<close>

definition IsDropNetworkPort :: "int \<Rightarrow> bool \<Rightarrow> Firewall \<Rightarrow> bool" where
  "IsDropNetworkPort port tcp_or_udp fw =
     (if \<not> valid_port port then False
      else list_ex (\<lambda>list. port \<in> list) [ports fw, if tcp_or_udp then ports_tcp fw else ports_udp fw])"

text \<open>The loop over the prefixes, from the longest down to zero; \<open>key\<close> masks the address with a prefix.\<close>

fun segment_loop :: "(int \<Rightarrow> i128) \<Rightarrow> (i128 \<rightharpoonup> int) \<Rightarrow> nat \<Rightarrow> bool" where
  "segment_loop key segments 0 = (case segments (key 0) of None \<Rightarrow> False | Some s \<Rightarrow> 0 \<ge> s)"
| "segment_loop key segments (Suc n) =
     (case segments (key (int (Suc n))) of
        None \<Rightarrow> segment_loop key segments n
      | Some s \<Rightarrow> if int (Suc n) \<ge> s then True else segment_loop key segments n)"

text \<open>An empty table blocks nothing, which the test of the code before the loop only speeds up.\<close>

definition IsDropNetworkSegment :: "address \<Rightarrow> Firewall \<Rightarrow> bool" where
  "IsDropNetworkSegment ip fw =
     (case ip of
        V4 a \<Rightarrow> segment_loop (\<lambda>prefix. ucast (a AND FirewallPrefixMask prefix)) (network_segments fw) 32
      | V6 a \<Rightarrow> segment_loop (\<lambda>prefix. a AND PrefixMask128 prefix) (network_segments fw) 128)"

text \<open>The labels from the \<open>i\<close>-th on, joined; an empty text so far takes no dot.\<close>

fun join_labels :: "string \<Rightarrow> string list \<Rightarrow> string" where
  "join_labels nxt [] = nxt"
| "join_labels nxt (l # ls) = join_labels (if nxt = [] then l else nxt @ ''.'' @ l) ls"

definition same_domains :: "string set \<Rightarrow> string \<Rightarrow> bool" where
  "same_domains contains host =
     (if host \<in> contains then True
      else let labels = Tokenize host ''.''
           in if length labels < 2 then False
              else let trimmed = map (\<lambda>l. LTrim (RTrim l)) labels
                   in if [] \<in> set trimmed then True
                      else if list_ex (\<lambda>i. let nxt = join_labels [] (drop i trimmed) in nxt \<noteq> [] \<and> nxt \<in> contains)
                                [1..<length labels - 1] then True
                      else last trimmed \<in> contains)"

definition IsSameNetworkDomains :: "string set \<Rightarrow> string \<Rightarrow> bool" where
  "IsSameNetworkDomains contains host =
     (if host = [] then False
      else if length (c_str host) \<noteq> length host
      then (if c_str host = [] then False else same_domains contains (c_str host))
      else same_domains contains host)"

definition IsDropNetworkDomains :: "string \<Rightarrow> Firewall \<Rightarrow> bool" where
  "IsDropNetworkDomains host fw =
     (if host = [] then False
      else let host_lower = normal_host host
           in if host_lower = [] then False
              else case StringToAddress_any host_lower of
                     Some ip \<Rightarrow> IsDropNetworkSegment ip fw
                   | None \<Rightarrow> IsSameNetworkDomains (network_domains fw) host_lower)"

section \<open>Rule text\<close>

text \<open>\<^verbatim>\<open>strtol(s, &end, 10)\<close>: the number and what follows it; saturation is not visible behind the range tests.\<close>

definition strtol :: "string \<Rightarrow> (int \<times> string) option" where
  "strtol s =
     (let s = dropWhile is_space (c_str s);
          (neg, ds) = (case s of
             c # cs \<Rightarrow> if c = CHR ''-'' then (True, cs) else if c = CHR ''+'' then (False, cs) else (False, c # cs)
           | [] \<Rightarrow> (False, []));
          digits = takeWhile is_digit ds
      in if digits = [] then None
         else Some (if neg then - int (decimal digits) else int (decimal digits), dropWhile is_digit ds))"

definition trim :: "string \<Rightarrow> string" where
  "trim s = LTrim (RTrim s)"

definition before :: "char \<Rightarrow> string \<Rightarrow> string" where
  "before c s = takeWhile (\<lambda>x. x \<noteq> c) s"

definition after :: "char \<Rightarrow> string \<Rightarrow> string" where
  "after c s = drop 1 (dropWhile (\<lambda>x. x \<noteq> c) s)"

definition LoadWithRulesDropIP :: "string \<Rightarrow> Firewall \<Rightarrow> bool \<times> Firewall" where
  "LoadWithRulesDropIP line fw =
     (case StringToAddress_any line of
        Some (V4 a) \<Rightarrow> DropNetworkSegment (V4 a) 32 fw
      | Some (V6 a) \<Rightarrow> DropNetworkSegment (V6 a) 128 fw
      | None \<Rightarrow>
          if CHR ''/'' \<notin> set line then (False, fw)
          else let host = trim (before CHR ''/'' line)
               in if host = [] then (False, fw)
                  else case StringToAddress_any host of
                         None \<Rightarrow> (False, fw)
                       | Some ip \<Rightarrow>
                           let cidr = trim (after CHR ''/'' line)
                           in if cidr = [] then (False, fw)
                              else case strtol cidr of
                                     None \<Rightarrow> (False, fw)
                                   | Some (parsed, rest) \<Rightarrow>
                                       if rest \<noteq> [] \<or> parsed < 0 \<or> parsed > 128 then (False, fw)
                                       else if (case ip of V4 _ \<Rightarrow> parsed > 32 | V6 _ \<Rightarrow> False) then (False, fw)
                                       else DropNetworkSegment ip parsed fw)"

definition LoadWithRulesDropPort :: "string \<Rightarrow> Firewall \<Rightarrow> bool \<times> Firewall" where
  "LoadWithRulesDropPort line fw =
     (case strtol line of
        None \<Rightarrow> (False, fw)
      | Some (parsed_port, rest) \<Rightarrow>
          if (rest \<noteq> [] \<and> hd rest \<noteq> CHR ''/'') \<or> \<not> valid_port parsed_port then (False, fw)
          else if CHR ''/'' \<in> set line
          then let protocol = ToLower (trim (after CHR ''/'' line))
               in if protocol = ''tcp'' then DropNetworkPort parsed_port True fw
                  else if protocol = ''udp'' then DropNetworkPort parsed_port False fw
                  else DropNetworkPort_all parsed_port fw
          else DropNetworkPort_all parsed_port fw)"

definition LoadWithRulesDropDns :: "string \<Rightarrow> Firewall \<Rightarrow> bool \<times> Firewall" where
  "LoadWithRulesDropDns line fw = DropNetworkDomains line fw"

definition drop_commands :: "(string \<times> (string \<Rightarrow> Firewall \<Rightarrow> bool \<times> Firewall)) list" where
  "drop_commands = [(''ip'', LoadWithRulesDropIP), (''port'', LoadWithRulesDropPort), (''dns'', LoadWithRulesDropDns)]"

text \<open>The loop over the commands does not end after a command was found: the rest of the line is compared with the next ones.\<close>

fun command_loop :: "(string \<times> (string \<Rightarrow> Firewall \<Rightarrow> bool \<times> Firewall)) list \<Rightarrow> string \<Rightarrow> bool \<Rightarrow> Firewall \<Rightarrow> bool \<times> Firewall" where
  "command_loop [] line any fw = (any, fw)"
| "command_loop ((drop_command, drop_proc) # cmds) line any fw =
     (if length line < length drop_command + 1 then command_loop cmds line any fw
      else if take (length drop_command) line \<noteq> drop_command then command_loop cmds line any fw
      else let line = trim (drop (length drop_command + 1) line)
           in if line = [] then (any, fw)
              else let (ok, fw) = drop_proc line fw in command_loop cmds line (any \<or> ok) fw)"

definition load_line :: "string \<Rightarrow> bool \<times> Firewall \<Rightarrow> bool \<times> Firewall" where
  "load_line line r =
     (let (any, fw) = r;
          line = trim (before CHR ''#'' line)
      in if length line < 5 then (any, fw)
         else let line = ToLower line
              in if take 4 line \<noteq> ''drop'' then (any, fw)
                 else if line ! 4 \<noteq> CHR '' '' \<and> line ! 4 \<noteq> CHR 0x09 then (any, fw)
                 else let line = trim (drop 5 line)
                      in if line = [] then (any, fw) else command_loop drop_commands line any fw)"

definition LoadWithRules :: "string \<Rightarrow> Firewall \<Rightarrow> bool \<times> Firewall" where
  "LoadWithRules rules fw =
     (if rules = [] then (False, fw)
      else let lines = Tokenize rules [CHR 0x0D, CHR 0x0A]
           in if lines = [] then (False, fw) else fold load_line lines (False, fw))"

section \<open>Masks\<close>

text \<open>The mask of a prefix of an \<open>'a\<close>-bit address.\<close>

definition top_mask :: "int \<Rightarrow> 'a :: len word" where
  "top_mask prefix = push_bit (LENGTH('a) - nat prefix) (NOT 0)"

lemma bit_top_mask: "bit (top_mask p :: 'a :: len word) n \<longleftrightarrow> n < LENGTH('a) \<and> LENGTH('a) \<le> n + nat p"
  by (auto simp: top_mask_def bit_simps)

lemma top_mask_min: "p \<le> q \<Longrightarrow> (top_mask q :: 'a :: len word) AND top_mask p = top_mask p"
  by (rule bit_eqI) (auto simp: bit_simps bit_top_mask)

lemma top_mask_chain: "p \<le> q \<Longrightarrow> (a AND top_mask q :: 'a :: len word) AND top_mask p = a AND top_mask p"
  by (simp add: and.assoc top_mask_min)

lemma FirewallPrefixMask_eq: "0 \<le> p \<Longrightarrow> p \<le> 32 \<Longrightarrow> FirewallPrefixMask p = top_mask p"
  by (rule bit_eqI) (auto simp: FirewallPrefixMask_def bit_top_mask bit_simps)

lemma bit_MAKE_OWORD: "bit (MAKE_OWORD low high) n \<longleftrightarrow> (if n < 64 then bit low n else n < 128 \<and> bit high (n - 64))"
  by (auto simp: MAKE_OWORD_def bit_simps dest: bit_imp_le_length)

lemma PrefixMask128_eq:
  assumes "0 \<le> p" "p \<le> 128"
  shows "PrefixMask128 p = top_mask p"
proof (rule bit_eqI)
  fix n
  show "bit (PrefixMask128 p) n = bit (top_mask p :: i128) n"
    using assms by (auto simp: PrefixMask128_def Let_def bit_MAKE_OWORD bit_top_mask bit_simps)
qed

section \<open>Segments\<close>

text \<open>A rule is an address with a prefix; its prefix is brought into the range of its family.\<close>

definition rule_prefix :: "address \<times> int \<Rightarrow> int" where
  "rule_prefix r = (let m = (case fst r of V4 _ \<Rightarrow> 32 | V6 _ \<Rightarrow> 128) in if snd r < 0 \<or> snd r > m then m else snd r)"

definition rule_base :: "address \<times> int \<Rightarrow> i128" where
  "rule_base r = (case fst r of V4 a \<Rightarrow> ucast (a AND top_mask (rule_prefix r)) | V6 a \<Rightarrow> a AND top_mask (rule_prefix r))"

definition drop_segments :: "(address \<times> int) list \<Rightarrow> Firewall \<Rightarrow> Firewall" where
  "drop_segments rules fw = fold (\<lambda>(ip, prefix) fw. snd (DropNetworkSegment ip prefix fw)) rules fw"

lemma rule_prefix_range: "0 \<le> rule_prefix r" "rule_prefix r \<le> 128" "fst r = V4 a \<Longrightarrow> rule_prefix r \<le> 32"
  by (auto simp: rule_prefix_def Let_def split: address.splits)

lemma DropNetworkSegment_eq: "DropNetworkSegment ip prefix fw = set_network_segments (rule_base (ip, prefix)) (rule_prefix (ip, prefix)) fw"
proof (cases ip)
  case (V4 a)
  then show ?thesis
    unfolding DropNetworkSegment_def FirewallPrefixMask_def [symmetric]
    by (simp add: rule_base_def rule_prefix_def Let_def FirewallPrefixMask_eq)
next
  case (V6 a)
  then show ?thesis
    by (simp add: DropNetworkSegment_def rule_base_def rule_prefix_def Let_def PrefixMask128_eq)
qed

text \<open>The table holds the shortest prefix dropped for each base.\<close>

definition table_of :: "(address \<times> int) set \<Rightarrow> (i128 \<rightharpoonup> int) \<Rightarrow> bool" where
  "table_of R m \<longleftrightarrow>
     (\<forall>k p. m k = Some p \<longrightarrow> (\<exists>r \<in> R. rule_base r = k \<and> rule_prefix r = p)) \<and>
     (\<forall>r \<in> R. \<exists>p. m (rule_base r) = Some p \<and> p \<le> rule_prefix r)"

lemma table_step:
  assumes "table_of R (network_segments fw)"
  shows "table_of (insert (ip, prefix) R) (network_segments (snd (DropNetworkSegment ip prefix fw)))"
  using assms unfolding table_of_def DropNetworkSegment_eq
  by (auto simp: set_network_segments_def split: option.splits)

lemma table_drop_segments:
  "table_of R (network_segments fw) \<Longrightarrow> table_of (set rules \<union> R) (network_segments (drop_segments rules fw))"
proof (induction rules arbitrary: R fw)
  case (Cons r rules)
  obtain ip prefix where r: "r = (ip, prefix)"
    by (cases r)
  show ?case
    using Cons.IH [OF table_step [OF Cons.prems, of ip prefix]] by (simp add: r drop_segments_def)
qed (simp add: drop_segments_def)

lemma segment_loop_iff: "segment_loop key m n \<longleftrightarrow> (\<exists>q \<le> n. \<exists>p. m (key (int q)) = Some p \<and> p \<le> int q)"
  by (induction n) (auto simp: le_Suc_eq split: option.splits)

lemma segment_loop_table:
  assumes "table_of R m"
  shows "segment_loop key m n \<longleftrightarrow> (\<exists>r \<in> R. \<exists>q. rule_prefix r \<le> q \<and> q \<le> int n \<and> rule_base r = key q)"
proof
  assume "segment_loop key m n"
  then obtain q p where "q \<le> n" "m (key (int q)) = Some p" "p \<le> int q"
    by (auto simp: segment_loop_iff)
  then show "\<exists>r \<in> R. \<exists>q. rule_prefix r \<le> q \<and> q \<le> int n \<and> rule_base r = key q"
    using assms unfolding table_of_def by (metis of_nat_le_iff)
next
  assume "\<exists>r \<in> R. \<exists>q. rule_prefix r \<le> q \<and> q \<le> int n \<and> rule_base r = key q"
  then obtain r q where q: "r \<in> R" "rule_prefix r \<le> q" "q \<le> int n" "rule_base r = key q"
    by blast
  then obtain p where "m (key q) = Some p" "p \<le> rule_prefix r"
    using assms unfolding table_of_def by metis
  then show "segment_loop key m n"
    using q rule_prefix_range(1) [of r] unfolding segment_loop_iff by (intro exI [of _ "nat q"]) auto
qed

text \<open>A segment holds the addresses of its family that share its first bits.\<close>

definition in_segment :: "address \<times> int \<Rightarrow> address \<Rightarrow> bool" where
  "in_segment r ip =
     (let p = nat (rule_prefix r)
      in case (fst r, ip) of
           (V4 b, V4 a) \<Rightarrow> drop_bit (32 - p) a = drop_bit (32 - p) b
         | (V6 b, V6 a) \<Rightarrow> drop_bit (128 - p) a = drop_bit (128 - p) b
         | _ \<Rightarrow> False)"

text \<open>
  Both families share one table of numbers. A segment \<open>::/p\<close> also meets the IPv4 addresses that begin with \<open>p\<close> zeros, and an
  IPv4 segment the IPv6 addresses that some prefix, at least as long, cuts down to the number of the segment.
\<close>

definition in_other_family :: "address \<times> int \<Rightarrow> address \<Rightarrow> bool" where
  "in_other_family r ip =
     (let p = nat (rule_prefix r)
      in case (fst r, ip) of
           (V6 b, V4 a) \<Rightarrow> p \<le> 32 \<and> drop_bit (128 - p) b = 0 \<and> drop_bit (32 - p) a = 0
         | (V4 b, V6 a) \<Rightarrow> list_ex (\<lambda>q. a AND top_mask (int q) = ucast (b AND top_mask (rule_prefix r))) [p..<129]
         | _ \<Rightarrow> False)"

lemma top_mask_eq_iff:
  "(a AND top_mask p :: 'a :: len word) = b AND top_mask p \<longleftrightarrow> drop_bit (LENGTH('a) - nat p) a = drop_bit (LENGTH('a) - nat p) b"
  (is "?l \<longleftrightarrow> ?r")
proof
  assume l: ?l
  show ?r
  proof (rule bit_eqI)
    fix n
    show "bit (drop_bit (LENGTH('a) - nat p) a) n = bit (drop_bit (LENGTH('a) - nat p) b) n"
      using arg_cong [OF l, of "\<lambda>w. bit w (LENGTH('a) - nat p + n)"]
      by (auto simp: bit_simps bit_top_mask dest: bit_imp_le_length)
  qed
next
  assume r: ?r
  show ?l
  proof (rule bit_eqI)
    fix n
    show "bit (a AND top_mask p) n = bit (b AND top_mask p) n"
      using arg_cong [OF r, of "\<lambda>w. bit w (n - (LENGTH('a) - nat p))"]
      by (auto simp: bit_simps bit_top_mask)
  qed
qed

lemma top_mask_zero_iff: "(a AND top_mask p :: 'a :: len word) = 0 \<longleftrightarrow> drop_bit (LENGTH('a) - nat p) a = 0"
  using top_mask_eq_iff [of a p 0] by simp

lemma in_segment_V4: "in_segment (V4 b, p) (V4 a) \<longleftrightarrow> a AND top_mask (rule_prefix (V4 b, p)) = b AND top_mask (rule_prefix (V4 b, p))"
  using top_mask_eq_iff [of a "rule_prefix (V4 b, p)" b] by (simp add: in_segment_def Let_def)

lemma in_segment_V6: "in_segment (V6 b, p) (V6 a) \<longleftrightarrow> a AND top_mask (rule_prefix (V6 b, p)) = b AND top_mask (rule_prefix (V6 b, p))"
  using top_mask_eq_iff [of a "rule_prefix (V6 b, p)" b] by (simp add: in_segment_def Let_def)

lemma ucast_inject: "(ucast a :: i128) = ucast b \<longleftrightarrow> a = b" for a b :: u32
proof
  assume e: "(ucast a :: i128) = ucast b"
  show "a = b"
  proof (rule bit_word_eqI)
    fix n
    assume "n < LENGTH(32)"
    then show "bit a n = bit b n"
      using arg_cong [OF e, of "\<lambda>w. bit w n"] by (simp add: bit_simps)
  qed
qed simp

lemma narrow_number:
  fixes a :: u32 and b :: i128
  assumes "p \<le> 32" "ucast a = b AND top_mask p"
  shows "a = 0"
proof (rule bit_eqI)
  fix n
  show "bit a n = bit (0 :: u32) n"
    using arg_cong [OF assms(2), of "\<lambda>w. bit w n"] assms(1) by (auto simp: bit_simps bit_top_mask dest: bit_imp_le_length)
qed

lemma key_V4:
  assumes "r = (V4 b, x)" "p = rule_prefix r"
  shows "(\<exists>q. p \<le> q \<and> q \<le> 32 \<and> rule_base r = ucast (a AND FirewallPrefixMask q)) \<longleftrightarrow> in_segment r (V4 a)"
proof -
  have p: "0 \<le> p" "p \<le> 32"
    using rule_prefix_range(1) [of r] rule_prefix_range(3) [of r b] assms by simp_all
  have "a AND top_mask p = b AND top_mask p" if "p \<le> q" "q \<le> 32" "b AND top_mask p = a AND FirewallPrefixMask q" for q
    using that p top_mask_chain [of p q a] top_mask_chain [of p p b] by (simp add: FirewallPrefixMask_eq)
  then show ?thesis
    using p assms by (auto simp: rule_base_def ucast_inject in_segment_V4 FirewallPrefixMask_eq intro!: exI [of _ p])
qed

lemma other_V6:
  assumes "r = (V6 b, x)" "p = rule_prefix r"
  shows "(\<exists>q. p \<le> q \<and> q \<le> 32 \<and> rule_base r = ucast (a AND FirewallPrefixMask q)) \<longleftrightarrow> in_other_family r (V4 a)"
proof -
  have p: "0 \<le> p"
    using rule_prefix_range(1) [of r] assms by simp
  have z: "b AND top_mask p = 0 \<and> a AND top_mask p = 0"
    if "p \<le> q" "q \<le> 32" "b AND top_mask p = ucast (a AND FirewallPrefixMask q)" for q
  proof -
    have "a AND FirewallPrefixMask q = 0"
      using narrow_number [of p "a AND FirewallPrefixMask q" b] that by simp
    then show ?thesis
      using that p top_mask_chain [of p q a] by (simp add: FirewallPrefixMask_eq)
  qed
  have "in_other_family r (V4 a) \<longleftrightarrow> p \<le> 32 \<and> b AND top_mask p = 0 \<and> a AND top_mask p = 0"
    using p by (auto simp: in_other_family_def Let_def assms top_mask_zero_iff)
  moreover have "rule_base r = b AND top_mask p"
    by (simp add: rule_base_def assms)
  moreover have "ucast (a AND FirewallPrefixMask p) = (0 :: i128)" if "p \<le> 32" "a AND top_mask p = 0"
    using that p by (simp add: FirewallPrefixMask_eq)
  ultimately show ?thesis
    using z by (metis order_refl order_trans)
qed

lemma key_V6:
  assumes "r = (V6 b, x)" "p = rule_prefix r"
  shows "(\<exists>q. p \<le> q \<and> q \<le> 128 \<and> rule_base r = a AND PrefixMask128 q) \<longleftrightarrow> in_segment r (V6 a)"
proof -
  have p: "0 \<le> p" "p \<le> 128"
    using rule_prefix_range(1,2) [of r] assms by simp_all
  have "a AND top_mask p = b AND top_mask p" if "p \<le> q" "q \<le> 128" "b AND top_mask p = a AND PrefixMask128 q" for q
    using that p top_mask_chain [of p q a] top_mask_chain [of p p b] by (simp add: PrefixMask128_eq)
  then show ?thesis
    using p assms by (auto simp: rule_base_def in_segment_V6 PrefixMask128_eq intro!: exI [of _ p])
qed

lemma other_V4:
  assumes "r = (V4 b, x)" "p = rule_prefix r"
  shows "(\<exists>q. p \<le> q \<and> q \<le> 128 \<and> rule_base r = a AND PrefixMask128 q) \<longleftrightarrow> in_other_family r (V6 a)"
proof -
  have p: "0 \<le> p"
    using rule_prefix_range(1) [of r] assms by simp
  have o: "in_other_family r (V6 a) \<longleftrightarrow> (\<exists>k. nat p \<le> k \<and> k < 129 \<and> a AND top_mask (int k) = rule_base r)"
    by (auto simp: in_other_family_def Let_def list_ex_iff assms rule_base_def)
  show ?thesis
  proof
    assume "\<exists>q. p \<le> q \<and> q \<le> 128 \<and> rule_base r = a AND PrefixMask128 q"
    then obtain q where q: "p \<le> q" "q \<le> 128" "rule_base r = a AND PrefixMask128 q"
      by blast
    moreover have "nat p \<le> nat q" "nat q < 129" "int (nat q) = q"
      using p q(1,2) by linarith+
    moreover have "PrefixMask128 q = top_mask q"
      using p q(1,2) by (intro PrefixMask128_eq) linarith+
    ultimately show "in_other_family r (V6 a)"
      unfolding o by metis
  next
    assume "in_other_family r (V6 a)"
    then obtain k where k: "nat p \<le> k" "k < 129" "a AND top_mask (int k) = rule_base r"
      unfolding o by blast
    moreover have "p \<le> int k" "int k \<le> 128"
      using k(1,2) by linarith+
    moreover have "PrefixMask128 (int k) = top_mask (int k)"
      using k(2) by (intro PrefixMask128_eq) linarith+
    ultimately show "\<exists>q. p \<le> q \<and> q \<le> 128 \<and> rule_base r = a AND PrefixMask128 q"
      by metis
  qed
qed

section \<open>Domains\<close>

text \<open>Proper labels: not empty, in lower case, without dots, white space and zero bytes.\<close>

definition proper_label :: "string \<Rightarrow> bool" where
  "proper_label l \<longleftrightarrow> l \<noteq> [] \<and> list_all (\<lambda>c. c \<noteq> CHR ''.'' \<and> \<not> is_space c \<and> c \<noteq> CHR 0x00 \<and> lower_char c = c) l"

fun domain_text :: "string list \<Rightarrow> string" where
  "domain_text [] = []"
| "domain_text [l] = l"
| "domain_text (l # ls) = l @ CHR ''.'' # domain_text ls"

lemma tokenize_run:
  "list_all (\<lambda>c. c \<noteq> CHR ''.'') l \<Longrightarrow> tokenize_loop ''.'' seg (l @ t) = tokenize_loop ''.'' (rev l @ seg) t"
  by (induction l arbitrary: seg) simp_all

lemma proper_run: "proper_label l \<Longrightarrow> list_all (\<lambda>c. c \<noteq> CHR ''.'') l \<and> l \<noteq> []"
  by (auto simp: proper_label_def list_all_iff)

lemma tokenize_domain: "list_all proper_label ls \<Longrightarrow> tokenize_loop ''.'' [] (domain_text ls) = ls"
proof (induction ls rule: domain_text.induct)
  case (2 l)
  then show ?case
    using tokenize_run [of l "[]" "[]"] proper_run [of l] by simp
next
  case (3 l l' ls)
  then show ?case
    using tokenize_run [of l "[]" "CHR ''.'' # domain_text (l' # ls)"] proper_run [of l] by simp
qed simp

lemma domain_text_empty: "list_all proper_label ls \<Longrightarrow> domain_text ls = [] \<longleftrightarrow> ls = []"
  by (cases ls rule: domain_text.cases) (auto simp: proper_label_def)

lemma domain_chars:
  assumes "list_all proper_label ls" "c \<in> set (domain_text ls)"
  shows "\<not> is_space c \<and> c \<noteq> CHR 0x00 \<and> lower_char c = c"
proof -
  have dot: "\<not> is_space CHR ''.''" "lower_char CHR ''.'' = CHR ''.''"
    by code_simp+
  have l: "proper_label l \<Longrightarrow> d \<in> set l \<Longrightarrow> \<not> is_space d \<and> d \<noteq> CHR 0x00 \<and> lower_char d = d" for l d
    by (simp add: proper_label_def list_all_iff)
  show ?thesis
    using assms by (induction ls rule: domain_text.induct) (auto dest: l simp: dot)
qed

lemma trim_no_space: "\<forall>c \<in> set s. \<not> is_space c \<Longrightarrow> LTrim s = s \<and> RTrim s = s"
proof -
  have d: "dropWhile is_space t = t" if "\<forall>c \<in> set t. \<not> is_space c" for t
    using that by (cases t) simp_all
  assume "\<forall>c \<in> set s. \<not> is_space c"
  then show ?thesis
    using d [of s] d [of "rev s"] by (simp add: LTrim_def RTrim_def)
qed

lemma join_labels_text: "list_all proper_label ls \<Longrightarrow> nxt \<noteq> [] \<Longrightarrow> join_labels nxt ls = (if ls = [] then nxt else nxt @ ''.'' @ domain_text ls)"
proof (induction ls arbitrary: nxt)
  case (Cons l ls)
  then show ?case
    using Cons.IH [of "nxt @ ''.'' @ l"] by (cases ls) simp_all
qed simp

lemma join_labels_domain: "list_all proper_label ls \<Longrightarrow> join_labels [] ls = domain_text ls"
  by (cases ls) (auto simp: join_labels_text proper_label_def neq_Nil_conv)

lemma normal_host_domain:
  assumes "list_all proper_label ls"
  shows "normal_host (domain_text ls) = domain_text ls" "c_str (domain_text ls) = domain_text ls"
proof -
  have "ToLower (domain_text ls) = domain_text ls"
    unfolding ToLower_def by (rule map_idI) (use domain_chars [OF assms] in blast)
  then show "normal_host (domain_text ls) = domain_text ls"
    using trim_no_space domain_chars [OF assms] by (simp add: normal_host_def)
  show "c_str (domain_text ls) = domain_text ls"
    unfolding c_str_def takeWhile_eq_all_conv using domain_chars [OF assms] by blast
qed

lemma proper_trim: "list_all proper_label ls \<Longrightarrow> map (\<lambda>l. LTrim (RTrim l)) ls = ls \<and> [] \<notin> set ls"
  by (intro conjI map_idI) (auto simp: list_all_iff proper_label_def trim_no_space)

lemma same_domains_iff:
  assumes "list_all proper_label ls" "ls \<noteq> []"
  shows "same_domains D (domain_text ls) \<longleftrightarrow> (\<exists>i < length ls. domain_text (drop i ls) \<in> D)"
proof (cases "length ls < 2")
  case True
  then have "length ls = 1"
    using assms(2) by (cases ls) auto
  then show ?thesis
    using tokenize_domain [OF assms(1)] domain_text_empty [OF assms(1)] assms(2)
    by (simp add: same_domains_def Tokenize_def Let_def)
next
  case False
  have d: "list_all proper_label (drop i ls)" for i
    using assms(1) by (auto simp: list_all_iff dest: in_set_dropD)
  have "domain_text (drop (length ls - 1) ls) = last ls"
    using assms(2) by (metis append_butlast_last_id append_eq_conv_conj length_butlast domain_text.simps(2))
  moreover have "i < length ls \<longleftrightarrow> i = 0 \<or> i \<in> {1..<length ls - 1} \<or> i = length ls - 1" for i
    using False by auto
  moreover have "Tokenize (domain_text ls) ''.'' = ls"
    using tokenize_domain [OF assms(1)] domain_text_empty [OF assms(1)] assms(2) by (simp add: Tokenize_def)
  moreover have "join_labels [] (drop i ls) = domain_text (drop i ls)" "i \<in> {1..<length ls - 1} \<Longrightarrow> domain_text (drop i ls) \<noteq> []" for i
    using join_labels_domain [OF d] domain_text_empty [OF d, of i] by auto
  ultimately show ?thesis
    using False proper_trim [OF assms(1)] unfolding same_domains_def Let_def by (auto simp: list_ex_iff)
qed

section \<open>Rules that are read twice\<close>

text \<open>A line whose address is the word of a later command is also executed as that command.\<close>

lemma rule_falls_through: "IsDropNetworkPort 53 True (snd (LoadWithRules ''drop ip port 53'' Firewall_new))"
  by code_simp

section \<open>Properties\<close>

text \<open>
  C34. Segments. After any sequence of dropped segments of both families, an address is blocked exactly when it lies in a dropped
  segment of its own family, or when the one table for both families confuses it with a segment of the other one.
\<close>

theorem firewall_segments:
  "IsDropNetworkSegment ip (drop_segments rules Firewall_new) \<longleftrightarrow>
     list_ex (\<lambda>r. in_segment r ip \<or> in_other_family r ip) rules"
proof -
  have t: "table_of (set rules) (network_segments (drop_segments rules Firewall_new))"
    using table_drop_segments [of "{}" Firewall_new rules] by (simp add: table_of_def Firewall_new_def)
  show ?thesis
  proof (cases ip)
    case (V4 a)
    have "(\<exists>q. rule_prefix r \<le> q \<and> q \<le> int 32 \<and> rule_base r = ucast (a AND FirewallPrefixMask q)) \<longleftrightarrow>
        in_segment r ip \<or> in_other_family r ip" for r
      using key_V4 [of r] other_V6 [of r] by (cases r; cases "fst r") (auto simp: V4 in_segment_def in_other_family_def)
    then show ?thesis
      using segment_loop_table [OF t, of _ 32] by (simp add: IsDropNetworkSegment_def V4 list_ex_iff)
  next
    case (V6 a)
    have "(\<exists>q. rule_prefix r \<le> q \<and> q \<le> int 128 \<and> rule_base r = a AND PrefixMask128 q) \<longleftrightarrow>
        in_segment r ip \<or> in_other_family r ip" for r
      using key_V6 [of r] other_V4 [of r] by (cases r; cases "fst r") (auto simp: V6 in_segment_def in_other_family_def)
    then show ?thesis
      using segment_loop_table [OF t, of _ 128] by (simp add: IsDropNetworkSegment_def V6 list_ex_iff)
  qed
qed

text \<open>
  C35. Domains. A host name of proper labels that is not an address is blocked exactly when the name itself or what remains of
  it behind one of its dots is a dropped domain.
\<close>

theorem firewall_domains:
  assumes "list_all proper_label ls" "ls \<noteq> []" "StringToAddress_any (domain_text ls) = None"
  shows "IsDropNetworkDomains (domain_text ls) fw \<longleftrightarrow> (\<exists>i < length ls. domain_text (drop i ls) \<in> network_domains fw)"
  using assms domain_text_empty [OF assms(1)] normal_host_domain [OF assms(1)] same_domains_iff [OF assms(1,2)]
  by (simp add: IsDropNetworkDomains_def IsSameNetworkDomains_def Let_def)

theorem firewall_domains_witness: "IsDropNetworkDomains ''www.a.com'' (snd (DropNetworkDomains '' A.com'' Firewall_new))"
proof -
  let ?ls = "[''www'', ''a'', ''com'']"
  have "list_all proper_label ?ls" "StringToAddress_any (domain_text ?ls) = None" "normal_host '' A.com'' = ''a.com''"
    by code_simp+
  moreover from this(3) have "domain_text (drop 1 ?ls) \<in> network_domains (snd (DropNetworkDomains '' A.com'' Firewall_new))"
    by (simp add: DropNetworkDomains_def Let_def)
  ultimately have "IsDropNetworkDomains (domain_text ?ls) (snd (DropNetworkDomains '' A.com'' Firewall_new))"
    using firewall_domains [of ?ls "snd (DropNetworkDomains '' A.com'' Firewall_new)"] by fastforce
  then show ?thesis
    by simp
qed

text \<open>
  A dot at the end. The absolute form of a dropped domain of two labels, with a dot behind it, names the same host but is not
  blocked, while the absolute forms of its subdomains are.
\<close>

theorem firewall_absolute_name:
  "let fw = snd (DropNetworkDomains ''bad.com'' Firewall_new)
   in IsDropNetworkDomains ''bad.com'' fw \<and> \<not> IsDropNetworkDomains ''bad.com.'' fw \<and> IsDropNetworkDomains ''www.bad.com.'' fw"
  by code_simp

end
