(* ===== verification/Tcp_Mss.thy ===== *)
theory Tcp_Mss
  imports Ip_Packet
begin

text \<open>
  The clamping of the TCP segment size, \<^verbatim>\<open>src/ppp/app/protocol/VirtualEthernetTcpMss.h\<close>, with the IPv6 helpers of
  \<^verbatim>\<open>src/ppp/ipv6/IPv6Packet.h\<close>: the size that the tunnel and a learned path MTU allow, the walk over the options of a SYN,
  and the rewritten option with the checksums of both families. A packet is the list of its bytes.
\<close>

unbundle bit_operations_syntax

section \<open>IPv6 packets\<close>

definition IPv6_HEADER_MIN_SIZE :: nat where
  "IPv6_HEADER_MIN_SIZE = 40"

definition IPv6_Source :: "bytes \<Rightarrow> bytes" where
  "IPv6_Source p = take 16 (drop 8 p)"

definition IPv6_Destination :: "bytes \<Rightarrow> bytes" where
  "IPv6_Destination p = take 16 (drop 24 p)"

definition TryParsePacket :: "bytes \<Rightarrow> (bytes \<times> bytes) option" where
  "TryParsePacket p =
     (if length p < IPv6_HEADER_MIN_SIZE then None
      else if drop_bit 4 (p ! 0) \<noteq> 6 then None
      else if length p < IPv6_HEADER_MIN_SIZE + unat (htons (ld16 4 p)) then None
      else Some (IPv6_Source p, IPv6_Destination p))"

definition ComputePseudoChecksum :: "bytes \<Rightarrow> bytes \<Rightarrow> bytes \<Rightarrow> u32 \<Rightarrow> u16" where
  "ComputePseudoChecksum payload source destination next_header =
     (let acc = FOLD_U32T (ucast (ip_standard_chksum source));
          acc = FOLD_U32T (acc + ucast (ip_standard_chksum destination))
      in inet_cksum_pseudo_base payload next_header acc)"

section \<open>Segment size\<close>

definition kVEthernetTunnelOverhead :: int where
  "kVEthernetTunnelOverhead = 80"

definition ComputeDynamicTcpMss :: "bool \<Rightarrow> int \<Rightarrow> int \<Rightarrow> u16" where
  "ComputeDynamicTcpMss ipv4 tunnel_overhead path_mtu =
     (let tunnel_overhead = max 0 tunnel_overhead;
          base_mtu = int ITap_Mtu - tunnel_overhead;
          base_mtu = (if path_mtu > 0 then min base_mtu path_mtu else base_mtu);
          mss = base_mtu - (if ipv4 then int IP_HLEN else int IPv6_HEADER_MIN_SIZE) - 20
      in of_int (if ipv4 then max 1200 (min 1460 mss) else max 1220 (min 1440 mss)))"

text \<open>The walk over the options: the place of the first well-formed segment size, behind \<open>i\<close> bytes of options.\<close>

function mss_option :: "nat \<Rightarrow> bytes \<Rightarrow> nat option" where
  "mss_option i options =
     (case options of
        [] \<Rightarrow> None
      | kind # rest \<Rightarrow>
          if kind = 0 then None
          else if kind = 1 then mss_option (i + 1) rest
          else (case rest of
                  [] \<Rightarrow> None
                | len # _ \<Rightarrow>
                    if len < 2 \<or> unat len > length options then None
                    else if kind = 2 \<and> len = 4 then Some (i + 2)
                    else mss_option (i + unat len) (drop (unat len) options)))"
  by pat_completeness auto

termination
  by (relation "measure (\<lambda>(i, options). length options)") (auto simp: word_less_nat_alt)

definition TCPH_FLAGS :: "bytes \<Rightarrow> u16" where
  "TCPH_FLAGS seg = htons (ld16 12 seg) AND 0x3F"

text \<open>The part both families share: the place in the segment at which a larger value was found, in a SYN with options.\<close>

definition mss_place :: "u16 \<Rightarrow> bytes \<Rightarrow> nat option" where
  "mss_place mss_value seg =
     (let tcp_header_length = TCPH_HDRLEN_BYTES seg
      in if tcp_header_length \<le> 20 \<or> tcp_header_length > length seg then None
         else if TCPH_FLAGS seg AND 2 = 0 then None
         else case mss_option 0 (take (tcp_header_length - 20) (drop 20 seg)) of
                None \<Rightarrow> None
              | Some i \<Rightarrow> if htons (ld16 (20 + i) seg) > mss_value then Some (20 + i) else None)"

text \<open>The bytes of a packet after \<open>ip_hdr::Parse\<close>, which shortens a length field that is too large, also when it fails later.\<close>

definition ip_hdr_buffer :: "bytes \<Rightarrow> bytes" where
  "ip_hdr_buffer p =
     (let hlen = 4 * IPH_HL p
      in if p = [] \<or> IPH_V p \<noteq> 4 \<or> hlen > length p \<or> hlen < IP_HLEN \<or> p ! 8 = 0 then p
         else if unat (htons (ld16 2 p)) > length p then put16 2 (htons (of_nat (length p))) p else p)"

definition ClampTcpMssIPv4 :: "bool \<Rightarrow> bytes \<Rightarrow> u16 \<Rightarrow> bool \<times> bytes" where
  "ClampTcpMssIPv4 verify packet mss_value =
     (if length packet < 20 then (False, packet)
      else let buffer = ip_hdr_buffer packet
           in case ip_hdr_Parse verify packet of
                None \<Rightarrow> (False, buffer)
              | Some p \<Rightarrow>
                  let hl = 4 * IPH_HL p
                  in if hl < IP_HLEN \<or> p ! 9 \<noteq> IP_PROTO_TCP then (False, buffer)
                     else let tcp_length = length p - hl
                          in if tcp_length < 20 then (False, buffer)
                             else case mss_place mss_value (drop hl p) of
                                    None \<Rightarrow> (False, buffer)
                                  | Some k \<Rightarrow>
                                      let b = put16 (hl + k) (htons mss_value) buffer;
                                          b = put16 10 0 b;
                                          b = put16 10 (inet_chksum (take hl b)) b;
                                          b = put16 (hl + 16) 0 b;
                                          b = put16 (hl + 16) (inet_chksum_pseudo (take tcp_length (drop hl b)) 6 (ld32 12 b) (ld32 16 b)) b
                                      in (True, b))"

definition ClampTcpMssIPv6 :: "bytes \<Rightarrow> u16 \<Rightarrow> bool \<times> bytes" where
  "ClampTcpMssIPv6 packet mss_value =
     (if length packet < IPv6_HEADER_MIN_SIZE + 20 then (False, packet)
      else if drop_bit 4 (packet ! 0) \<noteq> 6 \<or> packet ! 6 \<noteq> 6 then (False, packet)
      else case TryParsePacket packet of
             None \<Rightarrow> (False, packet)
           | Some (source, destination) \<Rightarrow>
               (case mss_place mss_value (drop IPv6_HEADER_MIN_SIZE packet) of
                  None \<Rightarrow> (False, packet)
                | Some k \<Rightarrow>
                    let b = put16 (IPv6_HEADER_MIN_SIZE + k) (htons mss_value) packet;
                        b = put16 (IPv6_HEADER_MIN_SIZE + 16) 0 b;
                        b = put16 (IPv6_HEADER_MIN_SIZE + 16)
                              (ComputePseudoChecksum (drop IPv6_HEADER_MIN_SIZE b) source destination 6) b
                    in (True, b)))"

declare mss_option.simps [simp del]

section \<open>Stores in packets\<close>

lemma length_put16 [simp]: "length (put16 k v p) = length p"
  by (simp add: put16_def)

lemma put16_eq: "k + 2 \<le> length p \<Longrightarrow> put16 k v p = take k p @ le16 v @ drop (k + 2) p"
proof (rule nth_equalityI)
  fix i
  assume k: "k + 2 \<le> length p" and "i < length (put16 k v p)"
  consider "i < k" | "i = k" | "i = k + 1" | j where "i = k + 2 + j"
    using less_iff_Suc_add [of "k + 1" i] by force
  then show "put16 k v p ! i = (take k p @ le16 v @ drop (k + 2) p) ! i"
    using k by cases (simp_all add: put16_def le16_def nth_append)
qed (simp add: put16_def)

lemma nth_put16: "k + 2 \<le> length p \<Longrightarrow> put16 k v p ! j = (if j = k then byte_at 0 v else if j = k + 1 then byte_at 1 v else p ! j)"
  by (auto simp: put16_def nth_list_update)

lemma take_put16: "k + 2 \<le> n \<Longrightarrow> take n (put16 k v p) = put16 k v (take n p)" "n \<le> k \<Longrightarrow> take n (put16 k v p) = take n p"
  by (simp_all add: put16_def take_update_swap list_update_beyond)

lemma drop_put16: "n \<le> k \<Longrightarrow> drop n (put16 k v p) = put16 (k - n) v (drop n p)" "k + 2 \<le> n \<Longrightarrow> drop n (put16 k v p) = drop n p"
  by (auto simp: put16_def drop_update_swap Suc_diff_le)

lemma ld16_put16: "k + 2 \<le> length p \<Longrightarrow> ld16 k (put16 k v p) = v"
  using htons_ld16 [of "take k p" k v "drop (k + 2) p"] by (simp add: put16_eq)

lemma ld_put16_other:
  "k + 2 \<le> length p \<Longrightarrow> j + 2 \<le> k \<or> k + 2 \<le> j \<Longrightarrow> ld16 j (put16 k v p) = ld16 j p"
  "k + 2 \<le> length p \<Longrightarrow> j + 4 \<le> k \<or> k + 2 \<le> j \<Longrightarrow> ld32 j (put16 k v p) = ld32 j p"
  by (auto simp: ld16_def ld32_def nth_put16)

section \<open>Stored checksums\<close>

text \<open>The clamp stores a zero checksum as it is; the receiver's sum is then the same.\<close>

lemma le16_zero: "le16 0 = [0, 0]"
  by (simp add: le16_def byte_at_def)

lemma stored_inet_chksum:
  assumes "even k" "k + 2 \<le> length h" "length h \<le> 65536"
  shows "inet_chksum (put16 k (inet_chksum (put16 k 0 h)) (put16 k 0 h)) = 0"
proof -
  let ?c = "inet_chksum (take k h @ [0, 0] @ drop (k + 2) h)"
  have z: "put16 k 0 h = take k h @ [0, 0] @ drop (k + 2) h"
    using assms(2) by (simp add: put16_eq le16_zero)
  have s: "put16 k ?c (put16 k 0 h) = take k h @ le16 ?c @ drop (k + 2) h"
    using assms(2) by (simp add: put16_eq le16_zero min_def)
  show ?thesis
  proof (cases "?c = 0")
    case True
    then show ?thesis
      using s z by (simp add: le16_zero)
  next
    case False
    then have "chksum_field ?c = ?c"
      by (simp add: chksum_field_def)
    then show ?thesis
      using inet_chksum_verifies [of "take k h" "drop (k + 2) h"] assms s z by simp
  qed
qed

lemma pseudo_base_field:
  assumes "even (length pre)" "length pre + length post \<le> 65533" "unat acc \<le> 65535"
  shows "inet_cksum_pseudo_base (pre @ le16 (chksum_field (inet_cksum_pseudo_base (pre @ [0, 0] @ post) proto acc)) @ post) proto acc = 0"
proof -
  define payload c where "payload = pre @ [0, 0] @ post" and "c = chksum_field (inet_cksum_pseudo_base payload proto acc)"
  define stored where "stored = pre @ le16 c @ post"
  let ?t = "unat (htons (ucast proto)) + unat (htons (of_nat (length payload)))"
  define n where "n p = fold16 (unat acc + unat (ip_standard_chksum p)) + unat (htons (ucast proto)) + unat (htons (of_nat (length p)))" for p
  have len: "length stored = length payload" "0 < length payload" "length payload \<le> 65535"
    using assms(2) by (simp_all add: stored_def payload_def)
  then have "unat (of_nat (length payload) :: u16) = length payload"
    by (simp add: unat_of_nat take_bit_nat_eq_self)
  then have "htons (of_nat (length payload)) \<noteq> 0"
    using len(2) by (metis htons_eq_0 unat_0 less_irrefl)
  then have pos: "0 < n stored"
    by (simp add: n_def len unat_gt_0)
  have eq: "inet_cksum_pseudo_base p proto acc = NOT (of_nat (fold32 (n p)))" "n p < 262144" for p
    using pseudo_base_eq [OF assms(3), of p proto] by (simp_all add: n_def)
  have f: "fold32 (n p) \<le> 65535" "fold32 (n p) mod 65535 = n p mod 65535" "fold32 (n p) = 0 \<longleftrightarrow> n p = 0" for p
    using fold32_spec [of "n p"] eq(2) [of p] by simp_all
  have m: "n p mod 65535 = (unat acc + unat (ip_standard_chksum p) + ?t) mod 65535" if "length p = length payload" for p
  proof -
    have "n p = fold16 (unat acc + unat (ip_standard_chksum p)) + ?t"
      by (simp add: n_def that)
    then show ?thesis
      by (simp only:) (rule mod_add_cong, simp_all add: fold16_mod)
  qed
  have "n stored mod 65535 = (unat acc + (unat (ip_standard_chksum payload) + unat c) + ?t) mod 65535"
    unfolding m [OF len(1)]
    by (intro mod_add_cong refl) (use stored_mod [OF assms(1,2), of c] in \<open>simp add: stored_def payload_def\<close>)
  also have "\<dots> = (n payload + unat c) mod 65535"
  proof -
    have "(n payload + unat c) mod 65535 = (unat acc + unat (ip_standard_chksum payload) + ?t + unat c) mod 65535"
      by (rule mod_add_cong) (simp_all add: m)
    then show ?thesis
      by (simp add: ac_simps)
  qed
  also have "\<dots> = (fold32 (n payload) + unat c) mod 65535"
    by (rule mod_add_cong) (simp_all add: f(2))
  also have "\<dots> = 0"
    unfolding c_def eq(1) by (rule chksum_field_mod [OF f(1)])
  finally have "fold32 (n stored) = 65535"
    using f [of stored] pos by (auto elim!: dvdE simp: mod_eq_0_iff_dvd)
  then show ?thesis
    using eq(1) [of stored] by (simp add: stored_def c_def payload_def)
qed

lemma stored_pseudo_base:
  assumes "even k" "k + 2 \<le> length h" "length h \<le> 65535" "unat acc \<le> 65535"
  shows "inet_cksum_pseudo_base (put16 k (inet_cksum_pseudo_base (put16 k 0 h) proto acc) (put16 k 0 h)) proto acc = 0"
proof -
  let ?c = "inet_cksum_pseudo_base (take k h @ [0, 0] @ drop (k + 2) h) proto acc"
  have z: "put16 k 0 h = take k h @ [0, 0] @ drop (k + 2) h"
    using assms(2) by (simp add: put16_eq le16_zero)
  have s: "put16 k ?c (put16 k 0 h) = take k h @ le16 ?c @ drop (k + 2) h"
    using assms(2) by (simp add: put16_eq le16_zero min_def)
  show ?thesis
  proof (cases "?c = 0")
    case True
    then show ?thesis
      using s z by (simp add: le16_zero)
  next
    case False
    then have "chksum_field ?c = ?c"
      by (simp add: chksum_field_def)
    then show ?thesis
      using pseudo_base_field [of "take k h" "drop (k + 2) h" acc proto] assms s z by simp
  qed
qed

section \<open>Clamped packets\<close>

lemma mss_option_place: "mss_option i options = Some j \<Longrightarrow> i + 2 \<le> j \<and> j + 2 \<le> i + length options"
proof (induction options arbitrary: i rule: length_induct)
  case (1 options)
  obtain kind rest where c: "options = kind # rest"
    using "1.prems" by (cases options) (simp_all add: mss_option.simps)
  show ?case
  proof (cases "kind = 1")
    case True
    then have "mss_option (i + 1) rest = Some j"
      using "1.prems" c by (simp add: mss_option.simps [of i])
    then show ?thesis
      using "1.IH" c by fastforce
  next
    case False
    obtain len more where r: "rest = len # more"
      using "1.prems" c False by (cases rest) (auto simp: mss_option.simps [of i] split: if_splits)
    have n: "2 \<le> unat len" "unat len \<le> length options"
      using "1.prems" c r False by (auto simp: mss_option.simps [of i] word_less_nat_alt split: if_splits)
    have "j = i + 2 \<and> unat len = 4 \<or> mss_option (i + unat len) (drop (unat len) options) = Some j"
      using "1.prems" c r False by (auto simp: mss_option.simps [of i] split: if_splits)
    then show ?thesis
      using "1.IH" [rule_format, of "drop (unat len) options" "i + unat len"] n c by fastforce
  qed
qed

lemma mss_place_facts:
  assumes "mss_place v seg = Some k"
  shows "22 \<le> k" "k + 2 \<le> length seg" "v < htons (ld16 k seg)"
  using assms mss_option_place [of 0 "take (TCPH_HDRLEN_BYTES seg - 20) (drop 20 seg)"]
  by (auto simp: mss_place_def Let_def split: if_splits option.splits)

lemma ip_hdr_buffer_facts:
  shows "length (ip_hdr_buffer p) = length p" and "j \<noteq> 2 \<Longrightarrow> j \<noteq> 3 \<Longrightarrow> ip_hdr_buffer p ! j = p ! j"
proof -
  show "length (ip_hdr_buffer p) = length p"
    by (simp add: ip_hdr_buffer_def Let_def)
  show "ip_hdr_buffer p ! j = p ! j" if "j \<noteq> 2" "j \<noteq> 3"
    using that by (simp add: ip_hdr_buffer_def Let_def put16_def)
qed

lemma ip_hdr_Parse_facts:
  assumes "ip_hdr_Parse verify p = Some q"
  shows "q = take (min (length p) (unat (htons (ld16 2 p)))) (ip_hdr_buffer p)" "20 \<le> 4 * IPH_HL p" "4 * IPH_HL p \<le> length p"
  using assms by (auto simp: ip_hdr_Parse_def ip_hdr_buffer_def Let_def IP_HLEN_def min_def not_less split: if_splits)

lemma pseudo_stored:
  assumes "even k" "k + 2 \<le> length h" "length h \<le> 65535"
  shows "inet_chksum_pseudo (put16 k (inet_chksum_pseudo (put16 k 0 h) proto src dest) (put16 k 0 h)) proto src dest = 0"
proof -
  have "unat (FOLD_U32T (FOLD_U32T ((src AND 0xFFFF) + (drop_bit 16 src AND 0xFFFF) + (dest AND 0xFFFF) + (drop_bit 16 dest AND 0xFFFF)))) \<le> 65535"
    unfolding addr_fold using fold32_spec(1) [of "addr_sum src dest"] addr_sum_less [of src dest] by simp
  from stored_pseudo_base [OF assms this] show ?thesis
    by (simp add: inet_chksum_pseudo_def Let_def)
qed

text \<open>The four stores of the IPv4 clamp.\<close>

lemma clamp_stores:
  fixes b :: bytes and v :: u16
  assumes "20 \<le> hl" "hl \<le> 60" "hl + n \<le> length b" "n \<le> 65535" "22 \<le> k" "k + 2 \<le> n"
  defines "b1 \<equiv> put16 (hl + k) (htons v) b"
  defines "b3 \<equiv> put16 10 (inet_chksum (take hl (put16 10 0 b1))) (put16 10 0 b1)"
  defines "b4 \<equiv> put16 (hl + 16) 0 b3"
  defines "b5 \<equiv> put16 (hl + 16) (inet_chksum_pseudo (take n (drop hl b4)) 6 (ld32 12 b4) (ld32 16 b4)) b4"
  shows "inet_chksum (take hl b5) = 0" "inet_chksum_pseudo (take n (drop hl b5)) 6 (ld32 12 b5) (ld32 16 b5) = 0"
    "ld16 (hl + k) b5 = htons v" "length b5 = length b"
    "j \<notin> {10, 11, hl + 16, hl + 17, hl + k, hl + k + 1} \<Longrightarrow> b5 ! j = b ! j"
proof -
  have l: "length b1 = length b" "length b3 = length b" "length b4 = length b" "length b5 = length b"
    by (simp_all add: b1_def b3_def b4_def b5_def)
  then show "length b5 = length b"
    by simp
  have b3: "take hl b3 = put16 10 (inet_chksum (put16 10 0 (take hl b1))) (put16 10 0 (take hl b1))"
    using assms(1) by (simp add: b3_def take_put16)
  have "take hl b5 = take hl b3"
    by (simp add: b5_def b4_def take_put16)
  then show "inet_chksum (take hl b5) = 0"
    using stored_inet_chksum [of 10 "take hl b1"] b3 assms(1-3) l by simp
  have a: "ld32 12 b5 = ld32 12 b4" "ld32 16 b5 = ld32 16 b4"
    unfolding b5_def using assms(1,3,5,6) l by (simp_all add: ld_put16_other)
  have d4: "take n (drop hl b4) = put16 16 0 (take n (drop hl b3))"
    using assms(5,6) by (simp add: b4_def drop_put16 take_put16)
  have "take n (drop hl b5) = put16 16 (inet_chksum_pseudo (take n (drop hl b4)) 6 (ld32 12 b4) (ld32 16 b4)) (take n (drop hl b4))"
    using assms(5,6) by (simp add: b5_def drop_put16 take_put16)
  then show "inet_chksum_pseudo (take n (drop hl b5)) 6 (ld32 12 b5) (ld32 16 b5) = 0"
    unfolding a d4 using pseudo_stored [of 16 "take n (drop hl b3)"] assms(3-6) l by simp
  show "ld16 (hl + k) b5 = htons v"
    using assms(1,3,5,6) l by (simp add: b5_def b4_def b3_def ld_put16_other ld16_put16 b1_def)
  show "b5 ! j = b ! j" if "j \<notin> {10, 11, hl + 16, hl + 17, hl + k, hl + k + 1}"
    using that by (simp add: b5_def b4_def b3_def b1_def put16_def)
qed

text \<open>What \<open>ip_hdr::Parse\<close> returns for a packet, in terms of its bytes before the call.\<close>

lemma parsed_segment:
  assumes "ip_hdr_Parse verify p = Some q"
  defines "hl \<equiv> 4 * IPH_HL p" and "n \<equiv> min (length p) (unat (htons (ld16 2 p)))"
  shows "20 \<le> hl" "hl \<le> 60" "length q = n" "9 < n \<Longrightarrow> IPH_HL q = IPH_HL p \<and> q ! 9 = p ! 9" "drop hl q = drop hl (take n p)"
proof -
  note f = ip_hdr_Parse_facts [OF assms(1)]
  have "IPH_HL p \<le> 15"
  proof -
    have m: "(0x0F :: u8) = mask 4"
      by (simp add: mask_eq_exp_minus_1)
    show ?thesis
      unfolding IPH_HL_def m take_bit_eq_mask [symmetric] using mod_less_divisor [of 16 "unat (p ! 0)"]
      by (simp only: unsigned_take_bit_eq) (simp add: take_bit_eq_mod)
  qed
  then show hl: "20 \<le> hl" "hl \<le> 60"
    using f(2,3) by (simp_all add: hl_def)
  have n: "n \<le> length p"
    by (simp add: n_def)
  then show lq: "length q = n"
    using f(1) by (simp add: n_def ip_hdr_buffer_facts(1))
  show "IPH_HL q = IPH_HL p \<and> q ! 9 = p ! 9" if "9 < n"
  proof -
    have "q ! 0 = p ! 0" "q ! 9 = p ! 9"
      using that f(1) ip_hdr_buffer_facts(2) [of 0 p] ip_hdr_buffer_facts(2) [of 9 p] unfolding n_def [symmetric] by simp_all
    then show ?thesis
      by (simp add: IPH_HL_def)
  qed
  show "drop hl q = drop hl (take n p)"
  proof (rule nth_equalityI)
    show "length (drop hl q) = length (drop hl (take n p))"
      using lq n by simp
    show "drop hl q ! i = drop hl (take n p) ! i" if "i < length (drop hl q)" for i
      using that lq n hl ip_hdr_buffer_facts [where p = p] by (simp add: f(1) n_def [symmetric])
  qed
qed

lemma clamp4_result:
  assumes "ClampTcpMssIPv4 verify p v = (True, p')"
  defines "hl \<equiv> 4 * IPH_HL p" and "n \<equiv> min (length p) (unat (htons (ld16 2 p)))"
  obtains k where "20 \<le> hl" "hl \<le> 60" "hl \<le> n" "22 \<le> k" "hl + k + 2 \<le> n" "p' = (
      let b = put16 (hl + k) (htons v) (ip_hdr_buffer p); b = put16 10 0 b; b = put16 10 (inet_chksum (take hl b)) b;
          b = put16 (hl + 16) 0 b
      in put16 (hl + 16) (inet_chksum_pseudo (take (n - hl) (drop hl b)) 6 (ld32 12 b) (ld32 16 b)) b)"
    "mss_place v (drop hl (take n p)) = Some k" "v < htons (ld16 (hl + k) p)"
proof -
  obtain q where q: "ip_hdr_Parse verify p = Some q"
    using assms(1) by (auto simp: ClampTcpMssIPv4_def Let_def split: if_splits option.splits)
  note f = parsed_segment [OF q, folded hl_def n_def]
  have "20 \<le> length q"
    using assms(1) q by (auto simp: ClampTcpMssIPv4_def Let_def split: if_splits)
  then have "IPH_HL q = IPH_HL p"
    using f(3,4) by simp
  then obtain k where k: "mss_place v (drop hl q) = Some k" "20 \<le> n - hl" "p' = (
      let b = put16 (hl + k) (htons v) (ip_hdr_buffer p); b = put16 10 0 b; b = put16 10 (inet_chksum (take hl b)) b;
          b = put16 (hl + 16) 0 b
      in put16 (hl + 16) (inet_chksum_pseudo (take (n - hl) (drop hl b)) 6 (ld32 12 b) (ld32 16 b)) b)"
    using assms(1) q f(3) by (auto simp: ClampTcpMssIPv4_def hl_def Let_def split: if_splits option.splits)
  then have m: "mss_place v (drop hl (take n p)) = Some k"
    by (simp add: f(5))
  note place = mss_place_facts [OF m]
  have n: "n \<le> length p"
    by (simp add: n_def)
  have "ld16 k (drop hl (take n p)) = ld16 (hl + k) p"
    using place(2) n by (simp add: ld16_def)
  then show thesis
    using that [OF f(1,2) _ _ _ k(3) m] place n k(2) by auto
qed

lemma clamp4_accepted:
  assumes "ClampTcpMssIPv4 verify p v = (True, p')"
  shows "20 \<le> length p \<and> ip_hdr_Parse verify p \<noteq> None \<and> p ! 9 = IP_PROTO_TCP"
proof -
  obtain q where q: "20 \<le> length p" "ip_hdr_Parse verify p = Some q" "q ! 9 = IP_PROTO_TCP" "20 \<le> length q"
    using assms by (auto simp: ClampTcpMssIPv4_def Let_def split: if_splits option.splits)
  then show ?thesis
    using parsed_segment(3,4) [OF q(2)] by simp
qed

lemma clamp4_refused:
  assumes "ClampTcpMssIPv4 verify p v = (False, p')" "20 \<le> length p" "ip_hdr_Parse verify p \<noteq> None" "p ! 9 = IP_PROTO_TCP"
  shows "mss_place v (drop (4 * IPH_HL p) (take (min (length p) (unat (htons (ld16 2 p)))) p)) = None"
proof (rule ccontr)
  let ?hl = "4 * IPH_HL p" and ?n = "min (length p) (unat (htons (ld16 2 p)))"
  assume "mss_place v (drop ?hl (take ?n p)) \<noteq> None"
  then obtain k where k: "mss_place v (drop ?hl (take ?n p)) = Some k"
    by blast
  obtain q where q: "ip_hdr_Parse verify p = Some q"
    using assms(3) by blast
  note f = parsed_segment [OF q]
  have "22 \<le> k" "k + 2 \<le> length (drop ?hl (take ?n p))"
    using mss_place_facts(1,2) [OF k] by simp_all
  then have l: "?hl + 20 \<le> length q"
    unfolding f(3) length_drop length_take by linarith
  then have h: "IPH_HL q = IPH_HL p" "q ! 9 = IP_PROTO_TCP"
    using f(3,4) assms(4) by simp_all
  have "\<not> length q - ?hl < 20"
    using l by linarith
  note h = h this
  have "fst (ClampTcpMssIPv4 verify p v)"
    using assms(2) f(1) k h by (simp add: ClampTcpMssIPv4_def q f(5) Let_def IP_HLEN_def)
  then show False
    by (simp add: assms(1))
qed

lemma clamp6_result:
  assumes "ClampTcpMssIPv6 p v = (True, p')"
  obtains k where "60 \<le> length p" "mss_place v (drop 40 p) = Some k" "unat (htons (ld16 4 p)) + 40 \<le> length p"
    "p' = (let b = put16 56 0 (put16 (40 + k) (htons v) p)
           in put16 56 (ComputePseudoChecksum (drop 40 b) (IPv6_Source p) (IPv6_Destination p) 6) b)"
  using assms by (auto simp: ClampTcpMssIPv6_def TryParsePacket_def IPv6_HEADER_MIN_SIZE_def Let_def not_less add.commute
      split: if_splits option.splits)

lemma pseudo_stored6:
  assumes "even k" "k + 2 \<le> length h" "length h \<le> 65535"
  shows "ComputePseudoChecksum (put16 k (ComputePseudoChecksum (put16 k 0 h) s d proto) (put16 k 0 h)) s d proto = 0"
proof -
  let ?a = "FOLD_U32T (ucast (ip_standard_chksum s))"
  have "unat ?a \<le> 65535"
    using fold16_twice_max [of "unat (ip_standard_chksum s)"] unat_u16_less [of "ip_standard_chksum s"] by (simp add: unat_FOLD unat_ucast_u16)
  then have "unat (?a + ucast (ip_standard_chksum d)) \<le> 131070"
    using unat_u16_less [of "ip_standard_chksum d"] by (simp add: unat_plus_small unat_ucast_u16)
  then have "unat (FOLD_U32T (?a + ucast (ip_standard_chksum d))) \<le> 65535"
    using fold16_twice_max [of "unat (?a + ucast (ip_standard_chksum d))"] by (simp add: unat_FOLD)
  from stored_pseudo_base [OF assms this] show ?thesis
    by (simp add: ComputePseudoChecksum_def Let_def)
qed

lemma mss_room:
  assumes "0 < path_mtu"
  shows "int (unat (ComputeDynamicTcpMss True overhead path_mtu)) \<le> max 1200 (path_mtu - 40)"
proof -
  define m where "m = max 1200 (min 1460 (min (1500 - max 0 overhead) path_mtu - 40))"
  have "ComputeDynamicTcpMss True overhead path_mtu = of_int m"
    using assms by (simp add: ComputeDynamicTcpMss_def Let_def ITap_Mtu_def IP_HLEN_def m_def)
  moreover have "1200 \<le> m" "m \<le> 1460"
    by (simp_all add: m_def)
  then have u: "int (unat (of_int m :: u16)) = m"
    by (simp add: unsigned_of_int take_bit_int_eq_self)
  moreover have "m \<le> max 1200 (path_mtu - 40)"
    unfolding m_def by (rule max.mono) (simp_all add: min.coboundedI2)
  ultimately show ?thesis
    by (simp only: u)
qed

section \<open>Properties\<close>


definition sample_syn :: bytes where
  "sample_syn = [0x45, 0, 0, 44, 0, 1, 0, 0, 64, 6, 0, 0, 10, 0, 0, 1, 10, 0, 0, 2,
     4, 0, 0, 80, 0, 0, 0, 1, 0, 0, 0, 0, 0x60, 2, 0xFF, 0xFF, 0, 0, 0, 0, 2, 4, 5, 0xB4]"

lemma sample_syn_clamped: "fst (ClampTcpMssIPv4 False sample_syn 1380)"
proof -
  have "ip_hdr_Parse False sample_syn = Some sample_syn" "mss_place 1380 (drop 20 sample_syn) = Some 22" "4 * IPH_HL sample_syn = 20"
    "sample_syn ! 9 = IP_PROTO_TCP"
    by code_simp+
  moreover have "length sample_syn = 44"
    by (simp add: sample_syn_def)
  ultimately show ?thesis
    by (simp add: ClampTcpMssIPv4_def Let_def IP_HLEN_def)
qed


text \<open>
  Clamping of an IPv6 packet of at most 65575 bytes: a reported change lowers the segment-size option of a SYN to the given value,
  leaves the checksum over the rest of the buffer and the addresses valid, and changes nothing else.
\<close>

theorem clamp_ipv6_correct:
  assumes "ClampTcpMssIPv6 p v = (True, p')" "length p \<le> 65575"
  shows "\<exists>k. mss_place v (drop 40 p) = Some k \<and> v < htons (ld16 (40 + k) p) \<and> htons (ld16 (40 + k) p') = v \<and>
     ComputePseudoChecksum (drop 40 p') (IPv6_Source p') (IPv6_Destination p') 6 = 0 \<and>
     length p' = length p \<and> (\<forall>j. j \<notin> {56, 57, 40 + k, 40 + k + 1} \<longrightarrow> p' ! j = p ! j)"
proof -
  obtain k where k: "60 \<le> length p" "mss_place v (drop 40 p) = Some k"
    "p' = (let b = put16 56 0 (put16 (40 + k) (htons v) p)
           in put16 56 (ComputePseudoChecksum (drop 40 b) (IPv6_Source p) (IPv6_Destination p) 6) b)"
    using clamp6_result [OF assms(1)] by blast
  define b where "b = put16 (40 + k) (htons v) p"
  have f: "22 \<le> k" "40 + k + 2 \<le> length p" "v < htons (ld16 (40 + k) p)"
    using mss_place_facts [OF k(2)] by (simp_all add: ld16_def)
  have d: "drop 40 p' = put16 16 (ComputePseudoChecksum (put16 16 0 (drop 40 b)) (IPv6_Source p) (IPv6_Destination p) 6) (put16 16 0 (drop 40 b))"
    by (simp add: k(3) Let_def b_def [symmetric] drop_put16)
  have "take 24 p' = take 24 p" "take 40 p' = take 40 p"
    by (simp_all add: k(3) Let_def take_put16)
  then have "IPv6_Source p' = IPv6_Source p" "IPv6_Destination p' = IPv6_Destination p"
    by (simp_all add: IPv6_Source_def IPv6_Destination_def take_drop)
  then have "ComputePseudoChecksum (drop 40 p') (IPv6_Source p') (IPv6_Destination p') 6 = 0"
    unfolding d using pseudo_stored6 [of 16 "drop 40 b"] k(1) assms(2) by (simp add: b_def)
  moreover have "ld16 (40 + k) p' = htons v"
    using f k(1) by (simp add: k(3) Let_def ld_put16_other ld16_put16)
  ultimately show ?thesis
    using k(2) f(3) by (intro exI [of _ k]) (simp add: k(3) Let_def put16_def)
qed

definition sample_syn6 :: bytes where
  "sample_syn6 = [0x60, 0, 0, 0, 0, 24, 6, 64] @ replicate 15 0 @ [1] @ replicate 15 0 @ [2] @ drop 20 sample_syn"

lemma sample_syn6_clamped: "fst (ClampTcpMssIPv6 sample_syn6 1360)"
proof -
  have "TryParsePacket sample_syn6 \<noteq> None" "mss_place 1360 (drop 40 sample_syn6) = Some 22" "drop_bit 4 (sample_syn6 ! 0) = 6"
    "sample_syn6 ! 6 = 6"
    by code_simp+
  moreover have "length sample_syn6 = 64"
    by (simp add: sample_syn6_def sample_syn_def)
  ultimately show ?thesis
    by (auto simp: ClampTcpMssIPv6_def Let_def IPv6_HEADER_MIN_SIZE_def split: option.splits)
qed

theorem clamp_ipv6_correct_witness:
  "\<exists>p'. ClampTcpMssIPv6 sample_syn6 1360 = (True, p') \<and> ComputePseudoChecksum (drop 40 p') (IPv6_Source p') (IPv6_Destination p') 6 = 0"
proof -
  obtain p' where p: "ClampTcpMssIPv6 sample_syn6 1360 = (True, p')"
    by (cases "ClampTcpMssIPv6 sample_syn6 1360") (use sample_syn6_clamped in simp)
  have "length sample_syn6 \<le> 65575"
    by (simp add: sample_syn6_def sample_syn_def)
  from clamp_ipv6_correct [OF p this] p show ?thesis
    by blast
qed

text \<open>
  Segment sizes. The computed size always lies between 1200 and 1460 bytes for IPv4 and between 1220 and 1440 for IPv6, and a
  segment of that size with minimal headers fits the learned path MTU exactly when that is at least 1240 bytes, or 1280 for
  IPv6: a smaller IPv4 path MTU, which the cache accepts from 576 on, is not honoured.
\<close>

theorem mss_bounds:
  assumes "0 < path_mtu"
  shows "unat (ComputeDynamicTcpMss True overhead path_mtu) \<in> {1200..1460} \<and>
    unat (ComputeDynamicTcpMss False overhead path_mtu) \<in> {1220..1440} \<and>
    (int (unat (ComputeDynamicTcpMss True overhead path_mtu)) + 40 \<le> path_mtu \<longleftrightarrow> 1240 \<le> path_mtu) \<and>
    (int (unat (ComputeDynamicTcpMss False overhead path_mtu)) + 60 \<le> path_mtu \<longleftrightarrow> 1280 \<le> path_mtu)"
proof -
  have u: "int (unat (of_int i :: u16)) = i" if "0 \<le> i" "i < 65536" for i
    using that by (simp add: unsigned_of_int take_bit_int_eq_self)
  define b where "b = min (1500 - max 0 overhead) path_mtu"
  define m4 m6 where "m4 = max 1200 (min 1460 (b - 40))" and "m6 = max 1220 (min 1440 (b - 60))"
  have m: "ComputeDynamicTcpMss True overhead path_mtu = of_int m4" "ComputeDynamicTcpMss False overhead path_mtu = of_int m6"
    using assms by (simp_all add: ComputeDynamicTcpMss_def Let_def ITap_Mtu_def IP_HLEN_def IPv6_HEADER_MIN_SIZE_def m4_def m6_def b_def)
  have r: "1200 \<le> m4" "m4 \<le> 1460" "1220 \<le> m6" "m6 \<le> 1440"
    by (simp_all add: m4_def m6_def)
  have i: "int (unat (of_int m4 :: u16)) = m4" "int (unat (of_int m6 :: u16)) = m6"
    by (rule u; use r in simp)+
  have "b \<le> path_mtu"
    by (simp add: b_def)
  then have "m4 \<le> path_mtu - 40 \<longleftrightarrow> 1200 \<le> path_mtu - 40" "m6 \<le> path_mtu - 60 \<longleftrightarrow> 1220 \<le> path_mtu - 60"
    unfolding m4_def m6_def max.bounded_iff by (auto intro: min.coboundedI2)
  moreover have "unat (of_int m4 :: u16) \<in> {1200..1460}" "unat (of_int m6 :: u16) \<in> {1220..1440}"
    using r i unfolding atLeastAtMost_iff by linarith+
  ultimately show ?thesis
    unfolding m i by (simp add: algebra_simps)
qed

theorem mss_bounds_witness: "\<not> int (unat (ComputeDynamicTcpMss True 80 576)) + 40 \<le> 576"
  using mss_bounds [of 576 80] by simp

end
