(* ===== verification/Path_Mtu.thy ===== *)
theory Path_Mtu
  imports Tcp_Mss "HOL-Library.AList"
begin

text \<open>
  Path MTU discovery, \<^verbatim>\<open>src/ppp/app/protocol/VirtualEthernetPathMtu.h\<close>: the ICMP errors of both families and the bounded caches
  of observed MTUs. A cache is a list of entries; which entry the iteration over the hash table starts with is an argument
  of an observation, so nothing depends on it. The time is an argument as well.
\<close>

unbundle bit_operations_syntax

section \<open>ICMP errors\<close>

record IcmpPathMtuError =
  OuterSource :: u32
  OuterDestination :: u32
  QuotedSource :: u32
  QuotedDestination :: u32
  QuotedProtocol :: u8
  NextHopMtu :: u16
  IsPathMtuUpdate :: bool

definition TryParseIcmpPathMtuError :: "bytes \<Rightarrow> IcmpPathMtuError option" where
  "TryParseIcmpPathMtuError packet =
     (if length packet < IP_HLEN then None
      else let outer_header_length = 4 * IPH_HL packet; outer_length = unat (htons (ld16 2 packet))
           in if IPH_V packet \<noteq> 4 \<or> outer_header_length < IP_HLEN \<or> outer_header_length > length packet \<or>
                 outer_length < outer_header_length \<or> outer_length > length packet \<or> packet ! 9 \<noteq> IP_PROTO_ICMP \<or>
                 inet_chksum (take outer_header_length packet) \<noteq> 0 then None
              else let icmp = take (outer_length - outer_header_length) (drop outer_header_length packet)
                   in if length icmp < 8 + IP_HLEN + 8 then None
                      else let is_fragmentation_needed = (icmp ! 0 = 3 \<and> icmp ! 1 = 4); is_time_exceeded = (icmp ! 0 = 11 \<and> icmp ! 1 = 0)
                           in if (\<not> is_fragmentation_needed \<and> \<not> is_time_exceeded) \<or> inet_chksum icmp \<noteq> 0 then None
                              else let quoted = drop 8 icmp; quoted_header_length = 4 * IPH_HL quoted
                                   in if IPH_V quoted \<noteq> 4 \<or> quoted_header_length < IP_HLEN \<or> quoted_header_length + 8 > length quoted \<or>
                                         unat (htons (ld16 2 quoted)) < quoted_header_length + 8 then None
                                      else let next_hop_mtu = (if is_fragmentation_needed then htons (ld16 6 icmp) else 0)
                                           in if is_fragmentation_needed \<and> next_hop_mtu < 576 then None
                                              else Some \<lparr>OuterSource = ld32 12 packet, OuterDestination = ld32 16 packet,
                                                QuotedSource = ld32 12 quoted, QuotedDestination = ld32 16 quoted,
                                                QuotedProtocol = quoted ! 9, NextHopMtu = next_hop_mtu,
                                                IsPathMtuUpdate = is_fragmentation_needed\<rparr>)"

record IcmpIPv6PathMtuError =
  OuterSource6 :: bytes
  OuterDestination6 :: bytes
  QuotedSource6 :: bytes
  QuotedDestination6 :: bytes
  QuotedProtocol6 :: u8
  NextHopMtu6 :: u32

definition TryParseIcmpIPv6PathMtuError :: "bytes \<Rightarrow> IcmpIPv6PathMtuError option" where
  "TryParseIcmpIPv6PathMtuError packet =
     (if length packet < IPv6_HEADER_MIN_SIZE then None
      else let payload_length = unat (htons (ld16 4 packet)); outer_length = IPv6_HEADER_MIN_SIZE + payload_length
           in if drop_bit 4 (packet ! 0) \<noteq> 6 \<or> packet ! 6 \<noteq> 58 \<or> payload_length < 8 + IPv6_HEADER_MIN_SIZE \<or> outer_length > length packet
              then None
              else let icmp = take payload_length (drop IPv6_HEADER_MIN_SIZE packet)
                   in if icmp ! 0 \<noteq> 2 \<or> icmp ! 1 \<noteq> 0 then None
                      else case TryParsePacket (take outer_length packet) of
                             None \<Rightarrow> None
                           | Some (source, destination) \<Rightarrow>
                               if ComputePseudoChecksum icmp source destination 58 \<noteq> 0 then None
                               else let quoted = drop 8 icmp
                                    in if length quoted < IPv6_HEADER_MIN_SIZE \<or> drop_bit 4 (quoted ! 0) \<noteq> 6 then None
                                       else let next_hop_mtu = rd32 (take 4 (drop 4 icmp))
                                            in if next_hop_mtu < 1280 then None
                                               else Some \<lparr>OuterSource6 = IPv6_Source packet, OuterDestination6 = IPv6_Destination packet,
                                                 QuotedSource6 = IPv6_Source quoted, QuotedDestination6 = IPv6_Destination quoted,
                                                 QuotedProtocol6 = quoted ! 6, NextHopMtu6 = next_hop_mtu\<rparr>)"

section \<open>Caches\<close>

record 'm mtu_entry =
  entry_mtu :: 'm
  entry_expires :: u64

type_synonym ('k, 'm) mtu_cache = "('k \<times> 'm mtu_entry) list"

definition kLifetimeMilliseconds :: u64 where
  "kLifetimeMilliseconds = 10 * 60 * 1000"

definition kMaximumEntries :: nat where
  "kMaximumEntries = 256"

definition PruneExpiredLocked :: "u64 \<Rightarrow> ('k, 'm) mtu_cache \<Rightarrow> ('k, 'm) mtu_cache" where
  "PruneExpiredLocked now entries = filter (\<lambda>(_, e). \<not> entry_expires e \<le> now) entries"

text \<open>The entry \<open>begin()\<close> refers to is the one at \<open>first\<close>, whatever the order of the hash table.\<close>

definition erase_begin :: "nat \<Rightarrow> ('k, 'm) mtu_cache \<Rightarrow> ('k, 'm) mtu_cache" where
  "erase_begin first entries = (let i = first mod length entries in take i entries @ drop (i + 1) entries)"

definition Observe_entry :: "'k \<Rightarrow> ('m :: linorder) \<Rightarrow> u64 \<Rightarrow> nat \<Rightarrow> ('k, 'm) mtu_cache \<Rightarrow> bool \<times> ('k, 'm) mtu_cache" where
  "Observe_entry destination mtu now first entries =
     (let entries = PruneExpiredLocked now entries; fresh = now + kLifetimeMilliseconds
      in case map_of entries destination of
           None \<Rightarrow>
             let entries = (if length entries \<ge> kMaximumEntries then erase_begin first entries else entries)
             in (True, (destination, \<lparr>entry_mtu = mtu, entry_expires = fresh\<rparr>) # entries)
         | Some e \<Rightarrow>
             let lowered = mtu < entry_mtu e
             in (lowered, AList.update destination \<lparr>entry_mtu = (if lowered then mtu else entry_mtu e), entry_expires = fresh\<rparr> entries))"

definition Observe :: "u32 \<Rightarrow> u16 \<Rightarrow> u64 \<Rightarrow> nat \<Rightarrow> (u32, u16) mtu_cache \<Rightarrow> bool \<times> (u32, u16) mtu_cache" where
  "Observe destination mtu now first entries =
     (if destination = 0 \<or> mtu < 576 then (False, entries) else Observe_entry destination mtu now first entries)"

definition Observe6 :: "bytes \<Rightarrow> u32 \<Rightarrow> u64 \<Rightarrow> nat \<Rightarrow> (bytes, u32) mtu_cache \<Rightarrow> bool \<times> (bytes, u32) mtu_cache" where
  "Observe6 destination mtu now first entries =
     (if mtu < 1280 then (False, entries) else Observe_entry destination mtu now first entries)"

definition Lookup_entry :: "'k \<Rightarrow> u64 \<Rightarrow> ('k, 'm) mtu_cache \<Rightarrow> 'm option \<times> ('k, 'm) mtu_cache" where
  "Lookup_entry destination now entries =
     (case map_of entries destination of
        None \<Rightarrow> (None, entries)
      | Some e \<Rightarrow> if entry_expires e \<le> now then (None, AList.delete destination entries) else (Some (entry_mtu e), entries))"

definition Lookup :: "u32 \<Rightarrow> u64 \<Rightarrow> (u32, u16) mtu_cache \<Rightarrow> int \<times> (u32, u16) mtu_cache" where
  "Lookup destination now entries =
     (let (r, entries) = Lookup_entry destination now entries in (case r of None \<Rightarrow> 0 | Some m \<Rightarrow> uint m, entries))"

definition Lookup6 :: "bytes \<Rightarrow> u64 \<Rightarrow> (bytes, u32) mtu_cache \<Rightarrow> int \<times> (bytes, u32) mtu_cache" where
  "Lookup6 destination now entries =
     (let (r, entries) = Lookup_entry destination now entries
      in (case r of None \<Rightarrow> 0 | Some m \<Rightarrow> if m > 0x7FFFFFFF then 0x7FFFFFFF else uint m, entries))"

definition Cache_Clear :: "('k, 'm) mtu_cache \<Rightarrow> ('k, 'm) mtu_cache" where
  "Cache_Clear entries = []"

section \<open>Histories of the caches\<close>

text \<open>What a cache is asked in turn. The entry the hash table begins with is part of an observation.\<close>

datatype ('k, 'm) cache_call = ObserveCall 'k 'm u64 nat | LookupCall 'k u64 | ClearCall

fun run_call :: "('m :: linorder) \<Rightarrow> ('k, 'm) cache_call \<Rightarrow> ('k, 'm) mtu_cache \<Rightarrow> ('k, 'm) mtu_cache" where
  "run_call least (ObserveCall d m now first) c = (if m < least then c else snd (Observe_entry d m now first c))"
| "run_call least (LookupCall d now) c = snd (Lookup_entry d now c)"
| "run_call least ClearCall c = Cache_Clear c"

text \<open>The last accepted observation of a destination.\<close>

fun last_observed :: "('m :: linorder) \<Rightarrow> 'k \<Rightarrow> ('k, 'm) cache_call list \<Rightarrow> ('m \<times> u64) option" where
  "last_observed least d [] = None"
| "last_observed least d (h # hs) =
     (case last_observed least d hs of
        Some x \<Rightarrow> Some x
      | None \<Rightarrow> (case h of ObserveCall d' m now _ \<Rightarrow> if d' = d \<and> \<not> m < least then Some (m, now) else None | _ \<Rightarrow> None))"

definition cached_ok :: "('m :: linorder) \<Rightarrow> ('k, 'm) cache_call list \<Rightarrow> 'k \<times> 'm mtu_entry \<Rightarrow> bool" where
  "cached_ok least hs x \<longleftrightarrow>
     least \<le> entry_mtu (snd x) \<and> (\<exists>now first. ObserveCall (fst x) (entry_mtu (snd x)) now first \<in> set hs) \<and>
     (\<exists>m now. last_observed least (fst x) hs = Some (m, now) \<and> entry_mtu (snd x) \<le> m \<and>
        entry_expires (snd x) = now + kLifetimeMilliseconds)"

definition cache_inv :: "('m :: linorder) \<Rightarrow> ('k, 'm) cache_call list \<Rightarrow> ('k, 'm) mtu_cache \<Rightarrow> bool" where
  "cache_inv least hs c \<longleftrightarrow> distinct (map fst c) \<and> length c \<le> kMaximumEntries \<and> (\<forall>x \<in> set c. cached_ok least hs x)"

lemma last_observed_snoc:
  "last_observed least d (hs @ [h]) =
     (case h of ObserveCall d' m now _ \<Rightarrow> if d' = d \<and> \<not> m < least then Some (m, now) else last_observed least d hs
      | _ \<Rightarrow> last_observed least d hs)"
  by (induction hs) (auto split: cache_call.splits option.splits)

lemma cached_ok_snoc:
  assumes "cached_ok least hs x" "\<And>m now first. h = ObserveCall (fst x) m now first \<Longrightarrow> m < least"
  shows "cached_ok least (hs @ [h]) x"
  using assms by (auto simp: cached_ok_def last_observed_snoc split: cache_call.splits)

lemma cache_inv_Prune: "cache_inv least hs c \<Longrightarrow> cache_inv least hs (PruneExpiredLocked now c)"
  by (auto simp: PruneExpiredLocked_def cache_inv_def distinct_map_filter intro: le_trans [OF length_filter_le])

lemma erase_begin_facts:
  assumes "distinct (map fst c)"
  shows "set (erase_begin first c) \<subseteq> set c" "distinct (map fst (erase_begin first c))" "length (erase_begin first c) = length c - 1"
proof -
  define i where "i = first mod length c"
  have e: "erase_begin first c = take i c @ drop (i + 1) c"
    by (simp add: erase_begin_def i_def Let_def)
  show "set (erase_begin first c) \<subseteq> set c"
    unfolding e by (auto dest: in_set_takeD in_set_dropD)
  have "set (take i (map fst c)) \<inter> set (drop (i + 1) (map fst c)) = {}"
    by (rule set_take_disj_set_drop_if_distinct [OF assms]) simp
  moreover have "distinct (take i (map fst c))" "distinct (drop (i + 1) (map fst c))"
    using assms by simp_all
  ultimately show "distinct (map fst (erase_begin first c))"
    unfolding e by (simp add: take_map drop_map)
  have "c \<noteq> [] \<Longrightarrow> i < length c"
    by (simp add: i_def)
  then show "length (erase_begin first c) = length c - 1"
    by (cases "c = []") (simp_all add: e, simp add: erase_begin_def)
qed

text \<open>A new destination, in a table from which an entry may have been erased.\<close>

lemma cache_inv_insert:
  assumes "cache_inv least hs c" "least \<le> m" "set c0 \<subseteq> set c" "distinct (map fst c0)" "map_of c d = None" "length c0 < kMaximumEntries"
  shows "cache_inv least (hs @ [ObserveCall d m now first]) ((d, \<lparr>entry_mtu = m, entry_expires = now + kLifetimeMilliseconds\<rparr>) # c0)"
proof -
  have d: "d \<noteq> fst x" if "x \<in> set c" for x
    using assms(5) that by (force simp: map_of_eq_None_iff)
  have "cached_ok least (hs @ [ObserveCall d m now first]) x" if "x \<in> set c0" for x
  proof (rule cached_ok_snoc)
    show "cached_ok least hs x"
      using assms(1,3) that by (auto simp: cache_inv_def)
    show "m' < least" if "ObserveCall d m now first = ObserveCall (fst x) m' now' first'" for m' now' first'
      using that d [of x] \<open>x \<in> set c0\<close> assms(3) by auto
  qed
  moreover have "cached_ok least (hs @ [ObserveCall d m now first]) (d, \<lparr>entry_mtu = m, entry_expires = now + kLifetimeMilliseconds\<rparr>)"
    using assms(2) by (auto simp: cached_ok_def last_observed_snoc not_less)
  ultimately show ?thesis
    using assms(3,4,6) d unfolding cache_inv_def by (simp, force)
qed

text \<open>A known destination keeps the smaller value and gets a new lifetime.\<close>

lemma cache_inv_update:
  assumes "cache_inv least hs c" "least \<le> m" "map_of c d = Some e"
  shows "cache_inv least (hs @ [ObserveCall d m now first])
    (AList.update d \<lparr>entry_mtu = (if m < entry_mtu e then m else entry_mtu e), entry_expires = now + kLifetimeMilliseconds\<rparr> c)"
    (is "cache_inv _ ?hs (AList.update d ?e c)")
proof -
  have dc: "distinct (map fst c)" and de: "(d, e) \<in> set c"
    using assms(1,3) by (auto simp: cache_inv_def dest: map_of_SomeD)
  have "d \<in> fst ` set c"
    using de by force
  then have keys: "map fst (AList.update d ?e c) = map fst c"
    using update_keys [of d ?e c] by simp
  have du: "distinct (map fst (AList.update d ?e c))"
    unfolding keys by (rule dc)
  have "cached_ok least ?hs x" if x: "x \<in> set (AList.update d ?e c)" for x
  proof (cases "fst x = d")
    case True
    then have "map_of (AList.update d ?e c) d = Some (snd x)"
      using x du by (metis map_of_is_SomeI prod.collapse)
    then have "snd x = ?e"
      by (simp add: update_conv')
    moreover have "cached_ok least hs (d, e)"
      using assms(1) de by (simp add: cache_inv_def)
    ultimately show ?thesis
      using assms(2) True by (auto simp: cached_ok_def last_observed_snoc not_less)
  next
    case False
    have "map_of (AList.update d ?e c) (fst x) = Some (snd x)"
      using x du by (metis map_of_is_SomeI prod.collapse)
    then have "x \<in> set c"
      using False by (auto simp: update_conv' dest: map_of_SomeD)
    then show ?thesis
      using assms(1) False by (intro cached_ok_snoc) (auto simp: cache_inv_def)
  qed
  moreover have "length (AList.update d ?e c) = length c"
    using arg_cong [OF keys, of length] by simp
  ultimately show ?thesis
    using assms(1) du by (simp add: cache_inv_def)
qed

section \<open>Runs of the caches\<close>

lemma cache_inv_snoc_other:
  assumes "cache_inv least hs c" "\<And>x m now first. x \<in> set c \<Longrightarrow> h = ObserveCall (fst x) m now first \<Longrightarrow> m < least"
  shows "cache_inv least (hs @ [h]) c"
  using assms cached_ok_snoc [of least hs _ h] by (auto simp: cache_inv_def)

lemma cache_inv_Observe:
  assumes "cache_inv least hs c" "least \<le> m"
  shows "cache_inv least (hs @ [ObserveCall d m now first]) (snd (Observe_entry d m now first c))"
proof -
  define p where "p = PruneExpiredLocked now c"
  have p: "cache_inv least hs p"
    unfolding p_def by (rule cache_inv_Prune [OF assms(1)])
  show ?thesis
  proof (cases "map_of p d")
    case None
    define c0 where "c0 = (if length p \<ge> kMaximumEntries then erase_begin first p else p)"
    have "set c0 \<subseteq> set p" "distinct (map fst c0)" "length c0 < kMaximumEntries"
      using p erase_begin_facts [of p first] by (auto simp: c0_def cache_inv_def kMaximumEntries_def)
    from cache_inv_insert [OF p assms(2) this(1,2) None this(3)] show ?thesis
      using None by (simp add: Observe_entry_def p_def [symmetric] c0_def [symmetric] Let_def)
  next
    case (Some e)
    then show ?thesis
      using cache_inv_update [OF p assms(2) Some] by (simp add: Observe_entry_def p_def [symmetric] Let_def)
  qed
qed

lemma cache_inv_Lookup: "cache_inv least hs c \<Longrightarrow> cache_inv least hs (snd (Lookup_entry d now c))"
  by (auto simp: Lookup_entry_def cache_inv_def AList.delete_eq distinct_map_filter split: option.splits
      intro: le_trans [OF length_filter_le])

lemma cache_inv_call:
  assumes "cache_inv least hs c"
  shows "cache_inv least (hs @ [h]) (run_call least h c)"
proof (cases h)
  case (ObserveCall d m now first)
  show ?thesis
  proof (cases "m < least")
    case True
    then show ?thesis
      using cache_inv_snoc_other [OF assms, of h] ObserveCall by simp
  next
    case False
    then show ?thesis
      using cache_inv_Observe [OF assms, of m d now first] ObserveCall by simp
  qed
next
  case (LookupCall d now)
  then show ?thesis
    using cache_inv_snoc_other [OF cache_inv_Lookup [OF assms], where h = h] by simp
qed (simp add: Cache_Clear_def cache_inv_def)

text \<open>The operations of the IPv4 cache refuse the destination zero.\<close>

fun run_ipv4 :: "(u32, u16) cache_call \<Rightarrow> (u32, u16) mtu_cache \<Rightarrow> (u32, u16) mtu_cache" where
  "run_ipv4 (ObserveCall d m now first) c = snd (Observe d m now first c)"
| "run_ipv4 (LookupCall d now) c = snd (Lookup d now c)"
| "run_ipv4 ClearCall c = Cache_Clear c"

definition ipv4_inv :: "(u32, u16) cache_call list \<Rightarrow> (u32, u16) mtu_cache \<Rightarrow> bool" where
  "ipv4_inv hs c \<longleftrightarrow> cache_inv 576 hs c \<and> 0 \<notin> fst ` set c"

lemma run_keys: "fst ` set (run_call least h c) \<subseteq> fst ` set c \<union> (case h of ObserveCall d _ _ _ \<Rightarrow> {d} | _ \<Rightarrow> {})"
proof (cases h)
  case (ObserveCall d m now first)
  define p where "p = PruneExpiredLocked now c"
  have p: "fst ` set p \<subseteq> fst ` set c"
    by (auto simp: p_def PruneExpiredLocked_def)
  have "set (erase_begin first p) \<subseteq> set p"
    by (auto simp: erase_begin_def Let_def dest: in_set_takeD in_set_dropD)
  then have e: "fst ` set (erase_begin first p) \<subseteq> fst ` set p"
    by (rule image_mono)
  have "fst ` set (snd (Observe_entry d m now first c)) \<subseteq> insert d (fst ` set p)"
    unfolding Observe_entry_def p_def [symmetric] Let_def
    by (cases "map_of p d") (use e in \<open>simp_all add: dom_update subset_insertI2\<close>)
  then show ?thesis
    using ObserveCall p by (auto split: if_splits)
qed (auto simp: Lookup_entry_def Cache_Clear_def AList.delete_eq split: option.splits)

lemma ipv4_inv_call:
  assumes "ipv4_inv hs c"
  shows "ipv4_inv (hs @ [h]) (run_ipv4 h c)"
proof (cases "\<exists>m now first. h = ObserveCall 0 m now first")
  case True
  then show ?thesis
    using assms cache_inv_snoc_other [of 576 hs c h] by (force simp: ipv4_inv_def Observe_def)
next
  case False
  have "run_ipv4 h c = run_call 576 h c"
    using False by (cases h) (auto simp: Observe_def Lookup_def split: prod.splits)
  moreover have "0 \<notin> (case h of ObserveCall d _ _ _ \<Rightarrow> {d} | _ \<Rightarrow> {})"
    using False by (cases h) auto
  then have "0 \<notin> fst ` set (run_call 576 h c)"
    using run_keys [of 576 h c] assms unfolding ipv4_inv_def by blast
  moreover have "cache_inv 576 (hs @ [h]) (run_call 576 h c)"
    using assms by (intro cache_inv_call) (simp add: ipv4_inv_def)
  ultimately show ?thesis
    by (simp add: ipv4_inv_def)
qed

lemma ipv4_inv_run: "ipv4_inv hs (fold run_ipv4 hs [])"
proof (induction hs rule: rev_induct)
  case Nil
  show ?case
    by (simp add: ipv4_inv_def cache_inv_def)
next
  case (snoc h hs)
  then show ?case
    by (simp add: ipv4_inv_call)
qed

lemma ipv4_Lookup:
  assumes "ipv4_inv hs c" "fst (Lookup d now c) \<noteq> 0"
  obtains e where "map_of c d = Some e" "cached_ok 576 hs (d, e)" "now < entry_expires e" "fst (Lookup d now c) = uint (entry_mtu e)"
proof -
  obtain e where e: "map_of c d = Some e" "\<not> entry_expires e \<le> now" "fst (Lookup d now c) = uint (entry_mtu e)"
    using assms(2) by (auto simp: Lookup_def Lookup_entry_def split: option.splits if_splits)
  moreover have "cached_ok 576 hs (d, e)"
    using assms(1) e(1) by (auto simp: ipv4_inv_def cache_inv_def dest: map_of_SomeD)
  ultimately show thesis
    using that by (simp add: not_le)
qed

lemma Observe_entry_present:
  assumes "c' = snd (Observe_entry d m now first c)"
  obtains x where "map_of c' d = Some x"
  using assms by (cases "map_of (PruneExpiredLocked now c) d") (simp_all add: Observe_entry_def Let_def update_conv')

section \<open>Properties\<close>

text \<open>
  C37. The cache of path MTUs. After any calls the cache holds at most 256 destinations, and a value it returns was observed for that
  destination, is at least 576 and not above the last observation, which is less than ten minutes old.
\<close>

theorem pmtu_cache_bounded:
  "length (fold run_ipv4 hs []) \<le> 256 \<and>
   (fst (Lookup d now (fold run_ipv4 hs [])) \<noteq> 0 \<longrightarrow>
     (\<exists>m t m' t' first. last_observed 576 d hs = Some (m, t) \<and> now < t + kLifetimeMilliseconds \<and>
        ObserveCall d m' t' first \<in> set hs \<and> fst (Lookup d now (fold run_ipv4 hs [])) = uint m' \<and> 576 \<le> m' \<and> m' \<le> m))"
proof (intro conjI impI)
  show "length (fold run_ipv4 hs []) \<le> 256"
    using ipv4_inv_run [of hs] by (simp add: ipv4_inv_def cache_inv_def kMaximumEntries_def)
  assume r: "fst (Lookup d now (fold run_ipv4 hs [])) \<noteq> 0"
  obtain e where e: "cached_ok 576 hs (d, e)" "now < entry_expires e" "fst (Lookup d now (fold run_ipv4 hs [])) = uint (entry_mtu e)"
    by (rule ipv4_Lookup [OF ipv4_inv_run r], rule that)
  obtain m t t' first where "last_observed 576 d hs = Some (m, t)" "entry_mtu e \<le> m" "entry_expires e = t + kLifetimeMilliseconds"
    "ObserveCall d (entry_mtu e) t' first \<in> set hs" "576 \<le> entry_mtu e"
    using e(1) unfolding cached_ok_def fst_conv snd_conv by blast
  moreover from this(3) e(2) have "now < t + kLifetimeMilliseconds"
    by simp
  ultimately show "\<exists>m t m' t' first. last_observed 576 d hs = Some (m, t) \<and> now < t + kLifetimeMilliseconds \<and>
        ObserveCall d m' t' first \<in> set hs \<and> fst (Lookup d now (fold run_ipv4 hs [])) = uint m' \<and> 576 \<le> m' \<and> m' \<le> m"
    using e(3) by (intro exI conjI)
qed

theorem pmtu_cache_bounded_witness:
  "fst (Lookup 7 5 (fold run_ipv4 [ObserveCall 7 1300 1 0] [])) \<noteq> 0 \<and>
   (\<exists>m t m' t' first. last_observed 576 7 [ObserveCall (7 :: u32) 1300 1 0] = Some (m, t) \<and> 5 < t + kLifetimeMilliseconds \<and>
      ObserveCall 7 m' t' first \<in> set [ObserveCall (7 :: u32) (1300 :: u16) 1 0] \<and>
      fst (Lookup 7 5 (fold run_ipv4 [ObserveCall 7 1300 1 0] [])) = uint m' \<and> 576 \<le> m' \<and> m' \<le> m)"
proof -
  have r: "fst (Lookup 7 5 (fold run_ipv4 [ObserveCall 7 1300 1 0] [])) \<noteq> 0"
    by (simp add: Observe_def Observe_entry_def PruneExpiredLocked_def kMaximumEntries_def Lookup_def Lookup_entry_def kLifetimeMilliseconds_def)
  show ?thesis
    by (rule conjI [OF r pmtu_cache_bounded [THEN conjunct2, THEN mp, OF r]])
qed


definition sample_error :: bytes where
  "sample_error = [69, 0, 0, 56, 0, 9, 0, 0, 64, 1, 102, 186, 10, 0, 0, 1, 10, 0, 0, 2, 3, 4, 14, 155, 0, 0, 5, 20, 69, 0, 5, 220,
     0, 7, 64, 0, 64, 6, 0, 0, 10, 0, 0, 2, 8, 8, 8, 8, 4, 0, 0, 80, 0, 0, 0, 1]"

lemma sample_error_parsed:
  "TryParseIcmpPathMtuError sample_error = Some \<lparr>OuterSource = 0x0100000A, OuterDestination = 0x0200000A, QuotedSource = 0x0200000A,
     QuotedDestination = 0x08080808, QuotedProtocol = 6, NextHopMtu = 1300, IsPathMtuUpdate = True\<rparr>"
  by code_simp


end
