(* ===== verification/Static_Packet.thy ===== *)
theory Static_Packet
  imports Transmission Ip_Packet Int128_Text
begin

text \<open>
  The datagrams of the static channel, \<^verbatim>\<open>src/ppp/app/protocol/VirtualEthernetPacket.cpp\<close>: packing of UDP payloads and of whole IP
  packets under a session number, with the obfuscated header, the two ciphers of the session, the shuffle, the mask
  and the delta code, and unpacking with all its checks. A table gives the cipher object of a session; a call returns
  the tables with the objects it changed. The random mask of a packet, which the code draws until it is not zero, is an argument.
\<close>

unbundle bit_operations_syntax

section \<open>Header\<close>

text \<open>Fields as they stand in memory: \<open>htonl\<close>, here \<open>ntoh32\<close>, and \<open>htons\<close> are applied by the code.\<close>

record PACKET_HEADER =
  ph_mask_id :: u32
  ph_header_length :: u8
  ph_session_id :: u32
  ph_checksum :: u16
  ph_source_ip :: u32
  ph_source_port :: u16
  ph_destination_ip :: u32
  ph_destination_port :: u16

definition posedo_bytes :: "u32 \<Rightarrow> u16 \<Rightarrow> u32 \<Rightarrow> u16 \<Rightarrow> bytes" where
  "posedo_bytes source_ip source_port destination_ip destination_port =
     le32 source_ip @ le16 source_port @ le32 destination_ip @ le16 destination_port"

definition header_bytes :: "PACKET_HEADER \<Rightarrow> bytes" where
  "header_bytes h =
     le32 (ph_mask_id h) @ [ph_header_length h] @ le32 (ph_session_id h) @ le16 (ph_checksum h) @
     posedo_bytes (ph_source_ip h) (ph_source_port h) (ph_destination_ip h) (ph_destination_port h)"

text \<open>The size of the header and the offsets of the session number and of the checksum.\<close>

definition HEADER_SIZE :: nat where
  "HEADER_SIZE = 23"

definition SESSION_OFFSET :: nat where
  "SESSION_OFFSET = 5"

definition CHECKSUM_OFFSET :: nat where
  "CHECKSUM_OFFSET = 9"

definition ntoh32 :: "u32 \<Rightarrow> u32" where
  "ntoh32 v = rd32 (le32 v)"

definition IP_PROTO_IP :: u8 where
  "IP_PROTO_IP = 0"

definition static_Lcgmod :: "key_config \<Rightarrow> nat" where
  "static_Lcgmod cfg = nat (lcgmod (key_kf cfg) 128 256)"

definition packet_kf :: "key_config \<Rightarrow> u32 \<Rightarrow> u32" where
  "packet_kf cfg mask_id = fst (random_next (key_kf cfg * mask_id))"

definition static_KF_MOD :: "key_config \<Rightarrow> u32 \<Rightarrow> nat" where
  "static_KF_MOD cfg kf = nat \<bar>sint kf smod int (static_Lcgmod cfg)\<bar>"

definition STATIC_header_length :: "key_config \<Rightarrow> nat \<Rightarrow> u32 \<Rightarrow> nat" where
  "STATIC_header_length cfg N kf =
     (if static_Lcgmod cfg = 0 then HEADER_SIZE else (N + static_Lcgmod cfg - static_KF_MOD cfg kf) mod static_Lcgmod cfg)"

section \<open>Unpacking\<close>

record VirtualEthernetPacket =
  vep_Payload :: bytes
  vep_Protocol :: u8
  vep_Id :: u32
  vep_SourceIP :: u32
  vep_SourcePort :: u16
  vep_DestinationIP :: u32
  vep_DestinationPort :: u32

type_synonym cipher_table = "u32 \<Rightarrow> Ciphertext option"

text \<open>The tests of the endpoints of a UDP packet.\<close>

definition udp_endpoints :: "VirtualEthernetPacket \<Rightarrow> bool" where
  "udp_endpoints out \<longleftrightarrow>
     \<not> (vep_DestinationIP out = 0xFFFFFFFF \<or> vep_DestinationIP out = 0) \<and>
     \<not> (vep_DestinationPort out \<le> 0 \<or> vep_DestinationPort out > 65535) \<and>
     \<not> (vep_SourceIP out = 0xFFFFFFFF \<or> vep_SourceIP out = 0) \<and>
     \<not> (vep_SourcePort out \<le> 0)"

definition STATIC_Unpack :: "Ciphertext option \<Rightarrow> bytes \<Rightarrow> u8 \<Rightarrow> u32 \<Rightarrow> VirtualEthernetPacket option \<times> Ciphertext option" where
  "STATIC_Unpack trsp h proto session_id =
     (if session_id = 0 then (None, trsp)
      else if length h < HEADER_SIZE then (None, trsp)
      else if ld16 CHECKSUM_OFFSET h \<noteq> inet_chksum (put16 CHECKSUM_OFFSET 0 h) then (None, trsp)
      else let (payload, trsp) =
                 (case trsp of
                    Some c \<Rightarrow> (let (r, c) = Ciphertext_Decrypt (drop HEADER_SIZE h) c in (r, Some c))
                  | None \<Rightarrow> (Some (drop HEADER_SIZE h), None))
           in case payload of
                None \<Rightarrow> (None, trsp)
              | Some payload \<Rightarrow>
                  let out = \<lparr>vep_Payload = payload, vep_Protocol = proto, vep_Id = session_id, vep_SourceIP = ld32 11 h,
                             vep_SourcePort = htons (ld16 15 h), vep_DestinationIP = ld32 17 h,
                             vep_DestinationPort = ucast (htons (ld16 21 h))\<rparr>
                  in (if proto \<noteq> IP_PROTO_UDP \<or> udp_endpoints out then Some out else None, trsp))"

text \<open>The ciphers of the session open the rest of the header; a part of another length than before moves what follows.\<close>

definition UnpackBy_session :: "key_config \<Rightarrow> cipher_table \<Rightarrow> cipher_table \<Rightarrow> u32 \<Rightarrow> nat \<Rightarrow> bytes \<Rightarrow> u8 \<Rightarrow> u32
    \<Rightarrow> VirtualEthernetPacket option \<times> cipher_table \<times> cipher_table" where
  "UnpackBy_session cfg prot trsp kf header_length h proto session_id =
     (case (prot session_id, trsp session_id) of
        (Some pc, Some tc) \<Rightarrow>
          let raw = HEADER_SIZE - CHECKSUM_OFFSET;
              (body, pc) = Ciphertext_Decrypt (take raw (drop CHECKSUM_OFFSET h)) pc;
              prot = prot(session_id := Some pc)
          in (case body of
                None \<Rightarrow> (None, prot, trsp)
              | Some body \<Rightarrow>
                  let h = (if length body = raw then take CHECKSUM_OFFSET h @ body @ drop HEADER_SIZE h
                           else (take CHECKSUM_OFFSET h @ body @ drop header_length h)
                                  [4 := of_nat (STATIC_header_length cfg HEADER_SIZE kf)]);
                      (out, tc) = STATIC_Unpack (Some tc) h proto session_id
                  in (out, prot, trsp(session_id := tc)))
      | _ \<Rightarrow> (fst (STATIC_Unpack None h proto session_id), prot, trsp))"

text \<open>The part behind the delta code: the mask and the shuffle are undone, and the sign of the session number gives the protocol.\<close>

definition UnpackBy_opened :: "key_config \<Rightarrow> cipher_table \<Rightarrow> cipher_table \<Rightarrow> u32 \<Rightarrow> nat \<Rightarrow> bytes
    \<Rightarrow> VirtualEthernetPacket option \<times> cipher_table \<times> cipher_table" where
  "UnpackBy_opened cfg prot trsp kf header_length p =
     (let p = take SESSION_OFFSET p @ masked_xor_random_next (drop SESSION_OFFSET p) kf;
          h = take SESSION_OFFSET p @ unshuffle_data (drop SESSION_OFFSET p) kf;
          session_id = ntoh32 (ld32 SESSION_OFFSET h) XOR kf;
          proto = (if sint session_id < 0 then IP_PROTO_IP else IP_PROTO_UDP);
          session_id = (if sint session_id < 0 then NOT session_id else session_id)
      in UnpackBy_session cfg prot trsp kf header_length h proto session_id)"

definition UnpackBy :: "ssea_simd \<Rightarrow> key_config \<Rightarrow> cipher_table \<Rightarrow> cipher_table \<Rightarrow> bytes
    \<Rightarrow> VirtualEthernetPacket option \<times> cipher_table \<times> cipher_table" where
  "UnpackBy simd cfg prot trsp packet =
     (if length packet \<le> HEADER_SIZE then (None, prot, trsp)
      else case delta_decode (simd_delta_decode simd) packet (sint (key_kf cfg)) of
             None \<Rightarrow> (None, prot, trsp)
           | Some p \<Rightarrow>
               if length p \<le> HEADER_SIZE then (None, prot, trsp)
               else if ld32 0 p = 0 then (None, prot, trsp)
               else let kf = packet_kf cfg (ld32 0 p);
                        header_length = unat (of_nat (STATIC_header_length cfg (unat (p ! 4)) kf) :: u8)
                    in if header_length < HEADER_SIZE then (None, prot, trsp)
                       else UnpackBy_opened cfg prot trsp kf header_length p)"

section \<open>Packing\<close>

text \<open>The protocol cipher closes the header from the checksum on.\<close>

definition close_header :: "key_config \<Rightarrow> u32 \<Rightarrow> Ciphertext option \<Rightarrow> bytes \<Rightarrow> bytes option \<times> Ciphertext option" where
  "close_header cfg kf prot message =
     (case prot of
        None \<Rightarrow> (Some message, None)
      | Some c \<Rightarrow>
          let raw = HEADER_SIZE - CHECKSUM_OFFSET;
              (body, c) = Ciphertext_Encrypt (take raw (drop CHECKSUM_OFFSET message)) c
          in (case body of
                None \<Rightarrow> (None, Some c)
              | Some body \<Rightarrow>
                  let h = take CHECKSUM_OFFSET message @ body @ drop HEADER_SIZE message
                  in (Some (if length body = raw then h
                            else h[4 := of_nat ((length body + CHECKSUM_OFFSET + static_KF_MOD cfg kf) mod static_Lcgmod cfg)]), Some c)))"

definition STATIC_Pack :: "ssea_simd \<Rightarrow> key_config \<Rightarrow> Ciphertext option \<Rightarrow> PACKET_HEADER \<Rightarrow> bytes \<Rightarrow> bytes option \<times> Ciphertext option" where
  "STATIC_Pack simd cfg prot h payload =
     (let kf = packet_kf cfg (ph_mask_id h)
      in if static_Lcgmod cfg = 0 then (None, prot)
         else let h = h\<lparr>ph_header_length := of_nat ((HEADER_SIZE + static_KF_MOD cfg kf) mod static_Lcgmod cfg),
                        ph_session_id := ntoh32 (ph_session_id h XOR kf)\<rparr>;
                  message = header_bytes h @ payload;
                  message = put16 CHECKSUM_OFFSET (inet_chksum message) message;
                  (message, prot) = close_header cfg kf prot message
              in case message of
                   None \<Rightarrow> (None, prot)
                 | Some message \<Rightarrow>
                     let p = take SESSION_OFFSET message @ shuffle_data (drop SESSION_OFFSET message) kf;
                         p = take SESSION_OFFSET p @ masked_xor_random_next (drop SESSION_OFFSET p) kf
                     in (delta_encode (simd_delta_encode simd) p (sint (key_kf cfg)), prot))"

definition PackBy :: "ssea_simd \<Rightarrow> key_config \<Rightarrow> cipher_table \<Rightarrow> cipher_table \<Rightarrow> u32 \<Rightarrow> u32 \<Rightarrow> u32 \<Rightarrow> u32 \<Rightarrow> int \<Rightarrow> u32 \<Rightarrow> int \<Rightarrow> bytes
    \<Rightarrow> bytes option \<times> cipher_table \<times> cipher_table" where
  "PackBy simd cfg prot trsp mask_id origin_id session_id source_ip source_port destination_ip destination_port payload =
     (if origin_id = 0 then (None, prot, trsp)
      else if payload = [] then (None, prot, trsp)
      else let h = \<lparr>ph_mask_id = mask_id, ph_header_length = 0, ph_session_id = session_id, ph_checksum = 0, ph_source_ip = source_ip,
                    ph_source_port = htons (of_int source_port), ph_destination_ip = destination_ip,
                    ph_destination_port = htons (of_int destination_port)\<rparr>
           in case (prot origin_id, trsp origin_id) of
                (Some pc, Some tc) \<Rightarrow>
                  let (payload, tc) = Ciphertext_Encrypt payload tc;
                      trsp = trsp(origin_id := Some tc)
                  in (case payload of
                        None \<Rightarrow> (None, prot, trsp)
                      | Some payload \<Rightarrow>
                          let (out, pc) = STATIC_Pack simd cfg (Some pc) h payload
                          in (out, prot(origin_id := pc), trsp))
              | _ \<Rightarrow> (fst (STATIC_Pack simd cfg None h payload), prot, trsp))"

section \<open>UDP and IP packets\<close>

definition Pack_udp :: "ssea_simd \<Rightarrow> key_config \<Rightarrow> cipher_table \<Rightarrow> cipher_table \<Rightarrow> u32 \<Rightarrow> u32 \<Rightarrow> u32 \<Rightarrow> int \<Rightarrow> u32 \<Rightarrow> int \<Rightarrow> bytes
    \<Rightarrow> bytes option \<times> cipher_table \<times> cipher_table" where
  "Pack_udp simd cfg prot trsp mask_id session_id source_ip source_port destination_ip destination_port payload =
     (if sint session_id < 1 then (None, prot, trsp)
      else if destination_ip = 0xFFFFFFFF \<or> destination_ip = 0 then (None, prot, trsp)
      else if destination_port \<le> 0 \<or> destination_port > 65535 then (None, prot, trsp)
      else if source_port \<le> 0 \<or> source_port > 65535 then (None, prot, trsp)
      else PackBy simd cfg prot trsp mask_id session_id session_id source_ip source_port destination_ip destination_port payload)"

definition Pack_ip :: "ssea_simd \<Rightarrow> key_config \<Rightarrow> cipher_table \<Rightarrow> cipher_table \<Rightarrow> u32 \<Rightarrow> u32 \<Rightarrow> IPFrame
    \<Rightarrow> bytes option \<times> cipher_table \<times> cipher_table" where
  "Pack_ip simd cfg prot trsp mask_id session_id packet =
     (if sint session_id < 1 then (None, prot, trsp)
      else if ProtocolType packet \<noteq> IP_PROTO_ICMP \<and> ProtocolType packet \<noteq> IP_PROTO_UDP \<and> ProtocolType packet \<noteq> IP_PROTO_TCP
      then (None, prot, trsp)
      else let buffer = ToArray packet
           in PackBy simd cfg prot trsp mask_id session_id (NOT session_id) (ld32 0 buffer) (uint (ld16 4 buffer))
                (ld32 6 buffer) (uint (ld16 10 buffer)) (drop 12 buffer))"

definition GetIPPacket :: "bool \<Rightarrow> bool \<Rightarrow> VirtualEthernetPacket \<Rightarrow> IPFrame option" where
  "GetIPPacket verify flash out =
     (if vep_Protocol out \<noteq> IP_PROTO_IP then None
      else IPFrame_Parse verify flash (posedo_bytes (vep_SourceIP out) (vep_SourcePort out) (vep_DestinationIP out)
             (ucast (vep_DestinationPort out)) @ vep_Payload out))"

definition GetIcmpPacket :: "bool \<Rightarrow> bool \<Rightarrow> VirtualEthernetPacket \<Rightarrow> IcmpFrame option" where
  "GetIcmpPacket verify flash out =
     (if vep_Protocol out \<noteq> IP_PROTO_IP then None
      else case GetIPPacket verify flash out of
             None \<Rightarrow> None
           | Some packet \<Rightarrow> if ProtocolType packet \<noteq> IP_PROTO_ICMP then None else IcmpFrame_Parse verify packet)"

definition GetUdpPacket :: "u8 \<Rightarrow> VirtualEthernetPacket \<Rightarrow> UdpFrame option" where
  "GetUdpPacket default_ttl out =
     (if vep_Protocol out \<noteq> IP_PROTO_UDP then None
      else Some \<lparr>udp_Source = \<lparr>Address = vep_SourceIP out, Port = vep_SourcePort out\<rparr>,
                 udp_Destination = \<lparr>Address = vep_DestinationIP out, Port = ucast (vep_DestinationPort out)\<rparr>,
                 udp_Ttl = default_ttl, udp_Payload = Some (vep_Payload out)\<rparr>)"

text \<open>Random printable bytes as payload of a frame; the length and the bytes that are drawn are arguments.\<close>

definition FillBytesToPayload :: "IPFrame \<Rightarrow> int \<Rightarrow> int \<Rightarrow> nat \<Rightarrow> (nat \<Rightarrow> u8) \<Rightarrow> bool \<times> IPFrame" where
  "FillBytesToPayload frame mn mx payload_length draw =
     (if mn < 1 \<or> mx < 1 \<or> mn > mx then (False, frame)
      else if payload_length < 1 then (False, frame)
      else (True, frame\<lparr>Payload := Some (map draw [0..<payload_length])\<rparr>))"

section \<open>Ciphers of a session\<close>

text \<open>The text of a 32-bit integer, \<^verbatim>\<open>stl::to_string\<close>.\<close>

definition to_string_int :: "u32 \<Rightarrow> int \<Rightarrow> bytes" where
  "to_string_int num radix =
     (if num = 0 then [48]
      else let n = (sint num < 0);
               s = digits_loop (clamp_radix radix) (nat \<bar>sint num\<bar>) []
           in if n then 45 # s else s)"

definition VirtualEthernetPacket_Ciphertext :: "crypto_lib \<Rightarrow> key_config \<Rightarrow> i128 \<Rightarrow> i128 \<Rightarrow> u32 \<Rightarrow> Ciphertext option \<times> Ciphertext option" where
  "VirtualEthernetPacket_Ciphertext lib cfg guid fsid session_id =
     (if IsHaveCiphertext cfg
      then let ivv_string = Int128ToString guid 32 @ text_bytes ''/'' @ Int128ToString fsid 32 @ [92] @ to_string_int session_id 32 @ text_bytes '';''
           in (Some (Ciphertext_new lib (key_protocol cfg) (key_protocol_key cfg @ ivv_string)),
               Some (Ciphertext_new lib (key_transport cfg) (key_transport_key cfg @ ivv_string)))
      else (None, None))"

section \<open>Header lengths and words\<close>

lemma ntoh32_ntoh32 [simp]: "ntoh32 (ntoh32 v) = v"
proof -
  have "le32 (rd32 (le32 v)) = rev (le32 v)"
    unfolding le32_def by (simp add: be32_def [of v] be32_rd32_bytes)
  then show ?thesis
    using rd32_be32 [of v "[]"] by (simp add: ntoh32_def) (simp add: le32_def)
qed

lemma static_Lcgmod_range: "128 \<le> static_Lcgmod cfg" "static_Lcgmod cfg \<le> 256"
  using lcgmod_bounds [of 128 256 "key_kf cfg"] unfolding static_Lcgmod_def by linarith+

lemma static_KF_MOD_less: "static_KF_MOD cfg kf < static_Lcgmod cfg"
proof -
  have m: "0 < int (static_Lcgmod cfg)"
    using static_Lcgmod_range(1) [of cfg] by simp
  from smod_less [OF m, of "sint kf"] show ?thesis
    by (simp add: static_KF_MOD_def nat_less_iff)
qed

text \<open>The stored length gives the length back, for every length below the modulus.\<close>

lemma header_length_back:
  assumes "n < 128"
  shows "STATIC_header_length cfg (unat (of_nat ((n + static_KF_MOD cfg kf) mod static_Lcgmod cfg) :: u8)) kf = n"
proof -
  let ?M = "static_Lcgmod cfg" and ?K = "static_KF_MOD cfg kf"
  have M: "128 \<le> ?M" "?M \<le> 256" "?K < ?M" "n < ?M"
    using static_Lcgmod_range [of cfg] static_KF_MOD_less [of cfg kf] assms by simp_all
  then have "(n + ?K) mod ?M < 256"
    using mod_less_divisor [of ?M "n + ?K"] by linarith
  then have u: "unat (of_nat ((n + ?K) mod ?M) :: u8) = (n + ?K) mod ?M"
    by (rule unat_small)
  have "?M \<noteq> 0"
    using M(1) by simp
  then show ?thesis
    using shift_back [OF M(4,3)] by (simp add: STATIC_header_length_def u)
qed

text \<open>
  A header whose part behind the checksum changed its length is rebuilt with the mapping of the reader instead of that of the
  writer: the stored length, which the checksum covers, is then another one.
\<close>

lemma rebuilt_length_differs:
  "let cfg = sample_config ''aes-128-cfb'' 7; kf = packet_kf cfg 5
   in of_nat (STATIC_header_length cfg HEADER_SIZE kf) \<noteq> (of_nat ((HEADER_SIZE + static_KF_MOD cfg kf) mod static_Lcgmod cfg) :: u8)"
  by code_simp

section \<open>Messages\<close>

lemma length_header_bytes [simp]: "length (header_bytes h) = 23"
  by (simp add: header_bytes_def posedo_bytes_def)

text \<open>A message with its checksum in place.\<close>

definition sealed :: "PACKET_HEADER \<Rightarrow> bytes \<Rightarrow> bytes" where
  "sealed h payload = put16 CHECKSUM_OFFSET (inet_chksum (header_bytes h @ payload)) (header_bytes h @ payload)"

lemma sealed_eq:
  assumes "ph_checksum h = 0"
  shows "sealed h payload = header_bytes (h\<lparr>ph_checksum := inet_chksum (header_bytes h @ payload)\<rparr>) @ payload"
    and "put16 CHECKSUM_OFFSET 0 (sealed h payload) = header_bytes h @ payload"
proof -
  let ?a = "le32 (ph_mask_id h) @ [ph_header_length h] @ le32 (ph_session_id h)"
  let ?b = "posedo_bytes (ph_source_ip h) (ph_source_port h) (ph_destination_ip h) (ph_destination_port h) @ payload"
  have p: "put16 9 v (?a @ le16 w @ ?b) = ?a @ le16 v @ ?b" for v w
    by (simp add: put16_def le16_def le32_def be32_def numeral_eq_Suc)
  show 1: "sealed h payload = header_bytes (h\<lparr>ph_checksum := inet_chksum (header_bytes h @ payload)\<rparr>) @ payload"
    using p [of _ "ph_checksum h"] by (simp add: sealed_def CHECKSUM_OFFSET_def header_bytes_def)
  show "put16 CHECKSUM_OFFSET 0 (sealed h payload) = header_bytes h @ payload"
    unfolding 1 using p [of 0] assms by (simp add: CHECKSUM_OFFSET_def header_bytes_def)
qed

lemma header_fields:
  "ld32 0 (header_bytes h @ x) = ph_mask_id h" "(header_bytes h @ x) ! 4 = ph_header_length h"
  "ld32 5 (header_bytes h @ x) = ph_session_id h" "ld16 9 (header_bytes h @ x) = ph_checksum h"
  "ld32 11 (header_bytes h @ x) = ph_source_ip h" "ld16 15 (header_bytes h @ x) = ph_source_port h"
  "ld32 17 (header_bytes h @ x) = ph_destination_ip h" "ld16 21 (header_bytes h @ x) = ph_destination_port h"
proof -
  note d = header_bytes_def posedo_bytes_def
  show "ld32 0 (header_bytes h @ x) = ph_mask_id h"
    using ld32_le32 [of "[]" 0] by (simp add: d)
  show "(header_bytes h @ x) ! 4 = ph_header_length h"
    by (simp add: d nth_append)
  show "ld32 5 (header_bytes h @ x) = ph_session_id h"
    using ld32_le32 [of "le32 (ph_mask_id h) @ [ph_header_length h]" 5] by (simp add: d)
  show "ld16 9 (header_bytes h @ x) = ph_checksum h"
    using htons_ld16 [of "le32 (ph_mask_id h) @ [ph_header_length h] @ le32 (ph_session_id h)" 9] by (simp add: d)
  let ?a = "le32 (ph_mask_id h) @ [ph_header_length h] @ le32 (ph_session_id h) @ le16 (ph_checksum h)"
  show "ld32 11 (header_bytes h @ x) = ph_source_ip h"
    using ld32_le32 [of ?a 11] by (simp add: d)
  show "ld16 15 (header_bytes h @ x) = ph_source_port h"
    using htons_ld16 [of "?a @ le32 (ph_source_ip h)" 15] by (simp add: d)
  show "ld32 17 (header_bytes h @ x) = ph_destination_ip h"
    using ld32_le32 [of "?a @ le32 (ph_source_ip h) @ le16 (ph_source_port h)" 17] by (simp add: d)
  show "ld16 21 (header_bytes h @ x) = ph_destination_port h"
    using htons_ld16 [of "?a @ le32 (ph_source_ip h) @ le16 (ph_source_port h) @ le32 (ph_destination_ip h)" 21] by (simp add: d)
qed

text \<open>The packet a sealed message stands for.\<close>

definition packet_of :: "PACKET_HEADER \<Rightarrow> u8 \<Rightarrow> u32 \<Rightarrow> bytes \<Rightarrow> VirtualEthernetPacket" where
  "packet_of h proto session_id payload =
     \<lparr>vep_Payload = payload, vep_Protocol = proto, vep_Id = session_id, vep_SourceIP = ph_source_ip h,
      vep_SourcePort = htons (ph_source_port h), vep_DestinationIP = ph_destination_ip h,
      vep_DestinationPort = ucast (htons (ph_destination_port h))\<rparr>"

definition let_through :: "VirtualEthernetPacket \<Rightarrow> VirtualEthernetPacket option" where
  "let_through out = (if vep_Protocol out \<noteq> IP_PROTO_UDP \<or> udp_endpoints out then Some out else None)"

lemma STATIC_Unpack_sealed:
  assumes "ph_checksum h = 0" "session_id \<noteq> 0"
  shows "STATIC_Unpack None (sealed h payload) proto session_id = (let_through (packet_of h proto session_id payload), None)"
    and "Ciphertext_Decrypt payload c = (Some x, c') \<Longrightarrow>
      STATIC_Unpack (Some c) (sealed h payload) proto session_id = (let_through (packet_of h proto session_id x), Some c')"
proof -
  let ?g = "h\<lparr>ph_checksum := inet_chksum (header_bytes h @ payload)\<rparr>"
  have "ld16 CHECKSUM_OFFSET (sealed h payload) = inet_chksum (put16 CHECKSUM_OFFSET 0 (sealed h payload))"
    unfolding sealed_eq(2) [OF assms(1)] unfolding sealed_eq(1) [OF assms(1)] by (simp add: CHECKSUM_OFFSET_def header_fields)
  then show "STATIC_Unpack None (sealed h payload) proto session_id = (let_through (packet_of h proto session_id payload), None)"
    "Ciphertext_Decrypt payload c = (Some x, c') \<Longrightarrow>
      STATIC_Unpack (Some c) (sealed h payload) proto session_id = (let_through (packet_of h proto session_id x), Some c')"
    using assms(2) header_fields [of ?g payload]
    by (simp_all add: STATIC_Unpack_def sealed_eq(1) [OF assms(1)] HEADER_SIZE_def packet_of_def let_through_def Let_def)
qed

section \<open>The way over the wire\<close>

definition wire_form :: "u32 \<Rightarrow> bytes \<Rightarrow> bytes" where
  "wire_form kf m =
     (let p = take SESSION_OFFSET m @ shuffle_data (drop SESSION_OFFSET m) kf
      in take SESSION_OFFSET p @ masked_xor_random_next (drop SESSION_OFFSET p) kf)"

definition from_wire :: "u32 \<Rightarrow> bytes \<Rightarrow> bytes" where
  "from_wire kf p =
     (let p = take SESSION_OFFSET p @ masked_xor_random_next (drop SESSION_OFFSET p) kf
      in take SESSION_OFFSET p @ unshuffle_data (drop SESSION_OFFSET p) kf)"

lemma wire_form_facts:
  assumes "5 < length m" "length m < 2 ^ 31"
  shows "length (wire_form kf m) = length m" "take 5 (wire_form kf m) = take 5 m" "from_wire kf (wire_form kf m) = m"
proof -
  have l: "length (drop 5 m) < 2 ^ 31"
    using assms(2) by simp
  have x: "masked_xor_random_next (masked_xor_random_next d kf) kf = d" for d
    by (simp add: masked_xor_random_next_def xor_random_tail_involution)
  have w: "wire_form kf m = take 5 m @ masked_xor_random_next (shuffle_data (drop 5 m) kf) kf"
    using assms(1) by (simp add: wire_form_def SESSION_OFFSET_def Let_def)
  show "length (wire_form kf m) = length m" "take 5 (wire_form kf m) = take 5 m"
    using assms(1) length_shuffle_data [OF l] by (simp_all add: w masked_xor_random_next_def)
  show "from_wire kf (wire_form kf m) = m"
    using assms(1) unshuffle_shuffle [OF l] by (simp add: from_wire_def w SESSION_OFFSET_def Let_def x)
qed

lemma UnpackBy_wire:
  assumes "simd_ok simd" "23 < length m" "length m < 2 ^ 31" "take 5 m = le32 mask_id @ [hl]" "mask_id \<noteq> 0"
    and "kf = packet_kf cfg mask_id" "hl = of_nat ((n + static_KF_MOD cfg kf) mod static_Lcgmod cfg)" "23 \<le> n" "n < 128"
  obtains e where "delta_encode (simd_delta_encode simd) (wire_form kf m) (sint (key_kf cfg)) = Some e"
    "UnpackBy simd cfg prot trsp e = UnpackBy_opened cfg prot trsp kf n (wire_form kf m)"
proof -
  let ?p = "wire_form kf m"
  note w = wire_form_facts [OF _ assms(3), of kf]
  have p: "length ?p = length m" "take 5 ?p = le32 mask_id @ [hl]"
    using w assms(2,4) by simp_all
  have "?p = le32 mask_id @ [hl] @ drop 5 ?p"
    using append_take_drop_id [of 5 ?p] p(2) by simp
  then have f: "ld32 0 ?p = mask_id" "?p ! 4 = hl"
    using ld32_le32 [of "[]" 0 mask_id "[hl] @ drop 5 ?p"] by (simp_all, metis append_Nil nth_append_length length_le32 append_Cons append_assoc)
  have n: "unat (of_nat (STATIC_header_length cfg (unat hl) kf) :: u8) = n"
    using header_length_back [OF assms(9), of cfg kf] assms(7,9) unat_small [of n] by simp
  have "?p \<noteq> []"
    using p(1) assms(2) by auto
  from delta_inverse [OF assms(1) this, of "sint (key_kf cfg)"] obtain e
    where e: "delta_encode (simd_delta_encode simd) ?p (sint (key_kf cfg)) = Some e" "length e = length ?p"
      "delta_decode (simd_delta_decode simd) e (sint (key_kf cfg)) = Some ?p"
    by metis
  have "UnpackBy simd cfg prot trsp e = UnpackBy_opened cfg prot trsp kf n ?p"
    using e(2,3) p(1) f n assms(2,5,6,8) by (simp add: UnpackBy_def HEADER_SIZE_def Let_def)
  with e(1) show thesis
    by (rule that)
qed

section \<open>Sessions in step\<close>

text \<open>Both ends have both ciphers of the session, in step, or one cipher is missing at each end.\<close>

definition tables_sync :: "u32 \<Rightarrow> cipher_table \<Rightarrow> cipher_table \<Rightarrow> cipher_table \<Rightarrow> cipher_table \<Rightarrow> bool" where
  "tables_sync sid prot trsp prot' trsp' \<longleftrightarrow>
     (case (prot sid, trsp sid, prot' sid, trsp' sid) of
        (Some a, Some b, Some c, Some d) \<Rightarrow> in_sync a c \<and> in_sync b d
      | (Some _, Some _, _, _) \<Rightarrow> False
      | (_, _, Some _, Some _) \<Rightarrow> False
      | _ \<Rightarrow> True)"

lemma tables_sync_cases:
  assumes "tables_sync sid prot trsp prot' trsp'"
  obtains (plain) "prot sid = None \<or> trsp sid = None" "prot' sid = None \<or> trsp' sid = None"
  | (ciphers) a b c d where "prot sid = Some a" "trsp sid = Some b" "prot' sid = Some c" "trsp' sid = Some d" "in_sync a c" "in_sync b d"
  using assms by (auto simp: tables_sync_def split: option.splits)

text \<open>The session number of a wire number and the protocol its sign stands for.\<close>

definition session_of :: "u32 \<Rightarrow> u32" where
  "session_of w = (if sint w < 0 then NOT w else w)"

definition proto_of :: "u32 \<Rightarrow> u8" where
  "proto_of w = (if sint w < 0 then IP_PROTO_IP else IP_PROTO_UDP)"

lemma UnpackBy_opened_eq:
  assumes "ntoh32 (ld32 5 (from_wire kf p)) XOR kf = w"
  shows "UnpackBy_opened cfg prot trsp kf n p = UnpackBy_session cfg prot trsp kf n (from_wire kf p) (proto_of w) (session_of w)"
  using assms by (simp add: UnpackBy_opened_def from_wire_def Let_def proto_of_def session_of_def SESSION_OFFSET_def)

lemma UnpackBy_opened_plain:
  assumes "from_wire kf p = sealed h payload" "ph_checksum h = 0" "ph_session_id h = ntoh32 (w XOR kf)" "session_of w \<noteq> 0"
    and "prot (session_of w) = None \<or> trsp (session_of w) = None"
  shows "UnpackBy_opened cfg prot trsp kf n p = (let_through (packet_of h (proto_of w) (session_of w) payload), prot, trsp)"
proof -
  have "ntoh32 (ld32 5 (sealed h payload)) XOR kf = w"
    using assms(3) by (simp add: sealed_eq(1) [OF assms(2)] header_fields xor.assoc)
  then have "UnpackBy_opened cfg prot trsp kf n p = UnpackBy_session cfg prot trsp kf n (sealed h payload) (proto_of w) (session_of w)"
    using UnpackBy_opened_eq [of kf p w] assms(1) by simp
  then show ?thesis
    using assms(5) STATIC_Unpack_sealed(1) [OF assms(2,4)] by (auto simp: UnpackBy_session_def split: option.split)
qed

lemma UnpackBy_opened_ciphers:
  assumes "from_wire kf p = take 9 m @ y @ drop 23 m" "m = sealed h x" "ph_checksum h = 0" "ph_session_id h = ntoh32 (w XOR kf)"
    and "session_of w \<noteq> 0" "prot (session_of w) = Some c" "trsp (session_of w) = Some d" "length y = 14"
    and "Ciphertext_Decrypt y c = (Some (take 14 (drop 9 m)), c')" "Ciphertext_Decrypt x d = (Some payload, d')"
  shows "UnpackBy_opened cfg prot trsp kf n p =
    (let_through (packet_of h (proto_of w) (session_of w) payload), prot(session_of w := Some c'), trsp(session_of w := Some d'))"
proof -
  let ?h = "take 9 m @ y @ drop 23 m"
  have l: "23 \<le> length m"
    using sealed_eq(1) [OF assms(3)] assms(2) by simp
  then have "ld32 5 ?h = ld32 5 m"
    by (simp add: ld32_def nth_append)
  then have "ntoh32 (ld32 5 ?h) XOR kf = w"
    using assms(2,4) by (simp add: sealed_eq(1) [OF assms(3)] header_fields xor.assoc)
  then have u: "UnpackBy_opened cfg prot trsp kf n p = UnpackBy_session cfg prot trsp kf n ?h (proto_of w) (session_of w)"
    using UnpackBy_opened_eq [of kf p w] assms(1) by simp
  have b: "take 14 (drop 9 ?h) = y" "take 9 ?h = take 9 m" "drop 23 ?h = drop 23 m"
    using l assms(8) by (simp_all add: min_def)
  have j: "take 9 m @ take 14 (drop 9 m) @ drop 23 m = m"
    using append_take_drop_id [of 14 "drop 9 m"] append_take_drop_id [of 9 m] by simp
  have t: "length (take 14 (drop 9 m)) = 14"
    using l by simp
  show ?thesis
    unfolding u UnpackBy_session_def
    using STATIC_Unpack_sealed(2) [OF assms(3,5,10), folded assms(2)]
    by (simp add: assms(6,7,9) HEADER_SIZE_def CHECKSUM_OFFSET_def b t j del: take_append drop_append length_take length_drop)
qed

section \<open>Packed messages\<close>

definition packed_header :: "key_config \<Rightarrow> PACKET_HEADER \<Rightarrow> PACKET_HEADER" where
  "packed_header cfg h =
     (let kf = packet_kf cfg (ph_mask_id h)
      in h\<lparr>ph_header_length := of_nat ((HEADER_SIZE + static_KF_MOD cfg kf) mod static_Lcgmod cfg),
           ph_session_id := ntoh32 (ph_session_id h XOR kf)\<rparr>)"

lemma STATIC_Pack_sealed:
  assumes "kf = packet_kf cfg (ph_mask_id h)" "m = sealed (packed_header cfg h) payload"
  shows "STATIC_Pack simd cfg None h payload = (delta_encode (simd_delta_encode simd) (wire_form kf m) (sint (key_kf cfg)), None)"
    and "Ciphertext_Encrypt (take 14 (drop 9 m)) c = (Some y, c') \<Longrightarrow> length y = 14 \<Longrightarrow>
      STATIC_Pack simd cfg (Some c) h payload =
        (delta_encode (simd_delta_encode simd) (wire_form kf (take 9 m @ y @ drop 23 m)) (sint (key_kf cfg)), Some c')"
proof -
  have M: "static_Lcgmod cfg \<noteq> 0"
    using static_Lcgmod_range(1) [of cfg] by simp
  show "STATIC_Pack simd cfg None h payload = (delta_encode (simd_delta_encode simd) (wire_form kf m) (sint (key_kf cfg)), None)"
    unfolding STATIC_Pack_def close_header_def assms packed_header_def wire_form_def sealed_def Let_def using M by (simp only: if_False prod.case option.case)
  show "STATIC_Pack simd cfg (Some c) h payload =
      (delta_encode (simd_delta_encode simd) (wire_form kf (take 9 m @ y @ drop 23 m)) (sint (key_kf cfg)), Some c')"
    if c: "Ciphertext_Encrypt (take 14 (drop 9 m)) c = (Some y, c')" and y: "length y = 14"
  proof -
    have s: "23 - 9 = (14 :: nat)"
      by simp
    have "close_header cfg kf (Some c) m = (Some (take 9 m @ y @ drop 23 m), Some c')"
      unfolding close_header_def HEADER_SIZE_def CHECKSUM_OFFSET_def Let_def by (simp only: option.case s c prod.case y if_True refl)
    then show ?thesis
      unfolding STATIC_Pack_def wire_form_def Let_def assms(1)
      using M assms(2) by (simp only: if_False prod.case option.case packed_header_def sealed_def Let_def assms(1))
  qed
qed

text \<open>The packet the receiver is to see.\<close>

definition wire_packet :: "u32 \<Rightarrow> u32 \<Rightarrow> int \<Rightarrow> u32 \<Rightarrow> int \<Rightarrow> bytes \<Rightarrow> VirtualEthernetPacket" where
  "wire_packet w source_ip source_port destination_ip destination_port payload =
     \<lparr>vep_Payload = payload, vep_Protocol = proto_of w, vep_Id = session_of w, vep_SourceIP = source_ip,
      vep_SourcePort = of_int source_port, vep_DestinationIP = destination_ip,
      vep_DestinationPort = ucast (of_int destination_port :: u16)\<rparr>"

lemma sealed_front:
  assumes "ph_checksum h = 0"
  shows "take 5 (sealed h x) = le32 (ph_mask_id h) @ [ph_header_length h]" "length (sealed h x) = 23 + length x"
  by (simp_all add: sealed_eq(1) [OF assms]) (simp add: header_bytes_def)

definition call_header :: "u32 \<Rightarrow> u32 \<Rightarrow> u32 \<Rightarrow> int \<Rightarrow> u32 \<Rightarrow> int \<Rightarrow> PACKET_HEADER" where
  "call_header mask_id w source_ip source_port destination_ip destination_port =
     \<lparr>ph_mask_id = mask_id, ph_header_length = 0, ph_session_id = w, ph_checksum = 0, ph_source_ip = source_ip,
      ph_source_port = htons (of_int source_port), ph_destination_ip = destination_ip,
      ph_destination_port = htons (of_int destination_port)\<rparr>"

lemma call_header_facts:
  fixes cfg mask_id w source_ip source_port destination_ip destination_port
  defines "h \<equiv> packed_header cfg (call_header mask_id w source_ip source_port destination_ip destination_port)"
    and "kf \<equiv> packet_kf cfg mask_id"
  shows "ph_checksum h = 0" "ph_session_id h = ntoh32 (w XOR kf)" "ph_mask_id h = mask_id"
    "ph_header_length h = of_nat ((23 + static_KF_MOD cfg kf) mod static_Lcgmod cfg)"
    "packet_of h (proto_of w) (session_of w) x = wire_packet w source_ip source_port destination_ip destination_port x"
  by (simp_all add: packed_header_def Let_def call_header_def h_def kf_def HEADER_SIZE_def packet_of_def wire_packet_def)

lemma UnpackBy_message:
  assumes "simd_ok simd" "mask_id \<noteq> 0" "23 < length m" "length m < 2 ^ 31" "kf = packet_kf cfg mask_id"
    and "take 5 m = le32 mask_id @ [of_nat ((23 + static_KF_MOD cfg kf) mod static_Lcgmod cfg)]"
  obtains e where "delta_encode (simd_delta_encode simd) (wire_form kf m) (sint (key_kf cfg)) = Some e"
    "UnpackBy simd cfg prot trsp e = UnpackBy_opened cfg prot trsp kf 23 (wire_form kf m)" "from_wire kf (wire_form kf m) = m"
proof -
  have "from_wire kf (wire_form kf m) = m"
    using wire_form_facts(3) [OF _ assms(4)] assms(3) by simp
  then show thesis
    using UnpackBy_wire [OF assms(1,3,4,6,2,5) refl, of prot trsp] that by auto
qed

lemma PackBy_plain:
  assumes simd: "simd_ok simd" and mask: "mask_id \<noteq> 0" and x: "x \<noteq> []" "length x < 2 ^ 31 - 23"
    and sid: "sid = session_of w" "sid \<noteq> 0" and none: "prot sid = None \<or> trsp sid = None" "prot' sid = None \<or> trsp' sid = None"
  obtains e where
    "PackBy simd cfg prot trsp mask_id sid w source_ip source_port destination_ip destination_port x = (Some e, prot, trsp)"
    "UnpackBy simd cfg prot' trsp' e = (let_through (wire_packet w source_ip source_port destination_ip destination_port x), prot', trsp')"
proof -
  define h kf where "h = call_header mask_id w source_ip source_port destination_ip destination_port" and "kf = packet_kf cfg mask_id"
  let ?m = "sealed (packed_header cfg h) x"
  note f = call_header_facts [where cfg = cfg and mask_id = mask_id and w = w and source_ip = source_ip and source_port = source_port
      and destination_ip = destination_ip and destination_port = destination_port, folded h_def kf_def]
  have k: "kf = packet_kf cfg (ph_mask_id h)"
    by (simp add: kf_def h_def call_header_def)
  obtain e where e: "delta_encode (simd_delta_encode simd) (wire_form kf ?m) (sint (key_kf cfg)) = Some e"
    "UnpackBy simd cfg prot' trsp' e = UnpackBy_opened cfg prot' trsp' kf 23 (wire_form kf ?m)" "from_wire kf (wire_form kf ?m) = ?m"
    by (rule UnpackBy_message [OF simd mask _ _ kf_def, where m = ?m]) (use sealed_front [OF f(1), of x] f(3,4) x in auto)
  have z: "session_of w \<noteq> 0"
    using sid by simp
  show thesis
  proof (rule that [of e])
    show "PackBy simd cfg prot trsp mask_id sid w source_ip source_port destination_ip destination_port x = (Some e, prot, trsp)"
      using none(1) sid(2) x(1) STATIC_Pack_sealed(1) [OF k refl, where simd = simd and payload = x] e(1)
      by (auto simp: PackBy_def Let_def h_def call_header_def split: option.split)
    show "UnpackBy simd cfg prot' trsp' e = (let_through (wire_packet w source_ip source_port destination_ip destination_port x), prot', trsp')"
      using UnpackBy_opened_plain [OF e(3) f(1,2) z] none(2) sid(1) e(2) f(5) by simp
  qed
qed

lemma PackBy_ciphers:
  assumes simd: "simd_ok simd" and mask: "mask_id \<noteq> 0" and x: "x \<noteq> []" "length x < 2 ^ 31 - 23"
    and sid: "sid = session_of w" "sid \<noteq> 0" and tables: "prot sid = Some a" "trsp sid = Some b" "prot' sid = Some c" "trsp' sid = Some d"
    and sync: "in_sync a c" "in_sync b d"
  obtains e a' b' c' d' where "in_sync a' c'" "in_sync b' d'"
    "PackBy simd cfg prot trsp mask_id sid w source_ip source_port destination_ip destination_port x =
       (Some e, prot(sid := Some a'), trsp(sid := Some b'))"
    "UnpackBy simd cfg prot' trsp' e =
       (let_through (wire_packet w source_ip source_port destination_ip destination_port x), prot'(sid := Some c'), trsp'(sid := Some d'))"
proof -
  define h kf where "h = call_header mask_id w source_ip source_port destination_ip destination_port" and "kf = packet_kf cfg mask_id"
  note f = call_header_facts [where cfg = cfg and mask_id = mask_id and w = w and source_ip = source_ip and source_port = source_port
      and destination_ip = destination_ip and destination_port = destination_port, folded h_def kf_def]
  have k: "kf = packet_kf cfg (ph_mask_id h)"
    by (simp add: kf_def h_def call_header_def)
  obtain p b' d' where p: "Ciphertext_Encrypt x b = (Some p, b')" "length p = length x" "Ciphertext_Decrypt p d = (Some x, d')" "in_sync b' d'"
    by (rule cipher_roundtrip [OF sync(2) x(1)]) (rule that)
  let ?m = "sealed (packed_header cfg h) p"
  note m = sealed_front [OF f(1), of p]
  have l: "take 14 (drop 9 ?m) \<noteq> []" "length (take 14 (drop 9 ?m)) = 14"
    using m(2) by simp_all
  obtain y a' c' where y: "Ciphertext_Encrypt (take 14 (drop 9 ?m)) a = (Some y, a')" "length y = length (take 14 (drop 9 ?m))"
    "Ciphertext_Decrypt y c = (Some (take 14 (drop 9 ?m)), c')" "in_sync a' c'"
    by (rule cipher_roundtrip [OF sync(1) l(1)]) (rule that)
  note y = y(1) y(2) [unfolded l(2)] y(3,4)
  let ?n = "take 9 ?m @ y @ drop 23 ?m"
  have n: "take 5 ?n = take 5 ?m" "length ?n = 23 + length x"
    using m(2) y(2) p(2) by (simp_all add: min_def)
  obtain e where e: "delta_encode (simd_delta_encode simd) (wire_form kf ?n) (sint (key_kf cfg)) = Some e"
    "UnpackBy simd cfg prot' trsp' e = UnpackBy_opened cfg prot' trsp' kf 23 (wire_form kf ?n)" "from_wire kf (wire_form kf ?n) = ?n"
    by (rule UnpackBy_message [OF simd mask _ _ kf_def, where m = ?n]) (use n m(1) f(3,4) x in auto)
  show thesis
  proof (rule that [OF y(4) p(4), of e])
    show "PackBy simd cfg prot trsp mask_id sid w source_ip source_port destination_ip destination_port x =
        (Some e, prot(sid := Some a'), trsp(sid := Some b'))"
      using tables(1,2) sid(2) x(1) p(1) STATIC_Pack_sealed(2) [OF k refl y(1,2), where simd = simd] e(1)
      by (simp add: PackBy_def Let_def h_def call_header_def)
    show "UnpackBy simd cfg prot' trsp' e =
        (let_through (wire_packet w source_ip source_port destination_ip destination_port x), prot'(sid := Some c'), trsp'(sid := Some d'))"
      using UnpackBy_opened_ciphers [OF e(3) refl f(1,2) _ _ _ y(2,3) p(3)] tables(3,4) sid e(2) f(5) by simp
  qed
qed

section \<open>Calls\<close>

lemma PackBy_UnpackBy:
  assumes "simd_ok simd" "mask_id \<noteq> 0" "x \<noteq> []" "length x < 2 ^ 31 - 23" "sid = session_of w" "sid \<noteq> 0"
    and "tables_sync sid prot trsp prot' trsp'"
  obtains e P T P' T' where "tables_sync sid P T P' T'"
    "PackBy simd cfg prot trsp mask_id sid w source_ip source_port destination_ip destination_port x = (Some e, P, T)"
    "UnpackBy simd cfg prot' trsp' e = (let_through (wire_packet w source_ip source_port destination_ip destination_port x), P', T')"
proof (rule tables_sync_cases [OF assms(7)])
  assume plain: "prot sid = None \<or> trsp sid = None" "prot' sid = None \<or> trsp' sid = None"
  show thesis
    by (rule PackBy_plain [where prot = prot and trsp = trsp and prot' = prot' and trsp' = trsp', OF assms(1-6) plain])
       (rule that [OF assms(7)])
next
  fix a b c d
  assume ciphers: "prot sid = Some a" "trsp sid = Some b" "prot' sid = Some c" "trsp' sid = Some d" "in_sync a c" "in_sync b d"
  obtain e a' b' c' d' where s: "in_sync a' c'" "in_sync b' d'"
    and e: "PackBy simd cfg prot trsp mask_id sid w source_ip source_port destination_ip destination_port x =
       (Some e, prot(sid := Some a'), trsp(sid := Some b'))"
    "UnpackBy simd cfg prot' trsp' e =
       (let_through (wire_packet w source_ip source_port destination_ip destination_port x), prot'(sid := Some c'), trsp'(sid := Some d'))"
    by (rule PackBy_ciphers [where prot = prot and trsp = trsp and prot' = prot' and trsp' = trsp', OF assms(1-6) ciphers]) (rule that)
  have "tables_sync sid (prot(sid := Some a')) (trsp(sid := Some b')) (prot'(sid := Some c')) (trsp'(sid := Some d'))"
    using s by (simp add: tables_sync_def)
  then show thesis
    using e by (rule that)
qed

text \<open>What an end sends: a UDP payload or an IP frame, with the mask that is drawn.\<close>

datatype static_call =
  UdpCall u32 u32 int u32 int bytes
| IpCall u32 IPFrame

fun pack_call :: "ssea_simd \<Rightarrow> key_config \<Rightarrow> u32 \<Rightarrow> cipher_table \<Rightarrow> cipher_table \<Rightarrow> static_call \<Rightarrow> bytes option \<times> cipher_table \<times> cipher_table" where
  "pack_call simd cfg sid prot trsp (UdpCall mask_id source_ip source_port destination_ip destination_port payload) =
     Pack_udp simd cfg prot trsp mask_id sid source_ip source_port destination_ip destination_port payload"
| "pack_call simd cfg sid prot trsp (IpCall mask_id frame) = Pack_ip simd cfg prot trsp mask_id sid frame"

fun call_ok :: "static_call \<Rightarrow> bool" where
  "call_ok (UdpCall mask_id source_ip source_port destination_ip destination_port payload) \<longleftrightarrow>
     mask_id \<noteq> 0 \<and> 1 \<le> source_port \<and> source_port \<le> 65535 \<and> destination_ip \<notin> {0, 0xFFFFFFFF} \<and>
     1 \<le> destination_port \<and> destination_port \<le> 65535 \<and> payload \<noteq> [] \<and> length payload \<le> 65535"
| "call_ok (IpCall mask_id frame) \<longleftrightarrow> mask_id \<noteq> 0 \<and> frame_ok frame"

text \<open>What the receiver takes out of an unpacked datagram: the session, the UDP frame or the IP frame.\<close>

definition contents :: "bool \<Rightarrow> bool \<Rightarrow> u8 \<Rightarrow> VirtualEthernetPacket \<Rightarrow> u32 \<times> UdpFrame option \<times> IPFrame option" where
  "contents verify flash ttl out = (vep_Id out, GetUdpPacket ttl out, GetIPPacket verify flash out)"

text \<open>What it is to find: a UDP packet without a source address is refused.\<close>

fun expected_contents :: "bool \<Rightarrow> u8 \<Rightarrow> u32 \<Rightarrow> static_call \<Rightarrow> (u32 \<times> UdpFrame option \<times> IPFrame option) option" where
  "expected_contents flash ttl sid (UdpCall mask_id source_ip source_port destination_ip destination_port payload) =
     (if source_ip = 0 \<or> source_ip = 0xFFFFFFFF then None
      else Some (sid, Some \<lparr>udp_Source = \<lparr>Address = source_ip, Port = of_int source_port\<rparr>,
                            udp_Destination = \<lparr>Address = destination_ip, Port = of_int destination_port\<rparr>,
                            udp_Ttl = ttl, udp_Payload = Some payload\<rparr>, None))"
| "expected_contents flash ttl sid (IpCall mask_id frame) = Some (sid, None, Some (received flash frame))"

lemma session_of_sid: "0 < sint sid \<Longrightarrow> session_of sid = sid \<and> session_of (NOT sid) = sid \<and> proto_of sid = IP_PROTO_UDP \<and> proto_of (NOT sid) = IP_PROTO_IP \<and> sid \<noteq> 0"
proof -
  assume s: "0 < sint sid"
  have "\<not> bit sid 31"
    using s bit_last_iff [of sid] by auto
  then have "bit (NOT sid) 31"
    by (simp add: bit_simps)
  then have "sint (NOT sid) < 0"
    using bit_last_iff [of "NOT sid"] by auto
  then show ?thesis
    using s by (auto simp: session_of_def proto_of_def)
qed

lemma le_loads:
  "k + 2 \<le> length b \<Longrightarrow> le16 (ld16 k b) = take 2 (drop k b)"
  "k + 4 \<le> length b \<Longrightarrow> le32 (ld32 k b) = take 4 (drop k b)"
proof -
  have t2: "take 2 (drop k b) = [b ! k, b ! (k + 1)]" if "k + 2 \<le> length b"
    using that by (intro nth_equalityI) (auto simp: less_2_cases_iff)
  have t4: "take 4 (drop k b) = [b ! k, b ! (k + 1), b ! (k + 2), b ! (k + 3)]" if "k + 4 \<le> length b"
    using that by (intro nth_equalityI) (auto simp: less_Suc_eq numeral_eq_Suc)
  show "k + 4 \<le> length b \<Longrightarrow> le32 (ld32 k b) = take 4 (drop k b)"
    using t4 by (simp add: le32_def ld32_def be32_rd32_bytes)
  show "le16 (ld16 k b) = take 2 (drop k b)" if "k + 2 \<le> length b"
  proof -
    have "byte_at 0 (word_of y x) = x" "byte_at 1 (word_of y x) = y" for x y
      by (auto intro!: bit_word_eqI simp: bit_byte_at word_of_def bit_simps not_bit_byte)
    then show ?thesis
      using t2 [OF that] by (simp add: le16_def ld16_def)
  qed
qed

lemma posedo_front:
  assumes "12 \<le> length b"
  shows "posedo_bytes (ld32 0 b) (ld16 4 b) (ld32 6 b) (ld16 10 b) @ drop 12 b = b"
proof -
  have "take 4 (drop 0 b) @ take 2 (drop 4 b) @ take 4 (drop 6 b) @ take 2 (drop 10 b) = take 12 b"
    using assms by (simp add: take_add [of 4 8 b, simplified] take_add [of 2 6 "drop 4 b", simplified] take_add [of 4 2 "drop 6 b", simplified])
  then show ?thesis
    using assms append_take_drop_id [of 12 b] by (simp add: posedo_bytes_def le_loads)
qed

lemma widened:
  fixes v :: u16
  shows "(ucast v :: u32) = 0 \<longleftrightarrow> v = 0" "\<not> 65535 < (ucast v :: u32)" "ucast (ucast v :: u32) = v"
proof -
  have u: "unat (ucast v :: u32) = unat v"
    by (rule unat_ucast_u16)
  show "(ucast v :: u32) = 0 \<longleftrightarrow> v = 0"
    unfolding word_unat_eq_iff u by simp
  show "\<not> 65535 < (ucast v :: u32)"
    using unat_u16_less [of v] unfolding word_less_nat_alt u by simp
  show "ucast (ucast v :: u32) = v"
    by (rule bit_word_eqI) (simp add: bit_simps)
qed

lemma udp_call:
  assumes "simd_ok simd" "0 < sint sid" "tables_sync sid prot trsp prot' trsp'" "call_ok r" "r = UdpCall mask_id source_ip source_port destination_ip destination_port x"
  obtains e P T out P' T' where "tables_sync sid P T P' T'" "pack_call simd cfg sid prot trsp r = (Some e, P, T)"
    "UnpackBy simd cfg prot' trsp' e = (out, P', T')" "map_option (contents verify flash ttl) out = expected_contents flash ttl sid r"
proof -
  note s = session_of_sid [OF assms(2)]
  let ?w = "wire_packet sid source_ip source_port destination_ip destination_port x"
  have x: "x \<noteq> []" "length x < 2 ^ 31 - 23" "mask_id \<noteq> 0"
    using assms(4,5) by simp_all
  obtain e P T P' T' where e: "tables_sync sid P T P' T'"
    "PackBy simd cfg prot trsp mask_id sid sid source_ip source_port destination_ip destination_port x = (Some e, P, T)"
    "UnpackBy simd cfg prot' trsp' e = (let_through ?w, P', T')"
    by (rule PackBy_UnpackBy [OF assms(1) x(3,1,2), of sid sid prot trsp prot' trsp' cfg source_ip source_port destination_ip destination_port])
       (use s assms(3) that in auto)
  have p: "pack_call simd cfg sid prot trsp r = (Some e, P, T)"
    using e(2) assms(2,4) by (simp add: assms(5) Pack_udp_def)
  have n: "(of_int p :: u16) \<noteq> 0" if "1 \<le> p" "p \<le> 65535" for p
  proof -
    have "uint (of_int p :: u16) = p"
      using that by (simp add: unsigned_of_int take_bit_int_eq_self)
    then show ?thesis
      using that(1) by auto
  qed
  have "udp_endpoints ?w \<longleftrightarrow> \<not> (source_ip = 0 \<or> source_ip = 0xFFFFFFFF)"
    using assms(4) n by (auto simp: assms(5) udp_endpoints_def wire_packet_def widened)
  then have "map_option (contents verify flash ttl) (let_through ?w) = expected_contents flash ttl sid r"
    using s by (simp add: assms(5) let_through_def contents_def GetUdpPacket_def GetIPPacket_def) (simp add: wire_packet_def IP_PROTO_UDP_def IP_PROTO_IP_def widened)
  with e(1) p e(3) show thesis
    by (rule that)
qed

lemma ip_call:
  assumes "simd_ok simd" "0 < sint sid" "tables_sync sid prot trsp prot' trsp'" "call_ok r" "r = IpCall mask_id f"
  obtains e P T out P' T' where "tables_sync sid P T P' T'" "pack_call simd cfg sid prot trsp r = (Some e, P, T)"
    "UnpackBy simd cfg prot' trsp' e = (out, P', T')" "map_option (contents verify flash ttl) out = expected_contents flash ttl sid r"
proof -
  note s = session_of_sid [OF assms(2)]
  let ?b = "ToArray f"
  let ?w = "wire_packet (NOT sid) (ld32 0 ?b) (uint (ld16 4 ?b)) (ld32 6 ?b) (uint (ld16 10 ?b)) (drop 12 ?b)"
  have f: "frame_ok f" "mask_id \<noteq> 0"
    using assms(4,5) by simp_all
  then have l: "20 \<le> length ?b" "length ?b \<le> 65535"
    by (simp_all add: length_ToArray frame_ok_def) (simp add: SizeOf_def IP_HLEN_def)
  then have x: "drop 12 ?b \<noteq> []" "length (drop 12 ?b) < 2 ^ 31 - 23"
    by simp_all
  obtain e P T P' T' where e: "tables_sync sid P T P' T'"
    "PackBy simd cfg prot trsp mask_id sid (NOT sid) (ld32 0 ?b) (uint (ld16 4 ?b)) (ld32 6 ?b) (uint (ld16 10 ?b)) (drop 12 ?b) = (Some e, P, T)"
    "UnpackBy simd cfg prot' trsp' e = (let_through ?w, P', T')"
    by (rule PackBy_UnpackBy [OF assms(1) f(2) x, of sid "NOT sid" prot trsp prot' trsp' cfg "ld32 0 ?b" "uint (ld16 4 ?b)" "ld32 6 ?b" "uint (ld16 10 ?b)"])
       (use s assms(3) that in auto)
  have p: "pack_call simd cfg sid prot trsp r = (Some e, P, T)"
    using e(2) assms(2) f(1) by (auto simp: assms(5) Pack_ip_def frame_ok_def)
  have "GetIPPacket verify flash ?w = Some (received flash f)"
    using posedo_front [of ?b] l IPFrame_Parse_ToArray [OF f(1)] s by (simp add: GetIPPacket_def wire_packet_def widened)
  then have "map_option (contents verify flash ttl) (let_through ?w) = expected_contents flash ttl sid r"
    using s by (simp add: assms(5) let_through_def contents_def GetUdpPacket_def wire_packet_def IP_PROTO_UDP_def IP_PROTO_IP_def)
  with e(1) p e(3) show thesis
    by (rule that)
qed

section \<open>Ciphers without state\<close>

text \<open>Every cipher of the table is one of OpenSSL or of the processor, which start anew for every call.\<close>

definition table_stateless :: "cipher_table \<Rightarrow> bool" where
  "table_stateless tab \<longleftrightarrow> (\<forall>s c. tab s = Some c \<longrightarrow> ct_evp c \<noteq> None)"

lemma evp_unchanged:
  "ct_evp c \<noteq> None \<Longrightarrow> snd (Ciphertext_Encrypt data c) = c" "ct_evp c \<noteq> None \<Longrightarrow> snd (Ciphertext_Decrypt data c) = c"
  by (auto simp: Ciphertext_Encrypt_def Ciphertext_Decrypt_def ct_call_def)

lemma STATIC_Unpack_unchanged: "ct_evp c \<noteq> None \<Longrightarrow> snd (STATIC_Unpack (Some c) h proto sid) = Some c"
  using evp_unchanged(2) [of c "drop HEADER_SIZE h"]
  by (cases "Ciphertext_Decrypt (drop HEADER_SIZE h) c") (auto simp: STATIC_Unpack_def Let_def split: option.split)

lemma UnpackBy_session_unchanged:
  assumes "table_stateless prot" "table_stateless trsp"
  shows "snd (UnpackBy_session cfg prot trsp kf n h proto sid) = (prot, trsp)"
proof (cases "prot sid = None \<or> trsp sid = None")
  case True
  then show ?thesis
    by (auto simp: UnpackBy_session_def split: option.split)
next
  case False
  then obtain a b where ab: "prot sid = Some a" "trsp sid = Some b"
    by auto
  then have e: "ct_evp a \<noteq> None" "ct_evp b \<noteq> None"
    using assms by (auto simp: table_stateless_def)
  obtain body where d: "Ciphertext_Decrypt (take 14 (drop 9 h)) a = (body, a)"
    using evp_unchanged(2) [OF e(1), of "take 14 (drop 9 h)"] by (metis prod.collapse)
  have "prot(sid := Some a) = prot" "trsp(sid := Some b) = trsp"
    using ab by auto
  moreover have "\<exists>out. STATIC_Unpack (Some b) g proto sid = (out, Some b)" for g
    using STATIC_Unpack_unchanged [OF e(2), of g proto sid] by (metis prod.collapse)
  ultimately show ?thesis
    by (auto simp: UnpackBy_session_def ab d HEADER_SIZE_def CHECKSUM_OFFSET_def Let_def split: option.split prod.split)
       (metis Pair_inject option.inject)+
qed

lemma UnpackBy_unchanged: "table_stateless prot \<Longrightarrow> table_stateless trsp \<Longrightarrow> snd (UnpackBy simd cfg prot trsp e) = (prot, trsp)"
  by (simp add: UnpackBy_def UnpackBy_opened_def UnpackBy_session_unchanged Let_def split: option.split)

lemma STATIC_Pack_unchanged: "ct_evp c \<noteq> None \<Longrightarrow> snd (STATIC_Pack simd cfg (Some c) h x) = Some c"
proof -
  assume c: "ct_evp c \<noteq> None"
  have "snd (close_header cfg kf (Some c) m) = Some c" for kf m
    using evp_unchanged(1) [OF c, of "take (HEADER_SIZE - CHECKSUM_OFFSET) (drop CHECKSUM_OFFSET m)"]
    by (auto simp: close_header_def Let_def split: option.split prod.split)
  then show ?thesis
    by (auto simp: STATIC_Pack_def Let_def split: option.split prod.split) (metis snd_conv)+
qed

lemma PackBy_unchanged:
  assumes "table_stateless prot" "table_stateless trsp"
  shows "snd (PackBy simd cfg prot trsp mask_id sid w source_ip source_port destination_ip destination_port x) = (prot, trsp)"
proof (cases "prot sid = None \<or> trsp sid = None")
  case True
  then show ?thesis
    by (auto simp: PackBy_def Let_def split: option.split)
next
  case False
  then obtain a b where ab: "prot sid = Some a" "trsp sid = Some b"
    by auto
  then have e: "ct_evp a \<noteq> None" "ct_evp b \<noteq> None"
    using assms by (auto simp: table_stateless_def)
  obtain p where p: "Ciphertext_Encrypt x b = (p, b)"
    using evp_unchanged(1) [OF e(2), of x] by (metis prod.collapse)
  have "prot(sid := Some a) = prot" "trsp(sid := Some b) = trsp"
    using ab by auto
  moreover have "\<exists>out. STATIC_Pack simd cfg (Some a) h y = (out, Some a)" for h y
    using STATIC_Pack_unchanged [OF e(1), of simd cfg h y] by (metis prod.collapse)
  ultimately show ?thesis
    by (auto simp: PackBy_def ab p Let_def split: option.split prod.split) (metis Pair_inject)+
qed

lemma pack_call_unchanged: "table_stateless prot \<Longrightarrow> table_stateless trsp \<Longrightarrow> snd (pack_call simd cfg sid prot trsp r) = (prot, trsp)"
  by (cases r) (simp_all add: Pack_udp_def Pack_ip_def PackBy_unchanged Let_def)

section \<open>Sequences of datagrams\<close>

lemma call_delivered:
  assumes "simd_ok simd" "0 < sint sid" "tables_sync sid prot trsp prot' trsp'" "call_ok r"
  obtains e P T out P' T' where "tables_sync sid P T P' T'" "pack_call simd cfg sid prot trsp r = (Some e, P, T)"
    "UnpackBy simd cfg prot' trsp' e = (out, P', T')" "map_option (contents verify flash ttl) out = expected_contents flash ttl sid r"
proof (cases r)
  case (UdpCall mask_id source_ip source_port destination_ip destination_port x)
  from udp_call [OF assms this, where cfg = cfg and ttl = ttl] that show thesis .
next
  case (IpCall mask_id f)
  from ip_call [OF assms this, where cfg = cfg and ttl = ttl] that show thesis .
qed

fun pack_all :: "ssea_simd \<Rightarrow> key_config \<Rightarrow> u32 \<Rightarrow> cipher_table \<Rightarrow> cipher_table \<Rightarrow> static_call list \<Rightarrow> bytes option list" where
  "pack_all simd cfg sid prot trsp [] = []"
| "pack_all simd cfg sid prot trsp (r # rs) =
     (let (e, prot, trsp) = pack_call simd cfg sid prot trsp r in e # pack_all simd cfg sid prot trsp rs)"

fun unpack_all :: "ssea_simd \<Rightarrow> key_config \<Rightarrow> cipher_table \<Rightarrow> cipher_table \<Rightarrow> bytes list \<Rightarrow> VirtualEthernetPacket option list" where
  "unpack_all simd cfg prot trsp [] = []"
| "unpack_all simd cfg prot trsp (e # es) =
     (let (out, prot, trsp) = UnpackBy simd cfg prot trsp e in out # unpack_all simd cfg prot trsp es)"

lemma all_delivered:
  assumes "simd_ok simd" "0 < sint sid" "tables_sync sid prot trsp prot' trsp'" "list_all call_ok rs"
  shows "\<exists>es. pack_all simd cfg sid prot trsp rs = map Some es \<and>
    map (map_option (contents verify flash ttl)) (unpack_all simd cfg prot' trsp' es) = map (expected_contents flash ttl sid) rs"
  using assms(3,4)
proof (induction rs arbitrary: prot trsp prot' trsp')
  case (Cons r rs)
  then have r: "call_ok r" "list_all call_ok rs"
    by simp_all
  obtain e P T out P' T' where e: "tables_sync sid P T P' T'" "pack_call simd cfg sid prot trsp r = (Some e, P, T)"
    "UnpackBy simd cfg prot' trsp' e = (out, P', T')" "map_option (contents verify flash ttl) out = expected_contents flash ttl sid r"
    by (rule call_delivered [OF assms(1,2) Cons.prems(1) r(1)]) (rule that)
  obtain es where "pack_all simd cfg sid P T rs = map Some es"
    "map (map_option (contents verify flash ttl)) (unpack_all simd cfg P' T' es) = map (expected_contents flash ttl sid) rs"
    using Cons.IH [OF e(1) r(2)] by blast
  then show ?case
    using e(2-4) by (intro exI [of _ "e # es"]) simp
qed simp

text \<open>The tables of two ends that have only this session, with ciphers from the configuration and the numbers of the session.\<close>

definition session_table :: "u32 \<Rightarrow> Ciphertext option \<Rightarrow> cipher_table" where
  "session_table sid c = (\<lambda>s. if s = sid then c else None)"

lemma session_tables_sync:
  assumes "lib_ok lib" "cipher_config_ok lib cfg" "VirtualEthernetPacket_Ciphertext lib cfg guid fsid sid = (p, t)"
    and "Ciphertext_Support lib (key_protocol cfg)" "Ciphertext_Support lib (key_transport cfg)"
  shows "tables_sync sid (session_table sid p) (session_table sid t) (session_table sid p) (session_table sid t)"
  using assms Ciphertext_new_sync [OF assms(1)]
  by (auto simp: VirtualEthernetPacket_Ciphertext_def Let_def IsHaveCiphertext_def tables_sync_def session_table_def cipher_config_ok_def
      split: if_splits)

section \<open>Properties\<close>


definition sample_calls :: "static_call list" where
  "sample_calls = [UdpCall 5 0x0200000A 53 0x0100000A 4000 [1, 2, 3], IpCall 9 example_frame, UdpCall 6 0 53 0x0100000A 4000 [1]]"

lemma sample_calls_ok: "list_all call_ok sample_calls"
  by (simp add: sample_calls_def frame_ok_def example_frame_def segment_def SizeOf_def IP_HLEN_def IP_PROTO_UDP_def)

lemma sample_support:
  "Ciphertext_Support sample_lib (key_protocol (sample_config ''aes-128-cfb'' kf))"
  "Ciphertext_Support sample_lib (key_transport (sample_config ''aes-128-cfb'' kf))"
  by (simp_all add: Ciphertext_Support_def EVP_Support_def sample_lib_def sample_config_def aes_names_def)



lemma session_table_stateless:
  assumes "EVP_Support lib (key_protocol cfg)" "EVP_Support lib (key_transport cfg)"
    and "VirtualEthernetPacket_Ciphertext lib cfg guid fsid sid = (p, t)"
  shows "table_stateless (session_table sid p)" "table_stateless (session_table sid t)"
  using assms by (auto simp: table_stateless_def session_table_def VirtualEthernetPacket_Ciphertext_def Let_def IsHaveCiphertext_def
      Ciphertext_new_def split: if_splits)


end
