(* ===== verification/Spec2Isabelle.thy ===== *)
theory Spec2Isabelle
  imports Prelude Replay_Window Mux_Retransmit Mux_Reorder Mux_Fec Mux_Flow Mux_Compat Mux_Negotiation Ssea Lease_Pool
    Session_Resume Routing Peer_Routing Ip_Fragment Transmission Handshake_Run Firewall Path_Mtu Static_Packet
begin

text \<open>
  A verification library for openppp2, a virtual Ethernet (VPN) client and server in C++.

  \<^bold>\<open>The program.\<close> A client tunnels the packets of a tap device to a server over one or several carriers.
  A session is authenticated and negotiated (\<^verbatim>\<open>src/ppp/app/protocol/\<close>, \<^verbatim>\<open>src/ppp/app/mux/\<close>), the server leases the
  client a virtual IPv4 address (\<^verbatim>\<open>src/ppp/app/server/IPv4LeasePool.cpp\<close>), packets are routed between clients and
  sites (\<^verbatim>\<open>src/ppp/net/native/rib.cpp\<close>, \<^verbatim>\<open>src/ppp/app/server/VirtualEthernetSwitcher.cpp\<close>), and logical TCP
  connections are multiplexed over the carriers (\<^verbatim>\<open>src/ppp/app/mux/\<close>), with acknowledgement,
  retransmission, forward error correction, fair scheduling and backpressure. A session that loses its carrier
  can be resumed on a new one. Peers that reach each other directly use a datagram channel
  with an anti-replay window (\<^verbatim>\<open>src/ppp/p2p/\<close>). A carrier begins with a handshake that exchanges the session number and new
  keys, then frames and encrypts every message (\<^verbatim>\<open>src/ppp/transmissions/ITransmission.cpp\<close>); payloads may be obfuscated
  (\<^verbatim>\<open>src/ppp/cryptography/\<close>). A firewall drops ports, addresses and domains (\<^verbatim>\<open>src/ppp/net/Firewall.cpp\<close>), and
  the segment sizes of tunnelled TCP connections follow the learned path MTUs.

  \<^bold>\<open>The theories.\<close>
    \<^item> \<open>Prelude\<close>: machine integers, big-endian accessors, counted sequences, and three interfaces:
      \<open>item_codec\<close> (a codec of items gives one of their sequences), \<open>guarded_machine\<close> (an invariant every call
      keeps holds in every reachable state) and \<open>implementation\<close> (a state machine with results follows an
      abstract one). \<open>Text\<close>: the string helpers of \<^verbatim>\<open>src/ppp/stdafx.h\<close> and the parsing of addresses.
    \<^item> \<open>Replay_Window\<close> models \<^verbatim>\<open>P2PReplayWindow\<close>: the 1024-bit circular bitmap simulates the set of accepted
      extended sequence numbers, and no number is accepted twice.
    \<^item> \<open>Mux_Ack\<close>, \<open>Mux_Retransmit\<close>, \<open>Mux_Fec\<close>, \<open>Mux_Reorder\<close> model the reliability layer: the ACK tracker with its
      frame codec, the retransmission buffer, the XOR parity codec and the reorder buffer. They show that
      the tracker covers exactly what was received, that the decoder accepts exactly the encodings, that the
      accounting of the buffer is exact, and that a parity frame restores exactly the missing frame.
    \<^item> \<open>Mux_Flow\<close> models the admission policies, the XON/XOFF protocol and the write accounting of a carrier;
      \<open>Mux_Drr\<close> the deficit round robin of the transmit side, which loses no connection and always makes progress.
    \<^item> \<open>Mux_Receive\<close> models the receive path of \<^verbatim>\<open>vmux_net.cpp\<close> with its stream sockets and carriers, \<open>Mux_Compat\<close>
      the path with one global sequence number. They show in-order delivery without gaps or duplicates, that
      pausing never stops every carrier, and the bounds of the buffered bytes.
    \<^item> \<open>Mux_Negotiation\<close> models the capability handshake and the run-time mode switch of a mux session. It shows that
      both ends agree, and two configurations in which they do not.
    \<^item> \<open>Ssea\<close> models Base94, the delta code, the keyed shuffle and the XOR masks, and shows that they are inverted.
    \<^item> \<open>Rc4\<close>, \<open>Aes\<close>, \<open>Md5\<close> and \<open>Evp\<close> model the ciphers of \<^verbatim>\<open>src/ppp/cryptography/\<close>: RC4, the AES code over
      processor instructions (its key schedules are those of FIPS 197, and it decrypts what it encrypts), the
      MD5 class (it computes RFC 1321 whatever the pieces), and the choice of a cipher by its name with the derivation of its
      key. The \<open>block_cipher\<close> interface separates the modes from the rounds. The ciphers of OpenSSL are parameters.
    \<^item> \<open>Transmission\<close> models the framing of a carrier: the Base94 envelope, the protected lengths and both
      encryption layers. Messages arrive in order and complete, for every cipher that meets the interface, and the writes
      that fail are characterised.
    \<^item> \<open>Int128_Text\<close> models the texts of 128-bit integers; \<open>Handshake\<close> the handshake of a carrier with its dummy packets, packed numbers,
      capability words and flag check; \<open>Handshake_Run\<close> runs both ends against each other: equal configurations
      end with equal sessions and matching ciphers, different obfuscation flags never give the server a session.
    \<^item> \<open>Static_Packet\<close> models the datagrams of the static channel (\<^verbatim>\<open>VirtualEthernetPacket.cpp\<close>): UDP payloads and IP frames are
      opened to what was sent, in order for every cipher and in any order for ciphers without state.
    \<^item> \<open>Firewall\<close> models the rules, their text and the tests: it states exactly which addresses and which
      domain names are blocked.
    \<^item> \<open>Tcp_Mss\<close> models the segment sizes and the clamping of SYN packets, with the checksums of both families; \<open>Path_Mtu\<close>
      the ICMP errors and the caches of path MTUs, and shows how an error lowers the segment size.
    \<^item> \<open>Lease_Pool\<close> models the pool of virtual addresses: leases are exclusive, automatic allocation
      returns the lowest free address, manual requests are granted or reassigned.
    \<^item> \<open>Session_Resume\<close> models the recovery of a session on a new carrier and the establish transaction around it:
      suspension and resumption alternate and every outcome settles the reservation.
    \<^item> \<open>Routing\<close> models the routing and forwarding tables and shows that they implement longest-prefix match;
      \<open>Peer_Routing\<close> models the announced prefixes, the policy and the forwarding between sites. Packets only go to
      owners and allowed gateways, and broadcasting is bounded.
    \<^item> \<open>Checksum\<close>, \<open>Ip_Packet\<close> and \<open>Ip_Fragment\<close> model the packet formats: the SSE2 checksum equals the scalar one,
      frames and datagrams survive serialization, and the fragments of a packet in any order and between any
      other traffic are put together again exactly once.

  \<^bold>\<open>Conventions.\<close> A class or struct is a record with the source's fields, an enumeration a datatype, an
  integer a word of its width where it can wrap. Operations pass the state explicitly and return
  their result with it; failures are options or result values. A hash map is a partial function, or an
  association list where it is walked or counted; the order of a walk over a hash map is an argument. Clocks and random numbers are
  arguments. A call under a lock is one atomic step, and concurrency is an arbitrary sequence of such steps. Allocation succeeds.
  Example values named \<open>example_...\<close> are only used by the theorems that end in \<open>_witness\<close>.

  \<^bold>\<open>Termination and fuel.\<close> Loops are total functions with termination proofs, except two kinds. The
  scheduler loop of \<open>Mux_Drr\<close> carries the iteration bound the code itself has, and its theorem shows that the
  bound is enough. The handshake reads until the bytes that arrive are used up,
  each packet consuming some. The fragment loop of \<open>Ip_Fragment\<close> is a partial function, since the C++ loop does not end
  when the options leave no room for payload; it is shown to return for every frame that may be sent.

  \<^bold>\<open>Not modelled.\<close> Sockets, TLS, WebSocket and HTTP carriers, coroutines, timers and the tap drivers are
  I/O; the timeouts of the handshake are therefore left out. OpenSSL with its ciphers and hashes, the Noise key agreement built on it, and lwIP are libraries; the switchers and exchangers are modelled only where they decide
  something (addresses, routes, recovery, mux). Also left out are the configuration, the console, telemetry, DNS,
  the proxies, NAT traversal, platform code and the Go management service: they
  consist of I/O or calls into code that is not part of the sources. The SIMD variants of \<^verbatim>\<open>ssea\<close> are left
  out because they rest on vector instructions of four architectures; the scalar routines they must equal are modelled.
\<close>

end
